(* ===== verification/Prelude.thy ===== *)
theory Prelude
  imports Complex_Main "HOL-Library.Multiset"
begin

text \<open>
  Shared vocabulary of the development: the fact collections the component theories feed and
  use, results of fallible Python code as sums, the left-to-right scan that several selection
  loops of the program share (keep a current best, replace it when a candidate is strictly
  better), and the generic invariant argument for components that are driven by a sequence of
  method calls.
\<close>

named_theorems py_simps \<open>unfolding facts for the Python value, text and number model\<close>
named_theorems num_simps \<open>facts about double rounding and the tenths grid\<close>
named_theorems step_simps \<open>the branches of state-changing operations\<close>

section \<open>Results of code that may raise\<close>

text \<open>\<open>Inl e\<close>: the exception \<open>e\<close> was raised; \<open>Inr v\<close>: the call returned \<open>v\<close>.\<close>

type_synonym ('e, 'a) result = "'e + 'a"

abbreviation raises :: "'e \<Rightarrow> ('e, 'a) result" where
  "raises e \<equiv> Inl e"

abbreviation returns :: "'a \<Rightarrow> ('e, 'a) result" where
  "returns v \<equiv> Inr v"

fun bind_result :: "('e, 'a) result \<Rightarrow> ('a \<Rightarrow> ('e, 'b) result) \<Rightarrow> ('e, 'b) result" where
  "bind_result (Inl e) f = Inl e"
| "bind_result (Inr v) f = f v"

lemma bind_result_eq_Inr [simp]:
  "bind_result m f = Inr b \<longleftrightarrow> (\<exists>a. m = Inr a \<and> f a = Inr b)"
  by (cases m) auto

lemma bind_result_assoc:
  "bind_result (bind_result m f) g = bind_result m (\<lambda>a. bind_result (f a) g)"
  by (cases m) auto

text \<open>A loop over a list that stops at the first exception.\<close>

fun fold_result :: "('a \<Rightarrow> 's \<Rightarrow> ('e, 's) result) \<Rightarrow> 'a list \<Rightarrow> 's \<Rightarrow> ('e, 's) result" where
  "fold_result f [] s = Inr s"
| "fold_result f (x # xs) s = bind_result (f x s) (fold_result f xs)"

lemma fold_result_append:
  "fold_result f (xs @ ys) s = bind_result (fold_result f xs s) (fold_result f ys)"
proof (induction xs arbitrary: s)
  case (Cons x xs)
  show ?case by (cases "f x s") (simp_all add: Cons.IH)
qed simp

lemma fold_result_invariant:
  assumes "fold_result f xs s = Inr t" "P s"
    and "\<And>x s t. x \<in> set xs \<Longrightarrow> P s \<Longrightarrow> f x s = Inr t \<Longrightarrow> P t"
  shows "P t"
  using assms
proof (induction xs arbitrary: s)
  case Nil
  then show ?case by simp
next
  case (Cons x xs)
  from Cons.prems(1) obtain u where u: "f x s = Inr u" "fold_result f xs u = Inr t"
    by auto
  have "P u" using Cons.prems(2,3) u(1) by auto
  with Cons.IH [OF u(2)] Cons.prems(3) show ?case by auto
qed

section \<open>The running best of a left-to-right scan\<close>

text \<open>
  \<open>scan_best better xs b\<close> is the loop
  \<^verbatim>\<open>for x in xs: if best is None or better(x, best): best = x\<close>
  started with \<open>best = b\<close>.
\<close>

fun scan_best :: "('a \<Rightarrow> 'a \<Rightarrow> bool) \<Rightarrow> 'a list \<Rightarrow> 'a option \<Rightarrow> 'a option" where
  "scan_best better [] b = b"
| "scan_best better (x # xs) b =
     scan_best better xs (case b of None \<Rightarrow> Some x | Some y \<Rightarrow> if better x y then Some x else b)"

locale strict_preference =
  fixes better :: "'a \<Rightarrow> 'a \<Rightarrow> bool"
  assumes better_irrefl: "\<not> better x x"
    and better_trans: "better x y \<Longrightarrow> better y z \<Longrightarrow> better x z"
    and better_negtrans: "better x z \<Longrightarrow> better x y \<or> better y z"
begin

lemma scan_some:
  "\<exists>m. scan_best better xs (Some b) = Some m \<and> (m = b \<or> m \<in> set xs) \<and>
       \<not> better b m \<and> (\<forall>x \<in> set xs. \<not> better x m)"
proof (induction xs arbitrary: b)
  case Nil
  then show ?case by (simp add: better_irrefl)
next
  case (Cons x xs)
  show ?case
  proof (cases "better x b")
    case True
    from Cons.IH [of x] obtain m where
      m: "scan_best better xs (Some x) = Some m" "m = x \<or> m \<in> set xs" "\<not> better x m"
         "\<forall>x \<in> set xs. \<not> better x m" by auto
    have "\<not> better b m" using m(3) True better_trans by blast
    with m True show ?thesis by auto
  next
    case False
    from Cons.IH [of b] obtain m where
      m: "scan_best better xs (Some b) = Some m" "m = b \<or> m \<in> set xs" "\<not> better b m"
         "\<forall>x \<in> set xs. \<not> better x m" by auto
    have "\<not> better x m" using m(3) False better_negtrans by blast
    with m False show ?thesis by auto
  qed
qed

lemma scan_best_Some:
  assumes "scan_best better xs None = Some m"
  shows "m \<in> set xs" "x \<in> set xs \<Longrightarrow> \<not> better x m"
proof -
  from assms obtain y ys where xs: "xs = y # ys" by (cases xs) auto
  with assms have "scan_best better ys (Some y) = Some m" by simp
  with scan_some [of ys y] xs show "m \<in> set xs" "x \<in> set xs \<Longrightarrow> \<not> better x m" by auto
qed

lemma scan_best_None_iff: "scan_best better xs None = None \<longleftrightarrow> xs = []"
proof (cases xs)
  case (Cons y ys)
  with scan_some [of ys y] show ?thesis by auto
qed simp

text \<open>
  When the preference separates the distinct elements, the result does not depend on the order
  in which the candidates are visited.
\<close>

lemma scan_best_order_independent:
  assumes "set xs = set ys"
    and total: "\<And>x y. x \<in> set xs \<Longrightarrow> y \<in> set xs \<Longrightarrow> x \<noteq> y \<Longrightarrow> better x y \<or> better y x"
  shows "scan_best better xs None = scan_best better ys None"
proof (cases "scan_best better xs None")
  case None
  with assms(1) have "xs = []" "ys = []" by (auto simp: scan_best_None_iff)
  then show ?thesis by simp
next
  case (Some m)
  then have "xs \<noteq> []" by auto
  with assms(1) have "ys \<noteq> []" by auto
  then obtain n where n: "scan_best better ys None = Some n"
    using scan_best_None_iff by blast
  from scan_best_Some [OF Some] scan_best_Some [OF n] assms(1)
  have "m \<in> set xs" "n \<in> set xs" "\<not> better n m" "\<not> better m n" by auto
  with total have "m = n" by blast
  with Some n show ?thesis by simp
qed

end

text \<open>Two preferences the program uses: the smaller key, and the larger score with ties to
  the smaller key.\<close>

definition lower_key :: "('a \<Rightarrow> 'k::linorder) \<Rightarrow> 'a \<Rightarrow> 'a \<Rightarrow> bool" where
  "lower_key key x y \<longleftrightarrow> key x < key y"

definition higher_score :: "('a \<Rightarrow> 's::linorder) \<Rightarrow> ('a \<Rightarrow> 'k::linorder) \<Rightarrow> 'a \<Rightarrow> 'a \<Rightarrow> bool" where
  "higher_score score key x y \<longleftrightarrow>
     score y < score x \<or> (score x = score y \<and> key x < key y)"

interpretation low: strict_preference "lower_key key" for key :: "'a \<Rightarrow> 'k::linorder"
  by unfold_locales (auto simp: lower_key_def)

interpretation high: strict_preference "higher_score score key"
  for score :: "'a \<Rightarrow> 's::linorder" and key :: "'a \<Rightarrow> 'k::linorder"
  by unfold_locales (auto simp: higher_score_def)

section \<open>Components driven by a sequence of calls\<close>

text \<open>
  A component whose methods change its state and answer, an exception being one of the answers:
  what a call did before it raised stays done. \<open>call\<close> is one method call; the laws say that the
  constructor establishes the invariant and that no call breaks it, and the lemma inside lifts that
  to every state the component can be driven into, whatever its callers catch.
\<close>

fun run_calls :: "('c \<Rightarrow> 's \<Rightarrow> 'o \<times> 's) \<Rightarrow> 'c list \<Rightarrow> 's \<Rightarrow> 's" where
  "run_calls call [] s = s"
| "run_calls call (c # cs) s = run_calls call cs (snd (call c s))"

lemma run_calls_append: "run_calls call (cs @ ds) s = run_calls call ds (run_calls call cs s)"
  by (induction cs arbitrary: s) simp_all

locale call_machine =
  fixes call :: "'c \<Rightarrow> 's \<Rightarrow> 'o \<times> 's"
    and start :: "'s \<Rightarrow> bool"
    and inv :: "'s \<Rightarrow> bool"
  assumes start_inv: "start s \<Longrightarrow> inv s"
    and call_inv: "inv s \<Longrightarrow> inv (snd (call c s))"
begin

lemma run_inv: "start s \<Longrightarrow> inv (run_calls call cs s)"
proof -
  have "inv s \<Longrightarrow> inv (run_calls call cs s)" for s by (induction cs arbitrary: s) (auto intro: call_inv)
  then show "start s \<Longrightarrow> inv (run_calls call cs s)" using start_inv by blast
qed

end

section \<open>Lists\<close>

lemma sorted_wrt_nth_less_iff:
  "sorted_wrt P xs \<longleftrightarrow> (\<forall>i j. i < j \<longrightarrow> j < length xs \<longrightarrow> P (xs ! i) (xs ! j))"
  by (simp add: sorted_wrt_iff_nth_less)

lemma filter_mset_eq_length:
  "mset xs = mset ys \<Longrightarrow> length (filter P xs) = length (filter P ys)"
  by (metis mset_filter size_mset)

section \<open>Dictionaries in insertion order\<close>

fun dict_put :: "'k \<Rightarrow> 'v \<Rightarrow> ('k \<times> 'v) list \<Rightarrow> ('k \<times> 'v) list" where
  "dict_put k v [] = [(k, v)]"
| "dict_put k v ((k', v') # d) = (if k = k' then (k, v) # d else (k', v') # dict_put k v d)"

definition dict_update :: "('k \<times> 'v) list \<Rightarrow> ('k \<times> 'v) list \<Rightarrow> ('k \<times> 'v) list" where
  "dict_update d e = fold (\<lambda>(k, v). dict_put k v) e d"

lemma map_of_dict_put [simp]: "map_of (dict_put k v d) = (map_of d)(k \<mapsto> v)"
  by (induction d) auto

lemma dict_put_keys: "fst ` set (dict_put k v d) = insert k (fst ` set d)"
proof (induction d)
  case (Cons p d)
  then show ?case by (cases p) (simp add: insert_commute)
qed simp

lemma distinct_dict_put: "distinct (map fst d) \<Longrightarrow> distinct (map fst (dict_put k v d))"
proof (induction d)
  case (Cons p d)
  then show ?case by (cases p) (auto simp: dict_put_keys)
qed simp

lemma dict_put_not_Nil [simp]: "dict_put k v d \<noteq> []"
  by (cases d) (auto split: if_splits)

lemma distinct_dict_update: "distinct (map fst d) \<Longrightarrow> distinct (map fst (dict_update d e))"
  unfolding dict_update_def by (induction e arbitrary: d) (auto simp: distinct_dict_put)

lemma map_of_dict_update: "distinct (map fst e) \<Longrightarrow> map_of (dict_update d e) k =
    (case map_of e k of Some v \<Rightarrow> Some v | None \<Rightarrow> map_of d k)"
  unfolding dict_update_def
proof (induction e arbitrary: d)
  case (Cons p e)
  then show ?case by (cases p) (auto split: option.splits simp: image_iff dest: map_of_SomeD)
qed simp

lemma set_dict_put: "set (dict_put k v d) \<subseteq> insert (k, v) (set d)"
  by (induction d) (auto split: if_splits)

end
