(* ===== verification/PyFloat.thy ===== *)
theory PyFloat
  imports Prelude "HOL-Library.Log_Nat"
begin

text \<open>
  Python's \<open>float\<close>: IEEE 754 binary64 with round-half-even. A finite double is the rational
  number it denotes; every arithmetic operation of the source is the exact rational operation
  followed by \<open>fl\<close>, which rounds to the nearest double (ties to the even significand,
  gradual underflow below \<open>2 powi (-1022)\<close>). The two zeros are one rational: no function
  modelled here tells them apart.
\<close>

section \<open>Rounding\<close>

text \<open>Python's \<open>round(x)\<close> on a finite float: the nearest integer, ties to even.\<close>

definition round_half_even :: "rat \<Rightarrow> int" where
  "round_half_even x =
     (let n = \<lfloor>x\<rfloor>; r = x - of_int n in
      if r < 1/2 then n else if r > 1/2 then n + 1 else if even n then n else n + 1)"

text \<open>The binary exponent of a positive rational: \<open>2 powi binexp x \<le> x < 2 powi (binexp x + 1)\<close>.\<close>

definition binexp :: "rat \<Rightarrow> int" where
  "binexp x = (if 1 \<le> x then bitlen \<lfloor>x\<rfloor> - 1 else - bitlen (\<lceil>1 / x\<rceil> - 1))"

definition ulp_exp :: "rat \<Rightarrow> int" where
  "ulp_exp x = max (binexp \<bar>x\<bar> - 52) (- 1074)"

definition ulp :: "rat \<Rightarrow> rat" where
  "ulp x = 2 powi ulp_exp x"

definition fl :: "rat \<Rightarrow> rat" where
  "fl x = (if x = 0 then 0 else of_int (round_half_even (x / ulp x)) * ulp x)"

lemma round_half_even_int [simp, num_simps]: "round_half_even (of_int n) = n"
  by (simp add: round_half_even_def)

lemma round_half_even_bounds:
  "\<bar>of_int (round_half_even x) - x\<bar> \<le> 1/2"
  using floor_correct [of x] by (simp add: round_half_even_def Let_def abs_le_iff)

lemma round_half_even_eqI:
  assumes "\<bar>x - of_int n\<bar> < 1/2 \<or> (\<bar>x - of_int n\<bar> = 1/2 \<and> even n)"
  shows "round_half_even x = n"
proof -
  consider (lt) "x < of_int n" "of_int n - x \<le> 1/2" | (ge) "of_int n \<le> x" "x - of_int n \<le> 1/2"
    using assms by linarith
  then show ?thesis
  proof cases
    case lt
    then have f: "\<lfloor>x\<rfloor> = n - 1" by linarith
    with lt assms show ?thesis by (auto simp: round_half_even_def Let_def)
  next
    case ge
    then have f: "\<lfloor>x\<rfloor> = n" by linarith
    with ge assms show ?thesis by (auto simp: round_half_even_def Let_def)
  qed
qed

lemma round_half_even_tie:
  "\<bar>x - of_int (round_half_even x)\<bar> < 1/2 \<or>
   (\<bar>x - of_int (round_half_even x)\<bar> = 1/2 \<and> even (round_half_even x))"
proof -
  define n where "n = \<lfloor>x\<rfloor>"
  have "of_int n \<le> x" "x < of_int n + 1" unfolding n_def by linarith+
  then show ?thesis
    by (auto simp: round_half_even_def Let_def abs_if simp flip: n_def)
qed

lemma round_half_even_minus: "round_half_even (- x) = - round_half_even x"
  using round_half_even_tie [of x] by (intro round_half_even_eqI) (auto simp: abs_if split: if_splits)

lemma round_half_even_mono: "x \<le> y \<Longrightarrow> round_half_even x \<le> round_half_even y"
proof (rule ccontr)
  assume xy: "x \<le> y" and "\<not> round_half_even x \<le> round_half_even y"
  then have lt: "round_half_even y + 1 \<le> round_half_even x" by simp
  then have lt': "of_int (round_half_even y) + 1 \<le> (of_int (round_half_even x) :: rat)"
    by (metis of_int_1 of_int_add of_int_le_iff)
  with xy round_half_even_tie [of x] round_half_even_tie [of y]
  have "x = y" by (auto simp: abs_if split: if_splits)
  with lt show False by simp
qed

lemma binexp_bounds:
  assumes "0 < x"
  shows "2 powi binexp x \<le> x" "x < 2 powi (binexp x + 1)"
proof -
  have *: "2 powi binexp x \<le> x \<and> x < 2 powi (binexp x + 1)"
  proof (cases "1 \<le> x")
    case True
    define n where "n = \<lfloor>x\<rfloor>"
    have n: "1 \<le> n" using True by (simp add: n_def)
    then have b: "2 ^ nat (bitlen n - 1) \<le> n" "n < 2 ^ nat (bitlen n)" "1 \<le> bitlen n"
      using bitlen_bounds [of n] bitlen_ge_iff_power [of 1 n] by auto
    have "(2::rat) ^ nat (bitlen n - 1) \<le> of_int n"
      using b(1) by (metis of_int_le_iff of_int_numeral of_int_power)
    moreover have "of_int n + 1 \<le> (2::rat) ^ nat (bitlen n)"
    proof -
      have "n + 1 \<le> 2 ^ nat (bitlen n)" using b(2) by simp
      then have "of_int (n + 1) \<le> (of_int (2 ^ nat (bitlen n)) :: rat)" by (simp only: of_int_le_iff)
      then show ?thesis by simp
    qed
    moreover have "of_int n \<le> x" "x < of_int n + 1" unfolding n_def by linarith+
    ultimately have "(2::rat) ^ nat (bitlen n - 1) \<le> x" "x < 2 ^ nat (bitlen n)" by linarith+
    with b(3) True show ?thesis
      by (simp add: binexp_def n_def [symmetric] power_int_nonneg_exp)
  next
    case False
    define c where "c = \<lceil>1 / x\<rceil> - 1"
    have y: "1 < 1 / x" using False assms by simp
    then have c: "1 \<le> c" unfolding c_def by linarith
    then have b: "2 ^ nat (bitlen c - 1) \<le> c" "c < 2 ^ nat (bitlen c)" "1 \<le> bitlen c"
      using bitlen_bounds [of c] bitlen_ge_iff_power [of 1 c] by auto
    have "(2::rat) ^ nat (bitlen c - 1) \<le> of_int c"
      using b(1) by (metis of_int_le_iff of_int_numeral of_int_power)
    moreover have "of_int c < 1 / x" unfolding c_def by linarith
    ultimately have 1: "2 ^ nat (bitlen c - 1) < 1 / x" by linarith
    have "c + 1 \<le> 2 ^ nat (bitlen c)" using b(2) by simp
    then have "of_int (c + 1) \<le> (of_int (2 ^ nat (bitlen c)) :: rat)" by (simp only: of_int_le_iff)
    moreover have "1 / x \<le> of_int (c + 1)" unfolding c_def by (simp add: le_of_int_ceiling)
    ultimately have 2: "1 / x \<le> 2 ^ nat (bitlen c)" by simp
    have e: "2 powi (- bitlen c) = 1 / (2::rat) ^ nat (bitlen c)"
      using b(3) by (simp add: power_int_minus_divide power_int_nonneg_exp)
    have e': "2 powi (1 - bitlen c) = 1 / (2::rat) ^ nat (bitlen c - 1)"
      using b(3) power_int_minus_divide [of "2::rat" "bitlen c - 1"]
      by (simp add: power_int_nonneg_exp)
    from 1 2 assms show ?thesis
      by (simp add: binexp_def False c_def [symmetric] e e' divide_simps mult.commute)
  qed
  then show "2 powi binexp x \<le> x" "x < 2 powi (binexp x + 1)" by simp_all
qed

lemma two_powi_less_iff [simp]: "(2::rat) powi a < 2 powi b \<longleftrightarrow> a < b"
  by (metis linorder_not_less one_less_numeral_iff power_int_increasing
      power_int_strict_increasing semiring_norm(76) order_less_imp_le)

lemma two_powi_le_iff [simp]: "(2::rat) powi a \<le> 2 powi b \<longleftrightarrow> a \<le> b"
  by (meson linorder_not_less two_powi_less_iff)

lemma binexp_eqI:
  assumes "2 powi e \<le> x" "x < 2 powi (e + 1)"
  shows "binexp x = e"
proof -
  have pos: "0 < x" using less_le_trans [OF _ assms(1), of 0] by simp
  from binexp_bounds [OF pos] assms
  have "(2::rat) powi binexp x < 2 powi (e + 1)" "(2::rat) powi e < 2 powi (binexp x + 1)"
    by linarith+
  then show ?thesis by simp
qed

lemma binexp_mono: "0 < x \<Longrightarrow> x \<le> y \<Longrightarrow> binexp x \<le> binexp y"
proof -
  assume "0 < x" "x \<le> y"
  with binexp_bounds(1) [of x] binexp_bounds(2) [of y]
  have "(2::rat) powi binexp x < 2 powi (binexp y + 1)" by linarith
  then show ?thesis by simp
qed

lemma ulp_pos [simp]: "0 < ulp x"
  by (simp add: ulp_def)

lemma ulp_nonzero [simp]: "ulp x \<noteq> 0"
  by (simp add: ulp_def)

lemma ulp_minus [simp]: "ulp (- x) = ulp x"
  by (simp add: ulp_def ulp_exp_def)

lemma fl_zero [simp, num_simps]: "fl 0 = 0"
  by (simp add: fl_def)

lemma fl_minus [num_simps]: "fl (- x) = - fl x"
  by (simp add: fl_def round_half_even_minus)

lemma fl_error: "\<bar>fl x - x\<bar> \<le> ulp x / 2"
proof (cases "x = 0")
  case False
  have "fl x - x = (of_int (round_half_even (x / ulp x)) - x / ulp x) * ulp x"
    by (simp add: fl_def False left_diff_distrib)
  then have "\<bar>fl x - x\<bar> = \<bar>of_int (round_half_even (x / ulp x)) - x / ulp x\<bar> * ulp x"
    by (simp add: abs_mult less_imp_le)
  also have "\<dots> \<le> 1/2 * ulp x"
    by (rule mult_right_mono [OF round_half_even_bounds]) (simp add: less_imp_le)
  finally show ?thesis by simp
qed (simp add: less_imp_le)

text \<open>Where the value is at least \<open>2 powi (-1022)\<close> the significand has 53 bits.\<close>

lemma ulp_normal: "2 powi (- 1022) \<le> x \<Longrightarrow> ulp x = 2 powi (binexp x - 52)"
proof -
  assume x: "2 powi (- 1022) \<le> x"
  have "binexp (2 powi (- 1022)) = - 1022" by (rule binexp_eqI) (simp_all del: power_int_minus)
  moreover have "binexp (2 powi (- 1022)) \<le> binexp x" using x by (intro binexp_mono) simp_all
  moreover have "\<bar>x\<bar> = x" using less_le_trans [OF _ x, of 0] by simp
  ultimately show ?thesis by (simp add: ulp_def ulp_exp_def)
qed

lemma fl_exact:
  assumes "y = of_int m * 2 powi e" "\<bar>m\<bar> \<le> 2 ^ 53" "- 1074 \<le> e"
  shows "fl y = y"
proof (cases "m = 0")
  case False
  have ay: "\<bar>y\<bar> = of_int \<bar>m\<bar> * 2 powi e" using assms(1) by (simp add: abs_mult)
  have pos: "0 < \<bar>y\<bar>" using False assms(1) by simp
  have "\<bar>y\<bar> \<le> 2 powi (e + 53)"
  proof -
    have "(of_int \<bar>m\<bar> :: rat) \<le> of_int (2 ^ 53)" using assms(2) by (simp only: of_int_le_iff)
    then have "of_int \<bar>m\<bar> * 2 powi e \<le> (2 ^ 53 :: rat) * 2 powi e"
      by (intro mult_right_mono) simp_all
    then show ?thesis unfolding ay by (simp add: power_int_add)
  qed
  then have "(2::rat) powi binexp \<bar>y\<bar> \<le> 2 powi (e + 53)"
    using binexp_bounds(1) [OF pos] by linarith
  then have le: "binexp \<bar>y\<bar> \<le> e + 53" by simp
  have "\<exists>n. y / ulp y = of_int n"
  proof (cases "binexp \<bar>y\<bar> = e + 53")
    case True
    then have "2 powi (e + 53) \<le> \<bar>y\<bar>" using binexp_bounds(1) [OF pos] by simp
    with \<open>\<bar>y\<bar> \<le> 2 powi (e + 53)\<close> have "\<bar>y\<bar> = 2 powi (e + 53)" by linarith
    moreover have "ulp y = 2 powi (e + 1)" using True assms(3) by (simp add: ulp_def ulp_exp_def add.commute)
    moreover have "(2::rat) powi (e + 53) / 2 powi (e + 1) = of_int (2 ^ 52)"
      by (simp flip: power_int_diff)
    ultimately have "y / ulp y = of_int (2 ^ 52) \<or> y / ulp y = of_int (- (2 ^ 52))"
      by (metis abs_eq_iff divide_minus_left of_int_minus abs_if)
    then show ?thesis by blast
  next
    case False
    with le assms(3) have ue: "ulp_exp y \<le> e" by (simp add: ulp_exp_def)
    have "y / ulp y = of_int m * 2 powi (e - ulp_exp y)"
      by (simp add: assms(1) ulp_def power_int_diff)
    also have "\<dots> = of_int (m * 2 ^ nat (e - ulp_exp y))"
      using ue by (simp add: power_int_nonneg_exp)
    finally show ?thesis by blast
  qed
  then obtain n where n: "y / ulp y = of_int n" by blast
  then have "y = of_int n * ulp y" by (simp add: divide_eq_eq)
  moreover have "fl y = of_int n * ulp y" using n pos by (simp add: fl_def)
  ultimately show ?thesis by simp
qed (simp add: assms(1))

lemma fl_of_int [num_simps]: "\<bar>n\<bar> \<le> 2 ^ 53 \<Longrightarrow> fl (of_int n) = of_int n"
  using fl_exact [of "of_int n" n 0] by simp

lemma fl_one [simp, num_simps]: "fl 1 = 1"
  using fl_of_int [of 1] by simp

text \<open>The double nearest to a given value, from its binade and its scaled significand.\<close>

lemma fl_eqI:
  assumes "2 powi e \<le> x" "x < 2 powi (e + 1)" "- 1022 \<le> e"
    and "\<bar>x / 2 powi (e - 52) - of_int m\<bar> < 1/2"
  shows "fl x = of_int m * 2 powi (e - 52)"
proof -
  have "0 < x" using less_le_trans [OF _ assms(1), of 0] by simp
  moreover have "ulp x = 2 powi (e - 52)"
    using binexp_eqI [OF assms(1,2)] assms(3) \<open>0 < x\<close> by (simp add: ulp_def ulp_exp_def)
  moreover have "round_half_even (x / 2 powi (e - 52)) = m"
    using assms(4) by (intro round_half_even_eqI) simp
  ultimately show ?thesis by (simp add: fl_def)
qed

text \<open>Rounding stays inside the closed binade, and is monotone.\<close>

lemma fl_pos_binade:
  assumes "0 < x"
  shows "fl x \<le> 2 powi (binexp x + 1)" "- 1022 \<le> binexp x \<Longrightarrow> 2 powi binexp x \<le> fl x" "0 \<le> fl x"
proof -
  let ?u = "ulp_exp x"
  have fl: "fl x = of_int (round_half_even (x / ulp x)) * ulp x" using assms by (simp add: fl_def)
  have u: "?u \<le> binexp x + 1 \<or> binexp x + 1 < - 1074"
    using assms by (simp add: ulp_exp_def) linarith
  show "0 \<le> fl x"
  proof -
    have "round_half_even 0 \<le> round_half_even (x / ulp x)"
      using assms by (intro round_half_even_mono) (simp add: less_imp_le)
    then have "0 \<le> round_half_even (x / ulp x)" using round_half_even_int [of 0] by simp
    then show ?thesis by (simp add: fl less_imp_le)
  qed
  show "fl x \<le> 2 powi (binexp x + 1)"
  proof (cases "?u \<le> binexp x + 1")
    case True
    have "x / ulp x \<le> 2 powi (binexp x + 1 - ?u)"
      using binexp_bounds(2) [OF assms] by (simp add: ulp_def power_int_diff divide_right_mono)
    also have "\<dots> = of_int (2 ^ nat (binexp x + 1 - ?u))"
      using True by (simp add: power_int_nonneg_exp)
    finally have "round_half_even (x / ulp x) \<le> 2 ^ nat (binexp x + 1 - ?u)"
      using round_half_even_mono round_half_even_int by metis
    then have "of_int (round_half_even (x / ulp x)) \<le> (of_int (2 ^ nat (binexp x + 1 - ?u)) :: rat)"
      by (simp only: of_int_le_iff)
    also have "\<dots> = 2 powi (binexp x + 1 - ?u)"
      using True by (simp add: power_int_nonneg_exp)
    finally have "fl x \<le> 2 powi (binexp x + 1 - ?u) * ulp x"
      unfolding fl by (intro mult_right_mono) (simp_all add: less_imp_le)
    then show ?thesis by (simp add: ulp_def power_int_diff)
  next
    case False
    with u have small: "binexp x + 1 < - 1074" by simp
    then have ue: "?u = - 1074" using assms by (simp add: ulp_exp_def)
    have "x < 2 powi (- 1075)"
    proof -
      have "(2::rat) powi (binexp x + 1) \<le> 2 powi (- 1075)" unfolding two_powi_le_iff using small by simp
      with binexp_bounds(2) [OF assms] show ?thesis by linarith
    qed
    then have "x / ulp x < 1 / 2"
      unfolding ulp_def ue using power_int_diff [of "2::rat" "- 1075" "- 1074"]
      by (simp add: divide_simps del: power_int_minus)
    then have "round_half_even (x / ulp x) = 0"
      using assms by (intro round_half_even_eqI) (simp add: less_imp_le)
    then show ?thesis by (simp add: fl)
  qed
  assume norm: "- 1022 \<le> binexp x"
  then have ue: "?u = binexp x - 52" using assms by (simp add: ulp_exp_def)
  have "of_int (2 ^ 52) = (2::rat) powi (binexp x - ?u)" unfolding ue by simp
  also have "\<dots> \<le> x / ulp x"
    using binexp_bounds(1) [OF assms] by (simp add: ulp_def power_int_diff divide_right_mono)
  finally have "2 ^ 52 \<le> round_half_even (x / ulp x)"
    using round_half_even_mono round_half_even_int by metis
  then have "(of_int (2 ^ 52) :: rat) \<le> of_int (round_half_even (x / ulp x))"
    by (simp only: of_int_le_iff)
  then have "(2::rat) ^ 52 * ulp x \<le> fl x"
    unfolding fl by (intro mult_right_mono) (simp_all add: less_imp_le)
  then show "2 powi binexp x \<le> fl x" by (simp add: ulp_def ue power_int_diff)
qed

lemma fl_mono_pos: "0 < x \<Longrightarrow> x \<le> y \<Longrightarrow> fl x \<le> fl y"
proof -
  assume x: "0 < x" and xy: "x \<le> y"
  have be: "binexp x \<le> binexp y" using x xy by (rule binexp_mono)
  show ?thesis
  proof (cases "ulp x = ulp y")
    case True
    have "round_half_even (x / ulp x) \<le> round_half_even (y / ulp x)"
      using xy by (intro round_half_even_mono divide_right_mono) (simp_all add: less_imp_le)
    then show ?thesis using x xy by (simp add: fl_def True less_imp_le)
  next
    case False
    then have "ulp_exp x \<noteq> ulp_exp y" by (auto simp: ulp_def)
    with be x xy have "binexp x < binexp y" "- 1022 \<le> binexp y" by (auto simp: ulp_exp_def)
    have "fl x \<le> 2 powi (binexp x + 1)" using x by (rule fl_pos_binade)
    also have "\<dots> \<le> 2 powi binexp y" using \<open>binexp x < binexp y\<close> by simp
    also have "\<dots> \<le> fl y" using x xy \<open>- 1022 \<le> binexp y\<close> by (intro fl_pos_binade) simp_all
    finally show ?thesis .
  qed
qed

lemma fl_nonneg [simp]: "0 \<le> x \<Longrightarrow> 0 \<le> fl x"
  using fl_pos_binade(3) [of x] by (cases "x = 0") simp_all

lemma fl_le_one: "x \<le> 1 \<Longrightarrow> fl x \<le> 1"
proof (cases "0 < x")
  case True
  then show "x \<le> 1 \<Longrightarrow> fl x \<le> 1" using fl_mono_pos [of x 1] by simp
next
  case False
  then show ?thesis using fl_nonneg [of "- x"] by (simp add: fl_minus)
qed

section \<open>Python numbers\<close>

datatype pyfloat = Fin rat | Inf | NegInf | NaN

text \<open>\<open>float(n)\<close> on an \<open>int\<close>: rounds to the nearest double, and raises \<open>OverflowError\<close>
  (here \<open>None\<close>) where that is out of range.\<close>

definition float_of_int :: "int \<Rightarrow> rat option" where
  "float_of_int n = (let x = fl (of_int n) in if \<bar>x\<bar> < 2 ^ 1024 then Some x else None)"

lemma float_of_int_small [num_simps]: "\<bar>n\<bar> \<le> 2 ^ 53 \<Longrightarrow> float_of_int n = Some (of_int n)"
proof -
  assume n: "\<bar>n\<bar> \<le> 2 ^ 53"
  then have "\<bar>of_int n :: rat\<bar> \<le> 2 ^ 53"
    by (metis of_int_abs of_int_le_iff of_int_numeral of_int_power)
  moreover have "(2::rat) ^ 53 < 2 ^ 1024" by (rule power_strict_increasing) simp_all
  ultimately show ?thesis using n by (simp add: float_of_int_def fl_of_int)
qed

end
