(* ===== verification/PyVal.thy ===== *)
theory PyVal
  imports PyFloat
begin

text \<open>
  Python text and dynamically typed values. A \<open>str\<close> is a list of Latin-1 code points
  (U+0000 to U+00FF, one \<open>char\<close> each), on which the functions below agree with CPython:
  \<open>str.isspace\<close> and the regex class \<open>\s\<close>, the regex class \<open>\d\<close> (only the ASCII digits
  are decimal there), \<open>str.lower\<close>, \<open>str.strip\<close>; NFC normalisation is the identity on it.
  A value whose static type is \<open>Any\<close> (a JSON payload, a field of an untyped dict) is a
  \<open>pyval\<close>.
\<close>

section \<open>Text\<close>

definition py_is_space :: "char \<Rightarrow> bool" where
  "py_is_space c \<longleftrightarrow>
     (let n = (of_char c :: nat) in (9 \<le> n \<and> n \<le> 13) \<or> (28 \<le> n \<and> n \<le> 32) \<or> n = 133 \<or> n = 160)"

definition py_is_digit :: "char \<Rightarrow> bool" where
  "py_is_digit c \<longleftrightarrow> (let n = (of_char c :: nat) in 48 \<le> n \<and> n \<le> 57)"

definition py_lower_char :: "char \<Rightarrow> char" where
  "py_lower_char c =
     (let n = (of_char c :: nat) in
      if (65 \<le> n \<and> n \<le> 90) \<or> (192 \<le> n \<and> n \<le> 222 \<and> n \<noteq> 215) then char_of (n + 32) else c)"

definition py_lower :: "string \<Rightarrow> string" where
  "py_lower s = map py_lower_char s"

definition py_lstrip :: "string \<Rightarrow> string" where
  "py_lstrip s = dropWhile py_is_space s"

definition py_strip :: "string \<Rightarrow> string" where
  "py_strip s = rev (py_lstrip (rev (py_lstrip s)))"

definition py_startswith :: "string \<Rightarrow> string \<Rightarrow> bool" where
  "py_startswith s pre \<longleftrightarrow> take (length pre) s = pre"

text \<open>\<open>sub in s\<close> on strings.\<close>

fun py_contains :: "string \<Rightarrow> string \<Rightarrow> bool" where
  "py_contains sub [] = (sub = [])"
| "py_contains sub (c # s) = (py_startswith (c # s) sub \<or> py_contains sub s)"

definition digits_value :: "string \<Rightarrow> nat" where
  "digits_value ds = foldl (\<lambda>a c. 10 * a + (of_char c - 48)) 0 ds"

text \<open>\<open>str(n)\<close> of an \<open>int\<close>.\<close>

fun nat_digits :: "nat \<Rightarrow> string" where
  "nat_digits n = (if n < 10 then [char_of (48 + n)] else nat_digits (n div 10) @ [char_of (48 + n mod 10)])"

declare nat_digits.simps [simp del]

definition py_str_int :: "int \<Rightarrow> string" where
  "py_str_int n = (if n < 0 then CHR ''-'' # nat_digits (nat (- n)) else nat_digits (nat n))"

lemma py_strip_Nil [simp]: "py_strip [] = []"
  by (simp add: py_strip_def py_lstrip_def)

lemma py_lstrip_no_space: "(\<And>c cs. s = c # cs \<Longrightarrow> \<not> py_is_space c) \<Longrightarrow> py_lstrip s = s"
  by (cases s) (simp_all add: py_lstrip_def)

lemma py_strip_no_space:
  assumes "\<forall>c \<in> set s. \<not> py_is_space c"
  shows "py_strip s = s"
proof -
  have "dropWhile py_is_space t = t" if "\<forall>c \<in> set t. \<not> py_is_space c" for t
    using that by (cases t) simp_all
  from this [of s] this [of "rev s"] assms show ?thesis by (simp add: py_strip_def py_lstrip_def)
qed

lemma dropWhile_all_append: "(\<forall>x \<in> set xs. P x) \<Longrightarrow> dropWhile P (xs @ ys) = dropWhile P ys"
  by (induction xs) simp_all

lemma py_strip_padding:
  assumes "\<forall>c \<in> set pre. py_is_space c" "\<forall>c \<in> set suf. py_is_space c"
    and "\<forall>c \<in> set s. \<not> py_is_space c"
  shows "py_strip (pre @ s @ suf) = s"
proof -
  have keep: "dropWhile py_is_space (t @ w) = t @ w"
    if "t \<noteq> []" "\<forall>c \<in> set t. \<not> py_is_space c" for t w
    using that by (cases t) simp_all
  show ?thesis
  proof (cases "s = []")
    case True
    have e: "dropWhile py_is_space (pre @ suf) = []"
      using assms by (simp add: dropWhile_all_append dropWhile_eq_Nil_conv)
    show ?thesis unfolding py_strip_def py_lstrip_def True append_Nil e by simp
  next
    case False
    have "dropWhile py_is_space (pre @ s @ suf) = s @ suf"
      using assms(1) keep [OF False assms(3)] by (simp add: dropWhile_all_append)
    moreover have "dropWhile py_is_space (rev suf @ rev s) = rev s"
      using assms(2) keep [of "rev s" "[]"] False assms(3) by (simp add: dropWhile_all_append)
    ultimately show ?thesis by (simp add: py_strip_def py_lstrip_def)
  qed
qed

lemma py_contains_iff: "py_contains sub s \<longleftrightarrow> (\<exists>pre suf. s = pre @ sub @ suf)"
proof (induction s)
  case Nil
  then show ?case by simp
next
  case (Cons c s)
  have "(\<exists>pre suf. c # s = pre @ sub @ suf) \<longleftrightarrow>
        (\<exists>suf. c # s = sub @ suf) \<or> (\<exists>pre suf. s = pre @ sub @ suf)"
    by (metis Cons_eq_append_conv append_Cons append_self_conv2)
  moreover have "py_startswith (c # s) sub \<longleftrightarrow> (\<exists>suf. c # s = sub @ suf)"
    by (metis append_eq_conv_conj append_take_drop_id py_startswith_def)
  ultimately show ?case using Cons.IH by simp
qed

lemma digit_not_space: "py_is_digit c \<Longrightarrow> \<not> py_is_space c"
  by (simp add: py_is_digit_def py_is_space_def Let_def)

lemma digits_value_snoc [simp]:
  "digits_value (ds @ [d]) = 10 * digits_value ds + (of_char d - 48)"
  by (simp add: digits_value_def)

lemma digits_value_Nil [simp]: "digits_value [] = 0"
  by (simp add: digits_value_def)

section \<open>Values\<close>

datatype pyval =
    PNone
  | PBool bool
  | PInt int
  | PFloat pyfloat
  | PStr string
  | PList "pyval list"
  | PDict "(string \<times> pyval) list"

text \<open>The truth value of a value in a condition.\<close>

fun truthy :: "pyval \<Rightarrow> bool" where
  "truthy PNone = False"
| "truthy (PBool b) = b"
| "truthy (PInt n) = (n \<noteq> 0)"
| "truthy (PFloat f) = (f \<noteq> Fin 0)"
| "truthy (PStr s) = (s \<noteq> [])"
| "truthy (PList xs) = (xs \<noteq> [])"
| "truthy (PDict d) = (d \<noteq> [])"

text \<open>\<open>d.get(key)\<close> and \<open>key in d\<close>: a dict keeps one value per key, the first of the list.\<close>

definition dict_get :: "(string \<times> pyval) list \<Rightarrow> string \<Rightarrow> pyval" where
  "dict_get d k = (case map_of d k of Some v \<Rightarrow> v | None \<Rightarrow> PNone)"

text \<open>\<open>isinstance(v, (int, float)) and not isinstance(v, bool)\<close>.\<close>

fun is_number :: "pyval \<Rightarrow> bool" where
  "is_number (PInt n) = True"
| "is_number (PFloat f) = True"
| "is_number _ = False"

text \<open>\<open>float(v)\<close> of a number; \<open>None\<close> where it raises (\<open>OverflowError\<close>, or a type error).\<close>

fun to_float :: "pyval \<Rightarrow> pyfloat option" where
  "to_float (PInt n) = map_option Fin (float_of_int n)"
| "to_float (PFloat f) = Some f"
| "to_float _ = None"

fun is_finite :: "pyfloat \<Rightarrow> bool" where
  "is_finite (Fin x) = True"
| "is_finite _ = False"

lemma is_finite_iff: "is_finite f \<longleftrightarrow> (\<exists>x. f = Fin x)"
  by (cases f) auto

text \<open>A value as CPython can hold it: its finite floats are doubles.\<close>

definition is_double :: "rat \<Rightarrow> bool" where
  "is_double x \<longleftrightarrow> fl x = x \<and> \<bar>x\<bar> < 2 ^ 1024"

end
