(* ===== verification/ChannelNumber.thy ===== *)
theory ChannelNumber
  imports PyVal
begin

text \<open>
  \<open>backend/channel_number.py\<close>: the channel-number contract. A channel number is a
  non-negative number with at most one decimal place; \<open>None\<close> is unassigned. This theory
  holds the predicate, the tenths grid and its inverse, the validating entry points and the
  text parser, and shows how far the grid is exact on doubles.
\<close>

section \<open>Definitions\<close>

definition ticks_per_unit :: int where
  "ticks_per_unit = 10"

definition tenth_tolerance :: rat where
  "tenth_tolerance = fl (1 / 10 ^ 9)"

definition exact_integer_floor :: rat where
  "exact_integer_floor = 2 ^ 53"

datatype number_error = InvalidChannelNumberError | OverflowError

text \<open>The part of the predicate that runs on the float, after the type tests.\<close>

definition valid_float :: "rat \<Rightarrow> bool" where
  "valid_float number =
     (if number < 0 then False
      else if number \<ge> exact_integer_floor then True
      else (let scaled = fl (number * of_int ticks_per_unit)
            in \<bar>fl (scaled - fl (of_int (round_half_even scaled)))\<bar> \<le> tenth_tolerance))"

fun is_valid_channel_number :: "pyval \<Rightarrow> bool" where
  "is_valid_channel_number (PInt n) =
     (case float_of_int n of None \<Rightarrow> False | Some number \<Rightarrow> valid_float number)"
| "is_valid_channel_number (PFloat (Fin number)) = valid_float number"
| "is_valid_channel_number _ = False"

fun channel_number_ticks :: "pyval \<Rightarrow> (number_error, int) result" where
  "channel_number_ticks (PInt n) = Inr (n * ticks_per_unit)"
| "channel_number_ticks (PFloat (Fin v)) =
     (if \<bar>v\<bar> \<ge> exact_integer_floor then Inr (\<lfloor>v\<rfloor> * ticks_per_unit)
      else Inr (round_half_even (fl (v * of_int ticks_per_unit))))"
| "channel_number_ticks _ = Inl InvalidChannelNumberError"

definition channel_number_from_ticks :: "int \<Rightarrow> (number_error, pyval) result" where
  "channel_number_from_ticks ticks =
     (if ticks mod ticks_per_unit = 0 then Inr (PInt (ticks div ticks_per_unit))
      else (let q = fl (of_int ticks / of_int ticks_per_unit)
            in if \<bar>q\<bar> < 2 ^ 1024 then Inr (PFloat (Fin q)) else Inl OverflowError))"

definition validate_channel_number :: "pyval \<Rightarrow> bool \<Rightarrow> (number_error, pyfloat option) result" where
  "validate_channel_number value allow_none =
     (if value = PNone then (if allow_none then Inr None else Inl InvalidChannelNumberError)
      else if \<not> is_valid_channel_number value then Inl InvalidChannelNumberError
      else Inr (to_float value))"

text \<open>The pattern \<^verbatim>\<open>^\d+(?:\.\d+)?$\<close> on stripped text, and \<open>float(text)\<close> of what it accepts:
  the double nearest to the decimal, or infinity where that is out of range.\<close>

definition channel_number_text :: "string \<Rightarrow> bool" where
  "channel_number_text s =
     (let ip = takeWhile py_is_digit s; rest = dropWhile py_is_digit s in
      ip \<noteq> [] \<and>
      (rest = [] \<or>
       (case rest of c # fp \<Rightarrow> c = CHR ''.'' \<and> fp \<noteq> [] \<and> (\<forall>d \<in> set fp. py_is_digit d)
                   | [] \<Rightarrow> False)))"

definition float_of_text :: "string \<Rightarrow> pyfloat" where
  "float_of_text s =
     (let ip = takeWhile py_is_digit s; fp = drop 1 (dropWhile py_is_digit s);
          x = fl (of_nat (digits_value (ip @ fp)) / 10 ^ length fp)
      in if x < 2 ^ 1024 then Fin x else Inf)"

fun parse_channel_number_text :: "pyval \<Rightarrow> bool \<Rightarrow> (number_error, pyfloat option) result" where
  "parse_channel_number_text PNone allow_empty =
     (if allow_empty then Inr None else Inl InvalidChannelNumberError)"
| "parse_channel_number_text (PInt n) allow_empty = validate_channel_number (PInt n) False"
| "parse_channel_number_text (PFloat f) allow_empty = validate_channel_number (PFloat f) False"
| "parse_channel_number_text (PStr text) allow_empty =
     (let stripped = py_strip text in
      if stripped = [] then (if allow_empty then Inr None else Inl InvalidChannelNumberError)
      else if \<not> channel_number_text stripped then Inl InvalidChannelNumberError
      else validate_channel_number (PFloat (float_of_text stripped)) False)"
| "parse_channel_number_text _ allow_empty = Inl InvalidChannelNumberError"

fun validate_channel_number_in_payload :: "pyval \<Rightarrow> (number_error, unit) result" where
  "validate_channel_number_in_payload (PDict payload) =
     (case map_of payload ''channel_number'' of
        None \<Rightarrow> Inr ()
      | Some v \<Rightarrow> bind_result (validate_channel_number v True) (\<lambda>_. Inr ()))"
| "validate_channel_number_in_payload _ = Inr ()"

text \<open>The Pydantic hook of request models: \<open>Inl\<close> is the \<open>PydanticCustomError\<close> it raises.\<close>

definition pydantic_channel_number :: "pyval \<Rightarrow> (number_error, pyval) result" where
  "pydantic_channel_number value =
     (case value of
        PNone \<Rightarrow> Inr PNone
      | PStr s \<Rightarrow>
          bind_result (parse_channel_number_text (PStr s) True)
            (\<lambda>r. Inr (case r of None \<Rightarrow> PNone | Some f \<Rightarrow> PFloat f))
      | _ \<Rightarrow> if \<not> is_valid_channel_number value then Inl InvalidChannelNumberError
            else Inr (case to_float value of Some f \<Rightarrow> PFloat f | None \<Rightarrow> PNone))"

section \<open>The tenths grid is exact below \<open>2 ^ 49\<close>\<close>

text \<open>
  The one computation behind the contract: a tick divided by ten and scaled back. Both
  operations round, and the product lands on a coarser grid than the quotient, so the claim
  that the tick comes back is not a triangle inequality: at the top of the range the scaled
  value can be exactly half way between two doubles, and comes back only because the tick is
  the even neighbour.
\<close>

lemma round_to_even_tick:
  assumes u: "0 < u" and uy: "ulp y = 8 * u" and y: "y = of_int (10 * n) * u" "y \<noteq> 0"
    and k: "of_int k = of_int K * (8 * u)" "even K" and err: "\<bar>y - of_int k\<bar> \<le> 5 * u"
  shows "fl y = of_int k"
proof -
  have "y - of_int k = of_int (10 * n - 8 * K) * u" by (simp add: y(1) k(1) algebra_simps)
  with err u have "\<bar>of_int (10 * n - 8 * K) :: rat\<bar> \<le> of_int 5" by (simp add: abs_mult)
  then have "\<bar>10 * n - 8 * K\<bar> \<le> 5" unfolding of_int_abs [symmetric] of_int_le_iff .
  then have "\<bar>10 * n - 8 * K\<bar> \<le> 4" by presburger
  then have "\<bar>of_int (10 * n - 8 * K) :: rat\<bar> \<le> 4"
    unfolding of_int_abs [symmetric] by (metis of_int_le_iff of_int_numeral)
  moreover have "y / ulp y - of_int K = of_int (10 * n - 8 * K) / 8"
    using u unfolding uy by (simp add: y(1) field_simps)
  ultimately have "\<bar>y / ulp y - of_int K\<bar> \<le> 1/2" by (simp only: abs_divide) simp
  then have "round_half_even (y / ulp y) = K"
    using k(2) by (intro round_half_even_eqI) linarith
  then show ?thesis using y(2) k(1) by (simp add: fl_def uy)
qed

lemma round_to_near_tick:
  assumes u: "0 < u" and uy: "ulp y = 16 * u" and y: "y \<noteq> 0"
    and k: "of_int k = of_int K * (16 * u)" and err: "\<bar>y - of_int k\<bar> \<le> 5 * u"
  shows "fl y = of_int k"
proof -
  have "\<bar>y / ulp y - of_int K\<bar> = \<bar>y - of_int k\<bar> / (16 * u)"
    using u by (simp add: uy k flip: abs_divide) (simp add: field_simps)
  also have "\<dots> \<le> 5 * u / (16 * u)" using err u by (intro divide_right_mono) simp_all
  also have "\<dots> < 1/2" using u by simp
  finally have "round_half_even (y / ulp y) = K" by (intro round_half_even_eqI) simp
  then show ?thesis using y k by (simp add: fl_def uy)
qed

text \<open>A power of two at most 1 divides every integer.\<close>

lemma int_multiple_of_power:
  "c \<le> 0 \<Longrightarrow> (of_int k :: rat) = of_int (k * 2 ^ nat (- c)) * 2 powi c"
  by (simp add: power_int_nonneg_exp [symmetric] power_int_minus field_simps)

text \<open>The binade of a tenth in the range of the contract, and of its double scaled by ten.\<close>

lemma tenth_binade:
  assumes "1/20 \<le> x" "x < 2 ^ m"
  shows "- 6 < binexp x" "binexp x < int m" "ulp x = 2 powi (binexp x - 52)"
    "2 powi (binexp x + 3) \<le> fl x * 10" "fl x * 10 < 2 powi (binexp x + 5)"
    "\<bar>fl x * 10 - x * 10\<bar> \<le> 5 * 2 powi (binexp x - 52)"
proof -
  have b: "2 powi binexp x \<le> x" "x < 2 powi (binexp x + 1)"
    using binexp_bounds [of x] assms(1) by simp_all
  have "(2::rat) powi (- 5) < 2 powi (binexp x + 1)" using b assms(1) by simp
  then show e: "- 6 < binexp x" unfolding two_powi_less_iff by simp
  have "(2::rat) powi binexp x < 2 powi (int m)" using b assms(2) by simp
  then show "binexp x < int m" unfolding two_powi_less_iff by simp
  show u: "ulp x = 2 powi (binexp x - 52)" using e assms(1) by (simp add: ulp_def ulp_exp_def)
  have "2 powi binexp x \<le> fl x" "fl x \<le> 2 powi (binexp x + 1)"
    using fl_pos_binade [of x] assms(1) e by simp_all
  moreover have "(2::rat) powi (binexp x + 1) = 2 * 2 powi binexp x"
    "(2::rat) powi (binexp x + 3) = 8 * 2 powi binexp x"
    "(2::rat) powi (binexp x + 5) = 32 * 2 powi binexp x" by (simp_all add: power_int_add)
  moreover have "(0::rat) < 2 powi binexp x" by simp
  ultimately show "2 powi (binexp x + 3) \<le> fl x * 10" "fl x * 10 < 2 powi (binexp x + 5)"
    by linarith+
  have "\<bar>fl x - x\<bar> * 10 \<le> 2 powi (binexp x - 52) / 2 * 10"
    using fl_error [of x] unfolding u by (intro mult_right_mono) simp_all
  then show "\<bar>fl x * 10 - x * 10\<bar> \<le> 5 * 2 powi (binexp x - 52)"
    by (simp only: left_diff_distrib [symmetric] abs_mult)
qed

lemma scale_back_pos:
  assumes k: "0 < k" "k < 10 * 2 ^ 49"
  shows "fl (fl (of_int k / 10) * 10) = of_int k"
proof -
  define x :: rat where "x = of_int k / 10"
  define e where "e = binexp x"
  define u :: rat where "u = 2 powi (e - 52)"
  define y where "y = fl x * 10"
  have "(of_int k :: rat) < of_int (10 * 2 ^ 49)" using k(2) by (simp only: of_int_less_iff)
  then have x: "1/20 \<le> x" "x < 2 ^ 49" using k(1) by (simp_all add: x_def)
  note b = tenth_binade [OF x, folded e_def, folded u_def y_def]
  have u: "0 < u" by (simp add: u_def)
  have err: "\<bar>y - of_int k\<bar> \<le> 5 * u" using b(6) by (simp add: x_def)
  have y1: "0 < y" using less_le_trans [OF _ b(4), of 0] by simp
  then have y0: "y \<noteq> 0" by simp
  show ?thesis
  proof (cases "y < 2 powi (e + 4)")
    case True
    have "binexp y = e + 3" using b(4) True by (intro binexp_eqI) (simp_all add: add.commute)
    then have "ulp y = 8 * u"
      using b(1) y1 by (simp add: ulp_def ulp_exp_def u_def power_int_diff power_int_add)
    moreover have "y = of_int (10 * round_half_even (x / u)) * u"
      using x b(3) by (simp add: y_def fl_def)
    moreover have "of_int k = of_int (k * 2 ^ nat (49 - e)) * (8 * u)"
      using int_multiple_of_power [of "e - 49" k] b(2)
      by (simp add: u_def power_int_diff power_int_add)
    moreover have "even (k * 2 ^ nat (49 - e))" using b(2) by simp
    ultimately have "fl y = of_int k" using round_to_even_tick [OF u] y0 err by blast
    then show ?thesis by (simp add: y_def x_def)
  next
    case False
    have "binexp y = e + 4" using b(5) False by (intro binexp_eqI) (simp_all add: add.commute)
    then have "ulp y = 16 * u"
      using b(1) y1 by (simp add: ulp_def ulp_exp_def u_def power_int_diff power_int_add)
    moreover have "of_int k = of_int (k * 2 ^ nat (48 - e)) * (16 * u)"
      using int_multiple_of_power [of "e - 48" k] b(2)
      by (simp add: u_def power_int_diff power_int_add)
    ultimately have "fl y = of_int k" using round_to_near_tick [OF u] y0 err by blast
    then show ?thesis by (simp add: y_def x_def)
  qed
qed

lemma scale_back:
  assumes "\<bar>k\<bar> < 10 * 2 ^ 49"
  shows "fl (fl (of_int k / 10) * 10) = of_int k"
proof -
  consider "0 < k" | "k = 0" | "0 < - k" by linarith
  then show ?thesis
  proof cases
    case 3
    then have "fl (fl (of_int (- k) / 10) * 10) = of_int (- k)"
      using assms by (intro scale_back_pos) simp_all
    then show ?thesis by (simp add: fl_minus)
  qed (use assms scale_back_pos in simp_all)
qed


section \<open>What the contract accepts and rejects\<close>

lemma tolerance_bounds: "0 \<le> tenth_tolerance" "tenth_tolerance \<le> 1/32"
proof -
  have "fl (1/32 :: rat) = 1/32" using fl_exact [of "1/32" 1 "- 5"] by simp
  then show "tenth_tolerance \<le> 1/32"
    unfolding tenth_tolerance_def using fl_mono_pos [of "1 / 10 ^ 9" "1/32"] by simp
  show "0 \<le> tenth_tolerance" by (simp add: tenth_tolerance_def)
qed

lemma valid_float_on_grid:
  assumes "0 \<le> x" "fl (x * 10) = of_int k" "\<bar>k\<bar> \<le> 2 ^ 53"
  shows "valid_float x"
  using assms tolerance_bounds(1) by (simp add: valid_float_def ticks_per_unit_def fl_of_int)

lemma valid_whole_number:
  assumes "0 \<le> n" "n < 2 ^ 49"
  shows "is_valid_channel_number (PInt n)"
proof -
  have "fl (of_int n * 10) = of_int (10 * n)" using fl_of_int [of "10 * n"] assms by (simp add: mult.commute)
  with assms have "valid_float (of_int n)" by (intro valid_float_on_grid [of _ "10 * n"]) simp_all
  with assms show ?thesis by (simp add: float_of_int_small)
qed

lemma tick_double_range:
  assumes "\<bar>k\<bar> < 10 * 2 ^ 49"
  shows "\<bar>fl (of_int k / 10)\<bar> \<le> 2 ^ 49"
proof -
  have pos: "fl (of_int j / 10) \<le> 2 ^ 49" if "0 < j" "j < 10 * 2 ^ 49" for j
  proof -
    have "(of_int j :: rat) < of_int (10 * 2 ^ 49)" using that(2) by (simp only: of_int_less_iff)
    then have "fl (of_int j / 10) \<le> fl (2 ^ 49)" using that(1) by (intro fl_mono_pos) simp_all
    then show ?thesis using fl_of_int [of "2 ^ 49"] by simp
  qed
  consider "0 < k" | "k = 0" | "0 < - k" by linarith
  then show ?thesis
  proof cases
    case 1
    then show ?thesis using pos [of k] assms by simp
  next
    case 3
    then show ?thesis using pos [of "- k"] assms fl_nonneg [of "of_int (- k) / 10"]
      by (simp add: fl_minus)
  qed simp
qed

text \<open>
  Dividing a tick back to a channel number and reading its tick again returns the tick, for
  every tick whose number is below \<open>2 ^ 49\<close> in magnitude, and for every whole number of any
  magnitude: the bound the docstrings of both functions state.
\<close>

theorem ticks_roundtrip:
  assumes "\<bar>k\<bar> < 10 * 2 ^ 49 \<or> k mod 10 = 0"
  shows "bind_result (channel_number_from_ticks k) channel_number_ticks = Inr k"
proof (cases "k mod 10 = 0")
  case True
  then show ?thesis by (auto simp: channel_number_from_ticks_def ticks_per_unit_def)
next
  case False
  with assms have k: "\<bar>k\<bar> < 10 * 2 ^ 49" by simp
  from tick_double_range [OF k] have "\<bar>fl (of_int k / 10)\<bar> < 2 ^ 53" "\<bar>fl (of_int k / 10)\<bar> < 2 ^ 1024"
    using power_strict_increasing [of 53 1024 "2::rat"] by simp_all
  with False k show ?thesis
    by (simp add: channel_number_from_ticks_def ticks_per_unit_def exact_integer_floor_def
        scale_back del: abs_le_iff abs_less_iff)
qed

theorem ticks_roundtrip_witness:
  "bind_result (channel_number_from_ticks 111) channel_number_ticks = Inr 111"
  using ticks_roundtrip [of 111] by simp

text \<open>
  Every tick from 0 up to \<open>2 ^ 49\<close> divides back to a number the contract accepts, so a
  number computed on the grid never fails its own validation.
\<close>

theorem grid_numbers_are_valid:
  assumes "0 \<le> k" "k < 10 * 2 ^ 49"
  shows "\<exists>v. channel_number_from_ticks k = Inr v \<and> is_valid_channel_number v"
proof (cases "k mod 10 = 0")
  case True
  have "is_valid_channel_number (PInt (k div 10))" using assms by (intro valid_whole_number) simp_all
  with True show ?thesis by (simp add: channel_number_from_ticks_def ticks_per_unit_def)
next
  case False
  from assms have k: "\<bar>k\<bar> < 10 * 2 ^ 49" by simp
  have "\<bar>fl (of_int k / 10)\<bar> < 2 ^ 1024"
    using tick_double_range [OF k] power_strict_increasing [of 53 1024 "2::rat"] by simp
  moreover have "valid_float (fl (of_int k / 10))"
    using assms k by (intro valid_float_on_grid [OF _ scale_back]) simp_all
  ultimately show ?thesis using False
    by (simp add: channel_number_from_ticks_def ticks_per_unit_def)
qed

theorem grid_numbers_are_valid_witness:
  "\<exists>v. channel_number_from_ticks 8001 = Inr v \<and> is_valid_channel_number v"
  using grid_numbers_are_valid [of 8001] by simp

lemma far_from_integer:
  fixes s :: rat
  assumes "\<bar>s - (of_int k + 1/2)\<bar> \<le> 13/32"
  shows "3/32 \<le> \<bar>s - of_int n\<bar>"
proof (cases "n \<le> k")
  case True
  then have "(of_int n :: rat) \<le> of_int k" by simp
  with assms show ?thesis by linarith
next
  case False
  then have "k + 1 \<le> n" by simp
  then have "(of_int k + 1 :: rat) \<le> of_int n" by (metis of_int_1 of_int_add of_int_le_iff)
  with assms show ?thesis by linarith
qed

lemma fl_abs_ge: "2 powi (- 1022) \<le> c \<Longrightarrow> fl c = c \<Longrightarrow> c \<le> \<bar>d\<bar> \<Longrightarrow> c \<le> \<bar>fl d\<bar>"
proof -
  assume c: "2 powi (- 1022) \<le> c" "fl c = c" "c \<le> \<bar>d\<bar>"
  have c0: "0 < c" using less_le_trans [OF _ c(1), of 0] by simp
  then have "c \<le> fl \<bar>d\<bar>" using fl_mono_pos [OF c0 c(3)] c(2) by simp
  then show ?thesis by (simp add: abs_if fl_minus split: if_splits)
qed

text \<open>Scaling a half tick by ten stays within 13/32 of the half, so away from both neighbours.\<close>

lemma scaled_half_tick:
  assumes "0 \<le> k" "2 * k + 1 < 20 * 2 ^ 48" "x = (2 * of_int k + 1) / 20"
  shows "\<bar>fl (fl x * 10) - (of_int k + 1/2)\<bar> \<le> 13/32" "0 \<le> fl x" "fl x < exact_integer_floor"
proof -
  define y where "y = fl x * 10"
  have "(of_int (2 * k + 1) :: rat) < of_int (20 * 2 ^ 48)" using assms(2) by (simp only: of_int_less_iff)
  then have x: "1/20 \<le> x" "x < 2 ^ 48" using assms(1) by (simp_all add: assms(3))
  define u :: rat where "u = 2 powi (binexp x - 52)"
  note b = tenth_binade [OF x, folded y_def u_def]
  have "u \<le> 2 powi (- 5)" unfolding u_def two_powi_le_iff using b(2) by simp
  then have u: "u \<le> 1/32" by simp
  have y0: "0 < y" using less_le_trans [OF _ b(4), of 0] by simp
  have "(2::rat) powi binexp y < 2 powi (binexp x + 5)" using binexp_bounds(1) [OF y0] b(5) by linarith
  then have "ulp_exp y \<le> (binexp x - 52) + 4"
    unfolding two_powi_less_iff using y0 b(1) by (simp add: ulp_exp_def)
  then have "ulp y \<le> 2 powi ((binexp x - 52) + 4)" unfolding ulp_def two_powi_le_iff .
  then have "ulp y \<le> 16 * u" by (simp add: u_def power_int_add power_int_diff)
  with fl_error [of y] have "\<bar>fl y - y\<bar> \<le> 8 * u" by linarith
  moreover have "\<bar>y - (of_int k + 1/2)\<bar> \<le> 5 * u" using b(6) by (simp add: assms(3) add_divide_distrib)
  ultimately show "\<bar>fl (fl x * 10) - (of_int k + 1/2)\<bar> \<le> 13/32" using u unfolding y_def by linarith
  have "fl x \<le> fl (2 ^ 48)" using x by (intro fl_mono_pos) simp_all
  then show "fl x < exact_integer_floor" using fl_of_int [of "2 ^ 48"] by (simp add: exact_integer_floor_def)
  show "0 \<le> fl x" using x by simp
qed

text \<open>
  No two-decimal value ending in 5 passes: the double nearest to \<open>k.k5\<close> is rejected for
  every such value below \<open>2 ^ 48\<close>, although the nearest double is not the decimal itself.
\<close>

theorem half_ticks_are_rejected:
  assumes "0 \<le> k" "2 * k + 1 < 20 * 2 ^ 48"
  shows "\<not> is_valid_channel_number (PFloat (Fin (fl ((2 * of_int k + 1) / 20))))"
proof -
  define x :: rat where "x = (2 * of_int k + 1) / 20"
  define s where "s = fl (fl x * 10)"
  define n where "n = round_half_even s"
  note near = scaled_half_tick(1) [OF assms x_def, folded s_def]
  have "3/32 \<le> \<bar>s - of_int n\<bar>" by (rule far_from_integer [OF near])
  moreover have "fl (of_int n) = (of_int n :: rat)"
  proof (rule fl_of_int)
    have "round_half_even (of_int 0) \<le> n" unfolding n_def using near
      by (intro round_half_even_mono) (use of_int_nonneg [OF assms(1), where 'a = rat] in linarith)
    moreover have "s \<le> of_int k + 1" using near unfolding abs_le_iff by linarith
    then have "n \<le> round_half_even (of_int (k + 1))" unfolding n_def
      by (intro round_half_even_mono) simp
    ultimately show "\<bar>n\<bar> \<le> 2 ^ 53" unfolding round_half_even_int using assms by simp
  qed
  moreover have "fl (3/32 :: rat) = 3/32" using fl_exact [of "3/32" 3 "- 5"] by simp
  ultimately have "3/32 \<le> \<bar>fl (s - fl (of_int n))\<bar>"
    by (intro fl_abs_ge) (simp_all add: power_int_minus_divide)
  then have "\<not> valid_float (fl x)"
    using tolerance_bounds(2) scaled_half_tick(2,3) [OF assms x_def]
    by (simp add: valid_float_def ticks_per_unit_def Let_def s_def n_def)
  then show ?thesis by (simp add: x_def)
qed

theorem half_ticks_are_rejected_witness:
  "\<not> is_valid_channel_number (PFloat (Fin (fl ((2 * of_int 10 + 1) / 20))))"
  using half_ticks_are_rejected [of 10] by simp

lemma takeWhile_all_append: "(\<forall>x \<in> set xs. P x) \<Longrightarrow> takeWhile P (xs @ ys) = xs @ takeWhile P ys"
  by (induction xs) simp_all

lemma one_decimal_text:
  assumes "ip \<noteq> []" "\<forall>c \<in> set ip. py_is_digit c" "py_is_digit d" "digits_value (ip @ [d]) < 10 * 2 ^ 49"
  shows "channel_number_text (ip @ [CHR ''.'', d])"
    "float_of_text (ip @ [CHR ''.'', d]) = Fin (fl (of_int (int (digits_value (ip @ [d]))) / 10))"
proof -
  have dot: "\<not> py_is_digit CHR ''.''" by (simp add: py_is_digit_def Let_def)
  have tw: "takeWhile py_is_digit (ip @ [CHR ''.'', d]) = ip"
    "dropWhile py_is_digit (ip @ [CHR ''.'', d]) = [CHR ''.'', d]"
    using assms(2) dot by (simp_all add: takeWhile_all_append dropWhile_all_append)
  with assms show "channel_number_text (ip @ [CHR ''.'', d])"
    by (simp add: channel_number_text_def)
  have "\<bar>fl (of_int (int (digits_value (ip @ [d]))) / 10)\<bar> \<le> (2::rat) ^ 49"
    using assms(4) by (intro tick_double_range) simp
  then have "fl (of_int (int (digits_value (ip @ [d]))) / 10) < (2::rat) ^ 1024"
    using power_strict_increasing [of 49 1024 "2::rat"] by simp
  with tw show "float_of_text (ip @ [CHR ''.'', d]) =
      Fin (fl (of_int (int (digits_value (ip @ [d]))) / 10))"
    by (simp add: float_of_text_def del: digits_value_snoc)
qed

text \<open>
  Text with one decimal digit, padded with any whitespace and with any leading zeros, is
  parsed to the number on exactly the tick it spells, for every value below \<open>2 ^ 49\<close>.
\<close>

theorem parse_one_decimal:
  assumes "ip \<noteq> []" "\<forall>c \<in> set ip. py_is_digit c" "py_is_digit d"
    and "digits_value (ip @ [d]) < 10 * 2 ^ 49"
    and "\<forall>c \<in> set pre. py_is_space c" "\<forall>c \<in> set suf. py_is_space c"
  shows "\<exists>v. parse_channel_number_text (PStr (pre @ (ip @ [CHR ''.'', d]) @ suf)) allow_empty = Inr (Some v) \<and>
             channel_number_ticks (PFloat v) = Inr (int (digits_value (ip @ [d])))"
proof -
  define k where "k = int (digits_value (ip @ [d]))"
  define x :: rat where "x = fl (of_int k / 10)"
  have k: "0 \<le> k" "\<bar>k\<bar> < 10 * 2 ^ 49" using assms(4) by (simp_all add: k_def)
  have "\<forall>c \<in> set (ip @ [CHR ''.'', d]). \<not> py_is_space c"
    using assms(2,3) by (auto simp: digit_not_space) (simp add: py_is_space_def Let_def)
  then have strip: "py_strip (pre @ (ip @ [CHR ''.'', d]) @ suf) = ip @ [CHR ''.'', d]"
    using assms(5,6) by (intro py_strip_padding) simp_all
  have "valid_float x" unfolding x_def using k by (intro valid_float_on_grid [OF _ scale_back]) simp_all
  then have "parse_channel_number_text (PStr (pre @ (ip @ [CHR ''.'', d]) @ suf)) allow_empty = Inr (Some (Fin x))"
    using one_decimal_text [OF assms(1-4)] strip
    by (simp add: validate_channel_number_def x_def k_def Let_def del: digits_value_snoc append_assoc)
  moreover have "channel_number_ticks (PFloat (Fin x)) = Inr k"
    using tick_double_range [OF k(2)] scale_back [OF k(2)]
    by (simp add: x_def exact_integer_floor_def ticks_per_unit_def del: abs_le_iff)
  ultimately show ?thesis by (auto simp: k_def)
qed

theorem parse_one_decimal_witness:
  "\<exists>v. parse_channel_number_text (PStr ('' '' @ (''07'' @ [CHR ''.'', CHR ''1'']) @ '' '')) True = Inr (Some v) \<and>
       channel_number_ticks (PFloat v) = Inr (int (digits_value (''07'' @ [CHR ''1''])))"
proof (rule parse_one_decimal)
  show "digits_value (''07'' @ [CHR ''1'']) < 10 * 2 ^ 49"
    by (simp add: digits_value_def)
qed (simp_all add: py_is_digit_def py_is_space_def Let_def)

text \<open>
  The docstring of \<open>channel_number_ticks\<close> says that in-contract numbers below \<open>2 ^ 49\<close> map
  one-to-one onto ticks. They do not: the tolerance admits numbers that are not tenths, so
  \<open>0.7 + 0.1\<close> and \<open>0.8\<close> are two in-contract doubles on one tick.
\<close>

theorem ticks_not_injective_on_contract:
  "\<exists>a b. a \<noteq> b \<and> is_double a \<and> is_double b \<and> a < 2 ^ 49 \<and> b < 2 ^ 49 \<and>
     is_valid_channel_number (PFloat (Fin a)) \<and> is_valid_channel_number (PFloat (Fin b)) \<and>
     channel_number_ticks (PFloat (Fin a)) = channel_number_ticks (PFloat (Fin b))"
proof -
  define a :: rat where "a = of_int 7205759403792793 * 2 powi (- 53)"
  define b :: rat where "b = of_int 7205759403792794 * 2 powi (- 53)"
  have "fl a = a" "fl b = b"
    unfolding a_def b_def by (rule fl_exact [OF refl]; simp)+
  moreover have "\<bar>a\<bar> < 2 ^ 49" "\<bar>b\<bar> < 2 ^ 49" by (simp_all add: a_def b_def)
  ultimately have dbl: "is_double a" "is_double b"
    using power_strict_increasing [of 49 1024 "2::rat"] by (simp_all add: is_double_def)
  have sa: "fl (a * 10) = of_int 9007199254740991 * 2 powi (2 - 52)"
    by (rule fl_eqI) (simp_all add: a_def)
  have sb: "fl (b * 10) = 8"
    using fl_eqI [of 3 "b * 10" "2 ^ 52"] by (simp add: b_def)
  have "fl (1 / 2 ^ 50) = (1 / 2 ^ 50 :: rat)" using fl_exact [of "1 / 2 ^ 50" 1 "- 50"] by simp
  then have "1 / 2 ^ 50 \<le> tenth_tolerance"
    unfolding tenth_tolerance_def using fl_mono_pos [of "1 / 2 ^ 50" "1 / 10 ^ 9"] by simp
  moreover have ra: "round_half_even (fl (a * 10)) = 8"
    unfolding sa by (rule round_half_even_eqI) simp
  moreover have "fl (fl (a * 10) - 8) = - (1 / 2 ^ 50)"
    unfolding sa using fl_exact [of "- (1 / 2 ^ 50)" "- 1" "- 50"] by simp
  ultimately have "valid_float a"
    using fl_of_int [of 8] by (simp add: valid_float_def ticks_per_unit_def a_def)
  moreover have "valid_float b"
    using sb by (intro valid_float_on_grid [of _ 8]) (simp_all add: b_def)
  moreover have "channel_number_ticks (PFloat (Fin a)) = channel_number_ticks (PFloat (Fin b))"
    using ra sb round_half_even_int [of 8]
    by (simp add: ticks_per_unit_def exact_integer_floor_def) (simp add: a_def b_def)
  moreover have "a \<noteq> b" "a < 2 ^ 49" "b < 2 ^ 49" by (simp_all add: a_def b_def)
  ultimately show ?thesis using dbl unfolding is_valid_channel_number.simps by blast
qed

end
