(* ===== verification/Slots.thy ===== *)
theory Slots
  imports ChannelNumber
begin

text \<open>
  When two channel numbers are the same number. \<open>channel_number_plan.py\<close> and
  \<open>channel_number_apply.py\<close> each carry a \<open>_slot_key\<close>; both map a number to its tenths tick
  below \<open>2 ^ 53\<close> and to the float itself from there on, under different prefixes so that the
  two regimes cannot be confused. A key string is modelled by a constructor per prefix:
  \<open>t<tick>\<close>, \<open>x<float>\<close> and \<open>n<float>\<close>; the text after the prefix determines the number.
\<close>

datatype slot = SlotTick int | SlotExact rat | SlotNonFinite pyfloat

text \<open>\<open>float(value)\<close> raises \<open>OverflowError\<close> for an integer beyond the doubles.\<close>

fun int_overflows :: "pyval \<Rightarrow> bool" where
  "int_overflows (PInt n) = (float_of_int n = None)"
| "int_overflows _ = False"

fun float_slot :: "pyfloat \<Rightarrow> slot" where
  "float_slot (Fin number) =
     (if \<bar>number\<bar> \<ge> exact_integer_floor then SlotExact number
      else SlotTick (round_half_even (fl (number * of_int ticks_per_unit))))"
| "float_slot f = SlotNonFinite f"

text \<open>The slot a value occupies where \<open>float\<close> does not raise: \<open>None\<close> for what is no finite number.\<close>

definition slot_of :: "pyval \<Rightarrow> slot option" where
  "slot_of value =
     (if \<not> is_number value then None
      else case to_float value of
             Some f \<Rightarrow> if is_finite f then Some (float_slot f) else None
           | None \<Rightarrow> None)"

definition same_slot :: "pyval \<Rightarrow> pyval \<Rightarrow> bool" where
  "same_slot a b = (slot_of a \<noteq> None \<and> slot_of a = slot_of b)"

text \<open>\<open>_slot_key\<close> and \<open>same_channel_number\<close> of \<open>channel_number_apply.py\<close>, errors included: the
  second key is computed only when the first one exists.\<close>

definition apply_slot_key :: "pyval \<Rightarrow> (number_error, slot option) result" where
  "apply_slot_key value = (if int_overflows value then Inl OverflowError else Inr (slot_of value))"

definition same_channel_number :: "pyval \<Rightarrow> pyval \<Rightarrow> (number_error, bool) result" where
  "same_channel_number a b =
     bind_result (apply_slot_key a) (\<lambda>slot_a.
       if slot_a = None then Inr False
       else bind_result (apply_slot_key b) (\<lambda>slot_b. Inr (slot_a = slot_b)))"

text \<open>\<open>_slot_key\<close> and \<open>_same_number\<close> of \<open>channel_number_plan.py\<close>. The first is only called on a
  number, and raises where \<open>float\<close> does; the second converts both operands before it compares.\<close>

definition plan_slot_key :: "pyval \<Rightarrow> (number_error, slot) result" where
  "plan_slot_key value = (case to_float value of Some f \<Rightarrow> Inr (float_slot f) | None \<Rightarrow> Inl OverflowError)"

definition plan_same_number :: "pyval \<Rightarrow> pyval \<Rightarrow> (number_error, bool) result" where
  "plan_same_number a b =
     (if a = PNone \<or> b = PNone then Inr False
      else if \<not> is_number a \<or> \<not> is_number b then Inr False
      else case (to_float a, to_float b) of
             (Some fa, Some fb) \<Rightarrow>
               if \<not> is_finite fa \<or> \<not> is_finite fb then Inr False
               else bind_result (plan_slot_key a) (\<lambda>ka.
                      bind_result (plan_slot_key b) (\<lambda>kb. Inr (ka = kb)))
           | _ \<Rightarrow> Inl OverflowError)"

section \<open>The interface: a partial equivalence given by a key\<close>

locale slot_identity =
  fixes key :: "'v \<Rightarrow> 's option"
    and same :: "'v \<Rightarrow> 'v \<Rightarrow> bool"
  assumes same_iff: "same a b \<longleftrightarrow> (\<exists>s. key a = Some s \<and> key b = Some s)"
begin

lemma same_sym: "same a b \<Longrightarrow> same b a"
  by (auto simp: same_iff)

lemma same_trans: "same a b \<Longrightarrow> same b c \<Longrightarrow> same a c"
  by (auto simp: same_iff)

lemma same_refl: "key a \<noteq> None \<Longrightarrow> same a a"
  by (auto simp: same_iff)

lemma same_key: "same a b \<Longrightarrow> key a = key b"
  by (auto simp: same_iff)

end

lemma slot_of_Some:
  "slot_of v = Some s \<longleftrightarrow> is_number v \<and> (\<exists>x. to_float v = Some (Fin x) \<and> s = float_slot (Fin x))"
  by (auto simp: slot_of_def is_finite_iff split: option.splits if_splits)

lemma slot_of_None [simp]: "slot_of PNone = None"
  by (simp add: slot_of_def)

interpretation slots: slot_identity slot_of same_slot
  by unfold_locales (auto simp: same_slot_def)

lemma int_overflows_iff: "int_overflows v \<longleftrightarrow> is_number v \<and> to_float v = None"
  by (cases v) auto

lemma same_channel_number_defined:
  assumes "\<not> int_overflows a" "\<not> int_overflows b"
  shows "same_channel_number a b = Inr (same_slot a b)"
  using assms by (auto simp: same_channel_number_def apply_slot_key_def same_slot_def)

lemma plan_same_number_defined:
  assumes "\<not> int_overflows a" "\<not> int_overflows b"
  shows "plan_same_number a b = Inr (same_slot a b)"
  using assms
  by (auto simp: plan_same_number_def plan_slot_key_def same_slot_def slot_of_def int_overflows_iff
      simp del: float_slot.simps split: option.splits)

text \<open>Below \<open>2 ^ 53\<close> a slot is the tick of the number.\<close>

lemma small_slot_is_tick:
  assumes "\<bar>x\<bar> < exact_integer_floor"
  shows "\<exists>k. channel_number_ticks (PFloat (Fin x)) = Inr k \<and> slot_of (PFloat (Fin x)) = Some (SlotTick k)"
  using assms by (simp add: slot_of_def)

text \<open>Whole channel numbers of ordinary size, for evaluating the definitions on concrete lineups.\<close>

lemma int_slot:
  assumes "\<bar>n\<bar> \<le> 2 ^ 49"
  shows "slot_of (PInt n) = Some (SlotTick (n * 10))" "\<not> int_overflows (PInt n)"
proof -
  have "\<bar>n * 10\<bar> \<le> 2 ^ 53" "\<bar>n\<bar> \<le> 2 ^ 53" using assms by simp_all
  moreover have "\<bar>n\<bar> < 2 ^ 53" using assms by simp
  then have "\<bar>of_int n :: rat\<bar> < 2 ^ 53" by (metis of_int_abs of_int_less_iff of_int_numeral of_int_power)
  ultimately show "slot_of (PInt n) = Some (SlotTick (n * 10))" "\<not> int_overflows (PInt n)"
    using fl_of_int [of "n * 10"] round_half_even_int [of "n * 10"]
    by (simp_all add: slot_of_def float_of_int_small exact_integer_floor_def ticks_per_unit_def)
qed

end
