(* ===== verification/NumberApply.thy ===== *)
theory NumberApply
  imports Slots "HOL-Library.List_Lexorder"
begin

text \<open>
  The order channel-number writes are sent in and how a half-finished run is put back,
  \<open>backend/channel_number_apply.py\<close>. A write is referred to by its position in the submitted
  list. The loop keeps the positions that remain, the blockers each one still waits for, what was
  emitted and the cycles that were broken; \<open>release\<close> is the source's inner function.
\<close>

record numbering_write =
  nw_channel_id :: int
  nw_name :: string
  nw_before :: pyval
  nw_after :: pyval

definition moves :: "numbering_write \<Rightarrow> (number_error, bool) result" where
  "moves w =
     (if nw_before w = PNone \<and> nw_after w = PNone then Inr False
      else if nw_before w = PNone \<or> nw_after w = PNone then Inr True
      else bind_result (same_channel_number (nw_before w) (nw_after w)) (\<lambda>same. Inr (\<not> same)))"

definition inverse_write :: "numbering_write \<Rightarrow> numbering_write" where
  "inverse_write w = w\<lparr> nw_before := nw_after w, nw_after := nw_before w \<rparr>"

record numbering_order =
  no_writes :: "numbering_write list"
  no_cycles :: "int list list"

datatype order_error = OrderOverflow | MinOfEmptySet

section \<open>The dependencies of a plan\<close>

text \<open>\<open>leaving\<close>, \<open>blockers\<close> and \<open>blocking\<close> as the two loops over the plan fill them.\<close>

definition leaving :: "numbering_write list \<Rightarrow> slot \<Rightarrow> nat list" where
  "leaving pending slot =
     filter (\<lambda>q. moves (pending ! q) = Inr True \<and> slot_of (nw_before (pending ! q)) = Some slot)
       [0..<length pending]"

definition blockers :: "numbering_write list \<Rightarrow> nat \<Rightarrow> nat list" where
  "blockers pending p =
     (if p < length pending
      then case slot_of (nw_after (pending ! p)) of
             None \<Rightarrow> []
           | Some slot \<Rightarrow> filter (\<lambda>holder. holder \<noteq> p) (leaving pending slot)
      else [])"

definition blocking :: "numbering_write list \<Rightarrow> nat \<Rightarrow> nat list" where
  "blocking pending holder = filter (\<lambda>q. holder \<in> set (blockers pending q)) [0..<length pending]"

section \<open>The loop\<close>

record order_state =
  os_remaining :: "nat list"
  os_blockers :: "nat \<Rightarrow> nat list"
  os_ordered :: "nat list"
  os_cycles :: "int list list"

definition release :: "numbering_write list \<Rightarrow> nat \<Rightarrow> order_state \<Rightarrow> order_state" where
  "release pending p st =
     st\<lparr> os_blockers := fold (\<lambda>dependent b. b(dependent := removeAll p (b dependent)))
                          (blocking pending p) (os_blockers st),
         os_remaining := remove1 p (os_remaining st),
         os_ordered := os_ordered st @ [p] \<rparr>"

text \<open>The walk from the earliest remaining write; \<open>None\<close> stands for \<open>min\<close> of an empty set, which
  raises \<open>ValueError\<close>.\<close>

definition next_blocker :: "(nat \<Rightarrow> nat list) \<Rightarrow> nat list \<Rightarrow> nat \<Rightarrow> nat option" where
  "next_blocker blk remaining cursor =
     (let waiting = filter (\<lambda>h. h \<in> set remaining) (blk cursor)
      in if waiting = [] then None else Some (Min (set waiting)))"

lemma next_blocker_Some:
  assumes "next_blocker blk remaining cursor = Some h"
  shows "h \<in> set (blk cursor)" "h \<in> set remaining"
proof -
  have "h \<in> set (filter (\<lambda>h. h \<in> set remaining) (blk cursor))"
    using assms by (auto simp: next_blocker_def Let_def simp del: set_filter split: if_splits intro!: Min_in)
  then show "h \<in> set (blk cursor)" "h \<in> set remaining" by simp_all
qed

lemma next_blocker_None:
  "next_blocker blk remaining cursor = None \<longleftrightarrow> set (blk cursor) \<inter> set remaining = {}"
  by (auto simp: next_blocker_def Let_def filter_empty_conv)

function cycle_walk :: "(nat \<Rightarrow> nat list) \<Rightarrow> nat list \<Rightarrow> nat list \<Rightarrow> nat \<Rightarrow> (nat list \<times> nat) option" where
  "cycle_walk blk remaining seen cursor =
     (if cursor \<in> set seen then Some (seen, cursor)
      else case next_blocker blk remaining cursor of
             None \<Rightarrow> None
           | Some h \<Rightarrow> cycle_walk blk remaining (seen @ [cursor]) h)"
  by pat_completeness auto

termination
proof (relation "measure (\<lambda>(blk, remaining, seen, cursor). card (insert cursor (set remaining) - set seen))",
    goal_cases)
  case (2 blk remaining seen cursor h)
  then have "insert h (set remaining) - set (seen @ [cursor]) = set remaining - set seen - {cursor}"
    using next_blocker_Some(2) [OF 2(2)] by auto
  with 2(1) show ?case by (auto intro!: psubset_card_mono)
qed simp

definition cycle_from :: "nat list \<Rightarrow> nat \<Rightarrow> nat list" where
  "cycle_from seen cursor = dropWhile (\<lambda>q. q \<noteq> cursor) seen"

text \<open>A path of the walk: each position waits for the next one, and all are still remaining.\<close>

definition waits_for :: "(nat \<Rightarrow> nat list) \<Rightarrow> nat \<Rightarrow> nat \<Rightarrow> bool" where
  "waits_for blk p h = (h \<in> set (blk p))"

definition dependency_cycle :: "(nat \<Rightarrow> nat list) \<Rightarrow> nat list \<Rightarrow> bool" where
  "dependency_cycle blk ps = (ps \<noteq> [] \<and> distinct ps \<and> successively (waits_for blk) (ps @ [hd ps]))"

definition walk_path :: "(nat \<Rightarrow> nat list) \<Rightarrow> nat list \<Rightarrow> nat list \<Rightarrow> nat \<Rightarrow> bool" where
  "walk_path blk remaining seen cursor =
     (distinct seen \<and> set (seen @ [cursor]) \<subseteq> set remaining \<and> successively (waits_for blk) (seen @ [cursor]))"

declare cycle_walk.simps [simp del]

lemma walk_path_step:
  assumes "walk_path blk remaining seen cursor" "cursor \<notin> set seen" "next_blocker blk remaining cursor = Some h"
  shows "walk_path blk remaining (seen @ [cursor]) h"
  using assms next_blocker_Some [OF assms(3)]
  by (auto simp: walk_path_def successively_append_iff waits_for_def)

lemma cycle_walk_Some:
  assumes "cycle_walk blk remaining seen cursor = Some (path, c)" "walk_path blk remaining seen cursor"
  shows "walk_path blk remaining path c \<and> c \<in> set path"
  using assms
proof (induction blk remaining seen cursor arbitrary: path c rule: cycle_walk.induct)
  case (1 blk remaining seen cursor)
  show ?case
  proof (cases "cursor \<in> set seen")
    case True
    with "1.prems" show ?thesis by (auto simp: cycle_walk.simps [of blk remaining seen])
  next
    case False
    with "1.prems"(1) obtain h where h: "next_blocker blk remaining cursor = Some h"
      by (auto simp: cycle_walk.simps [of blk remaining seen] split: option.splits)
    with False "1.prems" have "cycle_walk blk remaining (seen @ [cursor]) h = Some (path, c)"
      by (simp add: cycle_walk.simps [of blk remaining seen])
    with False h "1.prems"(2) show ?thesis by (intro "1.IH" walk_path_step) auto
  qed
qed

lemma cycle_walk_defined:
  assumes "\<forall>p \<in> set remaining. set (blk p) \<inter> set remaining \<noteq> {}" "cursor \<in> set remaining"
  shows "\<exists>path c. cycle_walk blk remaining seen cursor = Some (path, c)"
  using assms
proof (induction blk remaining seen cursor rule: cycle_walk.induct)
  case (1 blk remaining seen cursor)
  then obtain h where "next_blocker blk remaining cursor = Some h"
    using next_blocker_None [of blk remaining cursor] by fastforce
  with 1 next_blocker_Some(2) [OF this] show ?case by (auto simp: cycle_walk.simps [of blk remaining seen])
qed

lemma cycle_from_path:
  assumes "walk_path blk remaining path c" "c \<in> set path"
  shows "dependency_cycle blk (cycle_from path c)" "set (cycle_from path c) \<subseteq> set remaining"
    "cycle_from path c \<noteq> []"
proof -
  from assms(2) obtain xs ys where p: "path = xs @ c # ys" "c \<notin> set xs" by (meson split_list_first)
  then have "cycle_from path c = c # ys"
    unfolding cycle_from_def by (subst p(1), subst dropWhile_all_append) auto
  with assms(1) p show "dependency_cycle blk (cycle_from path c)" "set (cycle_from path c) \<subseteq> set remaining"
    "cycle_from path c \<noteq> []"
    by (auto simp: dependency_cycle_def walk_path_def successively_append_iff)
qed

lemma release_remaining [simp]: "os_remaining (release pending p st) = remove1 p (os_remaining st)"
  by (simp add: release_def)

lemma fold_release_remaining:
  "os_remaining (fold (release pending) ps st) = fold remove1 ps (os_remaining st)"
  by (induction ps arbitrary: st) simp_all

lemma length_fold_remove1: "length (fold remove1 ps xs) \<le> length xs"
proof (induction ps arbitrary: xs)
  case (Cons p ps)
  show ?case using Cons.IH [of "remove1 p xs"] by (auto simp: length_remove1 split: if_splits)
qed simp

lemma walk_from_head:
  assumes "cycle_walk (os_blockers st) (os_remaining st) [] (hd (os_remaining st)) = Some (seen, cursor)"
    and "os_remaining st \<noteq> []"
  shows "dependency_cycle (os_blockers st) (cycle_from seen cursor)"
    "set (cycle_from seen cursor) \<subseteq> set (os_remaining st)"
    "Min (set (cycle_from seen cursor)) \<in> set (cycle_from seen cursor)"
proof -
  have "walk_path (os_blockers st) (os_remaining st) [] (hd (os_remaining st))"
    using assms(2) by (simp add: walk_path_def)
  from cycle_walk_Some [OF assms(1) this] have path: "walk_path (os_blockers st) (os_remaining st) seen cursor"
    and c: "cursor \<in> set seen" by auto
  show "dependency_cycle (os_blockers st) (cycle_from seen cursor)"
    "set (cycle_from seen cursor) \<subseteq> set (os_remaining st)"
    "Min (set (cycle_from seen cursor)) \<in> set (cycle_from seen cursor)"
    using cycle_from_path [OF path c] by simp_all
qed

text \<open>The body of \<open>while remaining\<close>.\<close>

function order_loop :: "numbering_write list \<Rightarrow> order_state \<Rightarrow> (order_error, order_state) result" where
  "order_loop pending st =
     (if os_remaining st = [] then Inr st
      else (let ready = filter (\<lambda>q. os_blockers st q = []) (os_remaining st) in
        if ready \<noteq> [] then order_loop pending (fold (release pending) ready st)
        else (case cycle_walk (os_blockers st) (os_remaining st) [] (hd (os_remaining st)) of
                None \<Rightarrow> Inl MinOfEmptySet
              | Some (seen, cursor) \<Rightarrow>
                  (let found = cycle_from seen cursor
                   in order_loop pending
                        (release pending (Min (set found))
                          (st\<lparr> os_cycles := os_cycles st
                                 @ [sort (map (\<lambda>q. nw_channel_id (pending ! q)) found)] \<rparr>))))))"
  by pat_completeness auto

termination
proof (relation "measure (\<lambda>(pending, st). length (os_remaining st))", goal_cases)
  case (2 pending st ready)
  then obtain q qs where "ready = q # qs" by (meson neq_Nil_conv)
  moreover from this 2(2) have "q \<in> set (os_remaining st)"
    by (metis filter_is_subset list.set_intros(1) subset_iff)
  moreover have "length (fold remove1 qs (remove1 q (os_remaining st))) < length (os_remaining st)"
    using \<open>q \<in> set (os_remaining st)\<close> length_fold_remove1 [of qs "remove1 q (os_remaining st)"]
      length_pos_if_in_set [OF \<open>q \<in> set (os_remaining st)\<close>]
    by (simp add: length_remove1 del: length_greater_0_conv)
  ultimately show ?case by (simp add: fold_release_remaining)
next
  case (3 pending st ready found seen cursor cycle)
  then have "Min (set cycle) \<in> set (os_remaining st)" using walk_from_head [of st] by auto
  then show ?case using length_pos_if_in_set [of "Min (set cycle)" "os_remaining st"] by (simp add: length_remove1)
qed simp

declare order_loop.simps [simp del]

definition order_numbering_writes :: "numbering_write list \<Rightarrow> (order_error, numbering_order) result" where
  "order_numbering_writes writes =
     (if writes = [] then Inr \<lparr> no_writes = [], no_cycles = [] \<rparr>
      else if \<exists>w \<in> set writes. int_overflows (nw_before w) \<or> int_overflows (nw_after w)
      then Inl OrderOverflow
      else bind_result
             (order_loop writes \<lparr> os_remaining = [0..<length writes], os_blockers = blockers writes,
                                  os_ordered = [], os_cycles = [] \<rparr>)
             (\<lambda>st. Inr \<lparr> no_writes = map (\<lambda>q. writes ! q) (os_ordered st),
                        no_cycles = sort (os_cycles st) \<rparr>))"

section \<open>The invariant of the loop\<close>

text \<open>\<open>forced B D ps\<close>: the positions of \<open>ps\<close> that are emitted while one of their blockers is not.\<close>

primrec forced :: "(nat \<Rightarrow> nat list) \<Rightarrow> nat set \<Rightarrow> nat list \<Rightarrow> nat list" where
  "forced B D [] = []"
| "forced B D (p # ps) = (if set (B p) \<subseteq> D then [] else [p]) @ forced B (insert p D) ps"

lemma forced_snoc:
  "forced B D (ps @ [p]) = forced B D ps @ (if set (B p) \<subseteq> D \<union> set ps then [] else [p])"
  by (induction ps arbitrary: D) simp_all

definition breaks_cycle :: "numbering_write list \<Rightarrow> nat \<Rightarrow> nat list \<Rightarrow> bool" where
  "breaks_cycle pending p c = (dependency_cycle (blockers pending) c \<and> p = Min (set c))"

definition cycle_ids :: "numbering_write list \<Rightarrow> nat list \<Rightarrow> int list" where
  "cycle_ids pending c = sort (map (\<lambda>q. nw_channel_id (pending ! q)) c)"

definition partition_inv :: "numbering_write list \<Rightarrow> order_state \<Rightarrow> bool" where
  "partition_inv pending st =
     (distinct (os_remaining st) \<and> distinct (os_ordered st)
      \<and> set (os_remaining st) \<inter> set (os_ordered st) = {}
      \<and> set (os_remaining st) \<union> set (os_ordered st) = {..<length pending}
      \<and> (\<forall>p. set (os_blockers st p) = set (blockers pending p) - set (os_ordered st)))"

definition cycles_inv :: "numbering_write list \<Rightarrow> order_state \<Rightarrow> bool" where
  "cycles_inv pending st =
     (\<exists>cs. list_all2 (breaks_cycle pending) (forced (blockers pending) {} (os_ordered st)) cs
        \<and> os_cycles st = map (cycle_ids pending) cs)"

lemma blockers_less: "h \<in> set (blockers pending p) \<Longrightarrow> h < length pending \<and> p < length pending \<and> h \<noteq> p"
  by (cases "slot_of (nw_after (pending ! p))"; cases "p < length pending") (simp_all add: blockers_def leaving_def)

lemma fold_discard:
  "fold (\<lambda>d b. b(d := removeAll p (b d))) ds b q = (if q \<in> set ds then removeAll p (b q) else b q)"
  by (induction ds arbitrary: b) auto

lemma release_partition:
  assumes "partition_inv pending st" "p \<in> set (os_remaining st)"
  shows "partition_inv pending (release pending p st)"
proof -
  have "set (os_blockers (release pending p st) q) = set (blockers pending q) - set (os_ordered st) - {p}" for q
    using assms(1) blockers_less [of p pending q]
    by (auto simp: release_def fold_discard blocking_def partition_inv_def)
  with assms show ?thesis by (auto simp: partition_inv_def release_def)
qed

lemma release_ordered [simp]: "os_ordered (release pending p st) = os_ordered st @ [p]"
  and release_cycles [simp]: "os_cycles (release pending p st) = os_cycles st"
  by (simp_all add: release_def)

lemma release_ready:
  assumes "partition_inv pending st" "cycles_inv pending st" "p \<in> set (os_remaining st)" "os_blockers st p = []"
  shows "cycles_inv pending (release pending p st)"
proof -
  have "set (blockers pending p) \<subseteq> set (os_ordered st)"
    using assms(1,4) by (auto simp: partition_inv_def) (metis Diff_eq_empty_iff empty_set subsetD)
  with assms(2) show ?thesis by (simp add: cycles_inv_def forced_snoc)
qed

lemma release_blockers_stay_empty:
  "os_blockers st q = [] \<Longrightarrow> os_blockers (release pending p st) q = []"
  by (simp add: release_def fold_discard)

lemma fold_release_ready:
  assumes "partition_inv pending st" "cycles_inv pending st" "distinct ps"
    and "set ps \<subseteq> set (os_remaining st)" "\<forall>p \<in> set ps. os_blockers st p = []"
  shows "partition_inv pending (fold (release pending) ps st) \<and> cycles_inv pending (fold (release pending) ps st)"
  using assms
proof (induction ps arbitrary: st)
  case (Cons p ps)
  have d: "distinct (os_remaining st)" using Cons.prems(1) by (simp add: partition_inv_def)
  show ?case
    using Cons.prems d
    by (simp only: fold_simps, intro Cons.IH)
      (auto simp: release_partition release_ready release_blockers_stay_empty)
qed simp

lemma dependency_cycle_mono:
  "dependency_cycle b c \<Longrightarrow> (\<And>p. set (b p) \<subseteq> set (B p)) \<Longrightarrow> dependency_cycle B c"
  unfolding dependency_cycle_def
  by (auto simp: waits_for_def elim!: successively_mono)

lemma dependency_cycle_waits:
  assumes "dependency_cycle b c" "p \<in> set c"
  shows "\<exists>h \<in> set c. h \<in> set (b p)"
proof -
  from assms(2) obtain xs ys where c: "c = xs @ p # ys" by (meson split_list)
  obtain h zs where h: "ys @ [hd c] = h # zs" by (cases ys) auto
  have "set (ys @ [hd c]) \<subseteq> set c" by (auto simp: c hd_append)
  then have "h \<in> set c" unfolding h by simp
  moreover have "c @ [hd c] = xs @ p # h # zs" using h by (subst c) simp
  then have "h \<in> set (b p)"
    using assms(1) by (auto simp: dependency_cycle_def waits_for_def successively_append_iff)
  ultimately show ?thesis by blast
qed

lemma release_break:
  assumes "partition_inv pending st" "cycles_inv pending st" "set c \<subseteq> set (os_remaining st)"
    and "dependency_cycle (os_blockers st) c" "Min (set c) \<in> set c"
  shows "cycles_inv pending
    (release pending (Min (set c)) (st\<lparr> os_cycles := os_cycles st @ [cycle_ids pending c] \<rparr>))"
proof -
  have "dependency_cycle (blockers pending) c"
    using assms(1,4) by (auto simp: partition_inv_def elim!: dependency_cycle_mono)
  then have "breaks_cycle pending (Min (set c)) c" by (simp add: breaks_cycle_def)
  moreover obtain h where "h \<in> set c" "h \<in> set (os_blockers st (Min (set c)))"
    using dependency_cycle_waits [OF assms(4,5)] by blast
  then have "h \<in> set (blockers pending (Min (set c)))" "h \<notin> set (os_ordered st)"
    using assms(1,3) by (auto simp: partition_inv_def)
  moreover obtain cs where "list_all2 (breaks_cycle pending) (forced (blockers pending) {} (os_ordered st)) cs"
    "os_cycles st = map (cycle_ids pending) cs"
    using assms(2) by (auto simp: cycles_inv_def)
  ultimately show ?thesis
    by (auto simp: cycles_inv_def forced_snoc intro!: exI [of _ "cs @ [c]"] list_all2_appendI)
qed

lemma waiting_blockers_remain:
  assumes "partition_inv pending st" "os_blockers st p \<noteq> []"
  shows "set (os_blockers st p) \<inter> set (os_remaining st) \<noteq> {}"
proof -
  obtain h where h: "h \<in> set (os_blockers st p)" using assms(2) by (cases "os_blockers st p") auto
  then have "h \<in> set (blockers pending p)" "h \<notin> set (os_ordered st)"
    using assms(1) by (simp_all add: partition_inv_def)
  with blockers_less have "h \<in> {..<length pending} - set (os_ordered st)" by blast
  then have "h \<in> set (os_remaining st)" using assms(1) by (auto simp: partition_inv_def)
  with h show ?thesis by blast
qed

lemma order_loop_total:
  assumes "partition_inv pending st" "cycles_inv pending st"
  shows "\<exists>st'. order_loop pending st = Inr st' \<and> partition_inv pending st' \<and> cycles_inv pending st'
               \<and> os_remaining st' = []"
  using assms
proof (induction pending st rule: order_loop.induct)
  case (1 pending st)
  let ?ready = "filter (\<lambda>q. os_blockers st q = []) (os_remaining st)"
  consider (finished) "os_remaining st = []" | (ready) "os_remaining st \<noteq> []" "?ready \<noteq> []"
    | (cycle) "os_remaining st \<noteq> []" "?ready = []" by blast
  then show ?case
  proof cases
    case finished
    with "1.prems" show ?thesis by (simp add: order_loop.simps [of pending st])
  next
    case ready
    have "distinct ?ready" using "1.prems"(1) by (simp add: partition_inv_def)
    then have "partition_inv pending (fold (release pending) ?ready st)
      \<and> cycles_inv pending (fold (release pending) ?ready st)"
      using "1.prems" by (intro fold_release_ready) auto
    with ready "1.IH"(1) [OF ready(1) refl ready(2)] show ?thesis
      by (simp add: order_loop.simps [of pending st])
  next
    case cycle
    have "\<forall>p \<in> set (os_remaining st). set (os_blockers st p) \<inter> set (os_remaining st) \<noteq> {}"
      using waiting_blockers_remain [OF "1.prems"(1)] cycle(2) by (auto simp: filter_empty_conv)
    then obtain seen cursor where walk:
      "cycle_walk (os_blockers st) (os_remaining st) [] (hd (os_remaining st)) = Some (seen, cursor)"
      using cycle_walk_defined cycle(1) by (metis list.set_sel(1))
    define found where "found = cycle_from seen cursor"
    note found = walk_from_head [OF walk cycle(1), folded found_def]
    let ?st = "release pending (Min (set found)) (st\<lparr> os_cycles := os_cycles st @ [cycle_ids pending found] \<rparr>)"
    have "partition_inv pending ?st"
      using "1.prems"(1) found by (intro release_partition) (auto simp: partition_inv_def)
    moreover have "cycles_inv pending ?st" using "1.prems" found by (intro release_break)
    ultimately show ?thesis
      using "1.IH"(2) [OF cycle(1) refl _ walk refl refl] cycle walk
      by (simp add: order_loop.simps [of pending st] cycle_ids_def found_def Let_def)
  qed
qed

definition plan_defined :: "numbering_write list \<Rightarrow> bool" where
  "plan_defined ws = (\<forall>w \<in> set ws. \<not> int_overflows (nw_before w) \<and> \<not> int_overflows (nw_after w))"

lemma order_defined:
  assumes "plan_defined ws"
  obtains ps cs where
    "order_numbering_writes ws = Inr \<lparr> no_writes = map ((!) ws) ps, no_cycles = sort (map (cycle_ids ws) cs) \<rparr>"
    "distinct ps" "set ps = {..<length ws}"
    "list_all2 (breaks_cycle ws) (forced (blockers ws) {} ps) cs"
proof (cases "ws = []")
  case True
  then show ?thesis by (intro that [of "[]" "[]"]) (simp_all add: order_numbering_writes_def)
next
  case False
  let ?st = "\<lparr> os_remaining = [0..<length ws], os_blockers = blockers ws, os_ordered = [], os_cycles = [] \<rparr>"
  have "partition_inv ws ?st" "cycles_inv ws ?st"
    by (auto simp: partition_inv_def cycles_inv_def)
  from order_loop_total [OF this] obtain st cs where "order_loop ws ?st = Inr st"
    "partition_inv ws st" "os_remaining st = []" "os_cycles st = map (cycle_ids ws) cs"
    "list_all2 (breaks_cycle ws) (forced (blockers ws) {} (os_ordered st)) cs"
    by (auto simp: cycles_inv_def)
  with False assms show ?thesis
    by (intro that [of "os_ordered st" cs])
      (auto simp: order_numbering_writes_def plan_defined_def partition_inv_def fun_eq_iff)
qed

lemma positions_permutation:
  assumes "distinct ps" "set ps = {..<length ws}"
  shows "mset (map ((!) ws) ps) = mset ws"
proof -
  have "mset ps = mset [0..<length ws]"
    using assms by (metis atLeast_upt distinct_upt lessThan_atLeast0 set_eq_iff_mset_eq_distinct)
  then have "mset (map ((!) ws) ps) = mset (map ((!) ws) [0..<length ws])" by simp
  then show ?thesis by (simp only: map_nth)
qed

lemma forced_Nil:
  "forced B D ps = [] \<longleftrightarrow> (\<forall>k < length ps. set (B (ps ! k)) \<subseteq> D \<union> set (take k ps))"
proof (induction ps arbitrary: D)
  case (Cons p ps)
  show ?case by (auto simp: Cons.IH All_less_Suc2)
qed simp

lemma ranked_no_cycle:
  assumes "\<And>p h. h \<in> set (B p) \<Longrightarrow> rank h < (rank p :: nat)"
  shows "\<not> dependency_cycle B c"
proof
  assume c: "dependency_cycle B c"
  then have "set c \<noteq> {}" by (simp add: dependency_cycle_def)
  then obtain p where "p \<in> set c" "\<forall>q \<in> set c. rank p \<le> rank q"
    using arg_min_least [of "set c" _ rank] arg_min_if_finite(1) [of "set c" rank] by (metis List.finite_set)
  with dependency_cycle_waits [OF c] assms show False by (meson leD)
qed

section \<open>The compensator\<close>

record compensator =
  co_landed :: "numbering_write list"
  co_failed :: "numbering_write list"
  co_first_before :: "int \<rightharpoonup> pyval"

definition new_compensator :: compensator where
  "new_compensator = \<lparr> co_landed = [], co_failed = [], co_first_before = Map.empty \<rparr>"

definition record_landed :: "int \<Rightarrow> string \<Rightarrow> pyval \<Rightarrow> pyval \<Rightarrow> compensator \<Rightarrow> compensator" where
  "record_landed channel_id name before after c =
     c\<lparr> co_first_before := (if co_first_before c channel_id = None
                            then (co_first_before c)(channel_id \<mapsto> before) else co_first_before c),
        co_landed := co_landed c @ [\<lparr> nw_channel_id = channel_id, nw_name = name,
                                      nw_before = before, nw_after = after \<rparr>] \<rparr>"

definition first_before :: "compensator \<Rightarrow> int \<Rightarrow> pyval" where
  "first_before c channel_id = (case co_first_before c channel_id of Some b \<Rightarrow> b | None \<Rightarrow> PNone)"

definition record_failed :: "int \<Rightarrow> string \<Rightarrow> pyval \<Rightarrow> compensator \<Rightarrow> compensator" where
  "record_failed channel_id name intended c =
     c\<lparr> co_failed := co_failed c @ [\<lparr> nw_channel_id = channel_id, nw_name = name,
                                      nw_before = first_before c channel_id, nw_after = intended \<rparr>] \<rparr>"

definition half_applied :: "compensator \<Rightarrow> bool" where
  "half_applied c = (co_landed c \<noteq> [] \<and> co_failed c \<noteq> [])"

definition restore_write :: "compensator \<Rightarrow> numbering_write \<Rightarrow> numbering_write" where
  "restore_write c w = \<lparr> nw_channel_id = nw_channel_id w, nw_name = nw_name w,
                         nw_before = nw_after w, nw_after = first_before c (nw_channel_id w) \<rparr>"

fun compensation_loop ::
  "compensator \<Rightarrow> int set \<Rightarrow> numbering_write list \<Rightarrow> (number_error, numbering_write list) result" where
  "compensation_loop c seen [] = Inr []"
| "compensation_loop c seen (w # ws) =
     (if nw_channel_id w \<in> seen then compensation_loop c seen ws
      else bind_result (moves (restore_write c w)) (\<lambda>m.
             bind_result (compensation_loop c (insert (nw_channel_id w) seen) ws) (\<lambda>steps.
               Inr (if m then restore_write c w # steps else steps))))"

definition compensation_steps :: "compensator \<Rightarrow> (number_error, numbering_write list) result" where
  "compensation_steps c =
     (if \<not> half_applied c then Inr [] else compensation_loop c {} (rev (co_landed c)))"

text \<open>What the operator is told about a step that did not go through. The two sentences carry the
  numbers themselves, where the source prints them with \<open>format_channel_number\<close>.\<close>

datatype instruction = ClearNumber string int pyval | SetBackTo string int pyval pyval

record recovery =
  re_channel_id :: int
  re_channel_name :: string
  re_current :: pyval
  re_target :: pyval
  re_step :: instruction
  re_error :: string

definition recovery_step :: "numbering_write \<times> string \<Rightarrow> recovery" where
  "recovery_step u = (let step = fst u in
     \<lparr> re_channel_id = nw_channel_id step, re_channel_name = nw_name step,
       re_current = nw_before step, re_target = nw_after step,
       re_step = (if nw_after step = PNone
                  then ClearNumber (nw_name step) (nw_channel_id step) (nw_before step)
                  else SetBackTo (nw_name step) (nw_channel_id step) (nw_after step) (nw_before step)),
       re_error = snd u \<rparr>)"

definition recovery_steps :: "(numbering_write \<times> string) list \<Rightarrow> recovery list" where
  "recovery_steps unrepaired = map recovery_step unrepaired"

text \<open>A lineup, and a run of writes on it. \<open>faithful\<close> says that each landed write was recorded with
  the number the channel really held.\<close>

definition write_to :: "numbering_write \<Rightarrow> (int \<Rightarrow> pyval) \<Rightarrow> int \<Rightarrow> pyval" where
  "write_to w m = m(nw_channel_id w := nw_after w)"

fun faithful :: "(int \<Rightarrow> pyval) \<Rightarrow> numbering_write list \<Rightarrow> bool" where
  "faithful m [] = True"
| "faithful m (w # ws) = (nw_before w = m (nw_channel_id w) \<and> faithful (write_to w m) ws)"

datatype numbering_event = Landed numbering_write | Failed int string pyval

fun record_event :: "numbering_event \<Rightarrow> compensator \<Rightarrow> compensator" where
  "record_event (Landed w) c = record_landed (nw_channel_id w) (nw_name w) (nw_before w) (nw_after w) c"
| "record_event (Failed channel_id name intended) c = record_failed channel_id name intended c"

definition landed_of :: "numbering_event list \<Rightarrow> numbering_write list" where
  "landed_of es = concat (map (\<lambda>e. case e of Landed w \<Rightarrow> [w] | _ \<Rightarrow> []) es)"

definition same_value :: "pyval \<Rightarrow> pyval \<Rightarrow> bool" where
  "same_value a b = (a = b \<or> same_slot a b)"

lemma landed_of_simps [simp]:
  "landed_of [] = []" "landed_of (Landed w # es) = w # landed_of es"
  "landed_of (Failed i n v # es) = landed_of es"
  by (simp_all add: landed_of_def)

definition remembers :: "(int \<Rightarrow> pyval) \<Rightarrow> compensator \<Rightarrow> (int \<Rightarrow> pyval) \<Rightarrow> bool" where
  "remembers m0 c m =
     ((\<forall>i b. co_first_before c i = Some b \<longrightarrow> b = m0 i) \<and> (\<forall>i. co_first_before c i = None \<longrightarrow> m i = m0 i))"

lemma record_event_landed:
  "co_landed (fold record_event es c) = co_landed c @ landed_of es"
proof (induction es arbitrary: c)
  case (Cons e es)
  show ?case by (cases e) (simp_all add: Cons.IH record_landed_def record_failed_def)
qed simp

lemma record_event_failed:
  "co_failed (fold record_event es c) \<noteq> [] \<longleftrightarrow> co_failed c \<noteq> [] \<or> (\<exists>i n v. Failed i n v \<in> set es)"
proof (induction es arbitrary: c)
  case (Cons e es)
  show ?case by (cases e) (auto simp: Cons.IH record_landed_def record_failed_def)
qed simp

lemma record_event_dom:
  "dom (co_first_before (fold record_event es c)) = dom (co_first_before c) \<union> nw_channel_id ` set (landed_of es)"
proof (induction es arbitrary: c)
  case (Cons e es)
  show ?case by (cases e) (auto simp: Cons.IH record_landed_def record_failed_def split: if_splits)
qed simp

lemma remembers_landed:
  assumes "remembers m0 c m" "nw_before w = m (nw_channel_id w)"
  shows "remembers m0 (record_event (Landed w) c) (write_to w m)"
  using assms by (auto simp: remembers_def record_landed_def write_to_def)

lemma remembers_failed: "remembers m0 (record_event (Failed i n v) c) m = remembers m0 c m"
  by (simp add: remembers_def record_failed_def)

lemma record_event_remembers:
  assumes "remembers m0 c m" "faithful m (landed_of es)"
  shows "remembers m0 (fold record_event es c) (fold write_to (landed_of es) m)"
  using assms
proof (induction es arbitrary: c m)
  case (Cons e es)
  then show ?case
    by (cases e) (simp_all add: remembers_landed remembers_failed del: record_event.simps)
qed simp

lemma fold_write_to_find:
  "fold write_to ws m i = (case find (\<lambda>w. nw_channel_id w = i) (rev ws) of Some w \<Rightarrow> nw_after w | None \<Rightarrow> m i)"
  by (induction ws rule: rev_induct) (auto simp: write_to_def)

lemma moves_defined:
  assumes "\<not> int_overflows (nw_before w)" "\<not> int_overflows (nw_after w)"
  shows "moves w = Inr (\<not> same_slot (nw_before w) (nw_after w) \<and> \<not> (nw_before w = PNone \<and> nw_after w = PNone))"
  using assms same_channel_number_defined [OF assms] by (auto simp: moves_def same_slot_def)

lemma moves_False: "moves w = Inr False \<Longrightarrow> same_value (nw_before w) (nw_after w)"
  by (auto simp: moves_def same_value_def same_channel_number_def apply_slot_key_def same_slot_def split: if_splits)

lemma compensation_loop_defined:
  assumes "\<forall>w \<in> set ws. \<not> int_overflows (nw_after w) \<and> \<not> int_overflows (first_before c (nw_channel_id w))"
  shows "\<exists>steps. compensation_loop c seen ws = Inr steps"
  using assms
proof (induction ws arbitrary: seen)
  case (Cons w ws)
  then have "\<exists>m. moves (restore_write c w) = Inr m" by (auto simp: moves_defined restore_write_def)
  moreover have rest: "\<exists>steps. compensation_loop c seen' ws = Inr steps" for seen' using Cons by simp
  obtain s1 s2 where "compensation_loop c seen ws = Inr s1"
    "compensation_loop c (insert (nw_channel_id w) seen) ws = Inr s2"
    using rest [of seen] rest [of "insert (nw_channel_id w) seen"] by auto
  ultimately show ?case by auto
qed simp

lemma compensation_loop_writes:
  assumes "compensation_loop c seen ws = Inr steps"
  shows "nw_channel_id ` set steps \<subseteq> nw_channel_id ` set ws - seen \<and> distinct (map nw_channel_id steps)
    \<and> (\<forall>w \<in> set steps. moves w = Inr True)"
  using assms
proof (induction c seen ws arbitrary: steps rule: compensation_loop.induct)
  case (2 c seen w ws)
  show ?case
  proof (cases "nw_channel_id w \<in> seen")
    case True
    with 2 show ?thesis by auto
  next
    case False
    with "2.prems" obtain m rest where "moves (restore_write c w) = Inr m"
      "compensation_loop c (insert (nw_channel_id w) seen) ws = Inr rest"
      "steps = (if m then restore_write c w # rest else rest)" by auto
    with "2.IH"(2) [OF False, of rest] False show ?thesis
      by (cases m) (auto simp: restore_write_def)
  qed
qed simp

lemma fold_write_to_other: "i \<notin> nw_channel_id ` set ws \<Longrightarrow> fold write_to ws m i = m i"
  by (induction ws arbitrary: m) (auto simp: write_to_def)

text \<open>The effect of the steps, when the first write of each channel in the walked list names the
  number the channel is on.\<close>

lemma compensation_loop_effect:
  assumes "compensation_loop c seen ws = Inr steps"
    and "\<And>i w. i \<notin> seen \<Longrightarrow> find (\<lambda>w. nw_channel_id w = i) ws = Some w \<Longrightarrow> nw_after w = m i"
    and "i \<in> nw_channel_id ` set ws" "i \<notin> seen"
  shows "same_value (fold write_to steps m i) (first_before c i)"
  using assms
proof (induction c seen ws arbitrary: steps m rule: compensation_loop.induct)
  case (2 c seen w ws)
  let ?id = "nw_channel_id w"
  show ?case
  proof (cases "?id \<in> seen")
    case True
    then have i: "i \<noteq> ?id" using "2.prems"(4) by auto
    show ?thesis
    proof (rule "2.IH"(1) [OF True])
      show "compensation_loop c seen ws = Inr steps" using "2.prems"(1) True by simp
      show "nw_after v = m j" if "j \<notin> seen" "find (\<lambda>w. nw_channel_id w = j) ws = Some v" for j v
      proof -
        have "find (\<lambda>w. nw_channel_id w = j) (w # ws) = Some v" using that True by auto
        then show ?thesis by (rule "2.prems"(2) [OF that(1)])
      qed
      show "i \<in> nw_channel_id ` set ws" "i \<notin> seen" using "2.prems"(3,4) i by auto
    qed
  next
    case False
    with "2.prems"(1) obtain b rest where b: "moves (restore_write c w) = Inr b"
      and rest: "compensation_loop c (insert ?id seen) ws = Inr rest"
      and steps: "steps = (if b then restore_write c w # rest else rest)" by auto
    have w: "nw_after w = m ?id" using "2.prems"(2) [OF False, of w] by simp
    show ?thesis
    proof (cases "i = ?id")
      case True
      then have "i \<notin> nw_channel_id ` set rest" using compensation_loop_writes [OF rest] by auto
      then have "fold write_to rest m' i = m' i" for m' by (rule fold_write_to_other)
      moreover have "write_to (restore_write c w) m i = first_before c i"
        using True by (simp add: write_to_def restore_write_def)
      moreover have "\<not> b \<Longrightarrow> same_value (m i) (first_before c i)"
        using b w True moves_False [of "restore_write c w"] by (simp add: restore_write_def)
      ultimately show ?thesis using steps by (cases b) (simp_all add: same_value_def)
    next
      case i: False
      let ?m = "if b then write_to (restore_write c w) m else m"
      have "same_value (fold write_to rest ?m i) (first_before c i)"
      proof (rule "2.IH"(2) [OF False rest])
        show "nw_after v = ?m j" if "j \<notin> insert ?id seen" "find (\<lambda>w. nw_channel_id w = j) ws = Some v" for j v
          using "2.prems"(2) [of j v] that by (auto simp: write_to_def restore_write_def)
        show "i \<in> nw_channel_id ` set ws" "i \<notin> insert ?id seen" using "2.prems"(3,4) i by auto
      qed
      then show ?thesis using steps by (cases b) simp_all
    qed
  qed
qed simp

lemma faithful_before:
  "faithful m ws \<Longrightarrow> i \<in> nw_channel_id ` set ws \<Longrightarrow> \<exists>w \<in> set ws. nw_channel_id w = i \<and> nw_before w = m i"
proof (induction ws arbitrary: m)
  case (Cons w ws)
  show ?case
  proof (cases "nw_channel_id w = i")
    case False
    with Cons.prems have "\<exists>v \<in> set ws. nw_channel_id v = i \<and> nw_before v = write_to w m i"
      by (intro Cons.IH) auto
    with False show ?thesis by (auto simp: write_to_def)
  qed (use Cons.prems in auto)
qed simp

section \<open>What the module guarantees\<close>

text \<open>
  Every plan of representable numbers gets an order: the loop and the cycle walk return, each
  submitted write is sent exactly once, and nothing else is.
\<close>

theorem order_sends_each_write_once:
  assumes "plan_defined ws"
  shows "\<exists>ord. order_numbering_writes ws = Inr ord \<and> mset (no_writes ord) = mset ws"
  using order_defined [OF assms] positions_permutation by (metis numbering_order.select_convs(1))

definition move_write :: "int \<Rightarrow> int \<Rightarrow> int \<Rightarrow> numbering_write" where
  "move_write i a b = \<lparr> nw_channel_id = i, nw_name = [], nw_before = PInt a, nw_after = PInt b \<rparr>"

lemma order_sends_each_write_once_witness:
  "\<exists>ord. order_numbering_writes [move_write 1 5 6, move_write 2 6 5] = Inr ord
     \<and> mset (no_writes ord) = mset [move_write 1 5 6, move_write 2 6 5]"
  by (rule order_sends_each_write_once) (simp add: plan_defined_def move_write_def float_of_int_small)

text \<open>
  What safety of an order means, without reference to the algorithm: write \<open>h\<close> moves its channel off
  the very number write \<open>p\<close> moves another one onto; a position is written too early when some such \<open>h\<close>
  comes after it; a cycle of positions each of which is moved onto the number of the next.
\<close>

definition vacates :: "numbering_write list \<Rightarrow> nat \<Rightarrow> nat \<Rightarrow> bool" where
  "vacates ws h p \<longleftrightarrow> h < length ws \<and> p < length ws \<and> h \<noteq> p \<and>
     same_slot (nw_before (ws ! h)) (nw_after (ws ! p)) \<and> \<not> same_slot (nw_before (ws ! h)) (nw_after (ws ! h))"

definition too_early :: "numbering_write list \<Rightarrow> nat list \<Rightarrow> nat list" where
  "too_early ws ps =
     map ((!) ps) (filter (\<lambda>k. \<exists>h < length ws. vacates ws h (ps ! k) \<and> h \<notin> set (take k ps)) [0..<length ps])"

definition vacating_cycle :: "numbering_write list \<Rightarrow> nat list \<Rightarrow> bool" where
  "vacating_cycle ws c \<longleftrightarrow> c \<noteq> [] \<and> distinct c \<and> (\<forall>i < length c. vacates ws (c ! (Suc i mod length c)) (c ! i))"

lemma blockers_vacates:
  assumes "plan_defined ws"
  shows "h \<in> set (blockers ws p) \<longleftrightarrow> vacates ws h p"
proof (cases "h < length ws \<and> p < length ws")
  case True
  then have d: "\<not> int_overflows (nw_before (ws ! h))" "\<not> int_overflows (nw_after (ws ! h))"
    using assms by (auto simp: plan_defined_def)
  have "moves (ws ! h) = Inr True \<longleftrightarrow> \<not> same_slot (nw_before (ws ! h)) (nw_after (ws ! h))"
    if "slot_of (nw_before (ws ! h)) \<noteq> None"
    using that by (auto simp: moves_defined [OF d] same_slot_def)
  then show ?thesis using True
    by (auto simp: blockers_def leaving_def vacates_def slots.same_iff split: option.splits)
qed (use blockers_less in \<open>auto simp: vacates_def\<close>)

lemma forced_too_early_from:
  assumes "plan_defined ws"
  shows "forced (blockers ws) (set ds) ps =
    map ((!) ps) (filter (\<lambda>k. \<exists>h < length ws. vacates ws h (ps ! k) \<and> h \<notin> set (ds @ take k ps)) [0..<length ps])"
proof (induction ps arbitrary: ds)
  case (Cons p ps)
  have "set (blockers ws p) \<subseteq> set ds \<longleftrightarrow> \<not> (\<exists>h < length ws. vacates ws h p \<and> h \<notin> set ds)"
    using blockers_vacates [OF assms] by (auto simp: vacates_def)
  moreover have "[0..<length (p # ps)] = 0 # map Suc [0..<length ps]"
    by (simp add: map_Suc_upt upt_conv_Cons del: upt_Suc)
  ultimately show ?case
    using Cons.IH [of "ds @ [p]"] by (simp add: filter_map comp_def conj_ac)
qed simp

lemma forced_too_early: "plan_defined ws \<Longrightarrow> forced (blockers ws) {} ps = too_early ws ps"
  using forced_too_early_from [of ws "[]" ps] by (simp add: too_early_def)

lemma dependency_cycle_vacating:
  assumes "plan_defined ws" "dependency_cycle (blockers ws) c"
  shows "vacating_cycle ws c"
proof -
  have "waits_for (blockers ws) (c ! i) (c ! (Suc i mod length c))" if "i < length c" for i
  proof -
    have "waits_for (blockers ws) ((c @ [hd c]) ! i) ((c @ [hd c]) ! Suc i)"
      using assms(2) that by (auto simp: dependency_cycle_def successively_conv_nth)
    moreover have "(c @ [hd c]) ! Suc i = c ! (Suc i mod length c)"
    proof (cases "Suc i < length c")
      case False
      with that have "Suc i = length c" by simp
      then show ?thesis by (cases c) (auto simp: nth_append)
    qed (simp add: nth_append)
    ultimately show ?thesis using that by (simp add: nth_append)
  qed
  then show ?thesis using assms blockers_vacates [OF assms(1)]
    by (simp add: vacating_cycle_def dependency_cycle_def waits_for_def)
qed

text \<open>
  C1. The order is as safe as the plan allows. Take the emitted positions in order. The positions written
  before their number has been vacated - another write of the plan that moves its channel off that number
  comes later - are exactly the breaks of the reported cycles: one per cycle, each the earliest-submitted
  member of a cycle of writes each of which is moved onto the number of the next, and the reported channel
  ids are those of that cycle.
\<close>

theorem only_cycle_breaks_are_forced:
  assumes "plan_defined ws"
  shows "\<exists>ord ps cs. order_numbering_writes ws = Inr ord
     \<and> no_writes ord = map ((!) ws) ps \<and> distinct ps \<and> set ps = {..<length ws}
     \<and> list_all2 (\<lambda>p c. vacating_cycle ws c \<and> p = Min (set c)) (too_early ws ps) cs
     \<and> no_cycles ord = sort (map (cycle_ids ws) cs)"
proof -
  obtain ps cs where o: "order_numbering_writes ws
      = Inr \<lparr> no_writes = map ((!) ws) ps, no_cycles = sort (map (cycle_ids ws) cs) \<rparr>"
    and ps: "distinct ps" "set ps = {..<length ws}"
    and cs: "list_all2 (breaks_cycle ws) (forced (blockers ws) {} ps) cs"
    by (rule order_defined [OF assms])
  have "list_all2 (\<lambda>p c. vacating_cycle ws c \<and> p = Min (set c)) (too_early ws ps) cs"
    using cs unfolding forced_too_early [OF assms]
    by (rule list_all2_mono) (auto simp: breaks_cycle_def dependency_cycle_vacating [OF assms])
  with o ps show ?thesis by auto
qed

lemma only_cycle_breaks_are_forced_witness:
  "\<exists>ord ps cs. order_numbering_writes [move_write 1 5 6, move_write 2 6 5] = Inr ord
     \<and> no_writes ord = map ((!) [move_write 1 5 6, move_write 2 6 5]) ps \<and> distinct ps
     \<and> set ps = {..<length [move_write 1 5 6, move_write 2 6 5]}
     \<and> list_all2 (\<lambda>p c. vacating_cycle [move_write 1 5 6, move_write 2 6 5] c \<and> p = Min (set c))
         (too_early [move_write 1 5 6, move_write 2 6 5] ps) cs
     \<and> no_cycles ord = sort (map (cycle_ids [move_write 1 5 6, move_write 2 6 5]) cs)"
  by (rule only_cycle_breaks_are_forced) (simp add: plan_defined_def move_write_def float_of_int_small)

text \<open>
  C18. A cycle is reported exactly when the plan has no safe order at all: no cycle is reported iff
  the writes can be put into some order in which none is written before its number has been vacated.
\<close>

theorem cycles_reported_iff_unavoidable:
  assumes "plan_defined ws"
  shows "\<exists>ord. order_numbering_writes ws = Inr ord \<and>
    (no_cycles ord = [] \<longleftrightarrow> (\<exists>qs. distinct qs \<and> set qs = {..<length ws} \<and> too_early ws qs = []))"
proof -
  obtain ps cs where o: "order_numbering_writes ws
      = Inr \<lparr> no_writes = map ((!) ws) ps, no_cycles = sort (map (cycle_ids ws) cs) \<rparr>"
    and ps: "distinct ps" "set ps = {..<length ws}"
    and cs: "list_all2 (breaks_cycle ws) (forced (blockers ws) {} ps) cs"
    by (rule order_defined [OF assms])
  have safe: "too_early ws ps = []" if "cs = []" using cs that forced_too_early [OF assms] by simp
  have "cs = []" if qs: "distinct qs" "set qs = {..<length ws}" "too_early ws qs = []" for qs
  proof (rule ccontr)
    assume "cs \<noteq> []"
    then obtain p c where c: "breaks_cycle ws p c" using cs by (cases cs) (auto simp: list_all2_Cons2)
    let ?rank = "the_inv_into {..<length qs} ((!) qs)"
    have inv: "?rank (qs ! i) = i" if "i < length qs" for i
      using that qs(1) by (simp add: the_inv_into_f_f inj_on_nth)
    have "?rank h < ?rank p" if h: "h \<in> set (blockers ws p)" for p h
    proof -
      have "p \<in> set qs" using h blockers_vacates [OF assms] qs(2) by (auto simp: vacates_def)
      then obtain k where k: "k < length qs" "qs ! k = p" by (auto simp: in_set_conv_nth)
      have "forced (blockers ws) {} qs = []" using qs(3) forced_too_early [OF assms] by simp
      then have "h \<in> set (take k qs)" using h k by (auto simp: forced_Nil)
      then obtain j where "j < k" "qs ! j = h" using k by (auto simp: in_set_conv_nth)
      with inv k show ?thesis by (metis order_less_trans)
    qed
    with ranked_no_cycle [of "blockers ws" ?rank c] c show False by (simp add: breaks_cycle_def)
  qed
  moreover have "sort (map (cycle_ids ws) cs) = [] \<longleftrightarrow> cs = []"
    by (metis length_0_conv length_map length_sort)
  ultimately show ?thesis using o ps safe by auto
qed

lemma cycles_reported_iff_unavoidable_witness:
  "\<exists>ord. order_numbering_writes [move_write 1 5 6] = Inr ord \<and>
    (no_cycles ord = [] \<longleftrightarrow> (\<exists>qs. distinct qs \<and> set qs = {..<length [move_write 1 5 6]} \<and>
       too_early [move_write 1 5 6] qs = []))"
  by (rule cycles_reported_iff_unavoidable) (simp add: plan_defined_def move_write_def float_of_int_small)

lemma order_independent:
  assumes "plan_defined ws" "\<forall>p < length ws. blockers ws p = []"
  shows "order_numbering_writes ws = Inr \<lparr> no_writes = ws, no_cycles = [] \<rparr>"
proof (cases "ws = []")
  case False
  have ordered: "os_ordered (fold (release ws) qs st) = os_ordered st @ qs"
    and cycles: "os_cycles (fold (release ws) qs st) = os_cycles st" for qs st
    by (induction qs arbitrary: st) simp_all
  have remaining: "fold remove1 xs xs = []" for xs :: "nat list" by (induction xs) simp_all
  let ?st = "\<lparr> os_remaining = [0..<length ws], os_blockers = blockers ws, os_ordered = [], os_cycles = [] \<rparr>"
  have ready: "filter (\<lambda>q. blockers ws q = []) [0..<length ws] = [0..<length ws]"
    using assms(2) by (intro filter_True) simp
  have "order_loop ws ?st = order_loop ws (fold (release ws) [0..<length ws] ?st)"
    using False ready by (subst order_loop.simps) (simp add: Let_def del: upt_rec_numeral)
  also have "\<dots> = Inr (fold (release ws) [0..<length ws] ?st)"
    by (subst order_loop.simps) (simp add: fold_release_remaining remaining)
  finally show ?thesis
    using False assms(1)
    by (auto simp: order_numbering_writes_def plan_defined_def ordered cycles map_nth [of ws, unfolded fun_eq_iff])
qed (simp add: order_numbering_writes_def)

lemma two_moves:
  "plan_defined [move_write 1 5 6, move_write 2 7 8]"
  "\<forall>p < length [move_write 1 5 6, move_write 2 7 8]. blockers [move_write 1 5 6, move_write 2 7 8] p = []"
  by (simp_all add: plan_defined_def move_write_def float_of_int_small blockers_def leaving_def int_slot
      moves_defined All_less_Suc2 less_Suc_eq upt_rec)

text \<open>
  A plan in which no write waits for another comes back untouched.
\<close>

theorem independent_plan_is_unchanged:
  assumes "plan_defined ws" "\<forall>p < length ws. blockers ws p = []"
  shows "order_numbering_writes ws = Inr \<lparr> no_writes = ws, no_cycles = [] \<rparr>"
  using assms by (rule order_independent)

lemma independent_plan_is_unchanged_witness:
  "order_numbering_writes [move_write 1 5 6, move_write 2 7 8]
     = Inr \<lparr> no_writes = [move_write 1 5 6, move_write 2 7 8], no_cycles = [] \<rparr>"
  by (rule independent_plan_is_unchanged) (rule two_moves)+

text \<open>The number position \<open>p\<close> holds once the positions in \<open>sent\<close> are written.\<close>

definition holding :: "numbering_write list \<Rightarrow> nat set \<Rightarrow> nat \<Rightarrow> pyval" where
  "holding ws sent p = (if p \<in> sent then nw_after (ws ! p) else nw_before (ws ! p))"

lemma no_new_sharing:
  assumes "plan_defined ws" "p < length ws" "q < length ws" "p \<noteq> q"
    and "\<not> same_slot (nw_after (ws ! p)) (nw_after (ws ! q))"
    and "p \<in> sent \<Longrightarrow> set (blockers ws p) \<subseteq> sent"
    and "same_slot (holding ws sent p) (holding ws sent q)"
  shows "p \<notin> sent"
proof
  assume p: "p \<in> sent"
  with assms have q: "q \<notin> sent" and same: "same_slot (nw_after (ws ! p)) (nw_before (ws ! q))"
    by (auto simp: holding_def split: if_splits)
  have d: "\<not> int_overflows (nw_before (ws ! q))" "\<not> int_overflows (nw_after (ws ! q))"
    using assms(1,3) by (auto simp: plan_defined_def)
  have "\<not> same_slot (nw_before (ws ! q)) (nw_after (ws ! q))"
    using same assms(5) slots.same_trans by blast
  moreover have "nw_before (ws ! q) \<noteq> PNone" using same by (auto simp: same_slot_def)
  ultimately have "moves (ws ! q) = Inr True" by (simp add: moves_defined [OF d])
  with same assms(2-4) have "q \<in> set (blockers ws p)"
    by (auto simp: blockers_def leaving_def slots.same_iff)
  with assms(6) [OF p] q show False by blast
qed

text \<open>
  Where no cycle is reported and the plan puts no two channels on one number, no intermediate
  state creates a shared number: whenever two channels of the plan stand on one number part way
  through the run, neither of them has been written yet, so they shared it before the run began.
\<close>

theorem acyclic_plan_never_creates_sharing:
  assumes "plan_defined ws"
    and "\<forall>p < length ws. \<forall>q < length ws. p \<noteq> q \<longrightarrow> \<not> same_slot (nw_after (ws ! p)) (nw_after (ws ! q))"
    and "order_numbering_writes ws = Inr ord" "no_cycles ord = []"
  shows "\<exists>ps. no_writes ord = map ((!) ws) ps \<and> distinct ps \<and> set ps = {..<length ws} \<and>
    (\<forall>k p q. p < length ws \<and> q < length ws \<and> p \<noteq> q
       \<and> same_slot (holding ws (set (take k ps)) p) (holding ws (set (take k ps)) q)
       \<longrightarrow> p \<notin> set (take k ps) \<and> q \<notin> set (take k ps))"
proof -
  obtain ps cs where o: "order_numbering_writes ws
      = Inr \<lparr> no_writes = map ((!) ws) ps, no_cycles = sort (map (cycle_ids ws) cs) \<rparr>"
    and ps: "distinct ps" "set ps = {..<length ws}"
    and cs: "list_all2 (breaks_cycle ws) (forced (blockers ws) {} ps) cs"
    by (rule order_defined [OF assms(1)])
  with assms(3,4) have "cs = []" by (metis Inr_inject length_0_conv length_map length_sort numbering_order.select_convs(2))
  with cs have f: "forced (blockers ws) {} ps = []" by simp
  have sent: "set (blockers ws p) \<subseteq> set (take k ps)" if p: "p \<in> set (take k ps)" for p k
  proof -
    from p obtain j where j: "j < k" "j < length ps" "ps ! j = p" by (auto simp: in_set_conv_nth)
    then have "set (blockers ws p) \<subseteq> set (take j ps)" using f by (auto simp: forced_Nil)
    also have "\<dots> \<subseteq> set (take k ps)" using j(1) by (intro set_take_subset_set_take) simp
    finally show ?thesis .
  qed
  have "p \<notin> set (take k ps)"
    if "p < length ws" "q < length ws" "p \<noteq> q"
      "same_slot (holding ws (set (take k ps)) p) (holding ws (set (take k ps)) q)" for k p q
    using that assms(1,2) sent by (intro no_new_sharing [OF assms(1) that(1-3)]) auto
  then have "p \<notin> set (take k ps) \<and> q \<notin> set (take k ps)"
    if "p < length ws \<and> q < length ws \<and> p \<noteq> q
      \<and> same_slot (holding ws (set (take k ps)) p) (holding ws (set (take k ps)) q)" for k p q
    using that slots.same_sym by blast
  with o ps assms(3) show ?thesis by auto
qed

lemma acyclic_plan_never_creates_sharing_witness:
  "\<exists>ps. [move_write 1 5 6, move_write 2 7 8] = map ((!) [move_write 1 5 6, move_write 2 7 8]) ps \<and> distinct ps
    \<and> set ps = {..<length [move_write 1 5 6, move_write 2 7 8]} \<and>
    (\<forall>k p q. p < length [move_write 1 5 6, move_write 2 7 8] \<and> q < length [move_write 1 5 6, move_write 2 7 8]
       \<and> p \<noteq> q \<and> same_slot (holding [move_write 1 5 6, move_write 2 7 8] (set (take k ps)) p)
                       (holding [move_write 1 5 6, move_write 2 7 8] (set (take k ps)) q)
       \<longrightarrow> p \<notin> set (take k ps) \<and> q \<notin> set (take k ps))"
  using acyclic_plan_never_creates_sharing [OF two_moves(1) _ order_independent [OF two_moves]]
  by (simp add: move_write_def All_less_Suc2 less_Suc_eq same_slot_def int_slot)

text \<open>
  C2. Compensation puts the lineup back. Record a run in which every landed write was noted with the
  number the channel really held and in which at least one write landed and one failed; then the
  compensation steps exist, touch each channel at most once, all change something, and applying them
  to the lineup the run left behind gives every channel the number it held before the run - also a
  channel the run moved several times.
\<close>

theorem compensation_restores_the_lineup:
  assumes "faithful lineup (landed_of es)" "plan_defined (landed_of es)"
    and "landed_of es \<noteq> []" "Failed i n v \<in> set es"
  shows "\<exists>steps. compensation_steps (fold record_event es new_compensator) = Inr steps
    \<and> distinct (map nw_channel_id steps) \<and> (\<forall>w \<in> set steps. moves w = Inr True)
    \<and> (\<forall>c. same_value (fold write_to (landed_of es @ steps) lineup c) (lineup c))"
proof -
  let ?c = "fold record_event es new_compensator"
  have half: "half_applied ?c" and landed: "co_landed ?c = landed_of es"
    using assms(3,4) record_event_failed [of es new_compensator]
    by (auto simp: half_applied_def record_event_landed new_compensator_def)
  have "remembers lineup ?c (fold write_to (landed_of es) lineup)"
    by (rule record_event_remembers) (use assms(1) in \<open>simp_all add: remembers_def new_compensator_def\<close>)
  moreover have "c \<in> dom (co_first_before ?c)" if "c \<in> nw_channel_id ` set (landed_of es)" for c
    using that by (simp add: record_event_dom)
  ultimately have first: "first_before ?c c = lineup c" if "c \<in> nw_channel_id ` set (landed_of es)" for c
    using that by (fastforce simp: remembers_def first_before_def)
  have "\<forall>w \<in> set (landed_of es). \<not> int_overflows (nw_after w) \<and> \<not> int_overflows (first_before ?c (nw_channel_id w))"
    using assms(2) faithful_before [OF assms(1)] first by (metis image_eqI plan_defined_def)
  then obtain steps where "compensation_loop ?c {} (rev (landed_of es)) = Inr steps"
    using compensation_loop_defined [of "rev (landed_of es)" ?c "{}"] by auto
  note steps = this
  have "same_value (fold write_to steps (fold write_to (landed_of es) lineup) c) (lineup c)" for c
  proof (cases "c \<in> nw_channel_id ` set (landed_of es)")
    case True
    have "same_value (fold write_to steps (fold write_to (landed_of es) lineup) c) (first_before ?c c)"
      using True by (intro compensation_loop_effect [OF steps]) (auto simp: fold_write_to_find [of "landed_of es"])
    then show ?thesis by (simp add: first True)
  next
    case False
    moreover have "c \<notin> nw_channel_id ` set steps" using compensation_loop_writes [OF steps] False by auto
    ultimately show ?thesis by (simp add: fold_write_to_other same_value_def)
  qed
  then show ?thesis
    using steps compensation_loop_writes [OF steps] half landed by (auto simp: compensation_steps_def)
qed

lemma compensation_restores_the_lineup_witness:
  "\<exists>steps. compensation_steps (fold record_event
        [Landed (move_write 1 5 6), Landed (move_write 1 6 7), Failed 2 [] (PInt 6)] new_compensator) = Inr steps
    \<and> distinct (map nw_channel_id steps) \<and> (\<forall>w \<in> set steps. moves w = Inr True)
    \<and> (\<forall>c. same_value (fold write_to (landed_of
        [Landed (move_write 1 5 6), Landed (move_write 1 6 7), Failed 2 [] (PInt 6)] @ steps) (\<lambda>_. PInt 5) c) (PInt 5))"
  by (rule compensation_restores_the_lineup [where i = 2 and n = "[]" and v = "PInt 6"])
    (simp_all add: plan_defined_def move_write_def write_to_def float_of_int_small)

definition vacated_in_order :: "numbering_write list \<Rightarrow> bool" where
  "vacated_in_order = sorted_wrt (\<lambda>s t. \<not> same_slot (nw_after s) (nw_before t))"

lemma compensation_loop_distinct:
  assumes "compensation_loop c seen ws = Inr steps" "distinct (map nw_channel_id ws)"
    and "nw_channel_id ` set ws \<inter> seen = {}"
  shows "steps = map (restore_write c) (filter (\<lambda>w. moves (restore_write c w) = Inr True) ws)"
  using assms
proof (induction ws arbitrary: seen steps)
  case (Cons w ws)
  then obtain b rest where "moves (restore_write c w) = Inr b"
    "compensation_loop c (insert (nw_channel_id w) seen) ws = Inr rest"
    "steps = (if b then restore_write c w # rest else rest)" by auto
  moreover from this Cons.prems have "rest = map (restore_write c) (filter (\<lambda>w. moves (restore_write c w) = Inr True) ws)"
    by (intro Cons.IH [of "insert (nw_channel_id w) seen"]) auto
  ultimately show ?case by (cases b) simp_all
qed simp

lemma order_prefix_vacates:
  assumes "plan_defined ws" "distinct ps" "set ps = {..<length ws}" "forced (blockers ws) {} ps = []"
    and "j < i" "i < length ps" "moves (ws ! (ps ! i)) = Inr True"
  shows "\<not> same_slot (nw_before (ws ! (ps ! i))) (nw_after (ws ! (ps ! j)))"
proof
  assume same: "same_slot (nw_before (ws ! (ps ! i))) (nw_after (ws ! (ps ! j)))"
  have "ps ! i < length ws" "ps ! j < length ws" "ps ! i \<noteq> ps ! j"
    using assms nth_mem [of i ps] nth_mem [of j ps] by (auto simp: nth_eq_iff_index_eq)
  with same assms(7) have "ps ! i \<in> set (blockers ws (ps ! j))"
    by (auto simp: blockers_def leaving_def slots.same_iff)
  moreover have "set (blockers ws (ps ! j)) \<subseteq> set (take j ps)"
    using assms(4-6) forced_Nil [of "blockers ws" "{}" ps] by simp
  ultimately have "ps ! i \<in> set (take j ps)" by blast
  then obtain m where "m < j" "ps ! m = ps ! i" using assms(5,6) by (auto simp: in_set_conv_nth)
  then show False using assms(2,5,6) by (simp add: nth_eq_iff_index_eq)
qed

lemma moves_inverse:
  assumes "\<not> int_overflows (nw_before w)" "\<not> int_overflows (nw_after w)"
  shows "moves (inverse_write w) = moves w"
  using assms by (auto simp: moves_defined inverse_write_def same_slot_def)

lemma landed_of_map [simp]: "landed_of (map Landed ws @ es) = ws @ landed_of es"
  by (induction ws) simp_all

lemma faithful_distinct:
  "distinct (map nw_channel_id ws) \<Longrightarrow> \<forall>w \<in> set ws. nw_before w = m (nw_channel_id w) \<Longrightarrow> faithful m ws"
proof (induction ws arbitrary: m)
  case (Cons w ws)
  have "nw_before v = write_to w m (nw_channel_id v)" if "v \<in> set ws" for v
  proof -
    have "nw_channel_id v \<noteq> nw_channel_id w" using that Cons.prems(1) by (auto simp: image_iff)
    with that Cons.prems(2) show ?thesis by (simp add: write_to_def)
  qed
  with Cons show ?case by simp
qed simp

lemma restore_write_distinct:
  assumes "distinct (map nw_channel_id (landed_of es))" "w \<in> set (landed_of es)"
  shows "restore_write (fold record_event es new_compensator) w = inverse_write w"
proof -
  let ?ws = "landed_of es" and ?c = "fold record_event es new_compensator"
  define m where "m = nw_before \<circ> the_inv_into (set ?ws) nw_channel_id"
  have m: "nw_before v = m (nw_channel_id v)" if "v \<in> set ?ws" for v
    using that assms(1) by (simp add: m_def distinct_map the_inv_into_f_f)
  then have "faithful m ?ws" using assms(1) by (simp add: faithful_distinct)
  then have "remembers m ?c (fold write_to ?ws m)"
    by (intro record_event_remembers) (simp_all add: remembers_def new_compensator_def)
  moreover have "nw_channel_id w \<in> dom (co_first_before ?c)" using assms(2) by (simp add: record_event_dom)
  ultimately have "first_before ?c (nw_channel_id w) = nw_before w"
    using m [OF assms(2)] by (fastforce simp: remembers_def first_before_def)
  then show ?thesis by (simp add: restore_write_def inverse_write_def)
qed

lemma vacated_inverse:
  assumes "sorted_wrt (\<lambda>s t. moves t = Inr True \<longrightarrow> \<not> same_slot (nw_before t) (nw_after s)) ws"
  shows "vacated_in_order (map inverse_write (filter (\<lambda>w. moves w = Inr True) (rev ws)))"
  using assms
  by (induction ws) (auto simp: vacated_in_order_def sorted_wrt_append inverse_write_def)

definition swap_plan :: "numbering_write list" where
  "swap_plan = [move_write 1 5 6, move_write 2 6 5, move_write 3 9 5]"

lemma swap_plan_nth:
  "length swap_plan = 3" "swap_plan ! 0 = move_write 1 5 6" "swap_plan ! 1 = move_write 2 6 5"
  "swap_plan ! 2 = move_write 3 9 5" "[0..<3] = [0, 1, 2]"
  by (simp_all add: swap_plan_def upt_rec)

lemma move_write_facts:
  "nw_channel_id (move_write i a b) = i"
  "\<bar>a\<bar> \<le> 2 ^ 49 \<Longrightarrow> slot_of (nw_before (move_write i a b)) = Some (SlotTick (a * 10))"
  "\<bar>b\<bar> \<le> 2 ^ 49 \<Longrightarrow> slot_of (nw_after (move_write i a b)) = Some (SlotTick (b * 10))"
  "\<bar>a\<bar> \<le> 2 ^ 49 \<Longrightarrow> \<bar>b\<bar> \<le> 2 ^ 49 \<Longrightarrow> moves (move_write i a b) = Inr (a \<noteq> b)"
  "\<bar>a\<bar> \<le> 2 ^ 49 \<Longrightarrow> \<not> int_overflows (nw_before (move_write i a b))"
  "\<bar>b\<bar> \<le> 2 ^ 49 \<Longrightarrow> \<not> int_overflows (nw_after (move_write i a b))"
  by (simp_all add: move_write_def int_slot moves_defined same_slot_def del: int_overflows.simps)

lemma swap_plan_blockers:
  "blockers swap_plan 0 = [1]" "blockers swap_plan 1 = [0]" "blockers swap_plan 2 = [0]"
  by (simp_all add: blockers_def leaving_def swap_plan_nth move_write_facts del: One_nat_def)

lemma swap_plan_blocking:
  "blocking swap_plan 0 = [1, 2]" "blocking swap_plan 1 = [0]" "blocking swap_plan 2 = []"
  by (simp_all add: blocking_def swap_plan_blockers swap_plan_nth del: One_nat_def)

lemma swap_plan_order:
  "order_loop swap_plan \<lparr> os_remaining = [0, 1, 2], os_blockers = blockers swap_plan, os_ordered = [], os_cycles = [] \<rparr>
    = Inr \<lparr> os_remaining = [], os_blockers = (blockers swap_plan)(1 := [], 2 := [], 0 := []),
            os_ordered = [0, 1, 2], os_cycles = [[1, 2]] \<rparr>"
  by (simp add: order_loop.simps cycle_walk.simps next_blocker_def cycle_from_def release_def
      swap_plan_blockers swap_plan_blocking swap_plan_nth move_write_facts Let_def del: One_nat_def)

text \<open>
  Reverse order is safe where the plan needed no forced move. Take a plan with one write per
  channel that was ordered without a cycle, let any prefix of that order land and another write
  fail: no compensation step puts a channel on a number that a later compensation step still has to
  vacate.
\<close>

theorem acyclic_compensation_vacates_in_order:
  assumes "plan_defined ws" "distinct (map nw_channel_id ws)"
    and "order_numbering_writes ws = Inr ord" "no_cycles ord = []"
    and "es = map Landed (take k (no_writes ord)) @ [Failed i n v]"
    and "compensation_steps (fold record_event es new_compensator) = Inr steps"
  shows "vacated_in_order steps"
proof -
  obtain ps cs where o: "order_numbering_writes ws
      = Inr \<lparr> no_writes = map ((!) ws) ps, no_cycles = sort (map (cycle_ids ws) cs) \<rparr>"
    and ps: "distinct ps" "set ps = {..<length ws}"
    and cs: "list_all2 (breaks_cycle ws) (forced (blockers ws) {} ps) cs"
    by (rule order_defined [OF assms(1)])
  with assms(3,4) have "cs = []"
    by (metis Inr_inject length_0_conv length_map length_sort numbering_order.select_convs(2))
  with cs have f: "forced (blockers ws) {} ps = []" by simp
  let ?L = "take k (map ((!) ws) ps)" and ?c = "fold record_event es new_compensator"
  have es: "landed_of es = ?L" using assms(3,5) o by auto
  have mem: "set ?L \<subseteq> set ws"
    using ps(2) set_take_subset [of k "map ((!) ws) ps"] by (auto simp: subset_iff)
  have "mset (map nw_channel_id (map ((!) ws) ps)) = mset (map nw_channel_id ws)"
    using positions_permutation [OF ps] by (metis mset_map)
  then have "distinct (map nw_channel_id (map ((!) ws) ps))" using assms(2) mset_eq_imp_distinct_iff by blast
  then have d: "distinct (map nw_channel_id ?L)" by (metis distinct_take take_map)
  have inv: "restore_write ?c w = inverse_write w" if "w \<in> set ?L" for w
    using that restore_write_distinct [of es] d by (simp add: es)
  have mov: "moves (inverse_write w) = moves w" if "w \<in> set ?L" for w
    using that mem assms(1) by (simp add: moves_inverse plan_defined_def subset_iff)
  have "steps = map inverse_write (filter (\<lambda>w. moves w = Inr True) (rev ?L))" if "half_applied ?c"
  proof -
    have "compensation_loop ?c {} (rev ?L) = Inr steps"
      using assms(6) that es by (simp add: compensation_steps_def record_event_landed new_compensator_def)
    then have "steps = map (restore_write ?c) (filter (\<lambda>w. moves (restore_write ?c w) = Inr True) (rev ?L))"
      by (rule compensation_loop_distinct) (use d in \<open>simp_all add: rev_map [symmetric] take_map\<close>)
    also have "\<dots> = map inverse_write (filter (\<lambda>w. moves w = Inr True) (rev ?L))"
      by (intro map_cong filter_cong refl) (auto simp del: take_map simp: inv mov)
    finally show ?thesis .
  qed
  moreover have "steps = []" if "\<not> half_applied ?c" using assms(6) that by (simp add: compensation_steps_def)
  moreover have "sorted_wrt (\<lambda>s t. moves t = Inr True \<longrightarrow> \<not> same_slot (nw_before t) (nw_after s)) ?L"
    using order_prefix_vacates [OF assms(1) ps f] by (simp add: sorted_wrt_iff_nth_less)
  then have "vacated_in_order (map inverse_write (filter (\<lambda>w. moves w = Inr True) (rev ?L)))"
    by (rule vacated_inverse)
  ultimately show ?thesis by (cases "half_applied ?c") (auto simp: vacated_in_order_def)
qed

lemma acyclic_compensation_vacates_in_order_witness:
  "vacated_in_order [move_write 2 8 7, move_write 1 6 5]"
proof (rule acyclic_compensation_vacates_in_order [OF two_moves(1) _ order_independent [OF two_moves] _ refl,
      where k = 2 and i = 3 and n = "[]" and v = "PInt 9"])
  show "distinct (map nw_channel_id [move_write 1 5 6, move_write 2 7 8])" by (simp add: move_write_facts)
  show "compensation_steps (fold record_event (map Landed (take 2 (no_writes
      \<lparr> no_writes = [move_write 1 5 6, move_write 2 7 8], no_cycles = [] \<rparr>)) @ [Failed 3 [] (PInt 9)])
      new_compensator) = Inr [move_write 2 8 7, move_write 1 6 5]"
    by (simp add: compensation_steps_def half_applied_def record_landed_def record_failed_def
        new_compensator_def restore_write_def first_before_def move_write_def moves_defined float_of_int_small
        same_slot_def int_slot)
qed simp

text \<open>
  It is not safe after a broken cycle. Swap the numbers of two channels and let a third move
  onto one of them: the ordering reports the cycle, the two swapped writes land, the third fails,
  and the first compensation step moves channel 2 back onto 6 while channel 1, whose own step comes
  later, is still standing there. The docstring of \<open>compensation_steps\<close> claims the opposite.
\<close>

theorem compensating_a_swap_shares_a_number:
  "order_numbering_writes swap_plan = Inr \<lparr> no_writes = swap_plan, no_cycles = [[1, 2]] \<rparr>
   \<and> compensation_steps (fold record_event
       [Landed (swap_plan ! 0), Landed (swap_plan ! 1), Failed 3 [] (PInt 5)] new_compensator)
     = Inr [move_write 2 5 6, move_write 1 6 5]
   \<and> \<not> vacated_in_order [move_write 2 5 6, move_write 1 6 5]"
proof (intro conjI)
  show "order_numbering_writes swap_plan = Inr \<lparr> no_writes = swap_plan, no_cycles = [[1, 2]] \<rparr>"
    using swap_plan_order
    by (simp add: order_numbering_writes_def swap_plan_nth del: One_nat_def)
       (simp add: swap_plan_def move_write_facts del: int_overflows.simps)
  show "\<not> vacated_in_order [move_write 2 5 6, move_write 1 6 5]"
    by (simp add: vacated_in_order_def same_slot_def move_write_facts)
  show "compensation_steps (fold record_event
       [Landed (swap_plan ! 0), Landed (swap_plan ! 1), Failed 3 [] (PInt 5)] new_compensator)
     = Inr [move_write 2 5 6, move_write 1 6 5]"
    by (simp add: swap_plan_def compensation_steps_def half_applied_def record_landed_def record_failed_def
        new_compensator_def restore_write_def first_before_def move_write_def moves_defined float_of_int_small
        same_slot_def int_slot)
qed

end
