(* ===== verification/NumberPlan.thy ===== *)
theory NumberPlan
  imports Slots
begin

text \<open>
  The final channel numbering a bulk commit proposes, \<open>backend/channel_number_plan.py\<close>:
  \<open>build_final_numbering_state\<close> replays the request on the lineup, \<open>evaluate_final_numbering\<close>
  reports what is wrong with the result. The dictionary of placements is a map together with the
  \<open>order\<close> list of the source; a request operation is one constructor per \<open>type\<close> the code tests.
  Operator messages are kept as the data they are composed from.
\<close>

record acknowledgement =
  ack_slot :: slot
  ack_occupants :: "int set"

record placement =
  pl_channel_id :: int
  pl_name :: string
  pl_number :: pyval
  pl_base_number :: pyval
  pl_is_new :: bool
  pl_touched_by :: "nat list"
  pl_acknowledgement :: "acknowledgement option"

text \<open>The property \<open>_Placement.moved\<close>.\<close>

definition moved :: "placement \<Rightarrow> (number_error, bool) result" where
  "moved p =
     (if pl_is_new p then Inr True
      else if pl_base_number p = PNone \<and> pl_number p = PNone then Inr False
      else if pl_base_number p = PNone \<or> pl_number p = PNone then Inr True
      else bind_result (plan_same_number (pl_base_number p) (pl_number p)) (\<lambda>same. Inr (\<not> same)))"

section \<open>The request\<close>

text \<open>\<open>acknowledgedDuplicate\<close>: the number and the \<open>occupantChannelIds\<close>, which may hold any value.\<close>

record acknowledged =
  ad_number :: pyval
  ad_occupants :: "pyval list"

datatype operation =
    UpdateChannel int pyval "acknowledged option"
  | CreateChannel int "string option" pyval "acknowledged option"
  | DeleteChannel int
  | BulkAssignChannelNumbers "int list" "pyfloat option" "acknowledged option"
  | OtherOperation

record existing_channel =
  ec_id :: "int option"
  ec_name :: "string option"
  ec_channel_number :: pyval

text \<open>\<open>_acknowledgement\<close>: an acknowledgement whose number is no finite number counts as absent.\<close>

definition usable_acknowledgement ::
  "acknowledged option \<Rightarrow> (number_error, acknowledged option) result" where
  "usable_acknowledgement a =
     (case a of
        None \<Rightarrow> Inr None
      | Some ack \<Rightarrow>
          if \<not> is_number (ad_number ack) then Inr None
          else case to_float (ad_number ack) of
                 None \<Rightarrow> Inl OverflowError
               | Some f \<Rightarrow> if \<not> is_finite f then Inr None else Inr (Some ack))"

definition int_ids :: "pyval list \<Rightarrow> int set" where
  "int_ids vs = set (concat (map (\<lambda>v. case v of PInt i \<Rightarrow> [i] | _ \<Rightarrow> []) vs))"

definition set_number ::
  "pyval \<Rightarrow> nat \<Rightarrow> acknowledged option \<Rightarrow> placement \<Rightarrow> (number_error, placement) result" where
  "set_number value index a p =
     (let p' = p\<lparr> pl_number := value, pl_touched_by := pl_touched_by p @ [index] \<rparr> in
      bind_result (usable_acknowledgement a) (\<lambda>u. case u of
          None \<Rightarrow> Inr (p'\<lparr> pl_acknowledgement := None \<rparr>)
        | Some ack \<Rightarrow> bind_result (plan_slot_key (ad_number ack)) (\<lambda>slot.
            Inr (p'\<lparr> pl_acknowledgement := Some \<lparr> ack_slot = slot, ack_occupants = int_ids (ad_occupants ack) \<rparr> \<rparr>))))"

text \<open>\<open>start + offset\<close>: integers add exactly, a float start rounds.\<close>

fun add_offset :: "pyval \<Rightarrow> nat \<Rightarrow> pyval" where
  "add_offset (PInt n) k = PInt (n + int k)"
| "add_offset (PFloat (Fin x)) k =
     (let s = fl (x + of_nat k) in PFloat (if s < 2 ^ 1024 then Fin s else Inf))"
| "add_offset v k = v"

section \<open>The final state\<close>

record numbering_state =
  by_id :: "int \<rightharpoonup> placement"
  order :: "int list"

definition or_default :: "string option \<Rightarrow> int \<Rightarrow> string" where
  "or_default name i = (case name of Some n \<Rightarrow> if n = [] then ''Channel '' @ py_str_int i else n
                                   | None \<Rightarrow> ''Channel '' @ py_str_int i)"

definition add_existing :: "existing_channel \<Rightarrow> numbering_state \<Rightarrow> numbering_state" where
  "add_existing ch st =
     (case ec_id ch of
        None \<Rightarrow> st
      | Some i \<Rightarrow> st\<lparr> by_id := (by_id st)(i \<mapsto>
            \<lparr> pl_channel_id = i, pl_name = or_default (ec_name ch) i,
              pl_number = ec_channel_number ch, pl_base_number = ec_channel_number ch,
              pl_is_new = False, pl_touched_by = [], pl_acknowledgement = None \<rparr>),
          order := order st @ [i] \<rparr>)"

definition initial_state :: "existing_channel list \<Rightarrow> numbering_state" where
  "initial_state existing = fold add_existing existing \<lparr> by_id = Map.empty, order = [] \<rparr>"

definition update_placement ::
  "int \<Rightarrow> (placement \<Rightarrow> (number_error, placement) result) \<Rightarrow> numbering_state \<Rightarrow> (number_error, numbering_state) result" where
  "update_placement i f st =
     (case by_id st i of
        None \<Rightarrow> Inr st
      | Some p \<Rightarrow> bind_result (f p) (\<lambda>p'. Inr (st\<lparr> by_id := (by_id st)(i \<mapsto> p') \<rparr>)))"

text \<open>\<open>op.data if isinstance(op.data, dict) else {}\<close>, looked up.\<close>

definition payload_field :: "pyval \<Rightarrow> string \<Rightarrow> pyval option" where
  "payload_field data k = (case data of PDict d \<Rightarrow> map_of d k | _ \<Rightarrow> None)"

definition rename :: "pyval \<Rightarrow> placement \<Rightarrow> placement" where
  "rename data p = (case payload_field data ''name'' of Some (PStr n) \<Rightarrow> p\<lparr> pl_name := n \<rparr> | _ \<Rightarrow> p)"

definition renumber :: "pyval \<Rightarrow> nat \<Rightarrow> acknowledged option \<Rightarrow> placement \<Rightarrow> (number_error, placement) result" where
  "renumber data index a p =
     (case payload_field data ''channel_number'' of Some v \<Rightarrow> set_number v index a p | None \<Rightarrow> Inr p)"

definition new_placement :: "int \<Rightarrow> string option \<Rightarrow> placement" where
  "new_placement i name = \<lparr> pl_channel_id = i, pl_name = or_default name i, pl_number = PNone,
     pl_base_number = PNone, pl_is_new = True, pl_touched_by = [], pl_acknowledgement = None \<rparr>"

fun apply_operation :: "nat \<times> operation \<Rightarrow> numbering_state \<Rightarrow> (number_error, numbering_state) result" where
  "apply_operation (index, UpdateChannel i data a) st =
     update_placement i (\<lambda>p. renumber data index a (rename data p)) st"
| "apply_operation (index, CreateChannel i name number a) st =
     bind_result (set_number number index a (new_placement i name)) (\<lambda>p.
       Inr \<lparr> by_id = (by_id st)(i \<mapsto> p), order = order st @ [i] \<rparr>)"
| "apply_operation (index, DeleteChannel i) st =
     (if by_id st i = None then Inr st
      else Inr \<lparr> by_id = (by_id st)(i := None), order = filter (\<lambda>c. c \<noteq> i) (order st) \<rparr>)"
| "apply_operation (index, BulkAssignChannelNumbers ids start a) st =
     (let first = (case start of None \<Rightarrow> PInt 1 | Some f \<Rightarrow> PFloat f) in
      fold_result (\<lambda>(offset, i). update_placement i (set_number (add_offset first offset) index a))
        (enumerate 0 ids) st)"
| "apply_operation (index, OtherOperation) st = Inr st"

definition placements_of :: "numbering_state \<Rightarrow> placement list" where
  "placements_of st = map (\<lambda>c. the (by_id st c)) (filter (\<lambda>c. by_id st c \<noteq> None) (order st))"

definition build_final_numbering_state ::
  "existing_channel list \<Rightarrow> operation list \<Rightarrow> (number_error, placement list) result" where
  "build_final_numbering_state existing operations =
     bind_result (fold_result apply_operation (enumerate 0 operations) (initial_state existing))
       (\<lambda>st. Inr (placements_of st))"

definition number_of :: "placement list \<Rightarrow> int \<Rightarrow> pyval" where
  "number_of placements i =
     (case find (\<lambda>p. pl_channel_id p = i) placements of Some p \<Rightarrow> pl_number p | None \<Rightarrow> PNone)"

section \<open>The evaluation\<close>

datatype issue_message =
    WouldEndUpOn string pyval
  | WouldBeUsedBy pyval nat "string list" "string list"

datatype issue_type = DuplicateChannelNumber | InvalidChannelNumber

record numbering_issue =
  ni_type :: issue_type
  ni_message :: issue_message
  ni_channel_number :: pyval
  ni_channel_ids :: "int list"
  ni_operation_indexes :: "nat list"

text \<open>The entry of \<open>validationIssues\<close>; an absent key is \<open>None\<close>.\<close>

record validation_issue =
  vi_type :: issue_type
  vi_message :: issue_message
  vi_channel_number :: pyval
  vi_channel_ids :: "int list"
  vi_operation_index :: "nat option"
  vi_operation_indexes :: "nat list option"
  vi_channel_id :: "int option"

definition as_validation_issue :: "numbering_issue \<Rightarrow> validation_issue" where
  "as_validation_issue issue =
     \<lparr> vi_type = ni_type issue, vi_message = ni_message issue, vi_channel_number = ni_channel_number issue,
       vi_channel_ids = ni_channel_ids issue,
       vi_operation_index = (case ni_operation_indexes issue of [] \<Rightarrow> None | i # _ \<Rightarrow> Some i),
       vi_operation_indexes = (case ni_operation_indexes issue of [] \<Rightarrow> None | is \<Rightarrow> Some is),
       vi_channel_id = (case ni_channel_ids issue of [] \<Rightarrow> None | i # _ \<Rightarrow> Some i) \<rparr>"

definition placed :: "placement \<Rightarrow> (number_error, bool) result" where
  "placed p = bind_result (moved p) (\<lambda>m. Inr (m \<and> pl_touched_by p \<noteq> []))"

definition invalid_issue :: "placement \<Rightarrow> numbering_issue" where
  "invalid_issue p = \<lparr> ni_type = InvalidChannelNumber, ni_message = WouldEndUpOn (pl_name p) (pl_number p),
     ni_channel_number = pl_number p, ni_channel_ids = [pl_channel_id p], ni_operation_indexes = pl_touched_by p \<rparr>"

text \<open>\<open>by_slot.setdefault(key, []).append(placement)\<close> on a dict that keeps insertion order.\<close>

fun add_to_slot :: "slot \<Rightarrow> placement \<Rightarrow> (slot \<times> placement list) list \<Rightarrow> (slot \<times> placement list) list" where
  "add_to_slot s p [] = [(s, [p])]"
| "add_to_slot s p ((s', ps) # rest) =
     (if s = s' then (s', ps @ [p]) # rest else (s', ps) # add_to_slot s p rest)"

type_synonym scan = "numbering_issue list \<times> (slot \<times> placement list) list"

definition scan_placement :: "placement \<Rightarrow> scan \<Rightarrow> (number_error, scan) result" where
  "scan_placement p st =
     (if pl_number p = PNone then Inr st
      else bind_result (placed p) (\<lambda>was_placed.
        if was_placed \<and> \<not> is_valid_channel_number (pl_number p)
        then Inr (fst st @ [invalid_issue p], snd st)
        else if \<not> is_number (pl_number p) then Inr st
        else case to_float (pl_number p) of
               None \<Rightarrow> Inl OverflowError
             | Some f \<Rightarrow> if \<not> is_finite f then Inr st
                         else bind_result (plan_slot_key (pl_number p)) (\<lambda>s.
                                Inr (fst st, add_to_slot s p (snd st)))))"

text \<open>The walk over the newcomers of one slot in request order: \<open>standing\<close> is who was already there.\<close>

definition consented :: "slot \<Rightarrow> int set \<Rightarrow> placement \<Rightarrow> bool" where
  "consented s standing p \<longleftrightarrow>
     standing = {} \<or> (case pl_acknowledgement p of
        None \<Rightarrow> False
      | Some a \<Rightarrow> ack_slot a = s \<and> standing \<subseteq> ack_occupants a)"

fun accidental :: "slot \<Rightarrow> int set \<Rightarrow> placement list \<Rightarrow> placement list" where
  "accidental s standing [] = []"
| "accidental s standing (p # ps) =
     (if consented s standing p then [] else [p]) @ accidental s (insert (pl_channel_id p) standing) ps"

definition was_placed :: "placement \<Rightarrow> bool" where
  "was_placed p \<longleftrightarrow> placed p = Inr True"

definition slot_issues :: "slot \<times> placement list \<Rightarrow> numbering_issue list" where
  "slot_issues entry =
     (let s = fst entry; occupants = snd entry; contributors = filter was_placed occupants in
      if length occupants < 2 then []
      else if contributors = [] then []
      else (let standing = pl_channel_id ` set (filter (\<lambda>p. \<not> was_placed p) occupants);
                acc = accidental s standing (sort_key (\<lambda>p. last (pl_touched_by p)) contributors);
                others = filter (\<lambda>p. p \<notin> set acc) occupants
            in if acc = [] then []
               else [\<lparr> ni_type = DuplicateChannelNumber,
                       ni_message = WouldBeUsedBy (pl_number (hd acc)) (length occupants)
                                      (map pl_name acc) (map pl_name others),
                       ni_channel_number = pl_number (hd acc),
                       ni_channel_ids = map pl_channel_id occupants,
                       ni_operation_indexes = sorted_list_of_set (\<Union> (set ` pl_touched_by ` set acc)) \<rparr>]))"

definition evaluate_final_numbering ::
  "existing_channel list \<Rightarrow> operation list \<Rightarrow> (number_error, numbering_issue list) result" where
  "evaluate_final_numbering existing operations =
     bind_result (build_final_numbering_state existing operations) (\<lambda>placements.
     bind_result (fold_result scan_placement placements ([], [])) (\<lambda>(issues, by_slot).
       Inr (issues @ concat (map slot_issues by_slot))))"

section \<open>What an operation does to the lineup\<close>

text \<open>The specification of the replay: channel ids to numbers, the last operation wins.\<close>

fun assign_numbers :: "int list \<Rightarrow> pyval \<Rightarrow> nat \<Rightarrow> (int \<rightharpoonup> pyval) \<Rightarrow> int \<rightharpoonup> pyval" where
  "assign_numbers [] first k m = m"
| "assign_numbers (i # ids) first k m =
     assign_numbers ids first (Suc k) (if m i = None then m else m(i \<mapsto> add_offset first k))"

fun number_effect :: "operation \<Rightarrow> (int \<rightharpoonup> pyval) \<Rightarrow> int \<rightharpoonup> pyval" where
  "number_effect (UpdateChannel i data a) m =
     (case payload_field data ''channel_number'' of
        Some v \<Rightarrow> if m i = None then m else m(i \<mapsto> v)
      | None \<Rightarrow> m)"
| "number_effect (CreateChannel i name number a) m = m(i \<mapsto> number)"
| "number_effect (DeleteChannel i) m = m(i := None)"
| "number_effect (BulkAssignChannelNumbers ids start a) m =
     assign_numbers ids (case start of None \<Rightarrow> PInt 1 | Some f \<Rightarrow> PFloat f) 0 m"
| "number_effect OtherOperation m = m"

definition numbers :: "numbering_state \<Rightarrow> int \<rightharpoonup> pyval" where
  "numbers st = (\<lambda>i. map_option pl_number (by_id st i))"

fun op_acknowledged :: "operation \<Rightarrow> acknowledged option" where
  "op_acknowledged (UpdateChannel _ _ a) = a"
| "op_acknowledged (CreateChannel _ _ _ a) = a"
| "op_acknowledged (BulkAssignChannelNumbers _ _ a) = a"
| "op_acknowledged _ = None"

definition resolved_acknowledgement ::
  "acknowledged option \<Rightarrow> (number_error, acknowledgement option) result" where
  "resolved_acknowledgement a =
     bind_result (usable_acknowledgement a) (\<lambda>u. case u of
         None \<Rightarrow> Inr None
       | Some ack \<Rightarrow> bind_result (plan_slot_key (ad_number ack)) (\<lambda>slot.
           Inr (Some \<lparr> ack_slot = slot, ack_occupants = int_ids (ad_occupants ack) \<rparr>)))"

lemma set_number_eq:
  "set_number value index a p = bind_result (resolved_acknowledgement a) (\<lambda>ack.
     Inr (p\<lparr> pl_number := value, pl_touched_by := pl_touched_by p @ [index], pl_acknowledgement := ack \<rparr>))"
  by (simp add: set_number_def resolved_acknowledgement_def bind_result_assoc Let_def
      option.case_distrib [of "\<lambda>m. bind_result m _"] cong: option.case_cong)

lemma set_number_Inr:
  "set_number value index a p = Inr p' \<longleftrightarrow>
     (\<exists>ack. resolved_acknowledgement a = Inr ack \<and>
        p' = p\<lparr> pl_number := value, pl_touched_by := pl_touched_by p @ [index], pl_acknowledgement := ack \<rparr>)"
  by (auto simp: set_number_eq)

lemma rename_fields [simp]:
  "pl_number (rename data p) = pl_number p" "pl_touched_by (rename data p) = pl_touched_by p"
  "pl_acknowledgement (rename data p) = pl_acknowledgement p" "pl_channel_id (rename data p) = pl_channel_id p"
  by (auto simp: rename_def split: pyval.splits option.splits)

lemma update_placement_Inr:
  "update_placement i f st = Inr st' \<longleftrightarrow>
     (by_id st i = None \<and> st' = st) \<or>
     (\<exists>p p'. by_id st i = Some p \<and> f p = Inr p' \<and> st' = st\<lparr> by_id := (by_id st)(i \<mapsto> p') \<rparr>)"
  by (auto simp: update_placement_def split: option.splits)

lemma update_placement_set_number:
  assumes "update_placement i (set_number v index a) st = Inr st'"
  shows "numbers st' = (if numbers st i = None then numbers st else (numbers st)(i \<mapsto> v))"
  using assms by (auto simp: update_placement_Inr set_number_Inr numbers_def fun_eq_iff)

lemma bulk_assign_numbers:
  assumes "fold_result (\<lambda>(offset, i). update_placement i (set_number (add_offset first offset) index a))
     (enumerate k ids) st = Inr st'"
  shows "numbers st' = assign_numbers ids first k (numbers st)"
  using assms
proof (induction ids arbitrary: k st)
  case (Cons i ids)
  then obtain st1 where "update_placement i (set_number (add_offset first k) index a) st = Inr st1"
    "fold_result (\<lambda>(offset, i). update_placement i (set_number (add_offset first offset) index a))
       (enumerate (Suc k) ids) st1 = Inr st'" by auto
  with Cons.IH [of "Suc k" st1] update_placement_set_number show ?case by simp
qed simp

lemma operation_refines:
  assumes "apply_operation (index, op) st = Inr st'"
  shows "numbers st' = number_effect op (numbers st)"
proof (cases op)
  case (UpdateChannel i data a)
  with assms show ?thesis
    by (cases "payload_field data ''channel_number''")
      (auto simp: update_placement_Inr renumber_def set_number_Inr numbers_def fun_eq_iff)
next
  case (BulkAssignChannelNumbers ids start a)
  with assms bulk_assign_numbers show ?thesis by (auto simp: Let_def)
qed (use assms in \<open>auto simp: numbers_def set_number_Inr fun_eq_iff split: if_splits\<close>)

text \<open>Every placement names operations of the request, and carries the consent of the last one.\<close>

definition placement_ok :: "operation list \<Rightarrow> placement \<Rightarrow> bool" where
  "placement_ok ops p \<longleftrightarrow>
     (\<forall>t \<in> set (pl_touched_by p). t < length ops) \<and>
     (if pl_touched_by p = [] then pl_acknowledgement p = None
      else resolved_acknowledgement (op_acknowledged (ops ! last (pl_touched_by p))) = Inr (pl_acknowledgement p))"

definition state_ok :: "operation list \<Rightarrow> numbering_state \<Rightarrow> bool" where
  "state_ok ops st \<longleftrightarrow> (\<forall>i p. by_id st i = Some p \<longrightarrow> pl_channel_id p = i \<and> placement_ok ops p)"

lemma set_number_ok:
  assumes "set_number v index a p = Inr p'" "index < length ops" "op_acknowledged (ops ! index) = a"
    and "\<forall>t \<in> set (pl_touched_by p). t < length ops"
  shows "placement_ok ops p' \<and> pl_channel_id p' = pl_channel_id p"
  using assms by (auto simp: set_number_Inr placement_ok_def)

lemma rename_ok [simp]: "placement_ok ops (rename data p) = placement_ok ops p"
  by (simp add: placement_ok_def)

lemma update_placement_ok:
  assumes "update_placement i f st = Inr st'" "state_ok ops st"
    and "\<And>p p'. f p = Inr p' \<Longrightarrow> placement_ok ops p \<Longrightarrow> placement_ok ops p' \<and> pl_channel_id p' = pl_channel_id p"
  shows "state_ok ops st'"
  using assms by (auto simp: update_placement_Inr state_ok_def split: if_splits)

lemma placement_ok_touched: "placement_ok ops p \<Longrightarrow> t \<in> set (pl_touched_by p) \<Longrightarrow> t < length ops"
  by (simp add: placement_ok_def)

lemma operation_ok:
  assumes "apply_operation (index, ops ! index) st = Inr st'" "index < length ops" "state_ok ops st"
  shows "state_ok ops st'"
proof (cases "ops ! index")
  case (UpdateChannel i data a)
  with assms show ?thesis
    by (cases "payload_field data ''channel_number''")
      (auto simp: renumber_def placement_ok_touched elim!: update_placement_ok dest!: set_number_ok [where ops = ops])
next
  case (CreateChannel i name number a)
  with assms obtain p where p: "set_number number index a (new_placement i name) = Inr p"
    "st' = \<lparr> by_id = (by_id st)(i \<mapsto> p), order = order st @ [i] \<rparr>" by auto
  with set_number_ok [OF p(1) assms(2)] assms(3) CreateChannel show ?thesis
    by (auto simp: state_ok_def new_placement_def)
next
  case (BulkAssignChannelNumbers ids start a)
  with assms(1) have "fold_result (\<lambda>(offset, i). update_placement i (set_number (add_offset
      (case start of None \<Rightarrow> PInt 1 | Some f \<Rightarrow> PFloat f) offset) index a))
        (enumerate 0 ids) st = Inr st'" by (simp add: Let_def)
  from this assms(3) show ?thesis
    by (rule fold_result_invariant)
      (use assms(2) BulkAssignChannelNumbers in
        \<open>auto elim!: update_placement_ok simp: placement_ok_touched dest!: set_number_ok [where ops = ops]\<close>)
qed (use assms in \<open>auto simp: state_ok_def split: if_splits\<close>)

lemma initial_state_ok: "state_ok ops (initial_state existing)"
proof -
  have add: "state_ok ops st \<Longrightarrow> state_ok ops (add_existing ch st)" for ch st
    by (cases "ec_id ch") (auto simp: add_existing_def state_ok_def placement_ok_def)
  have all: "state_ok ops st \<Longrightarrow> state_ok ops (fold add_existing existing st)" for st
    by (induction existing arbitrary: st) (simp_all add: add)
  show ?thesis unfolding initial_state_def by (rule all) (simp add: state_ok_def)
qed

lemma enumerate_nth: "(index, op) \<in> set (enumerate 0 ops) \<Longrightarrow> index < length ops \<and> op = ops ! index"
  by (auto simp: in_set_enumerate_eq)

lemma final_state_ok:
  assumes "fold_result apply_operation (enumerate 0 ops) (initial_state existing) = Inr st"
  shows "state_ok ops st"
  using assms initial_state_ok
  by (rule fold_result_invariant) (metis enumerate_nth operation_ok surj_pair)

lemma placements_of_mem: "p \<in> set (placements_of st) \<Longrightarrow> \<exists>i. by_id st i = Some p"
  by (auto simp: placements_of_def)

lemma final_placements_ok:
  assumes "build_final_numbering_state existing ops = Inr ps" "p \<in> set ps"
  shows "placement_ok ops p"
  using assms final_state_ok placements_of_mem
  by (fastforce simp: build_final_numbering_state_def state_ok_def)

lemma numbers_refine:
  assumes "fold_result apply_operation (enumerate k ops) st = Inr st'"
  shows "numbers st' = fold number_effect ops (numbers st)"
  using assms
proof (induction ops arbitrary: k st)
  case (Cons op ops)
  then show ?case using operation_refines by fastforce
qed simp

section \<open>The scan over the final placements\<close>

definition out_of_contract :: "placement \<Rightarrow> bool" where
  "out_of_contract p \<longleftrightarrow> pl_number p \<noteq> PNone \<and> was_placed p \<and> \<not> is_valid_channel_number (pl_number p)"

definition on_slot :: "slot \<Rightarrow> placement \<Rightarrow> bool" where
  "on_slot s p \<longleftrightarrow> \<not> out_of_contract p \<and> slot_of (pl_number p) = Some s"

lemma scan_placement_Inr:
  assumes "scan_placement p st = Inr st'"
  shows "fst st' = fst st @ (if out_of_contract p then [invalid_issue p] else [])"
    "snd st' = (case slot_of (pl_number p) of
                  Some s \<Rightarrow> if out_of_contract p then snd st else add_to_slot s p (snd st) | None \<Rightarrow> snd st)"
proof -
  have "fst st' = fst st @ (if out_of_contract p then [invalid_issue p] else []) \<and>
    snd st' = (case slot_of (pl_number p) of
                  Some s \<Rightarrow> if out_of_contract p then snd st else add_to_slot s p (snd st) | None \<Rightarrow> snd st)"
  proof (cases "pl_number p = PNone")
    case False
    with assms obtain b where b: "placed p = Inr b" by (auto simp: scan_placement_def)
    then have w: "was_placed p = b" by (simp add: was_placed_def)
    show ?thesis
      using assms False b w
      by (auto simp: scan_placement_def out_of_contract_def slot_of_def plan_slot_key_def
          simp del: float_slot.simps split: if_splits option.splits)
  qed (use assms in \<open>auto simp: scan_placement_def out_of_contract_def\<close>)
  then show "fst st' = fst st @ (if out_of_contract p then [invalid_issue p] else [])"
    "snd st' = (case slot_of (pl_number p) of
                  Some s \<Rightarrow> if out_of_contract p then snd st else add_to_slot s p (snd st) | None \<Rightarrow> snd st)"
    by simp_all
qed

lemma map_of_add_to_slot:
  "map_of (add_to_slot s p bs) t =
     (if t = s then Some ((case map_of bs s of Some ps \<Rightarrow> ps | None \<Rightarrow> []) @ [p]) else map_of bs t)"
  by (induction s p bs rule: add_to_slot.induct) auto

lemma add_to_slot_keys:
  "distinct (map fst bs) \<Longrightarrow> distinct (map fst (add_to_slot s p bs))"
  "fst ` set (add_to_slot s p bs) = insert s (fst ` set bs)"
proof -
  show keys: "fst ` set (add_to_slot s p bs) = insert s (fst ` set bs)" for bs
    by (induction s p bs rule: add_to_slot.induct) auto
  show "distinct (map fst bs) \<Longrightarrow> distinct (map fst (add_to_slot s p bs))"
    using keys by (induction s p bs rule: add_to_slot.induct) auto
qed

definition grouped :: "placement list \<Rightarrow> (slot \<times> placement list) list \<Rightarrow> bool" where
  "grouped ps bs \<longleftrightarrow> distinct (map fst bs) \<and>
     (\<forall>s. map_of bs s = (if filter (on_slot s) ps = [] then None else Some (filter (on_slot s) ps)))"

lemma grouped_snoc:
  assumes "grouped ps bs"
  shows "grouped (ps @ [p]) (case slot_of (pl_number p) of
     Some s \<Rightarrow> if out_of_contract p then bs else add_to_slot s p bs | None \<Rightarrow> bs)"
  using assms add_to_slot_keys(1) [of bs _ p]
  by (cases "slot_of (pl_number p)") (auto simp: grouped_def on_slot_def map_of_add_to_slot)

lemma scan_result:
  assumes "fold_result scan_placement ps ([], []) = Inr (issues, bs)"
  shows "issues = map invalid_issue (filter out_of_contract ps) \<and> grouped ps bs"
  using assms
proof (induction ps arbitrary: issues bs rule: rev_induct)
  case (snoc p ps)
  then obtain i1 b1 where s: "fold_result scan_placement ps ([], []) = Inr (i1, b1)"
    "scan_placement p (i1, b1) = Inr (issues, bs)" by (auto simp: fold_result_append)
  with snoc.IH scan_placement_Inr [OF s(2), unfolded fst_conv snd_conv] grouped_snoc [of ps b1 p] show ?case by simp
qed (simp add: grouped_def)

lemma grouped_mem:
  assumes "grouped ps bs" "(s, occ) \<in> set bs"
  shows "occ = filter (on_slot s) ps" "occ \<noteq> []"
proof -
  have "map_of bs s = Some occ" using assms by (intro map_of_is_SomeI) (simp_all add: grouped_def)
  then show "occ = filter (on_slot s) ps" "occ \<noteq> []"
    using assms(1) by (auto simp: grouped_def split: if_splits)
qed

lemma grouped_lookup:
  assumes "grouped ps bs" "p \<in> set ps" "on_slot s p"
  shows "(s, filter (on_slot s) ps) \<in> set bs"
proof -
  have "filter (on_slot s) ps \<noteq> []" using assms(2,3) by (auto simp: filter_empty_conv)
  then have "map_of bs s = Some (filter (on_slot s) ps)" using assms(1) by (simp add: grouped_def)
  then show ?thesis by (rule map_of_SomeD)
qed

lemma accidental_Nil:
  assumes "accidental s standing (ys @ p # zs) = []"
  shows "consented s (standing \<union> pl_channel_id ` set ys) p"
  using assms
proof (induction ys arbitrary: standing)
  case (Cons y ys)
  then show ?case using Cons.IH [of "insert (pl_channel_id y) standing"] by (auto split: if_splits)
qed (auto split: if_splits)

lemma accidental_subset: "set (accidental s standing ps) \<subseteq> set ps"
  by (induction ps arbitrary: standing) auto

lemma sort_key_split:
  assumes "p \<in> set xs" "q \<in> set xs" "f q < f p"
  obtains ys zs where "sort_key f xs = ys @ p # zs" "q \<in> set ys"
proof -
  have "p \<in> set (sort_key f xs)" "q \<in> set (sort_key f xs)" using assms by simp_all
  then obtain ys zs where s: "sort_key f xs = ys @ p # zs" by (meson split_list)
  have "sorted (map f (ys @ p # zs))" using sorted_sort_key [of f xs] s by simp
  then have "\<forall>z \<in> set zs. f p \<le> f z" by (auto simp: sorted_append)
  with assms(3) \<open>q \<in> set (sort_key f xs)\<close> s have "q \<in> set ys" by (auto simp: s)
  with s show ?thesis by (rule that)
qed

lemma evaluate_Inr:
  assumes "evaluate_final_numbering existing ops = Inr issues"
  obtains ps bs where "build_final_numbering_state existing ops = Inr ps" "grouped ps bs"
    "issues = map invalid_issue (filter out_of_contract ps) @ concat (map slot_issues bs)"
  using assms scan_result by (fastforce simp: evaluate_final_numbering_def)

lemma slot_issues_Nil:
  assumes "slot_issues (s, occ) = []" "p \<in> set occ" "q \<in> set occ" "was_placed p"
    and "\<not> was_placed q \<or> last (pl_touched_by q) < last (pl_touched_by p)"
  shows "\<exists>standing. pl_channel_id q \<in> standing \<and> consented s standing p"
proof -
  let ?c = "filter was_placed occ" and ?key = "\<lambda>p. last (pl_touched_by p)"
  let ?standing = "pl_channel_id ` set (filter (\<lambda>p. \<not> was_placed p) occ)"
  have "p \<noteq> q" using assms(4,5) by auto
  then have "\<not> length occ < 2" using assms(2,3)
    by (cases occ; cases "tl occ") auto
  moreover have p: "p \<in> set ?c" using assms(2,4) by simp
  then have "?c \<noteq> []" by (metis empty_iff empty_set)
  ultimately have nil: "accidental s ?standing (sort_key ?key ?c) = []"
    using assms(1) by (simp add: slot_issues_def Let_def split: if_splits)
  show ?thesis
  proof (cases "was_placed q")
    case True
    then obtain ys zs where s: "sort_key ?key ?c = ys @ p # zs" "q \<in> set ys"
      using assms(2-5) by (elim disjE) (auto intro: sort_key_split [of p ?c q ?key])
    have "consented s (?standing \<union> pl_channel_id ` set ys) p" using nil unfolding s(1) by (rule accidental_Nil)
    with s(2) show ?thesis by (intro exI [of _ "?standing \<union> pl_channel_id ` set ys"]) simp
  next
    case False
    obtain ys zs where s: "sort_key ?key ?c = ys @ p # zs" using p by (metis set_sort split_list)
    have "consented s (?standing \<union> pl_channel_id ` set ys) p" using nil unfolding s by (rule accidental_Nil)
    with False assms(3) show ?thesis by (intro exI [of _ "?standing \<union> pl_channel_id ` set ys"]) simp
  qed
qed

section \<open>What the module guarantees\<close>

lemma sharing_is_consented:
  assumes "evaluate_final_numbering existing ops = Inr []"
    and "build_final_numbering_state existing ops = Inr ps" "p \<in> set ps" "q \<in> set ps" "was_placed p"
    and "slot_of (pl_number p) = Some s" "slot_of (pl_number q) = Some s"
    and "\<not> was_placed q \<or> last (pl_touched_by q) < last (pl_touched_by p)"
  shows "\<exists>a. pl_acknowledgement p = Some a \<and> ack_slot a = s \<and> pl_channel_id q \<in> ack_occupants a
       \<and> resolved_acknowledgement (op_acknowledged (ops ! last (pl_touched_by p))) = Inr (Some a)"
proof -
  obtain ps' bs where e: "build_final_numbering_state existing ops = Inr ps'" "grouped ps' bs"
    "[] = map invalid_issue (filter out_of_contract ps') @ concat (map slot_issues bs)"
    by (rule evaluate_Inr [OF assms(1)])
  have eq: "ps' = ps" using assms(2) e(1) by simp
  have g: "grouped ps bs" using e(2) by (simp only: eq)
  have none: "filter out_of_contract ps = []" "concat (map slot_issues bs) = []"
    using e(3) [symmetric] by (simp_all only: eq append_is_Nil_conv map_is_Nil_conv)
  have "on_slot s p" "on_slot s q" using none(1) assms(3,4,6,7) by (auto simp: on_slot_def filter_empty_conv)
  then have mem: "(s, filter (on_slot s) ps) \<in> set bs" "p \<in> set (filter (on_slot s) ps)" "q \<in> set (filter (on_slot s) ps)"
    using grouped_lookup [OF g assms(3)] assms(3,4) by auto
  then have "slot_issues (s, filter (on_slot s) ps) = []" using none(2) by (auto simp: concat_eq_Nil_conv)
  from slot_issues_Nil [OF this mem(2,3) assms(5,8)] obtain standing where
    "pl_channel_id q \<in> standing" "consented s standing p" by blast
  then obtain a where a: "pl_acknowledgement p = Some a" "ack_slot a = s" "pl_channel_id q \<in> ack_occupants a"
    by (auto simp: consented_def split: option.splits)
  moreover have "pl_touched_by p \<noteq> []" using assms(5) by (auto simp: was_placed_def placed_def)
  ultimately show ?thesis using final_placements_ok [OF assms(2,3)] by (simp add: placement_ok_def)
qed

text \<open>
  C4. A request the evaluation accepts leaves every channel it placed on a number within the contract,
  shared or not, and never doubles up a number without consent: whenever it leaves channel \<open>p\<close>, which it
  placed, on the same number as a channel \<open>q\<close> that was already there - one it did not place, or placed by
  an earlier operation - the operation that made the final placement of \<open>p\<close> acknowledged exactly this
  number and named \<open>q\<close>.
\<close>

theorem accepted_numbering_is_valid_and_consented:
  assumes "evaluate_final_numbering existing ops = Inr []"
    and "build_final_numbering_state existing ops = Inr ps"
  shows "(\<forall>p \<in> set ps. was_placed p \<and> pl_number p \<noteq> PNone \<longrightarrow> is_valid_channel_number (pl_number p)) \<and>
    (\<forall>p \<in> set ps. \<forall>q \<in> set ps. \<forall>s. was_placed p \<and> slot_of (pl_number p) = Some s \<and> slot_of (pl_number q) = Some s \<and>
       (\<not> was_placed q \<or> last (pl_touched_by q) < last (pl_touched_by p)) \<longrightarrow>
       (\<exists>a. pl_acknowledgement p = Some a \<and> ack_slot a = s \<and> pl_channel_id q \<in> ack_occupants a
          \<and> resolved_acknowledgement (op_acknowledged (ops ! last (pl_touched_by p))) = Inr (Some a)))"
proof (intro conjI ballI allI impI)
  fix p assume p: "p \<in> set ps" "was_placed p \<and> pl_number p \<noteq> PNone"
  obtain ps' bs where e: "build_final_numbering_state existing ops = Inr ps'"
    "[] = map invalid_issue (filter out_of_contract ps') @ concat (map slot_issues bs)"
    by (rule evaluate_Inr [OF assms(1)])
  then have "filter out_of_contract ps = []" using assms(2) by simp
  with p show "is_valid_channel_number (pl_number p)" by (auto simp: out_of_contract_def filter_empty_conv)
qed (use sharing_is_consented [OF assms] in blast)

definition two_channels :: "existing_channel list" where
  "two_channels = [\<lparr> ec_id = Some 1, ec_name = Some ''ESPN'', ec_channel_number = PInt 5 \<rparr>,
                   \<lparr> ec_id = Some 2, ec_name = Some ''TNT'', ec_channel_number = PInt 6 \<rparr>]"

definition join_five :: "operation list" where
  "join_five = [UpdateChannel 2 (PDict [(''channel_number'', PInt 5)])
                  (Some \<lparr> ad_number = PInt 5, ad_occupants = [PInt 1] \<rparr>)]"

definition espn :: placement where
  "espn = \<lparr> pl_channel_id = 1, pl_name = ''ESPN'', pl_number = PInt 5, pl_base_number = PInt 5,
     pl_is_new = False, pl_touched_by = [], pl_acknowledgement = None \<rparr>"

definition tnt :: placement where
  "tnt = \<lparr> pl_channel_id = 2, pl_name = ''TNT'', pl_number = PInt 5, pl_base_number = PInt 6,
     pl_is_new = False, pl_touched_by = [0],
     pl_acknowledgement = Some \<lparr> ack_slot = SlotTick 50, ack_occupants = {1} \<rparr> \<rparr>"

lemma plan_slot_key_int: "\<bar>n\<bar> \<le> 2 ^ 49 \<Longrightarrow> plan_slot_key (PInt n) = Inr (SlotTick (n * 10))"
  using int_slot(1) [of n] by (auto simp: slot_of_def plan_slot_key_def float_of_int_small simp del: float_slot.simps)

lemma join_five_state: "build_final_numbering_state two_channels join_five = Inr [espn, tnt]"
  by (simp add: build_final_numbering_state_def two_channels_def join_five_def initial_state_def add_existing_def
      update_placement_def renumber_def rename_def payload_field_def set_number_def usable_acknowledgement_def
      float_of_int_small plan_slot_key_int int_ids_def placements_of_def espn_def tnt_def or_default_def)

lemma join_five_placed: "placed espn = Inr False" "placed tnt = Inr True" "was_placed tnt" "\<not> was_placed espn"
  by (simp_all add: was_placed_def placed_def moved_def espn_def tnt_def plan_same_number_defined int_slot
      float_of_int_small same_slot_def)

lemma join_five_accepted: "evaluate_final_numbering two_channels join_five = Inr []"
  by (simp add: evaluate_final_numbering_def join_five_state scan_placement_def join_five_placed)
    (simp add: espn_def tnt_def valid_whole_number float_of_int_small plan_slot_key_int slot_issues_def
      consented_def join_five_placed [unfolded espn_def tnt_def] del: is_valid_channel_number.simps)

lemma accepted_numbering_is_valid_and_consented_witness:
  "is_valid_channel_number (PInt 5) \<and>
    (\<exists>a. pl_acknowledgement tnt = Some a \<and> ack_slot a = SlotTick 50 \<and> 1 \<in> ack_occupants a
       \<and> resolved_acknowledgement (op_acknowledged (join_five ! 0)) = Inr (Some a))"
proof -
  have tnt: "pl_number tnt = PInt 5" "pl_touched_by tnt = [0]" "slot_of (pl_number tnt) = Some (SlotTick 50)"
    and espn: "pl_channel_id espn = 1" "slot_of (pl_number espn) = Some (SlotTick 50)"
    by (simp_all add: tnt_def espn_def int_slot)
  from accepted_numbering_is_valid_and_consented [OF join_five_accepted join_five_state]
  have "was_placed tnt \<and> pl_number tnt \<noteq> PNone \<longrightarrow> is_valid_channel_number (pl_number tnt)"
    and "\<exists>a. pl_acknowledgement tnt = Some a \<and> ack_slot a = SlotTick 50 \<and> pl_channel_id espn \<in> ack_occupants a
       \<and> resolved_acknowledgement (op_acknowledged (join_five ! last (pl_touched_by tnt))) = Inr (Some a)"
    using join_five_placed(3,4) tnt(3) espn(2) by (simp_all del: is_valid_channel_number.simps)
  then show ?thesis using join_five_placed(3) tnt espn by simp
qed

text \<open>
  Every reported issue is about the request. It names at least one operation of the request and
  only operations of the request, and its channels include one that the request itself placed: a
  duplicate that was in the lineup before, and a bad number nobody touched, are never reported.
\<close>

theorem issues_point_at_the_request:
  assumes "evaluate_final_numbering existing ops = Inr issues" "issue \<in> set issues"
  shows "\<exists>ps. build_final_numbering_state existing ops = Inr ps
    \<and> ni_operation_indexes issue \<noteq> [] \<and> (\<forall>t \<in> set (ni_operation_indexes issue). t < length ops)
    \<and> (\<exists>p \<in> set ps. was_placed p \<and> pl_channel_id p \<in> set (ni_channel_ids issue))"
proof -
  obtain ps bs where e: "build_final_numbering_state existing ops = Inr ps" "grouped ps bs"
    "issues = map invalid_issue (filter out_of_contract ps) @ concat (map slot_issues bs)"
    by (rule evaluate_Inr [OF assms(1)])
  have placed: "pl_touched_by p \<noteq> []" if "was_placed p" for p using that by (auto simp: was_placed_def placed_def)
  have touched: "t < length ops" if "p \<in> set ps" "t \<in> set (pl_touched_by p)" for p t
    using final_placements_ok [OF e(1) that(1)] that(2) by (simp add: placement_ok_def)
  consider (invalid) p where "p \<in> set ps" "out_of_contract p" "issue = invalid_issue p"
    | (duplicate) s occ where "(s, occ) \<in> set bs" "issue \<in> set (slot_issues (s, occ))"
    using assms(2) e(3) by auto
  then show ?thesis
  proof cases
    case invalid
    then show ?thesis using e(1) placed touched by (auto simp: invalid_issue_def out_of_contract_def)
  next
    case duplicate
    let ?acc = "accidental s (pl_channel_id ` set (filter (\<lambda>p. \<not> was_placed p) occ))
        (sort_key (\<lambda>p. last (pl_touched_by p)) (filter was_placed occ))"
    have i: "?acc \<noteq> []" "ni_channel_ids issue = map pl_channel_id occ"
      "ni_operation_indexes issue = sorted_list_of_set (\<Union> (set ` pl_touched_by ` set ?acc))"
      using duplicate(2) by (auto simp: slot_issues_def Let_def split: if_splits)
    have acc: "set ?acc \<subseteq> set (filter was_placed occ)"
      using accidental_subset [of s _ "sort_key (\<lambda>p. last (pl_touched_by p)) (filter was_placed occ)"] by simp
    obtain p where p: "p \<in> set ?acc" using i(1) by (meson ex_in_conv set_empty)
    have ps: "set occ \<subseteq> set ps" using grouped_mem [OF e(2) duplicate(1)] by auto
    have p': "p \<in> set ps" "was_placed p" "p \<in> set occ" using p acc ps by auto
    have "last (pl_touched_by p) \<in> set (ni_operation_indexes issue)"
      using p placed [OF p'(2)] by (auto simp: i(3) intro!: bexI [of _ p])
    then have "ni_operation_indexes issue \<noteq> []" by auto
    moreover have "t < length ops" if "t \<in> set (ni_operation_indexes issue)" for t
    proof -
      from that obtain q where "q \<in> set ?acc" "t \<in> set (pl_touched_by q)" by (auto simp: i(3))
      with acc ps show ?thesis by (intro touched [of q]) auto
    qed
    moreover have "pl_channel_id p \<in> set (ni_channel_ids issue)" using p'(3) by (simp add: i(2))
    ultimately show ?thesis using e(1) p'(1,2) by blast
  qed
qed

definition join_unasked :: "operation list" where
  "join_unasked = [UpdateChannel 2 (PDict [(''channel_number'', PInt 5)]) None]"

definition tnt_unasked :: placement where
  "tnt_unasked = tnt\<lparr> pl_acknowledgement := None \<rparr>"

definition unasked_issue :: numbering_issue where
  "unasked_issue = \<lparr> ni_type = DuplicateChannelNumber,
     ni_message = WouldBeUsedBy (PInt 5) 2 [''TNT''] [''ESPN''], ni_channel_number = PInt 5,
     ni_channel_ids = [1, 2], ni_operation_indexes = [0] \<rparr>"

lemma join_unasked_state: "build_final_numbering_state two_channels join_unasked = Inr [espn, tnt_unasked]"
  by (simp add: build_final_numbering_state_def two_channels_def join_unasked_def initial_state_def add_existing_def
      update_placement_def renumber_def rename_def payload_field_def set_number_def usable_acknowledgement_def
      placements_of_def espn_def tnt_def tnt_unasked_def or_default_def)

lemma join_unasked_placed: "placed tnt_unasked = Inr True" "was_placed tnt_unasked"
  by (simp_all add: was_placed_def placed_def moved_def tnt_unasked_def tnt_def plan_same_number_defined int_slot
      float_of_int_small same_slot_def)

lemma join_unasked_refused: "evaluate_final_numbering two_channels join_unasked = Inr [unasked_issue]"
proof -
  have fields: "pl_number espn = PInt 5" "pl_number tnt_unasked = PInt 5" "pl_acknowledgement tnt_unasked = None"
    "pl_channel_id espn = 1" "pl_channel_id tnt_unasked = 2" "pl_name espn = ''ESPN''" "pl_name tnt_unasked = ''TNT''"
    "pl_touched_by tnt_unasked = [0]" "espn \<noteq> tnt_unasked"
    by (simp_all add: espn_def tnt_unasked_def tnt_def)
  have "slot_issues (SlotTick 50, [espn, tnt_unasked]) = [unasked_issue]"
    by (simp add: slot_issues_def join_unasked_placed join_five_placed fields consented_def unasked_issue_def)
  then show ?thesis
    by (simp add: evaluate_final_numbering_def join_unasked_state scan_placement_def join_unasked_placed
        join_five_placed fields valid_whole_number float_of_int_small plan_slot_key_int
        del: is_valid_channel_number.simps)
qed

lemma issues_point_at_the_request_witness:
  "\<exists>ps. build_final_numbering_state two_channels join_unasked = Inr ps
    \<and> ni_operation_indexes unasked_issue \<noteq> []
    \<and> (\<forall>t \<in> set (ni_operation_indexes unasked_issue). t < length join_unasked)
    \<and> (\<exists>p \<in> set ps. was_placed p \<and> pl_channel_id p \<in> set (ni_channel_ids unasked_issue))"
  by (rule issues_point_at_the_request [OF join_unasked_refused]) simp

section \<open>Last write wins\<close>

definition lineup_numbers :: "existing_channel list \<Rightarrow> int \<rightharpoonup> pyval" where
  "lineup_numbers existing =
     fold (\<lambda>ch m. case ec_id ch of None \<Rightarrow> m | Some i \<Rightarrow> m(i \<mapsto> ec_channel_number ch)) existing Map.empty"

lemma numbers_initial: "numbers (initial_state existing) = lineup_numbers existing"
proof -
  have step: "numbers (add_existing ch st) = (case ec_id ch of None \<Rightarrow> numbers st | Some i \<Rightarrow> (numbers st)(i \<mapsto> ec_channel_number ch))" for ch st
    by (cases "ec_id ch") (auto simp: numbers_def add_existing_def fun_eq_iff)
  have all: "numbers (fold add_existing existing st)
     = fold (\<lambda>ch m. case ec_id ch of None \<Rightarrow> m | Some i \<Rightarrow> m(i \<mapsto> ec_channel_number ch)) existing (numbers st)" for st
    by (induction existing arbitrary: st) (simp_all add: step)
  show ?thesis by (simp add: initial_state_def lineup_numbers_def all) (simp add: numbers_def)
qed

definition listed :: "numbering_state \<Rightarrow> bool" where
  "listed st \<longleftrightarrow> (\<forall>i. by_id st i \<noteq> None \<longrightarrow> i \<in> set (order st))"

lemma listed_initial: "listed (initial_state existing)"
proof -
  have add: "listed st \<Longrightarrow> listed (add_existing ch st)" for ch st
    by (cases "ec_id ch") (auto simp: add_existing_def listed_def)
  have all: "listed st \<Longrightarrow> listed (fold add_existing existing st)" for st
    by (induction existing arbitrary: st) (simp_all add: add)
  show ?thesis unfolding initial_state_def by (rule all) (simp add: listed_def)
qed

lemma listed_update: "update_placement i f st = Inr st' \<Longrightarrow> listed st \<Longrightarrow> listed st'"
  by (auto simp: update_placement_Inr listed_def split: if_splits)

lemma listed_operation:
  assumes "apply_operation (index, op) st = Inr st'" "listed st"
  shows "listed st'"
proof (cases op)
  case (BulkAssignChannelNumbers ids start a)
  with assms(1) have "fold_result (\<lambda>(offset, i). update_placement i (set_number (add_offset
      (case start of None \<Rightarrow> PInt 1 | Some f \<Rightarrow> PFloat f) offset) index a)) (enumerate 0 ids) st = Inr st'"
    by (simp add: Let_def)
  from this assms(2) show ?thesis by (rule fold_result_invariant) (auto elim: listed_update)
qed (use assms in \<open>auto simp: listed_def split: if_splits elim: listed_update [unfolded listed_def, rule_format]\<close>)

lemma map_of_placements:
  assumes "state_ok ops st" "listed st"
  shows "map_of (map (\<lambda>p. (pl_channel_id p, pl_number p)) (placements_of st)) = numbers st"
proof
  fix i
  have "map_of (map (\<lambda>p. (pl_channel_id p, pl_number p)) (map (\<lambda>c. the (by_id st c)) cs)) i
    = (if i \<in> set cs then numbers st i else None)" if "\<forall>c \<in> set cs. by_id st c \<noteq> None" for cs
    using that assms(1) by (induction cs) (auto simp: state_ok_def numbers_def)
  from this [of "filter (\<lambda>c. by_id st c \<noteq> None) (order st)"] assms(2)
  show "map_of (map (\<lambda>p. (pl_channel_id p, pl_number p)) (placements_of st)) i = numbers st i"
    by (auto simp: placements_of_def listed_def numbers_def)
qed

text \<open>
  Building the final state refines the specification "replay the operations on a map from
  channels to numbers, the last write wins": the channels of the final state and the numbers they
  end on are exactly those of that map, whatever the request creates, updates, deletes and assigns.
\<close>

theorem final_numbers_are_last_writes:
  assumes "build_final_numbering_state existing ops = Inr ps"
  shows "map_of (map (\<lambda>p. (pl_channel_id p, pl_number p)) ps) = fold number_effect ops (lineup_numbers existing)"
proof -
  obtain st where st: "fold_result apply_operation (enumerate 0 ops) (initial_state existing) = Inr st"
    "ps = placements_of st" using assms by (auto simp: build_final_numbering_state_def)
  have "listed st" using st(1) listed_initial
    by (rule fold_result_invariant) (metis listed_operation surj_pair)
  with map_of_placements [OF final_state_ok [OF st(1)]] numbers_refine [OF st(1)] show ?thesis
    by (simp add: st(2) numbers_initial)
qed

lemma final_numbers_are_last_writes_witness:
  "map_of (map (\<lambda>p. (pl_channel_id p, pl_number p)) [espn, tnt]) = fold number_effect join_five (lineup_numbers two_channels)"
  by (rule final_numbers_are_last_writes [OF join_five_state])

text \<open>
  Consent never accumulates: in the final state a channel the request numbered carries exactly
  the acknowledgement of the last operation that numbered it, and a channel the request did not
  number carries none.
\<close>

theorem consent_is_that_of_the_last_operation:
  assumes "build_final_numbering_state existing ops = Inr ps" "p \<in> set ps"
  shows "if pl_touched_by p = [] then pl_acknowledgement p = None
    else resolved_acknowledgement (op_acknowledged (ops ! last (pl_touched_by p))) = Inr (pl_acknowledgement p)"
  using final_placements_ok [OF assms] by (simp add: placement_ok_def)

lemma consent_is_that_of_the_last_operation_witness:
  "resolved_acknowledgement (op_acknowledged (join_five ! 0)) = Inr (pl_acknowledgement tnt)"
  using consent_is_that_of_the_last_operation [OF join_five_state, of tnt] by (simp add: tnt_def)

end
