(* ===== verification/Ledger.thy ===== *)
theory Ledger
  imports PyVal
begin

text \<open>
  The accounting of a bulk commit, \<open>backend/bulk_commit_accounting.py\<close>: the operation ledger, one
  definition per method, and the audit of the finished envelope. A method that raises keeps what it
  did before the \<open>raise\<close>, so a call answers a value or the error together with the new state.
  Log lines are left out.
\<close>

section \<open>Journal rows\<close>

datatype accounting_error =
    ReasonMissing | EmptyRowList | BadRow | AlreadyOpen | NotOpen | ToldNothing | NoOperationOpen

datatype journal_row_spec = NothingToJournal string | RowList "pyval list" | OneRow pyval

definition nothing_to_journal :: "string \<Rightarrow> (accounting_error, journal_row_spec) result" where
  "nothing_to_journal reason =
     (if py_strip reason = [] then Inl ReasonMissing else Inr (NothingToJournal reason))"

fun row_ok :: "pyval \<Rightarrow> bool" where
  "row_ok (PDict d) = (d \<noteq> [])"
| "row_ok _ = False"

fun spec_rows :: "journal_row_spec \<Rightarrow> pyval list" where
  "spec_rows (NothingToJournal _) = []"
| "spec_rows (RowList rows) = rows"
| "spec_rows (OneRow row) = [row]"

section \<open>The ledger\<close>

record ledger =
  total_operations :: nat
  applied :: nat
  failed :: nat
  incomplete :: nat
  partially_applied :: nat
  setup_failures :: nat
  aborted :: bool
  applied_create_temp_ids :: "int set"
  journal_rows :: "pyval list"
  is_open :: bool
  persisted :: bool
  side_effects :: nat
  no_write_reason :: "string option"
  pending_create_temp_id :: "int option"

definition new_ledger :: "nat \<Rightarrow> ledger" where
  "new_ledger n = \<lparr> total_operations = n, applied = 0, failed = 0, incomplete = 0, partially_applied = 0,
     setup_failures = 0, aborted = False, applied_create_temp_ids = {}, journal_rows = [], is_open = False,
     persisted = False, side_effects = 0, no_write_reason = None, pending_create_temp_id = None \<rparr>"

definition attempted :: "ledger \<Rightarrow> nat" where
  "attempted l = applied l + failed l"

definition skipped :: "ledger \<Rightarrow> int" where
  "skipped l = int (total_operations l) - int (attempted l)"

definition side_effects_landed :: "ledger \<Rightarrow> bool" where
  "side_effects_landed l \<longleftrightarrow> side_effects l > 0"

type_synonym 'v answer = "(accounting_error, 'v) result \<times> ledger"

definition begin_operation :: "ledger \<Rightarrow> unit answer" where
  "begin_operation l =
     (if is_open l then (Inl AlreadyOpen, l)
      else (Inr (), l\<lparr> is_open := True, persisted := False, side_effects := 0, no_write_reason := None,
                       pending_create_temp_id := None \<rparr>))"

definition queue_journal :: "journal_row_spec \<Rightarrow> ledger \<Rightarrow> unit answer" where
  "queue_journal journal_row l =
     (case journal_row of
        NothingToJournal _ \<Rightarrow> (Inr (), l)
      | _ \<Rightarrow> (let rows = spec_rows journal_row in
           if rows = [] then (Inl EmptyRowList, l)
           else if \<exists>row \<in> set rows. \<not> row_ok row then (Inl BadRow, l)
           else (Inr (), l\<lparr> journal_rows := journal_rows l @ rows \<rparr>)))"

definition record_write :: "journal_row_spec \<Rightarrow> ledger \<Rightarrow> unit answer" where
  "record_write journal_row l =
     queue_journal journal_row (if is_open l then l\<lparr> side_effects := side_effects l + 1 \<rparr> else l)"

definition record_persisted :: "journal_row_spec \<Rightarrow> int option \<Rightarrow> ledger \<Rightarrow> unit answer" where
  "record_persisted journal_row create_temp_id l =
     (case queue_journal journal_row l of
        (Inl e, l') \<Rightarrow> (Inl e, l')
      | (Inr _, l') \<Rightarrow>
          (Inr (), (l'\<lparr> persisted := True \<rparr>)
             \<lparr> pending_create_temp_id := (if create_temp_id \<noteq> None then create_temp_id
                                          else pending_create_temp_id l') \<rparr>))"

definition applied_without_writing :: "string \<Rightarrow> ledger \<Rightarrow> unit answer" where
  "applied_without_writing reason l =
     (if py_strip reason = [] then (Inl ReasonMissing, l)
      else if \<not> is_open l then (Inl NoOperationOpen, l)
      else (Inr (), l\<lparr> no_write_reason := Some reason \<rparr>))"

definition drain_journal_rows :: "ledger \<Rightarrow> (pyval list) answer" where
  "drain_journal_rows l = (Inr (journal_rows l), l\<lparr> journal_rows := [] \<rparr>)"

definition close_operation :: "ledger \<Rightarrow> unit answer" where
  "close_operation l =
     (if \<not> is_open l then (Inl NotOpen, l)
      else (Inr (), l\<lparr> is_open := False, side_effects := 0, no_write_reason := None \<rparr>))"

definition record_applied :: "bool \<Rightarrow> ledger \<Rightarrow> unit answer" where
  "record_applied incompletely l =
     (if \<not> persisted l \<and> side_effects l = 0 \<and> no_write_reason l = None then (Inl ToldNothing, l)
      else case close_operation l of
        (Inl e, l') \<Rightarrow> (Inl e, l')
      | (Inr _, l') \<Rightarrow>
          (Inr (), l'\<lparr> applied := applied l' + 1,
             incomplete := (if incompletely then incomplete l' + 1 else incomplete l'),
             applied_create_temp_ids := (case pending_create_temp_id l' of
                 Some i \<Rightarrow> insert i (applied_create_temp_ids l') | None \<Rightarrow> applied_create_temp_ids l'),
             pending_create_temp_id := None \<rparr>))"

definition record_failed_operation :: "ledger \<Rightarrow> unit answer" where
  "record_failed_operation l =
     (let effects = side_effects l in
      case close_operation l of
        (Inl e, l') \<Rightarrow> (Inl e, l')
      | (Inr _, l') \<Rightarrow>
          (Inr (), l'\<lparr> failed := failed l' + 1,
             partially_applied := (if effects > 0 then partially_applied l' + 1 else partially_applied l'),
             pending_create_temp_id := None \<rparr>))"

definition abort_remaining :: "ledger \<Rightarrow> ledger" where
  "abort_remaining l = l\<lparr> aborted := True \<rparr>"

definition record_setup_failure :: "bool \<Rightarrow> ledger \<Rightarrow> ledger" where
  "record_setup_failure aborted_run l =
     l\<lparr> setup_failures := setup_failures l + 1, aborted := (aborted l \<or> aborted_run) \<rparr>"

text \<open>The interface as one type of calls; only \<open>drain_journal_rows\<close> answers rows.\<close>

datatype ledger_call =
    Begin
  | RecordWrite journal_row_spec
  | RecordPersisted journal_row_spec "int option"
  | AppliedWithoutWriting string
  | DrainJournalRows
  | RecordApplied bool
  | RecordFailed
  | AbortRemaining
  | RecordSetupFailure bool

definition no_rows :: "unit answer \<Rightarrow> (pyval list) answer" where
  "no_rows a = ((case fst a of Inl e \<Rightarrow> Inl e | Inr _ \<Rightarrow> Inr []), snd a)"

fun perform :: "ledger_call \<Rightarrow> ledger \<Rightarrow> (pyval list) answer" where
  "perform Begin l = no_rows (begin_operation l)"
| "perform (RecordWrite row) l = no_rows (record_write row l)"
| "perform (RecordPersisted row temp_id) l = no_rows (record_persisted row temp_id l)"
| "perform (AppliedWithoutWriting reason) l = no_rows (applied_without_writing reason l)"
| "perform DrainJournalRows l = drain_journal_rows l"
| "perform (RecordApplied inc) l = no_rows (record_applied inc l)"
| "perform RecordFailed l = no_rows (record_failed_operation l)"
| "perform AbortRemaining l = (Inr [], abort_remaining l)"
| "perform (RecordSetupFailure aborted_run) l = (Inr [], record_setup_failure aborted_run l)"

lemmas ledger_defs = begin_operation_def queue_journal_def record_write_def record_persisted_def
  applied_without_writing_def drain_journal_rows_def close_operation_def record_applied_def
  record_failed_operation_def abort_remaining_def record_setup_failure_def no_rows_def

section \<open>The invariant of a reachable ledger\<close>

definition ledger_inv :: "ledger \<Rightarrow> bool" where
  "ledger_inv l \<longleftrightarrow> partially_applied l \<le> failed l \<and> incomplete l \<le> applied l
     \<and> finite (applied_create_temp_ids l) \<and> card (applied_create_temp_ids l) \<le> applied l
     \<and> (\<not> is_open l \<longrightarrow> side_effects l = 0 \<and> no_write_reason l = None)
     \<and> (\<forall>row \<in> set (journal_rows l). row_ok row)"

text \<open>The rows a write queues, or \<open>None\<close> where the ledger refuses them.\<close>

definition accepted_rows :: "journal_row_spec \<Rightarrow> pyval list option" where
  "accepted_rows row =
     (case row of
        NothingToJournal _ \<Rightarrow> Some []
      | _ \<Rightarrow> if spec_rows row \<noteq> [] \<and> (\<forall>r \<in> set (spec_rows row). row_ok r) then Some (spec_rows row) else None)"

lemma queue_journal_accepted:
  "queue_journal row l = (case accepted_rows row of
     Some rows \<Rightarrow> (Inr (), l\<lparr> journal_rows := journal_rows l @ rows \<rparr>)
   | None \<Rightarrow> (Inl (if spec_rows row = [] then EmptyRowList else BadRow), l))"
  by (cases row) (auto simp: queue_journal_def accepted_rows_def Let_def)

lemma accepted_rows_ok: "accepted_rows row = Some rows \<Longrightarrow> r \<in> set rows \<Longrightarrow> row_ok r"
  by (cases row) (auto simp: accepted_rows_def split: if_splits)

lemma perform_inv:
  assumes "ledger_inv l"
  shows "ledger_inv (snd (perform c l))"
proof (cases c)
  case (RecordWrite row)
  with assms show ?thesis
    by (cases "accepted_rows row")
      (auto simp: ledger_inv_def record_write_def no_rows_def queue_journal_accepted accepted_rows_ok)
next
  case (RecordPersisted row i)
  with assms show ?thesis
    by (cases "accepted_rows row")
      (auto simp: ledger_inv_def record_persisted_def no_rows_def queue_journal_accepted accepted_rows_ok)
next
  case (RecordApplied inc)
  have "card (insert i (applied_create_temp_ids l)) \<le> Suc (applied l)" for i
    using assms card_insert_le_m1 [of "Suc (applied l)" "applied_create_temp_ids l" i] by (simp add: ledger_inv_def)
  with RecordApplied assms show ?thesis
    by (cases "pending_create_temp_id l") (auto simp: ledger_inv_def record_applied_def close_operation_def no_rows_def)
qed (use assms in \<open>auto simp: ledger_inv_def ledger_defs\<close>)

interpretation led: call_machine perform "\<lambda>l. \<exists>n. l = new_ledger n" ledger_inv
proof unfold_locales
  show "ledger_inv l" if "\<exists>n. l = new_ledger n" for l using that by (auto simp: ledger_inv_def new_ledger_def)
qed (rule perform_inv)

section \<open>The specification: a history of outcomes\<close>

datatype outcome = AppliedOutcome bool "int option" | FailedOutcome bool

record current_operation =
  cur_persisted :: bool
  cur_wrote :: bool
  cur_explained :: bool
  cur_temp_id :: "int option"

record history =
  closed :: "outcome list"
  current :: "current_operation option"

definition fresh_operation :: current_operation where
  "fresh_operation = \<lparr> cur_persisted = False, cur_wrote = False, cur_explained = False, cur_temp_id = None \<rparr>"

fun history_step :: "ledger_call \<Rightarrow> history \<Rightarrow> history" where
  "history_step Begin h = (if current h = None then h\<lparr> current := Some fresh_operation \<rparr> else h)"
| "history_step (RecordWrite row) h = h\<lparr> current := map_option (\<lambda>c. c\<lparr> cur_wrote := True \<rparr>) (current h) \<rparr>"
| "history_step (RecordPersisted row i) h =
     (if accepted_rows row = None then h
      else h\<lparr> current := map_option (\<lambda>c. c\<lparr> cur_persisted := True,
                cur_temp_id := (if i \<noteq> None then i else cur_temp_id c) \<rparr>) (current h) \<rparr>)"
| "history_step (AppliedWithoutWriting reason) h =
     (if py_strip reason = [] then h
      else h\<lparr> current := map_option (\<lambda>c. c\<lparr> cur_explained := True \<rparr>) (current h) \<rparr>)"
| "history_step (RecordApplied inc) h =
     (case current h of
        None \<Rightarrow> h
      | Some c \<Rightarrow> if cur_persisted c \<or> cur_wrote c \<or> cur_explained c
                  then \<lparr> closed = closed h @ [AppliedOutcome inc (cur_temp_id c)], current = None \<rparr> else h)"
| "history_step RecordFailed h =
     (case current h of
        None \<Rightarrow> h
      | Some c \<Rightarrow> \<lparr> closed = closed h @ [FailedOutcome (cur_wrote c)], current = None \<rparr>)"
| "history_step _ h = h"

definition history_of :: "ledger_call list \<Rightarrow> history" where
  "history_of cs = fold history_step cs \<lparr> closed = [], current = None \<rparr>"

fun is_applied :: "outcome \<Rightarrow> bool" where
  "is_applied (AppliedOutcome _ _) = True"
| "is_applied _ = False"

definition counts :: "ledger \<Rightarrow> outcome list \<Rightarrow> bool" where
  "counts l os \<longleftrightarrow>
     applied l = length (filter is_applied os)
     \<and> failed l = length (filter (\<lambda>o'. \<not> is_applied o') os)
     \<and> incomplete l = length (filter (\<lambda>o'. \<exists>i. o' = AppliedOutcome True i) os)
     \<and> partially_applied l = length (filter (\<lambda>o'. o' = FailedOutcome True) os)
     \<and> applied_create_temp_ids l = {i. \<exists>inc. AppliedOutcome inc (Some i) \<in> set os}"

definition current_matches :: "ledger \<Rightarrow> current_operation option \<Rightarrow> bool" where
  "current_matches l cur \<longleftrightarrow>
     (case cur of
        None \<Rightarrow> \<not> is_open l
      | Some c \<Rightarrow> is_open l \<and> persisted l = cur_persisted c \<and> (side_effects l > 0) = cur_wrote c
          \<and> (no_write_reason l \<noteq> None) = cur_explained c \<and> pending_create_temp_id l = cur_temp_id c)"

lemma counts_applied:
  assumes "counts l os" "applied l' = Suc (applied l)" "failed l' = failed l"
    "incomplete l' = (if inc then Suc (incomplete l) else incomplete l)"
    "partially_applied l' = partially_applied l"
    "applied_create_temp_ids l' = (case i of Some j \<Rightarrow> insert j (applied_create_temp_ids l)
                                           | None \<Rightarrow> applied_create_temp_ids l)"
  shows "counts l' (os @ [AppliedOutcome inc i])"
  using assms by (cases i) (auto simp: counts_def)

lemma counts_failed:
  assumes "counts l os" "applied l' = applied l" "failed l' = Suc (failed l)" "incomplete l' = incomplete l"
    "partially_applied l' = (if wrote then Suc (partially_applied l) else partially_applied l)"
    "applied_create_temp_ids l' = applied_create_temp_ids l"
  shows "counts l' (os @ [FailedOutcome wrote])"
  using assms by (simp add: counts_def)

lemma counts_frame [simp]:
  "counts (l\<lparr> is_open := b \<rparr>) os = counts l os" "counts (l\<lparr> persisted := b \<rparr>) os = counts l os"
  "counts (l\<lparr> side_effects := n \<rparr>) os = counts l os" "counts (l\<lparr> no_write_reason := r \<rparr>) os = counts l os"
  "counts (l\<lparr> pending_create_temp_id := i \<rparr>) os = counts l os" "counts (l\<lparr> journal_rows := js \<rparr>) os = counts l os"
  "counts (l\<lparr> aborted := b \<rparr>) os = counts l os" "counts (l\<lparr> setup_failures := n \<rparr>) os = counts l os"
  by (simp_all add: counts_def)

lemma perform_refines:
  assumes "counts l (closed h)" "current_matches l (current h)"
  shows "counts (snd (perform c l)) (closed (history_step c h))
    \<and> current_matches (snd (perform c l)) (current (history_step c h))"
proof (cases c)
  case Begin
  with assms show ?thesis
    by (auto simp: begin_operation_def no_rows_def current_matches_def fresh_operation_def split: option.splits)
next
  case (RecordWrite row)
  with assms show ?thesis
    by (cases "accepted_rows row"; cases "current h")
      (auto simp: record_write_def no_rows_def queue_journal_accepted current_matches_def)
next
  case (RecordPersisted row i)
  with assms show ?thesis
    by (cases "accepted_rows row"; cases "current h")
      (auto simp: record_persisted_def no_rows_def queue_journal_accepted current_matches_def)
next
  case (AppliedWithoutWriting reason)
  with assms show ?thesis
    by (cases "current h")
      (auto simp: applied_without_writing_def no_rows_def current_matches_def)
next
  case (RecordApplied inc)
  show ?thesis
  proof (cases "current h")
    case None
    with RecordApplied assms show ?thesis
      by (simp add: record_applied_def close_operation_def no_rows_def current_matches_def)
  next
    case (Some cur)
    with assms(2) have o: "is_open l" "persisted l = cur_persisted cur" "(side_effects l = 0) = (\<not> cur_wrote cur)"
      "(no_write_reason l = None) = (\<not> cur_explained cur)" "pending_create_temp_id l = cur_temp_id cur"
      by (auto simp: current_matches_def)
    show ?thesis
    proof (cases "cur_persisted cur \<or> cur_wrote cur \<or> cur_explained cur")
      case True
      have "counts (snd (record_applied inc l)) (closed h @ [AppliedOutcome inc (cur_temp_id cur)])"
        by (rule counts_applied [OF assms(1)])
          (use o True in \<open>auto simp: record_applied_def close_operation_def split: option.split\<close>)
      moreover have "\<not> is_open (snd (record_applied inc l))"
        using o True by (simp add: record_applied_def close_operation_def)
      ultimately show ?thesis using True Some RecordApplied by (simp add: no_rows_def current_matches_def)
    next
      case False
      then show ?thesis using o Some RecordApplied assms by (simp add: record_applied_def no_rows_def)
    qed
  qed
next
  case RecordFailed
  with assms show ?thesis
    by (cases "current h")
      (auto simp: record_failed_operation_def close_operation_def no_rows_def current_matches_def intro!: counts_failed)
qed (use assms in \<open>auto simp: drain_journal_rows_def abort_remaining_def record_setup_failure_def
    current_matches_def split: option.splits\<close>)

lemma run_refines:
  "counts (run_calls perform cs (new_ledger n)) (closed (history_of cs))
   \<and> current_matches (run_calls perform cs (new_ledger n)) (current (history_of cs))"
proof -
  have "counts l (closed h) \<Longrightarrow> current_matches l (current h) \<Longrightarrow>
    counts (run_calls perform cs l) (closed (fold history_step cs h))
    \<and> current_matches (run_calls perform cs l) (current (fold history_step cs h))" for l h
    using perform_refines by (induction cs arbitrary: l h) auto
  moreover have "counts (new_ledger n) []" "current_matches (new_ledger n) None"
    by (simp_all add: counts_def current_matches_def new_ledger_def)
  ultimately show ?thesis by (simp add: history_of_def)
qed

text \<open>
  C3. The counters are those of the history of outcomes, whatever sequence of calls drives the
  ledger and whichever exceptions its callers swallow. An operation resolves to one outcome: it is
  opened once and closed once, counted as applied only after it reported a write or explained its
  absence, counted as failed otherwise, as partially applied exactly when a write that is not its
  outcome was recorded inside it, and the temporary ids are those of the applied creations.
\<close>

theorem ledger_counts_each_outcome_once:
  "counts (run_calls perform cs (new_ledger n)) (closed (history_of cs))"
  using run_refines by blast

fun drained :: "ledger_call list \<Rightarrow> ledger \<Rightarrow> pyval list" where
  "drained [] l = []"
| "drained (c # cs) l = (case fst (perform c l) of Inr rows \<Rightarrow> rows | Inl _ \<Rightarrow> []) @ drained cs (snd (perform c l))"

fun landed_rows :: "ledger_call \<Rightarrow> pyval list" where
  "landed_rows (RecordWrite row) = (case accepted_rows row of Some rows \<Rightarrow> rows | None \<Rightarrow> [])"
| "landed_rows (RecordPersisted row i) = (case accepted_rows row of Some rows \<Rightarrow> rows | None \<Rightarrow> [])"
| "landed_rows _ = []"

lemma perform_rows:
  "(case fst (perform c l) of Inr rows \<Rightarrow> rows | Inl _ \<Rightarrow> []) @ journal_rows (snd (perform c l))
     = journal_rows l @ landed_rows c"
proof (cases c)
  case (RecordWrite row)
  then show ?thesis
    by (cases "accepted_rows row") (simp_all add: record_write_def no_rows_def queue_journal_accepted)
next
  case (RecordPersisted row i)
  then show ?thesis
    by (cases "accepted_rows row") (simp_all add: record_persisted_def no_rows_def queue_journal_accepted)
qed (auto simp: begin_operation_def applied_without_writing_def drain_journal_rows_def close_operation_def
    record_applied_def record_failed_operation_def abort_remaining_def record_setup_failure_def no_rows_def)

text \<open>
  No journal row is lost or written twice: over any run, the rows handed out by
  \<open>drain_journal_rows\<close> followed by the rows still queued are the rows of the landed writes, in the
  order the writes landed, no matter how the operations they belong to ended.
\<close>

theorem journal_rows_are_drained_once:
  "drained cs (new_ledger n) @ journal_rows (run_calls perform cs (new_ledger n)) = concat (map landed_rows cs)"
proof -
  have "drained cs l @ journal_rows (run_calls perform cs l) = journal_rows l @ concat (map landed_rows cs)" for l
  proof (induction cs arbitrary: l)
    case (Cons c cs)
    show ?case using Cons.IH [of "snd (perform c l)"] perform_rows [of c l] by simp
  qed simp
  from this [of "new_ledger n"] show ?thesis by (simp add: new_ledger_def)
qed

section \<open>The envelope\<close>

text \<open>An error entry by the two keys the audit reads, and the parts of the result it looks at. A
  value of any type can stand under a key.\<close>

record error_entry =
  err_applied :: pyval
  err_side_effects_landed :: pyval

record envelope =
  env_operations_applied :: pyval
  env_operations_failed :: pyval
  env_operations_partially_applied :: pyval
  env_success :: pyval
  env_partial :: pyval
  env_errors :: "error_entry list"
  env_normalization_failures :: "pyval list"

datatype violation =
    AppliedNotCount | FailedNotCount | AttemptedTooMany | AttemptedMismatch | ErrorsUnaccounted
  | PartiallyAppliedMisreported | PartiallyAppliedExceedsFailed | SideEffectsUnmarked
  | SuccessWrong | PartialWrong | NormalizationNamesUnapplied pyval

definition non_negative_int :: "pyval \<Rightarrow> int option" where
  "non_negative_int v = (case v of PInt n \<Rightarrow> if n < 0 then None else Some n | _ \<Rightarrow> None)"

text \<open>\<open>v == n\<close> for an int \<open>n\<close>: numbers compare by value, \<open>True\<close> is 1.\<close>

fun equals_int :: "pyval \<Rightarrow> int \<Rightarrow> bool" where
  "equals_int (PInt m) n = (m = n)"
| "equals_int (PBool b) n = ((if b then 1 else 0) = n)"
| "equals_int (PFloat (Fin x)) n = (x = of_int n)"
| "equals_int _ n = False"

definition applied_errors :: "error_entry list \<Rightarrow> error_entry list" where
  "applied_errors es = filter (\<lambda>e. err_applied e = PBool True) es"

definition unapplied_errors :: "error_entry list \<Rightarrow> error_entry list" where
  "unapplied_errors es = filter (\<lambda>e. err_applied e \<noteq> PBool True) es"

definition bulk_commit_accounting_violations ::
  "envelope \<Rightarrow> nat \<Rightarrow> bool \<Rightarrow> int set \<Rightarrow> nat \<Rightarrow> nat \<Rightarrow> violation list" where
  "bulk_commit_accounting_violations r submitted was_aborted temp_ids setups partials =
     (case non_negative_int (env_operations_applied r) of
        None \<Rightarrow> [AppliedNotCount]
      | Some n_applied \<Rightarrow>
     (case non_negative_int (env_operations_failed r) of
        None \<Rightarrow> [FailedNotCount]
      | Some n_failed \<Rightarrow>
        (let attempts = n_applied + n_failed;
             expected_success = (n_failed = 0 \<and> applied_errors (env_errors r) = [] \<and> setups = 0);
             landed = (n_applied > 0 \<or> partials > 0);
             expected_partial = (landed \<and> (n_failed > 0 \<or> applied_errors (env_errors r) \<noteq> []));
             marked = filter (\<lambda>e. err_side_effects_landed e = PBool True) (env_errors r)
         in (if was_aborted then (if attempts > int submitted then [AttemptedTooMany] else [])
             else (if attempts \<noteq> int submitted then [AttemptedMismatch] else []))
          @ (if n_failed + int setups \<noteq> int (length (unapplied_errors (env_errors r))) then [ErrorsUnaccounted] else [])
          @ (if \<not> equals_int (env_operations_partially_applied r) (int partials) then [PartiallyAppliedMisreported] else [])
          @ (if int partials > n_failed then [PartiallyAppliedExceedsFailed] else [])
          @ (if length marked \<noteq> partials then [SideEffectsUnmarked] else [])
          @ (if env_success r \<noteq> PBool expected_success then [SuccessWrong] else [])
          @ (if env_partial r \<noteq> PBool expected_partial then [PartialWrong] else [])
          @ map NormalizationNamesUnapplied
              (filter (\<lambda>t. \<not> (\<exists>i \<in> temp_ids. equals_int t i)) (env_normalization_failures r)))))"

definition derive_flags :: "envelope \<Rightarrow> ledger \<Rightarrow> envelope" where
  "derive_flags r l =
     r\<lparr> env_operations_applied := PInt (int (applied l)),
        env_operations_failed := PInt (int (failed l)),
        env_operations_partially_applied := PInt (int (partially_applied l)),
        env_success := PBool (failed l = 0 \<and> incomplete l = 0 \<and> setup_failures l = 0),
        env_partial := PBool ((applied l > 0 \<or> partially_applied l > 0) \<and> (failed l > 0 \<or> incomplete l > 0)) \<rparr>"

definition finalize_bulk_commit_result :: "envelope \<Rightarrow> ledger \<Rightarrow> (violation list, envelope) result" where
  "finalize_bulk_commit_result r l =
     (let r' = derive_flags r l;
          violations = bulk_commit_accounting_violations r' (total_operations l) (aborted l)
                         (applied_create_temp_ids l) (setup_failures l) (partially_applied l)
      in if violations \<noteq> [] then Inl violations else Inr r')"

lemma non_negative_int_of_nat [simp]: "non_negative_int (PInt (int n)) = Some (int n)"
  by (simp add: non_negative_int_def)

lemma if_single_Nil [simp]: "((if b then [x] else []) = []) = (\<not> b)"
  by simp

definition partial_run :: "ledger \<Rightarrow> bool \<Rightarrow> bool" where
  "partial_run l unclean \<longleftrightarrow> (applied l > 0 \<or> partially_applied l > 0) \<and> (failed l > 0 \<or> unclean)"

text \<open>The conditions under which the audit passes.\<close>

definition accounted :: "envelope \<Rightarrow> ledger \<Rightarrow> bool" where
  "accounted r l \<longleftrightarrow>
     (if aborted l then attempted l \<le> total_operations l else attempted l = total_operations l)
     \<and> failed l + setup_failures l = length (unapplied_errors (env_errors r))
     \<and> partially_applied l \<le> failed l
     \<and> length (filter (\<lambda>e. err_side_effects_landed e = PBool True) (env_errors r)) = partially_applied l
     \<and> (failed l = 0 \<and> setup_failures l = 0 \<longrightarrow> (incomplete l = 0 \<longleftrightarrow> applied_errors (env_errors r) = []))
     \<and> partial_run l (incomplete l > 0) = partial_run l (applied_errors (env_errors r) \<noteq> [])
     \<and> (\<forall>t \<in> set (env_normalization_failures r). \<exists>i \<in> applied_create_temp_ids l. equals_int t i)"

lemma finalize_Inr:
  "finalize_bulk_commit_result r l = Inr r' \<longleftrightarrow> r' = derive_flags r l \<and> accounted r l"
proof -
  have fields: "env_errors (derive_flags r l) = env_errors r"
    "env_normalization_failures (derive_flags r l) = env_normalization_failures r"
    "env_operations_applied (derive_flags r l) = PInt (int (applied l))"
    "env_operations_failed (derive_flags r l) = PInt (int (failed l))"
    "env_operations_partially_applied (derive_flags r l) = PInt (int (partially_applied l))"
    "env_success (derive_flags r l) = PBool (failed l = 0 \<and> incomplete l = 0 \<and> setup_failures l = 0)"
    "env_partial (derive_flags r l) = PBool (partial_run l (incomplete l > 0))"
    by (simp_all add: derive_flags_def partial_run_def)
  have "bulk_commit_accounting_violations (derive_flags r l) (total_operations l) (aborted l)
      (applied_create_temp_ids l) (setup_failures l) (partially_applied l) = [] \<longleftrightarrow> accounted r l"
    unfolding bulk_commit_accounting_violations_def fields non_negative_int_of_nat option.case Let_def
      append_is_Nil_conv if_single_Nil equals_int.simps simp_thms accounted_def
  proof (intro conj_cong, goal_cases)
    case 1
    then show ?case by (auto simp: attempted_def)
  next
    case 2
    then show ?case by (auto simp flip: of_nat_add)
  next
    case 5
    then show ?case by auto
  next
    case 6
    then show ?case by (simp add: partial_run_def)
  next
    case 7
    then show ?case by (auto simp: filter_empty_conv)
  qed (simp_all add: not_less)
  then show ?thesis by (auto simp: finalize_bulk_commit_result_def Let_def)
qed

section \<open>What the module guarantees\<close>

text \<open>
  C25. An envelope that leaves \<open>finalize_bulk_commit_result\<close> is truthful. It passes the audit; its three
  counts are those of the ledger; \<open>success\<close> is true exactly when no operation failed, none was
  incomplete and no step outside the operations failed, which is exactly when the error list is empty;
  \<open>partial\<close> is true exactly when something landed and some operation failed or was incomplete; an unaborted
  run has resolved every submitted operation; the error list has one entry not marked as applied for each
  failed operation and each failed step, and one marked for side effects for each partially applied
  operation; and every channel listed under \<open>normalizationFailures\<close> belongs to a creation that was applied.
\<close>

theorem finalized_envelope_is_truthful:
  assumes "finalize_bulk_commit_result r l = Inr r'"
  shows "bulk_commit_accounting_violations r' (total_operations l) (aborted l) (applied_create_temp_ids l)
        (setup_failures l) (partially_applied l) = []
    \<and> env_operations_applied r' = PInt (int (applied l)) \<and> env_operations_failed r' = PInt (int (failed l))
    \<and> env_operations_partially_applied r' = PInt (int (partially_applied l))
    \<and> env_success r' = PBool (failed l = 0 \<and> incomplete l = 0 \<and> setup_failures l = 0)
    \<and> env_success r' = PBool (env_errors r' = [])
    \<and> env_partial r' = PBool ((applied l > 0 \<or> partially_applied l > 0) \<and> (failed l > 0 \<or> incomplete l > 0))
    \<and> (\<not> aborted l \<longrightarrow> applied l + failed l = total_operations l)
    \<and> length (filter (\<lambda>e. err_applied e \<noteq> PBool True) (env_errors r')) = failed l + setup_failures l
    \<and> length (filter (\<lambda>e. err_side_effects_landed e = PBool True) (env_errors r')) = partially_applied l
    \<and> (\<forall>t \<in> set (env_normalization_failures r'). \<exists>i \<in> applied_create_temp_ids l. equals_int t i)"
proof -
  have r': "r' = derive_flags r l" and acc: "accounted r l" using assms by (simp_all add: finalize_Inr)
  have audit: "bulk_commit_accounting_violations r' (total_operations l) (aborted l) (applied_create_temp_ids l)
      (setup_failures l) (partially_applied l) = []"
    using assms by (auto simp: finalize_bulk_commit_result_def Let_def split: if_splits)
  have fields: "env_errors r' = env_errors r" "env_normalization_failures r' = env_normalization_failures r"
    "env_success r' = PBool (failed l = 0 \<and> incomplete l = 0 \<and> setup_failures l = 0)"
    by (simp_all add: r' derive_flags_def)
  have split: "env_errors r = [] \<longleftrightarrow> applied_errors (env_errors r) = [] \<and> unapplied_errors (env_errors r) = []"
    by (auto simp: applied_errors_def unapplied_errors_def filter_empty_conv)
  have un: "unapplied_errors (env_errors r) = [] \<longleftrightarrow> failed l = 0 \<and> setup_failures l = 0"
    using acc by (metis accounted_def add_is_0 length_0_conv)
  have inc: "failed l = 0 \<and> setup_failures l = 0 \<longrightarrow> (incomplete l = 0 \<longleftrightarrow> applied_errors (env_errors r) = [])"
    using acc by (simp add: accounted_def)
  have "env_success r' = PBool (env_errors r' = [])" unfolding fields split un using inc by auto
  moreover have "\<not> aborted l \<longrightarrow> applied l + failed l = total_operations l"
    using acc by (cases "aborted l") (simp_all add: accounted_def attempted_def)
  moreover have "length (filter (\<lambda>e. err_applied e \<noteq> PBool True) (env_errors r')) = failed l + setup_failures l"
    "length (filter (\<lambda>e. err_side_effects_landed e = PBool True) (env_errors r')) = partially_applied l"
    "\<forall>t \<in> set (env_normalization_failures r'). \<exists>i \<in> applied_create_temp_ids l. equals_int t i"
    using acc fields by (simp_all add: accounted_def unapplied_errors_def)
  ultimately show ?thesis using audit fields(3) by (simp add: r' derive_flags_def)
qed

definition sample_row :: journal_row_spec where
  "sample_row = OneRow (PDict [(''description'', PStr ''created'')])"

definition one_create :: "ledger_call list" where
  "one_create = [Begin, RecordPersisted sample_row (Some (- 1)), RecordApplied False]"

definition empty_envelope :: envelope where
  "empty_envelope = \<lparr> env_operations_applied = PNone, env_operations_failed = PNone,
     env_operations_partially_applied = PNone, env_success = PNone, env_partial = PNone, env_errors = [],
     env_normalization_failures = [PInt (- 1)] \<rparr>"

lemma one_create_run:
  "run_calls perform one_create (new_ledger 1) = (new_ledger 1)\<lparr> applied := 1, applied_create_temp_ids := {- 1},
     journal_rows := [PDict [(''description'', PStr ''created'')]], persisted := True \<rparr>"
  by (simp add: one_create_def sample_row_def new_ledger_def ledger_defs)

lemma one_create_fields:
  "applied (run_calls perform one_create (new_ledger 1)) = 1" "failed (run_calls perform one_create (new_ledger 1)) = 0"
  "incomplete (run_calls perform one_create (new_ledger 1)) = 0"
  "partially_applied (run_calls perform one_create (new_ledger 1)) = 0"
  "setup_failures (run_calls perform one_create (new_ledger 1)) = 0"
  "\<not> aborted (run_calls perform one_create (new_ledger 1))"
  "total_operations (run_calls perform one_create (new_ledger 1)) = 1"
  "applied_create_temp_ids (run_calls perform one_create (new_ledger 1)) = {- 1}"
  unfolding one_create_run by (simp_all add: new_ledger_def)

lemma one_create_accounted: "accounted empty_envelope (run_calls perform one_create (new_ledger 1))"
  by (simp add: accounted_def one_create_fields empty_envelope_def attempted_def unapplied_errors_def
      applied_errors_def partial_run_def del: One_nat_def)

lemma finalized_envelope_is_truthful_witness:
  "env_success (derive_flags empty_envelope (run_calls perform one_create (new_ledger 1))) = PBool True"
  using finalized_envelope_is_truthful
    [of empty_envelope "run_calls perform one_create (new_ledger 1)", OF finalize_Inr [THEN iffD2]]
    one_create_accounted by (simp add: derive_flags_def empty_envelope_def del: One_nat_def)

section \<open>The loop over the operations\<close>

text \<open>
  How the bulk commit drives the ledger (\<open>backend/routers/channels.py\<close>). What a branch does is given by the
  records it makes, in order, and whether it raises in the end: an upstream write of its own, its outcome
  (for a create with the temporary id, and with a normalization failure held until then), or the reason for
  writing nothing. A record that the ledger refuses raises in the branch.
\<close>

datatype branch_step =
    Wrote journal_row_spec
  | Persisted journal_row_spec bool
  | NoWrite string

record branch_run =
  op_temp_id :: "int option"
  op_steps :: "branch_step list"
  op_raises :: bool

record bulk_state =
  bs_ledger :: ledger
  bs_errors :: "error_entry list"
  bs_normalization_failures :: "pyval list"

fun step_call :: "int option \<Rightarrow> branch_step \<Rightarrow> ledger_call" where
  "step_call temp_id (Wrote row) = RecordWrite row"
| "step_call temp_id (Persisted row raw) = RecordPersisted row temp_id"
| "step_call temp_id (NoWrite reason) = AppliedWithoutWriting reason"

fun held_failure :: "int option \<Rightarrow> branch_step \<Rightarrow> pyval list" where
  "held_failure (Some t) (Persisted row True) = [PInt t]"
| "held_failure _ _ = []"

text \<open>The branch: \<open>True\<close> when it ended without an exception.\<close>

fun run_branch :: "int option \<Rightarrow> branch_step list \<Rightarrow> bulk_state \<Rightarrow> bool \<times> bulk_state" where
  "run_branch temp_id [] st = (True, st)"
| "run_branch temp_id (s # ss) st =
     (case perform (step_call temp_id s) (bs_ledger st) of
        (Inl e, l) \<Rightarrow> (False, st\<lparr>bs_ledger := l\<rparr>)
      | (Inr _, l) \<Rightarrow>
          run_branch temp_id ss (st\<lparr>bs_ledger := l,
            bs_normalization_failures := bs_normalization_failures st @ held_failure temp_id s\<rparr>))"

text \<open>The handler of an operation that raised: applied but incomplete when its outcome had landed, failed
  otherwise, marked when writes of its own had landed. A key that is not set is \<open>None\<close>.\<close>

definition operation_raised :: "bulk_state \<Rightarrow> bulk_state" where
  "operation_raised st =
     (let l = bs_ledger st in
      if persisted l then
        st\<lparr>bs_ledger := snd (perform (RecordApplied True) l),
           bs_errors := bs_errors st @ [\<lparr>err_applied = PBool True, err_side_effects_landed = PNone\<rparr>]\<rparr>
      else
        st\<lparr>bs_ledger := snd (perform RecordFailed l),
           bs_errors := bs_errors st @ [\<lparr>err_applied = PNone,
             err_side_effects_landed = (if side_effects_landed l then PBool True else PNone)\<rparr>]\<rparr>)"

definition execute_operation :: "branch_run \<Rightarrow> bulk_state \<Rightarrow> bool \<times> bulk_state" where
  "execute_operation op st =
     (case run_branch (op_temp_id op) (op_steps op) (st\<lparr>bs_ledger := snd (perform Begin (bs_ledger st))\<rparr>) of
        (ended, st1) \<Rightarrow>
          if ended \<and> \<not> op_raises op then
            (case perform (RecordApplied False) (bs_ledger st1) of
               (Inr _, l) \<Rightarrow> (True, st1\<lparr>bs_ledger := l\<rparr>)
             | (Inl e, l) \<Rightarrow> (False, operation_raised (st1\<lparr>bs_ledger := l\<rparr>)))
          else (False, operation_raised st1))"

fun execute_operations :: "bool \<Rightarrow> branch_run list \<Rightarrow> bulk_state \<Rightarrow> bulk_state" where
  "execute_operations continue_on_error [] st = st"
| "execute_operations continue_on_error (op # ops) st =
     (case execute_operation op st of
        (ended, st1) \<Rightarrow>
          if ended \<or> continue_on_error then execute_operations continue_on_error ops st1
          else st1\<lparr>bs_ledger := abort_remaining (bs_ledger st1)\<rparr>)"

text \<open>A failure that is no operation's: a group that could not be made and a run that fell over abort the
  run, numbers that could not be put back and journal rows that could not be written do not.\<close>

definition setup_failed :: "bool \<Rightarrow> bulk_state \<Rightarrow> bulk_state" where
  "setup_failed aborted_run st =
     st\<lparr>bs_ledger := record_setup_failure aborted_run (bs_ledger st),
        bs_errors := bs_errors st @ [\<lparr>err_applied = PNone, err_side_effects_landed = PNone\<rparr>]\<rparr>"

definition new_bulk_state :: "nat \<Rightarrow> bulk_state" where
  "new_bulk_state n = \<lparr>bs_ledger = new_ledger n, bs_errors = [], bs_normalization_failures = []\<rparr>"

definition bulk_envelope :: "bulk_state \<Rightarrow> envelope" where
  "bulk_envelope st =
     \<lparr>env_operations_applied = PInt 0, env_operations_failed = PInt 0, env_operations_partially_applied = PInt 0,
      env_success = PBool True, env_partial = PBool False, env_errors = bs_errors st,
      env_normalization_failures = bs_normalization_failures st\<rparr>"

text \<open>What holds between two operations of a run of \<open>n\<close>, of which \<open>k\<close> have been attempted.\<close>

definition balanced :: "nat \<Rightarrow> nat \<Rightarrow> bulk_state \<Rightarrow> bool" where
  "balanced n k st \<longleftrightarrow>
     (let l = bs_ledger st in
      \<not> is_open l \<and> total_operations l = n \<and> attempted l = k \<and> partially_applied l \<le> failed l \<and>
      length (unapplied_errors (bs_errors st)) = failed l + setup_failures l \<and>
      length (applied_errors (bs_errors st)) = incomplete l \<and>
      length (filter (\<lambda>e. err_side_effects_landed e = PBool True) (bs_errors st)) = partially_applied l \<and>
      (\<forall>t \<in> set (bs_normalization_failures st). \<exists>i \<in> applied_create_temp_ids l. t = PInt i))"

text \<open>The counters that no record inside an operation touches.\<close>

definition counters_kept :: "ledger \<Rightarrow> ledger \<Rightarrow> bool" where
  "counters_kept l l' \<longleftrightarrow>
     total_operations l' = total_operations l \<and> applied l' = applied l \<and> failed l' = failed l \<and>
     incomplete l' = incomplete l \<and> partially_applied l' = partially_applied l \<and>
     setup_failures l' = setup_failures l \<and> aborted l' = aborted l \<and>
     applied_create_temp_ids l' = applied_create_temp_ids l"

definition inside_operation :: "int option \<Rightarrow> bulk_state \<Rightarrow> bulk_state \<Rightarrow> bool" where
  "inside_operation temp_id st st1 \<longleftrightarrow>
     is_open (bs_ledger st1) \<and> counters_kept (bs_ledger st) (bs_ledger st1) \<and> bs_errors st1 = bs_errors st \<and>
     pending_create_temp_id (bs_ledger st1) = (if persisted (bs_ledger st1) then temp_id else None) \<and>
     (\<exists>held. bs_normalization_failures st1 = bs_normalization_failures st @ held \<and>
        (held \<noteq> [] \<longrightarrow> persisted (bs_ledger st1)) \<and> (\<forall>t \<in> set held. \<exists>i. temp_id = Some i \<and> t = PInt i))"

lemma step_inside:
  assumes "inside_operation temp_id st st1" "perform (step_call temp_id s) (bs_ledger st1) = (a, l)"
  shows "inside_operation temp_id st (st1\<lparr>bs_ledger := l\<rparr>)"
    and "a = Inr rows \<Longrightarrow> inside_operation temp_id st (st1\<lparr>bs_ledger := l,
           bs_normalization_failures := bs_normalization_failures st1 @ held_failure temp_id s\<rparr>)"
proof -
  obtain held where held: "bs_normalization_failures st1 = bs_normalization_failures st @ held"
    "held \<noteq> [] \<longrightarrow> persisted (bs_ledger st1)" "\<forall>t \<in> set held. \<exists>i. temp_id = Some i \<and> t = PInt i"
    using assms(1) by (auto simp: inside_operation_def)
  have o: "is_open (bs_ledger st1)" "pending_create_temp_id (bs_ledger st1) = (if persisted (bs_ledger st1) then temp_id else None)"
    using assms(1) by (simp_all add: inside_operation_def)
  have l: "is_open l \<and> counters_kept (bs_ledger st1) l \<and>
      (persisted (bs_ledger st1) \<longrightarrow> persisted l) \<and> pending_create_temp_id l = (if persisted l then temp_id else None) \<and>
      (a = Inr rows \<and> held_failure temp_id s \<noteq> [] \<longrightarrow> persisted l)"
  proof (cases s)
    case (Wrote row)
    with assms(2) o show ?thesis
      by (cases "accepted_rows row")
        (auto simp: record_write_def no_rows_def queue_journal_accepted counters_kept_def)
  next
    case (Persisted row raw)
    with assms(2) o show ?thesis
      by (cases "accepted_rows row")
        (auto simp: record_persisted_def no_rows_def queue_journal_accepted counters_kept_def)
  next
    case (NoWrite reason)
    with assms(2) o show ?thesis
      by (auto simp: applied_without_writing_def no_rows_def counters_kept_def split: if_splits)
  qed
  have counts: "counters_kept (bs_ledger st) l" using l assms(1) by (simp add: inside_operation_def counters_kept_def)
  show "inside_operation temp_id st (st1\<lparr>bs_ledger := l\<rparr>)"
    using l counts assms(1) held unfolding inside_operation_def by auto
  have "\<forall>t \<in> set (held_failure temp_id s). \<exists>i. temp_id = Some i \<and> t = PInt i"
    by (cases "(temp_id, s)" rule: held_failure.cases) simp_all
  then show "a = Inr rows \<Longrightarrow> inside_operation temp_id st (st1\<lparr>bs_ledger := l,
      bs_normalization_failures := bs_normalization_failures st1 @ held_failure temp_id s\<rparr>)"
    using l counts assms(1) held unfolding inside_operation_def
    by (auto intro!: exI [of _ "held @ held_failure temp_id s"])
qed

lemma branch_inside:
  "inside_operation temp_id st st1 \<Longrightarrow> inside_operation temp_id st (snd (run_branch temp_id ss st1))"
proof (induction ss arbitrary: st1)
  case (Cons s ss)
  obtain a l where a: "perform (step_call temp_id s) (bs_ledger st1) = (a, l)" by fastforce
  show ?case
  proof (cases a)
    case (Inl e)
    with a step_inside(1) [OF Cons.prems a] show ?thesis by simp
  next
    case (Inr rows)
    with a Cons.IH [OF step_inside(2) [OF Cons.prems a Inr]] show ?thesis by simp
  qed
qed simp

lemma begin_inside:
  assumes "\<not> is_open (bs_ledger st)"
  shows "inside_operation temp_id st (st\<lparr>bs_ledger := snd (perform Begin (bs_ledger st))\<rparr>)"
  using assms by (simp add: inside_operation_def counters_kept_def begin_operation_def no_rows_def)

lemma held_applied:
  assumes "inside_operation temp_id st st1" "balanced n k st" "t \<in> set (bs_normalization_failures st1)"
  shows "\<exists>i. t = PInt i \<and> (i \<in> applied_create_temp_ids (bs_ledger st) \<or>
    (persisted (bs_ledger st1) \<and> pending_create_temp_id (bs_ledger st1) = Some i))"
proof -
  obtain held where held: "bs_normalization_failures st1 = bs_normalization_failures st @ held"
    "held \<noteq> [] \<longrightarrow> persisted (bs_ledger st1)" "\<forall>t \<in> set held. \<exists>i. temp_id = Some i \<and> t = PInt i"
    "persisted (bs_ledger st1) \<longrightarrow> pending_create_temp_id (bs_ledger st1) = temp_id"
    using assms(1) by (auto simp: inside_operation_def)
  with assms(2,3) show ?thesis by (fastforce simp: balanced_def Let_def)
qed

text \<open>Closing an operation as applied or as failed.\<close>

lemma applied_balanced:
  assumes "inside_operation temp_id st st1" "balanced n k st"
    and "persisted (bs_ledger st1) \<or> side_effects (bs_ledger st1) \<noteq> 0 \<or> no_write_reason (bs_ledger st1) \<noteq> None"
    and "incompletely \<longleftrightarrow> es \<noteq> []" "es = [] \<or> es = [\<lparr>err_applied = PBool True, err_side_effects_landed = PNone\<rparr>]"
  shows "fst (perform (RecordApplied incompletely) (bs_ledger st1)) \<noteq> Inl e \<and>
    balanced n (Suc k) (st1\<lparr>bs_ledger := snd (perform (RecordApplied incompletely) (bs_ledger st1)), bs_errors := bs_errors st1 @ es\<rparr>)"
proof -
  let ?l = "bs_ledger st1" and ?l' = "snd (perform (RecordApplied incompletely) (bs_ledger st1))"
  have l: "?l' = ?l\<lparr>is_open := False, side_effects := 0, no_write_reason := None, applied := applied ?l + 1,
      incomplete := (if incompletely then incomplete ?l + 1 else incomplete ?l),
      applied_create_temp_ids := (case pending_create_temp_id ?l of
         Some i \<Rightarrow> insert i (applied_create_temp_ids ?l) | None \<Rightarrow> applied_create_temp_ids ?l),
      pending_create_temp_id := None\<rparr>" "fst (perform (RecordApplied incompletely) (bs_ledger st1)) \<noteq> Inl e"
  proof -
    have told: "\<not> (\<not> persisted ?l \<and> side_effects ?l = 0 \<and> no_write_reason ?l = None)" using assms(3) by blast
    have "is_open ?l" using assms(1) by (simp add: inside_operation_def)
    then show "?l' = ?l\<lparr>is_open := False, side_effects := 0, no_write_reason := None, applied := applied ?l + 1,
        incomplete := (if incompletely then incomplete ?l + 1 else incomplete ?l),
        applied_create_temp_ids := (case pending_create_temp_id ?l of
           Some i \<Rightarrow> insert i (applied_create_temp_ids ?l) | None \<Rightarrow> applied_create_temp_ids ?l),
        pending_create_temp_id := None\<rparr>" "fst (perform (RecordApplied incompletely) (bs_ledger st1)) \<noteq> Inl e"
      unfolding perform.simps no_rows_def record_applied_def if_not_P [OF told] close_operation_def
      by (cases "pending_create_temp_id ?l", simp_all)+
  qed
  have "\<exists>i \<in> applied_create_temp_ids ?l'. t = PInt i" if "t \<in> set (bs_normalization_failures st1)" for t
    using held_applied [OF assms(1,2) that] assms(1) unfolding l(1)
    by (auto simp: inside_operation_def counters_kept_def split: option.splits)
  with assms(1,2,4,5) l show ?thesis
    by (auto simp: balanced_def Let_def inside_operation_def counters_kept_def attempted_def
        applied_errors_def unapplied_errors_def)
qed

lemma failed_balanced:
  assumes "inside_operation temp_id st st1" "balanced n k st" "\<not> persisted (bs_ledger st1)"
  shows "balanced n (Suc k) (st1\<lparr>bs_ledger := snd (perform RecordFailed (bs_ledger st1)), bs_errors := bs_errors st1 @
    [\<lparr>err_applied = PNone, err_side_effects_landed = (if side_effects_landed (bs_ledger st1) then PBool True else PNone)\<rparr>]\<rparr>)"
proof -
  have "\<exists>i \<in> applied_create_temp_ids (bs_ledger st). t = PInt i" if "t \<in> set (bs_normalization_failures st1)" for t
    using held_applied [OF assms(1,2) that] assms(3) by auto
  with assms show ?thesis
    by (auto simp: balanced_def Let_def inside_operation_def counters_kept_def attempted_def applied_errors_def
        unapplied_errors_def record_failed_operation_def close_operation_def no_rows_def side_effects_landed_def)
qed

lemma raised_balanced:
  assumes "inside_operation temp_id st st1" "balanced n k st"
  shows "balanced n (Suc k) (operation_raised st1)"
  using applied_balanced [OF assms, where incompletely = True
      and es = "[\<lparr>err_applied = PBool True, err_side_effects_landed = PNone\<rparr>]"] failed_balanced [OF assms]
  by (simp add: operation_raised_def Let_def del: perform.simps)

lemma execute_operation_balanced:
  assumes "balanced n k st"
  shows "balanced n (Suc k) (snd (execute_operation op st))"
proof -
  let ?b = "run_branch (op_temp_id op) (op_steps op) (st\<lparr>bs_ledger := snd (perform Begin (bs_ledger st))\<rparr>)"
  obtain ended st1 where b: "?b = (ended, st1)" by fastforce
  have "\<not> is_open (bs_ledger st)" using assms by (simp add: balanced_def Let_def)
  from branch_inside [OF begin_inside [OF this], of "op_temp_id op" "op_steps op"] b
  have inside: "inside_operation (op_temp_id op) st st1" by simp
  obtain a l where a: "perform (RecordApplied False) (bs_ledger st1) = (a, l)" by fastforce
  show ?thesis
  proof (cases "ended \<and> \<not> op_raises op")
    case True
    show ?thesis
    proof (cases a)
      case (Inl e)
      then have "l = bs_ledger st1"
        using a inside by (auto simp: record_applied_def close_operation_def no_rows_def inside_operation_def split: if_splits)
      with True b a Inl raised_balanced [OF inside assms] show ?thesis
        by (simp add: execute_operation_def del: perform.simps)
    next
      case (Inr rows)
      then have "persisted (bs_ledger st1) \<or> side_effects (bs_ledger st1) \<noteq> 0 \<or> no_write_reason (bs_ledger st1) \<noteq> None"
        using a by (auto simp: record_applied_def no_rows_def split: if_splits)
      from applied_balanced [OF inside assms this, of False "[]"] True b a Inr show ?thesis
        by (simp add: execute_operation_def del: perform.simps)
    qed
  next
    case False
    with b raised_balanced [OF inside assms] show ?thesis by (auto simp: execute_operation_def)
  qed
qed

lemma abort_balanced: "balanced n k (st\<lparr>bs_ledger := abort_remaining (bs_ledger st)\<rparr>) = balanced n k st"
  by (simp add: balanced_def Let_def abort_remaining_def attempted_def)

lemma execute_operations_balanced:
  "balanced n k st \<Longrightarrow> k + length ops \<le> n \<Longrightarrow>
     \<exists>m \<le> n. balanced n m (execute_operations cont ops st) \<and>
       (m = k + length ops \<or> aborted (bs_ledger (execute_operations cont ops st)))"
proof (induction ops arbitrary: k st)
  case (Cons op ops)
  obtain ended st1 where e: "execute_operation op st = (ended, st1)" by fastforce
  then have one: "balanced n (Suc k) st1" using execute_operation_balanced [OF Cons.prems(1), of op] by simp
  show ?case
  proof (cases "ended \<or> cont")
    case True
    with Cons.IH [OF one] Cons.prems(2) e show ?thesis by auto
  next
    case False
    with one e Cons.prems(2) show ?thesis
      by (intro exI [of _ "Suc k"]) (simp add: abort_balanced, simp add: abort_remaining_def)
  qed
qed auto

lemma setup_failed_balanced:
  "balanced n k (setup_failed b st) = balanced n k st" "aborted (bs_ledger (setup_failed b st)) \<longleftrightarrow> aborted (bs_ledger st) \<or> b"
  by (auto simp: balanced_def Let_def setup_failed_def record_setup_failure_def attempted_def applied_errors_def
      unapplied_errors_def)

lemma setups_failed_balanced:
  "balanced n k (fold setup_failed bs st) = balanced n k st"
  "aborted (bs_ledger (fold setup_failed bs st)) \<longleftrightarrow> aborted (bs_ledger st) \<or> True \<in> set bs"
  by (induction bs arbitrary: st) (auto simp: setup_failed_balanced)

text \<open>
  C26. The audit never refuses what the bulk commit did. Take any operations, whatever records their branches
  make of what they wrote, in whatever order and with whichever of them refused or raising, with or without
  \<open>continueOnError\<close>; let all of them run, or any first part of them before the run falls over, and let any steps
  outside the operations fail. Then the ledger and the error list agree and finalizing returns the envelope
  instead of raising.
\<close>

theorem bulk_run_passes_its_audit:
  assumes "k = length ops \<or> True \<in> set setups"
    and "st = fold setup_failed setups (execute_operations continue_on_error (take k ops) (new_bulk_state (length ops)))"
  shows "finalize_bulk_commit_result (bulk_envelope st) (bs_ledger st) = Inr (derive_flags (bulk_envelope st) (bs_ledger st))"
proof -
  let ?n = "length ops" and ?run = "execute_operations continue_on_error (take k ops) (new_bulk_state (length ops))"
  have "balanced ?n 0 (new_bulk_state ?n)"
    by (simp add: balanced_def new_bulk_state_def new_ledger_def attempted_def applied_errors_def unapplied_errors_def)
  from execute_operations_balanced [OF this, of "take k ops" continue_on_error] obtain m where
    m: "m \<le> ?n" "balanced ?n m ?run" "m = length (take k ops) \<or> aborted (bs_ledger ?run)" by auto
  have "balanced ?n m st" using m(2) by (simp add: assms(2) setups_failed_balanced(1))
  moreover have "m = ?n \<or> aborted (bs_ledger st)"
    using m(3) assms(1) by (auto simp: assms(2) setups_failed_balanced(2))
  ultimately have "accounted (bulk_envelope st) (bs_ledger st)"
    using m(1) by (fastforce simp: balanced_def Let_def accounted_def bulk_envelope_def partial_run_def)
  then show ?thesis by (simp add: finalize_Inr)
qed

definition sample_operations :: "branch_run list" where
  "sample_operations =
     [\<lparr>op_temp_id = Some (- 1), op_steps = [Persisted sample_row True], op_raises = True\<rparr>,
      \<lparr>op_temp_id = None, op_steps = [Wrote sample_row], op_raises = True\<rparr>,
      \<lparr>op_temp_id = None, op_steps = [], op_raises = False\<rparr>]"

definition sample_bulk_run :: bulk_state where
  "sample_bulk_run = fold setup_failed [False] (execute_operations True (take 3 sample_operations) (new_bulk_state (length sample_operations)))"

lemma sample_bulk_run_counts:
  "applied (bs_ledger sample_bulk_run) = 1" "failed (bs_ledger sample_bulk_run) = 2" "partially_applied (bs_ledger sample_bulk_run) = 1"
  "length (bs_errors sample_bulk_run) = 4"
  by (simp_all add: sample_bulk_run_def sample_operations_def execute_operation_def operation_raised_def new_bulk_state_def
      new_ledger_def sample_row_def ledger_defs setup_failed_def side_effects_landed_def Let_def)

lemma bulk_run_passes_its_audit_witness:
  "finalize_bulk_commit_result (bulk_envelope sample_bulk_run) (bs_ledger sample_bulk_run)
     = Inr (derive_flags (bulk_envelope sample_bulk_run) (bs_ledger sample_bulk_run)) \<and>
   applied (bs_ledger sample_bulk_run) = 1 \<and> failed (bs_ledger sample_bulk_run) = 2 \<and> length (bs_errors sample_bulk_run) = 4"
proof -
  have "(3::nat) = length sample_operations \<or> True \<in> set [False]" by (simp add: sample_operations_def)
  from bulk_run_passes_its_audit [OF this sample_bulk_run_def] sample_bulk_run_counts show ?thesis by simp
qed

text \<open>
  A call that raises changes no counter: the ledger is left as it was, except that a write whose
  journal row is refused still marks the open operation as one that wrote.
\<close>

theorem refused_calls_change_nothing:
  assumes "fst (perform c l) = Inl e"
  shows "snd (perform c l) = l \<or>
    (\<exists>row. c = RecordWrite row \<and> is_open l \<and> snd (perform c l) = l\<lparr> side_effects := side_effects l + 1 \<rparr>)"
proof (cases c)
  case (RecordWrite row)
  with assms show ?thesis
    by (cases "accepted_rows row") (auto simp: record_write_def no_rows_def queue_journal_accepted)
next
  case (RecordPersisted row i)
  with assms show ?thesis
    by (cases "accepted_rows row") (auto simp: record_persisted_def no_rows_def queue_journal_accepted)
qed (use assms in \<open>auto simp: begin_operation_def applied_without_writing_def drain_journal_rows_def
    close_operation_def record_applied_def record_failed_operation_def no_rows_def Let_def split: if_splits\<close>)

lemma refused_calls_change_nothing_witness:
  "snd (perform Begin ((new_ledger 1)\<lparr> is_open := True \<rparr>)) = (new_ledger 1)\<lparr> is_open := True \<rparr>"
  using refused_calls_change_nothing [of Begin "(new_ledger 1)\<lparr> is_open := True \<rparr>" AlreadyOpen]
  by (simp add: begin_operation_def no_rows_def)

end
