(* ===== verification/Retention.thy ===== *)
theory Retention
  imports PyVal
begin

text \<open>
  Backup retention, \<open>backend/dbas/retention.py\<close>: which artifacts are pruned and what the two prune
  loops delete. A timestamp is a UTC instant in microseconds since 0001-01-01. The directory listing,
  what \<open>resolve\<close> makes of a name, and the outcome of each \<open>unlink\<close> and of each adapter call are
  arguments: they are the file system and the cloud adapter. Log lines are left out; audit rows are kept.
\<close>

section \<open>The file name as the sort key\<close>

definition artifact_prefix :: string where
  "artifact_prefix = ''ecm-backup-''"

definition artifact_suffix :: string where
  "artifact_suffix = ''.zip''"

text \<open>The part of a name between prefix and suffix, where the name has both.\<close>

definition artifact_stem :: "string \<Rightarrow> string option" where
  "artifact_stem name =
     (if py_startswith name artifact_prefix
         \<and> length artifact_prefix + length artifact_suffix \<le> length name
         \<and> drop (length name - length artifact_suffix) name = artifact_suffix
      then Some (take (length name - length artifact_suffix - length artifact_prefix)
                   (drop (length artifact_prefix) name))
      else None)"

text \<open>The shape \<^verbatim>\<open>\d{4}-\d{2}-\d{2}_\d{6}\<close>, split into its numeric fields.\<close>

fun stem_fields :: "string \<Rightarrow> (nat \<times> nat \<times> nat \<times> nat \<times> nat \<times> nat) option" where
  "stem_fields [y1, y2, y3, y4, h1, m1, m2, h2, d1, d2, u, a1, a2, b1, b2, c1, c2] =
     (if (\<forall>c \<in> {y1, y2, y3, y4, m1, m2, d1, d2, a1, a2, b1, b2, c1, c2}. py_is_digit c)
         \<and> h1 = CHR ''-'' \<and> h2 = CHR ''-'' \<and> u = CHR ''_''
      then Some (digits_value [y1, y2, y3, y4], digits_value [m1, m2], digits_value [d1, d2],
                 digits_value [a1, a2], digits_value [b1, b2], digits_value [c1, c2])
      else None)"
| "stem_fields _ = None"

text \<open>\<open>_BACKUP_ZIP_FILENAME_RE.fullmatch\<close>.\<close>

definition backup_zip_filename :: "string \<Rightarrow> bool" where
  "backup_zip_filename name =
     (case artifact_stem name of Some stem \<Rightarrow> stem_fields stem \<noteq> None | None \<Rightarrow> False)"

definition leap_year :: "nat \<Rightarrow> bool" where
  "leap_year y \<longleftrightarrow> y mod 4 = 0 \<and> (y mod 100 \<noteq> 0 \<or> y mod 400 = 0)"

definition days_in_month :: "nat \<Rightarrow> nat \<Rightarrow> nat" where
  "days_in_month y m = (if m = 2 then (if leap_year y then 29 else 28) else if m \<in> {4, 6, 9, 11} then 30 else 31)"

definition days_before_year :: "nat \<Rightarrow> nat" where
  "days_before_year y = (y - 1) * 365 + (y - 1) div 4 - (y - 1) div 100 + (y - 1) div 400"

definition date_ordinal :: "nat \<Rightarrow> nat \<Rightarrow> nat \<Rightarrow> nat" where
  "date_ordinal y m d = days_before_year y + sum_list (map (days_in_month y) [1..<m]) + d"

text \<open>\<open>datetime.strptime\<close> with the format of the name: \<open>None\<close> stands for its \<open>ValueError\<close>.\<close>

definition timestamp_of_fields :: "nat \<times> nat \<times> nat \<times> nat \<times> nat \<times> nat \<Rightarrow> int option" where
  "timestamp_of_fields fs =
     (case fs of (y, m, d, hh, mm, ss) \<Rightarrow>
        if 1 \<le> y \<and> 1 \<le> m \<and> m \<le> 12 \<and> 1 \<le> d \<and> d \<le> days_in_month y m \<and> hh \<le> 23 \<and> mm \<le> 59 \<and> ss \<le> 59
        then Some (((int (date_ordinal y m d) * 24 + int hh) * 60 + int mm) * 60 * 1000000 + int ss * 1000000)
        else None)"

definition filename_timestamp :: "string \<Rightarrow> int option" where
  "filename_timestamp name =
     (case artifact_stem name of
        None \<Rightarrow> None
      | Some stem \<Rightarrow> (case stem_fields stem of None \<Rightarrow> None | Some fs \<Rightarrow> timestamp_of_fields fs))"

section \<open>Selection\<close>

datatype prune_reason = ReasonLastN | ReasonAge

definition eligible :: "string list \<Rightarrow> (int \<times> string) list" where
  "eligible filenames =
     concat (map (\<lambda>name. if \<not> backup_zip_filename name then []
                         else case filename_timestamp name of None \<Rightarrow> [] | Some ts \<Rightarrow> [(ts, name)]) filenames)"

text \<open>\<open>(now - ts).total_seconds() / 86400.0 > max_age_days\<close>, both divisions rounding to a double.\<close>

definition older_than :: "int \<Rightarrow> int \<Rightarrow> int \<Rightarrow> bool" where
  "older_than now ts max_age_days \<longleftrightarrow>
     fl (fl (of_int (now - ts) / 1000000) / 86400) > of_int max_age_days"

definition select_prunable ::
  "string list \<Rightarrow> int \<Rightarrow> int \<Rightarrow> int \<Rightarrow> string list \<times> (string \<times> prune_reason) list" where
  "select_prunable filenames last_n max_age_days now =
     (let sorted = sort_key (\<lambda>item. - fst item) (eligible filenames);
          floor' = nat (max last_n 1)
      in (map snd (take floor' sorted),
          map (\<lambda>(ts, name). (name, if older_than now ts max_age_days then ReasonAge else ReasonLastN))
            (drop floor' sorted)))"

section \<open>Deletion\<close>

datatype skipped_reason = Unverified | ListFailed

record prune_summary =
  ps_deleted :: nat
  ps_failed :: nat
  ps_skipped :: "skipped_reason option"

text \<open>The state of a destination: the artifacts it holds and the audit rows written.\<close>

record destination =
  dst_files :: "string list"
  dst_audit :: "(string \<times> prune_reason) list"

type_synonym prune_state = "nat \<times> nat \<times> destination"

text \<open>The file \<open>target\<close> goes; the audit row has the name the loop was at.\<close>

definition delete_file :: "string \<Rightarrow> string \<Rightarrow> prune_reason \<Rightarrow> destination \<Rightarrow> destination" where
  "delete_file target name reason d =
     \<lparr> dst_files = filter (\<lambda>f. f \<noteq> target) (dst_files d), dst_audit = dst_audit d @ [(name, reason)] \<rparr>"

text \<open>
  \<open>resolve name\<close> is the path of \<open>(target_dir / name).resolve()\<close> relative to the resolved directory: the
  name itself for a plain file, what a symbolic link points to otherwise, and \<open>None\<close> where resolving
  fails or leaves the directory. \<open>unlink d path\<close> tells whether the deletion of \<open>path\<close> succeeds in the
  state \<open>d\<close>. What is deleted is the resolved path.
\<close>

definition prune_local_step ::
  "(string \<Rightarrow> string option) \<Rightarrow> (destination \<Rightarrow> string \<Rightarrow> bool) \<Rightarrow> string \<times> prune_reason \<Rightarrow> prune_state \<Rightarrow> prune_state" where
  "prune_local_step resolve unlink item st =
     (case st of (deleted, failures, d) \<Rightarrow>
        if \<not> backup_zip_filename (fst item) then st
        else case resolve (fst item) of
          None \<Rightarrow> st
        | Some path \<Rightarrow>
            if \<not> unlink d path then (deleted, failures + 1, d)
            else (deleted + 1, failures, delete_file path (fst item) (snd item) d))"

definition matches_glob :: "string \<Rightarrow> bool" where
  "matches_glob name \<longleftrightarrow> artifact_stem name \<noteq> None"

definition prune_local_backups ::
  "(string \<Rightarrow> string option) \<Rightarrow> (destination \<Rightarrow> string \<Rightarrow> bool) \<Rightarrow> bool \<Rightarrow> int \<Rightarrow> int \<Rightarrow> int \<Rightarrow> destination option
     \<Rightarrow> prune_summary \<times> destination option" where
  "prune_local_backups resolve unlink verified_success last_n max_age_days now dir =
     (if \<not> verified_success then (\<lparr> ps_deleted = 0, ps_failed = 0, ps_skipped = Some Unverified \<rparr>, dir)
      else case dir of
        None \<Rightarrow> (\<lparr> ps_deleted = 0, ps_failed = 0, ps_skipped = None \<rparr>, None)
      | Some d \<Rightarrow>
          (let candidates = filter matches_glob (dst_files d);
               pruned = snd (select_prunable candidates last_n max_age_days now)
           in case fold (prune_local_step resolve unlink) pruned (0, 0, d) of
                (deleted, failures, d') \<Rightarrow>
                  (\<lparr> ps_deleted = deleted, ps_failed = failures, ps_skipped = None \<rparr>, Some d')))"

text \<open>\<open>Path(str(n)).name\<close> and \<open>(remote_dir or "").strip("/")\<close>.\<close>

fun path_parts :: "string \<Rightarrow> string \<Rightarrow> string list" where
  "path_parts acc [] = [rev acc]"
| "path_parts acc (c # cs) = (if c = CHR ''/'' then rev acc # path_parts [] cs else path_parts (c # acc) cs)"

definition path_name :: "string \<Rightarrow> string" where
  "path_name s = (let parts = filter (\<lambda>p. p \<noteq> [] \<and> p \<noteq> ''.'') (path_parts [] s)
                  in if parts = [] then [] else last parts)"

definition strip_slashes :: "string \<Rightarrow> string" where
  "strip_slashes s = rev (dropWhile (\<lambda>c. c = CHR ''/'') (rev (dropWhile (\<lambda>c. c = CHR ''/'') s)))"

text \<open>\<open>delete remote_path\<close> answers \<open>Some ok\<close>, or \<open>None\<close> where the adapter raises.\<close>

definition remote_path :: "string \<Rightarrow> string \<Rightarrow> string" where
  "remote_path remote_dir filename =
     (let prefix = strip_slashes remote_dir in if prefix \<noteq> [] then prefix @ ''/'' @ filename else filename)"

definition prune_cloud_step ::
  "(string \<Rightarrow> bool option) \<Rightarrow> string \<Rightarrow> string \<times> prune_reason \<Rightarrow> prune_state \<Rightarrow> prune_state" where
  "prune_cloud_step delete remote_dir item st =
     (case st of (deleted, failures, d) \<Rightarrow>
        if \<not> backup_zip_filename (fst item) then st
        else if delete (remote_path remote_dir (fst item)) \<noteq> Some True then (deleted, failures + 1, d)
        else (deleted + 1, failures, delete_file (fst item) (fst item) (snd item) d))"

definition prune_cloud_destination ::
  "(string \<Rightarrow> bool option) \<Rightarrow> string list option \<Rightarrow> string \<Rightarrow> bool \<Rightarrow> int \<Rightarrow> int \<Rightarrow> int \<Rightarrow> destination
     \<Rightarrow> prune_summary \<times> destination" where
  "prune_cloud_destination delete listing remote_dir verified_success last_n max_age_days now d =
     (if \<not> verified_success then (\<lparr> ps_deleted = 0, ps_failed = 0, ps_skipped = Some Unverified \<rparr>, d)
      else case listing of
        None \<Rightarrow> (\<lparr> ps_deleted = 0, ps_failed = 0, ps_skipped = Some ListFailed \<rparr>, d)
      | Some entries \<Rightarrow>
          (let pruned = snd (select_prunable (map path_name entries) last_n max_age_days now)
           in case fold (prune_cloud_step delete remote_dir) pruned (0, 0, d) of
                (deleted, failures, d') \<Rightarrow>
                  (\<lparr> ps_deleted = deleted, ps_failed = failures, ps_skipped = None \<rparr>, d')))"

section \<open>The selection keeps the newest\<close>

lemma eligible_mem: "(ts, name) \<in> set (eligible names) \<longleftrightarrow>
    name \<in> set names \<and> backup_zip_filename name \<and> filename_timestamp name = Some ts"
  by (auto simp: eligible_def split: if_splits option.splits)

lemma eligible_names_distinct: "distinct names \<Longrightarrow> distinct (map snd (eligible names))"
proof (induction names)
  case (Cons n names)
  have "n \<notin> snd ` set (eligible names)" using Cons.prems eligible_mem [of _ n names] by auto
  moreover have "eligible (n # names) = eligible [n] @ eligible names" by (simp add: eligible_def)
  moreover have "eligible [n] = [] \<or> (\<exists>ts. eligible [n] = [(ts, n)])"
    by (auto simp: eligible_def split: option.splits)
  ultimately show ?case using Cons by (elim disjE exE) simp_all
qed (simp add: eligible_def)

lemma selected_partition:
  "mset (fst (select_prunable names last_n age now) @ map fst (snd (select_prunable names last_n age now)))
     = mset (map snd (eligible names))"
proof -
  let ?s = "sort_key (\<lambda>item. - fst item) (eligible names)" and ?k = "nat (max last_n 1)"
  have "fst (select_prunable names last_n age now) @ map fst (snd (select_prunable names last_n age now))
    = map snd (take ?k ?s) @ map snd (drop ?k ?s)"
    by (simp add: select_prunable_def Let_def case_prod_unfold)
  also have "\<dots> = map snd ?s" by (metis append_take_drop_id map_append)
  finally show ?thesis by (simp only: mset_map mset_sort)
qed

lemma selected_order:
  assumes "k \<in> set (fst (select_prunable names last_n age now))" "p \<in> fst ` set (snd (select_prunable names last_n age now))"
  shows "\<exists>tk tp. filename_timestamp k = Some tk \<and> filename_timestamp p = Some tp \<and> tp \<le> tk"
proof -
  let ?s = "sort_key (\<lambda>item. - fst item) (eligible names)" and ?k = "nat (max last_n 1)"
  obtain tk where tk: "(tk, k) \<in> set (take ?k ?s)"
    using assms(1) by (auto simp: select_prunable_def Let_def)
  obtain tp where tp: "(tp, p) \<in> set (drop ?k ?s)"
    using assms(2) by (auto simp: select_prunable_def Let_def)
  have "sorted (map (\<lambda>item. - fst item) (take ?k ?s @ drop ?k ?s))" by simp
  then have "\<forall>x \<in> set (take ?k ?s). \<forall>y \<in> set (drop ?k ?s). - fst x \<le> - fst y"
    unfolding map_append sorted_append by simp
  from bspec [OF bspec [OF this tk] tp] have "- tk \<le> - tp" by simp
  moreover have "(tk, k) \<in> set (eligible names)" "(tp, p) \<in> set (eligible names)"
    using in_set_takeD [OF tk] in_set_dropD [OF tp] by simp_all
  ultimately show ?thesis by (auto simp: eligible_mem)
qed

text \<open>
  The selection is a floor, not a cap on age: of the artifacts with a well-formed name it keeps
  \<open>max(last_n, 1)\<close>, or all when there are fewer; it keeps the newest ones; and everything it prunes
  is a file of the listing whose name passes the allowlist.
\<close>

theorem selection_keeps_the_newest:
  "length (fst (select_prunable names last_n age now)) = min (nat (max last_n 1)) (length (eligible names))
   \<and> (\<forall>k \<in> set (fst (select_prunable names last_n age now)). \<forall>p \<in> fst ` set (snd (select_prunable names last_n age now)).
        the (filename_timestamp p) \<le> the (filename_timestamp k))
   \<and> (\<forall>p \<in> fst ` set (snd (select_prunable names last_n age now)). p \<in> set names \<and> backup_zip_filename p)"
proof (intro conjI ballI)
  show "length (fst (select_prunable names last_n age now)) = min (nat (max last_n 1)) (length (eligible names))"
    by (simp add: select_prunable_def Let_def min.commute)
next
  fix k p assume "k \<in> set (fst (select_prunable names last_n age now))" "p \<in> fst ` set (snd (select_prunable names last_n age now))"
  from selected_order [OF this] show "the (filename_timestamp p) \<le> the (filename_timestamp k)" by auto
next
  fix p assume "p \<in> fst ` set (snd (select_prunable names last_n age now))"
  then have "p \<in># mset (map snd (eligible names))" unfolding selected_partition [symmetric, of names last_n age now] by auto
  then show "p \<in> set names" "backup_zip_filename p" by (auto simp: eligible_mem)
qed

lemma selection_keeps_the_newest_witness:
  "length (fst (select_prunable [''ecm-backup-2026-01-02_030405.zip''] 0 30 0))
     = min (nat (max 0 1)) (length (eligible [''ecm-backup-2026-01-02_030405.zip'']))"
  using selection_keeps_the_newest [of "[''ecm-backup-2026-01-02_030405.zip'']" 0 30 0] by blast

text \<open>
  The age limit never decides what is deleted: whatever \<open>max_age_days\<close> and whatever the clock
  says, the same files are pruned, only the reason recorded for them differs. The module docstring
  describes a second control that prunes a file only when it is both beyond the floor and too old.
\<close>

theorem age_limit_does_not_matter:
  "map fst (snd (select_prunable names last_n age now)) = map fst (snd (select_prunable names last_n age' now'))"
  by (simp add: select_prunable_def Let_def case_prod_unfold)

text \<open>The artifacts among \<open>files\<close> whose name says they are at least as new as \<open>f\<close>.\<close>

definition as_new_as :: "string \<Rightarrow> string list \<Rightarrow> string set" where
  "as_new_as f files = {g \<in> set files. backup_zip_filename g
     \<and> (\<exists>tf tg. filename_timestamp f = Some tf \<and> filename_timestamp g = Some tg \<and> tf \<le> tg)}"

lemma selected_listed:
  assumes "n \<in> set (fst (select_prunable names last_n age now)) \<or> n \<in> fst ` set (snd (select_prunable names last_n age now))"
  shows "n \<in> set names \<and> backup_zip_filename n"
proof -
  have "n \<in># mset (map snd (eligible names))"
    using assms unfolding selected_partition [symmetric, of names last_n age now] by auto
  then show ?thesis by (auto simp: eligible_mem)
qed

lemmas kept_listed = selected_listed [OF disjI1]

lemmas pruned_listed = selected_listed [OF disjI2]

lemma selected_distinct:
  "distinct names \<Longrightarrow>
     distinct (fst (select_prunable names last_n age now) @ map fst (snd (select_prunable names last_n age now)))"
  using eligible_names_distinct selected_partition by (metis mset_eq_imp_distinct_iff)

lemma selected_disjoint:
  assumes "distinct names"
  shows "set (fst (select_prunable names last_n age now)) \<inter> fst ` set (snd (select_prunable names last_n age now)) = {}"
  using selected_distinct [OF assms, of last_n age now] by simp

lemma kept_full_when_pruned:
  assumes "p \<in> fst ` set (snd (select_prunable names last_n age now))"
  shows "eligible names \<noteq> [] \<and> length (fst (select_prunable names last_n age now)) = nat (max last_n 1)"
proof -
  have "snd (select_prunable names last_n age now) \<noteq> []" using assms by auto
  then have "nat (max last_n 1) < length (eligible names)"
    by (auto simp: select_prunable_def Let_def simp del: max_less_iff_conj max.absorb1 max.absorb2)
  then show ?thesis by (auto simp: select_prunable_def Let_def min_def)
qed

section \<open>The prune loops\<close>

text \<open>
  What both loops do to a destination: for some of the pruned names the file the name stands for goes,
  each with its audit row. At a cloud destination a name stands for itself.
\<close>

definition targets_of :: "(string \<Rightarrow> string option) \<Rightarrow> (string \<times> prune_reason) list \<Rightarrow> string set" where
  "targets_of target rows = {t. \<exists>n \<in> fst ` set rows. target n = Some t}"

definition pruned_from :: "(string \<Rightarrow> string option) \<Rightarrow> string set \<Rightarrow> prune_state \<Rightarrow> prune_state \<Rightarrow> bool" where
  "pruned_from target allowed st st' \<longleftrightarrow>
     (\<exists>rows. fst ` set rows \<subseteq> {n \<in> allowed. target n \<noteq> None}
        \<and> dst_files (snd (snd st')) = filter (\<lambda>f. f \<notin> targets_of target rows) (dst_files (snd (snd st)))
        \<and> dst_audit (snd (snd st')) = dst_audit (snd (snd st)) @ rows
        \<and> fst st' = fst st + length rows)"

lemma targets_of_append: "targets_of target (r1 @ r2) = targets_of target r1 \<union> targets_of target r2"
  by (auto simp: targets_of_def)

lemma pruned_from_refl: "pruned_from target A st st"
  by (auto simp: pruned_from_def targets_of_def intro: exI [of _ "[]"])

lemma pruned_from_trans:
  assumes "pruned_from target A st st'" "pruned_from target B st' st''"
  shows "pruned_from target (A \<union> B) st st''"
proof -
  obtain r1 where "fst ` set r1 \<subseteq> {n \<in> A. target n \<noteq> None}"
    "dst_files (snd (snd st')) = filter (\<lambda>f. f \<notin> targets_of target r1) (dst_files (snd (snd st)))"
    "dst_audit (snd (snd st')) = dst_audit (snd (snd st)) @ r1" "fst st' = fst st + length r1"
    using assms(1) by (auto simp: pruned_from_def)
  moreover obtain r2 where "fst ` set r2 \<subseteq> {n \<in> B. target n \<noteq> None}"
    "dst_files (snd (snd st'')) = filter (\<lambda>f. f \<notin> targets_of target r2) (dst_files (snd (snd st')))"
    "dst_audit (snd (snd st'')) = dst_audit (snd (snd st')) @ r2" "fst st'' = fst st' + length r2"
    using assms(2) by (auto simp: pruned_from_def)
  ultimately show ?thesis
    unfolding pruned_from_def
    by (intro exI [of _ "r1 @ r2"]) (auto simp: image_Un targets_of_append intro!: filter_cong)
qed

lemma pruned_from_delete:
  "target name = Some path \<Longrightarrow> pruned_from target {name} (n, m, d) (Suc n, m, delete_file path name reason d)"
  by (auto simp: pruned_from_def delete_file_def targets_of_def intro!: exI [of _ "[(name, reason)]"] filter_cong)

lemma pruned_from_failure: "pruned_from target A (n, m, d) (n, m', d)"
  by (auto simp: pruned_from_def targets_of_def)

lemma prune_local_step_pruned:
  "pruned_from resolve (if backup_zip_filename (fst item) then {fst item} else {}) st (prune_local_step resolve unlink item st)"
  by (cases st) (auto simp: prune_local_step_def pruned_from_refl pruned_from_delete pruned_from_failure split: option.splits)

lemma prune_cloud_step_pruned:
  "pruned_from Some (if backup_zip_filename (fst item) then {fst item} else {}) st (prune_cloud_step delete dir item st)"
  by (cases st) (auto simp: prune_cloud_step_def pruned_from_refl pruned_from_delete pruned_from_failure)

locale prune_loop =
  fixes target :: "string \<Rightarrow> string option"
    and step :: "string \<times> prune_reason \<Rightarrow> prune_state \<Rightarrow> prune_state"
  assumes step_pruned: "pruned_from target (if backup_zip_filename (fst item) then {fst item} else {}) st (step item st)"
begin

lemma loop_pruned:
  "pruned_from target {n \<in> fst ` set items. backup_zip_filename n} st (fold step items st)"
proof (induction items arbitrary: st)
  case (Cons item items)
  have "(if backup_zip_filename (fst item) then {fst item} else {}) \<union> {n \<in> fst ` set items. backup_zip_filename n}
    = {n \<in> fst ` set (item # items). backup_zip_filename n}" by auto
  with pruned_from_trans [OF step_pruned Cons.IH, of item st] show ?case by simp
qed (simp add: pruned_from_refl)

text \<open>Where no listed artifact stands for another file, what goes are pruned names, one audit row each.\<close>

lemma loop_deletes_pruned_names:
  assumes "\<forall>f \<in> set names. backup_zip_filename f \<longrightarrow> target f \<in> {None, Some f}"
    and "fold step (snd (select_prunable names last_n age now)) (0, 0, d) = (deleted, failures, d')"
  shows "\<exists>rows. fst ` set rows \<subseteq> fst ` set (snd (select_prunable names last_n age now))
    \<and> dst_files d' = filter (\<lambda>f. f \<notin> fst ` set rows) (dst_files d)
    \<and> dst_audit d' = dst_audit d @ rows \<and> length rows = deleted"
proof -
  let ?pruned = "fst ` set (snd (select_prunable names last_n age now))"
  from loop_pruned [of "snd (select_prunable names last_n age now)" "(0, 0, d)"] obtain rows where
    rows: "fst ` set rows \<subseteq> {n \<in> {n \<in> ?pruned. backup_zip_filename n}. target n \<noteq> None}"
      "dst_files d' = filter (\<lambda>f. f \<notin> targets_of target rows) (dst_files d)" "dst_audit d' = dst_audit d @ rows" "deleted = length rows"
    unfolding assms(2) by (auto simp: pruned_from_def)
  have self: "target n = Some n" if "n \<in> fst ` set rows" for n
    using that rows(1) assms(1) pruned_listed [of n names last_n age now] by blast
  have "targets_of target rows = fst ` set rows" unfolding targets_of_def using self by auto
  with rows show ?thesis by (intro exI [of _ rows]) auto
qed

lemma kept_survive:
  assumes "distinct names" "set names \<subseteq> set (dst_files d)"
    and "\<forall>f \<in> set names. backup_zip_filename f \<longrightarrow> target f \<in> {None, Some f}"
    and "fold step (snd (select_prunable names last_n age now)) (0, 0, d) = (deleted, failures, d')"
  shows "set (fst (select_prunable names last_n age now)) \<subseteq> set (dst_files d')"
proof -
  from loop_deletes_pruned_names [OF assms(3,4)] obtain rows where
    all: "fst ` set rows \<subseteq> fst ` set (snd (select_prunable names last_n age now))
      \<and> dst_files d' = filter (\<lambda>f. f \<notin> fst ` set rows) (dst_files d)
      \<and> dst_audit d' = dst_audit d @ rows \<and> length rows = deleted" by (rule exE)
  note rows = conjunct1 [OF all] conjunct1 [OF conjunct2 [OF all]]
  from rows selected_disjoint [OF assms(1), of last_n age now] kept_listed [of _ names last_n age now] assms(2)
  show ?thesis by auto
qed

text \<open>
  Each file that goes is an artifact for which the last-N floor of artifacts at least as new
  survives.
\<close>

lemma deleted_files_leave_the_floor:
  assumes "distinct names" "set names \<subseteq> set (dst_files d)"
    and "\<forall>f \<in> set names. backup_zip_filename f \<longrightarrow> target f \<in> {None, Some f}"
    and loop: "fold step (snd (select_prunable names last_n age now)) (0, 0, d) = (deleted, failures, d')"
    and gone: "f \<in> set (dst_files d) - set (dst_files d')"
  shows "backup_zip_filename f \<and> nat (max last_n 1) \<le> card (as_new_as f (dst_files d'))"
proof -
  let ?kept = "fst (select_prunable names last_n age now)" and ?pruned = "fst ` set (snd (select_prunable names last_n age now))"
  from loop_deletes_pruned_names [OF assms(3) loop] gone have pruned: "f \<in> ?pruned" by auto
  then have "eligible names \<noteq> [] \<and> length ?kept = nat (max last_n 1)"
    using kept_full_when_pruned by fastforce
  moreover have "distinct ?kept"
    using selected_distinct [OF assms(1), of last_n age now] by simp
  ultimately have "card (set ?kept) = nat (max last_n 1)" by (simp add: distinct_card)
  moreover have "set ?kept \<subseteq> as_new_as f (dst_files d')"
  proof
    fix k assume k: "k \<in> set ?kept"
    with kept_survive [OF assms(1-3) loop] selected_order [OF k pruned] kept_listed [OF k]
    show "k \<in> as_new_as f (dst_files d')" by (auto simp: as_new_as_def)
  qed
  moreover have "finite (as_new_as f (dst_files d'))" by (simp add: as_new_as_def)
  ultimately have "nat (max last_n 1) \<le> card (as_new_as f (dst_files d'))" by (metis card_mono)
  with pruned_listed [OF pruned] show ?thesis by simp
qed

end

interpretation local_prune: prune_loop resolve "prune_local_step resolve unlink" for resolve unlink
  by unfold_locales (rule prune_local_step_pruned)

interpretation cloud_prune: prune_loop Some "prune_cloud_step delete dir" for delete dir
  by unfold_locales (rule prune_cloud_step_pruned)

lemma eligible_glob: "eligible (filter matches_glob names) = eligible names"
proof -
  have "\<not> matches_glob n \<Longrightarrow> \<not> backup_zip_filename n" for n
    by (auto simp: matches_glob_def backup_zip_filename_def split: option.splits)
  then show ?thesis by (induction names) (simp_all add: eligible_def)
qed

lemma eligible_nonempty:
  assumes "eligible names \<noteq> []" "set (fst (select_prunable names last_n age now)) \<subseteq> set files"
  shows "eligible files \<noteq> []"
proof -
  have "nat (max last_n 1) > 0" by simp
  then have "fst (select_prunable names last_n age now) \<noteq> []"
    using assms(1) by (auto simp: select_prunable_def Let_def) (metis length_0_conv length_sort)
  then obtain k where k: "k \<in> set (fst (select_prunable names last_n age now))" by (meson ex_in_conv set_empty)
  then have "k \<in># mset (map snd (eligible names))" unfolding selected_partition [symmetric, of names last_n age now] by simp
  then have "\<exists>ts. (ts, k) \<in> set (eligible files)" using assms(2) k by (auto simp: eligible_mem)
  then show ?thesis by force
qed

text \<open>When every deletion succeeds the loop removes all that was pruned.\<close>

lemma all_deleted:
  assumes "\<And>item. item \<in> set items \<Longrightarrow> backup_zip_filename (fst item) \<and> resolve (fst item) = Some (fst item)"
    and "\<And>s p. unlink s p"
  shows "dst_files (snd (snd (fold (prune_local_step resolve unlink) items (n, m, d))))
    = filter (\<lambda>f. f \<notin> fst ` set items) (dst_files d)"
  using assms(1)
proof (induction items arbitrary: n d)
  case (Cons item items)
  from Cons.prems have "prune_local_step resolve unlink item (n, m, d) = (n + 1, m, delete_file (fst item) (fst item) (snd item) d)"
    by (simp add: prune_local_step_def assms(2))
  with Cons show ?case by (auto simp: delete_file_def intro: filter_cong)
qed simp

lemma eligible_filter: "eligible (filter P names) = filter (\<lambda>(ts, name). P name) (eligible names)"
  by (induction names) (auto simp: eligible_def split: option.splits)

text \<open>Of the artifacts, those not pruned are those kept.\<close>

lemma unpruned_count:
  assumes "distinct names"
  shows "length (eligible (filter (\<lambda>f. f \<notin> fst ` set (snd (select_prunable names last_n age now))) names))
    = min (nat (max last_n 1)) (length (eligible names))"
proof -
  let ?kept = "fst (select_prunable names last_n age now)" and ?pruned = "map fst (snd (select_prunable names last_n age now))"
  let ?left = "eligible (filter (\<lambda>f. f \<notin> fst ` set (snd (select_prunable names last_n age now))) names)"
  have "mset (map snd ?left) = filter_mset (\<lambda>f. f \<notin> set ?pruned) (mset (map snd (eligible names)))"
    by (simp add: eligible_filter filter_mset_image_mset o_def case_prod_unfold)
  also have "\<dots> = filter_mset (\<lambda>f. f \<notin> set ?pruned) (mset ?kept) + filter_mset (\<lambda>f. f \<notin> set ?pruned) (mset ?pruned)"
    unfolding selected_partition [symmetric, of names last_n age now] by simp
  also have "filter_mset (\<lambda>f. f \<notin> set ?pruned) (mset ?pruned) = {#}" by (simp add: filter_mset_eq_conv)
  also have "filter_mset (\<lambda>f. f \<notin> set ?pruned) (mset ?kept) = mset ?kept"
    using selected_disjoint [OF assms, of last_n age now] by (auto simp: filter_mset_eq_conv)
  finally have "size (mset (map snd ?left)) = size (mset ?kept + {#})" by (rule arg_cong)
  then show ?thesis by (simp add: select_prunable_def Let_def min.commute)
qed

text \<open>The run as its loop over what is pruned of the directory.\<close>

lemma prune_local_backups_loop:
  assumes "prune_local_backups resolve unlink True last_n age now (Some d) = (summary, Some d')"
  shows "\<exists>failures. fold (prune_local_step resolve unlink)
    (snd (select_prunable (filter matches_glob (dst_files d)) last_n age now)) (0, 0, d) = (ps_deleted summary, failures, d')"
  using assms by (auto simp: prune_local_backups_def Let_def split: prod.splits)

lemma select_prunable_glob:
  "select_prunable (filter matches_glob names) last_n age now = select_prunable names last_n age now"
  by (simp add: select_prunable_def eligible_glob)

text \<open>
  C5. Never zero, locally. In a directory none of whose artifacts is a symbolic link to another file of
  it: whatever the retention settings and the failing resolutions and deletions, each file that a prune
  run deletes is an artifact for which \<open>max(last_n, 1)\<close> artifacts at least as new survive (so the
  newest always survive, and no other file is touched); there is one audit row for each deleted
  file and for nothing else; where every deletion succeeds, exactly \<open>max(last_n, 1)\<close> artifacts are
  left, or all when there were fewer; without a verified new backup nothing changes.
\<close>

theorem local_prune_never_empties:
  assumes "distinct (dst_files d)"
    and "\<forall>f \<in> set (dst_files d). backup_zip_filename f \<longrightarrow> resolve f \<in> {None, Some f}"
    and "prune_local_backups resolve unlink verified last_n age now (Some d) = (summary, Some d')"
  shows "(\<forall>f \<in> set (dst_files d) - set (dst_files d').
        backup_zip_filename f \<and> nat (max last_n 1) \<le> card (as_new_as f (dst_files d')))
    \<and> (\<exists>rows. dst_audit d' = dst_audit d @ rows \<and> length rows = ps_deleted summary
        \<and> (\<forall>f \<in> set (dst_files d). f \<notin> set (dst_files d') \<longleftrightarrow> f \<in> fst ` set rows))
    \<and> (verified \<and> (\<forall>f \<in> set (dst_files d). resolve f = Some f) \<and> (\<forall>s p. unlink s p) \<longrightarrow>
        length (eligible (dst_files d')) = min (nat (max last_n 1)) (length (eligible (dst_files d))))
    \<and> (\<not> verified \<longrightarrow> d' = d)"
proof (cases verified)
  case True
  then obtain failures where loop: "fold (prune_local_step resolve unlink)
      (snd (select_prunable (dst_files d) last_n age now)) (0, 0, d) = (ps_deleted summary, failures, d')"
    using prune_local_backups_loop [of resolve unlink last_n age now d summary d'] assms(3) by (auto simp: select_prunable_glob)
  from local_prune.loop_deletes_pruned_names [OF assms(2) loop] obtain rows where
    rows: "dst_files d' = filter (\<lambda>f. f \<notin> fst ` set rows) (dst_files d)" "dst_audit d' = dst_audit d @ rows"
      "length rows = ps_deleted summary" by blast
  have "\<forall>f \<in> set (dst_files d) - set (dst_files d').
      backup_zip_filename f \<and> nat (max last_n 1) \<le> card (as_new_as f (dst_files d'))"
    using local_prune.deleted_files_leave_the_floor [OF assms(1) order_refl assms(2) loop] by blast
  moreover have "\<exists>rows. dst_audit d' = dst_audit d @ rows \<and> length rows = ps_deleted summary
      \<and> (\<forall>f \<in> set (dst_files d). f \<notin> set (dst_files d') \<longleftrightarrow> f \<in> fst ` set rows)"
    using rows by (intro exI [of _ rows]) simp
  moreover have "length (eligible (dst_files d')) = min (nat (max last_n 1)) (length (eligible (dst_files d)))"
    if "\<forall>f \<in> set (dst_files d). resolve f = Some f" "\<forall>s p. unlink s p"
  proof -
    have "dst_files d' = filter (\<lambda>f. f \<notin> fst ` set (snd (select_prunable (dst_files d) last_n age now))) (dst_files d)"
      using all_deleted [of "snd (select_prunable (dst_files d) last_n age now)" resolve unlink 0 0 d]
        pruned_listed [of _ "dst_files d" last_n age now] that loop by auto
    with unpruned_count [OF assms(1)] show ?thesis by simp
  qed
  ultimately show ?thesis using True by blast
next
  case False
  with assms(3) have "d' = d" "ps_deleted summary = 0" by (auto simp: prune_local_backups_def)
  with False show ?thesis by (auto intro: exI [of _ "[]"])
qed

text \<open>
  Never zero at a cloud destination, for a listing that names each artifact once: every kept
  artifact survives, at least one artifact survives if the listing had one, and nothing outside the
  allowlist is deleted, whatever the adapter answers to the deletions.
\<close>

theorem cloud_prune_never_empties:
  assumes "map path_name entries = dst_files d" "distinct (dst_files d)"
    and "prune_cloud_destination delete (Some entries) dir True last_n age now d = (summary, d')"
  shows "set (fst (select_prunable (dst_files d) last_n age now)) \<subseteq> set (dst_files d')
    \<and> (eligible (dst_files d) \<noteq> [] \<longrightarrow> eligible (dst_files d') \<noteq> [])
    \<and> {f \<in> set (dst_files d). \<not> backup_zip_filename f} \<subseteq> set (dst_files d')
    \<and> (\<exists>rows. dst_audit d' = dst_audit d @ rows \<and> length rows = ps_deleted summary)"
proof -
  obtain deleted failures where loop: "fold (prune_cloud_step delete dir)
      (snd (select_prunable (dst_files d) last_n age now)) (0, 0, d) = (deleted, failures, d')" "ps_deleted summary = deleted"
    using assms(1,3) by (auto simp: prune_cloud_destination_def Let_def split: prod.splits)
  note names = cloud_prune.loop_deletes_pruned_names [OF _ loop(1)]
  have kept: "set (fst (select_prunable (dst_files d) last_n age now)) \<subseteq> set (dst_files d')"
    by (rule cloud_prune.kept_survive [OF assms(2) order_refl _ loop(1)]) simp
  moreover have "{f \<in> set (dst_files d). \<not> backup_zip_filename f} \<subseteq> set (dst_files d')"
    using names pruned_listed [of _ "dst_files d" last_n age now] by auto (metis fst_conv image_eqI subsetD)
  moreover have "\<exists>rows. dst_audit d' = dst_audit d @ rows \<and> length rows = ps_deleted summary"
    using names loop(2) by auto
  ultimately show ?thesis using eligible_nonempty [OF _ kept] by blast
qed

definition one_remote :: destination where
  "one_remote = \<lparr> dst_files = [''ecm-backup-2026-01-02_030405.zip''], dst_audit = [] \<rparr>"

lemma one_remote_names:
  "backup_zip_filename ''ecm-backup-2026-01-02_030405.zip''"
  "filename_timestamp ''ecm-backup-2026-01-02_030405.zip'' \<noteq> None"
  "path_name ''ecm-backup-2026-01-02_030405.zip'' = ''ecm-backup-2026-01-02_030405.zip''"
  "path_name ''a/ecm-backup-2026-01-02_030405.zip'' = ''ecm-backup-2026-01-02_030405.zip''"
  "path_name ''a/old/ecm-backup-2026-01-02_030405.zip'' = ''ecm-backup-2026-01-02_030405.zip''"
proof -
  have stem: "artifact_stem ''ecm-backup-2026-01-02_030405.zip'' = Some ''2026-01-02_030405''"
    by (simp add: artifact_stem_def artifact_prefix_def artifact_suffix_def py_startswith_def)
  have fields: "stem_fields ''2026-01-02_030405'' = Some (2026, 1, 2, 3, 4, 5)"
    by (simp add: py_is_digit_def digits_value_def)
  show "backup_zip_filename ''ecm-backup-2026-01-02_030405.zip''"
    by (simp add: backup_zip_filename_def stem fields del: stem_fields.simps)
  show "filename_timestamp ''ecm-backup-2026-01-02_030405.zip'' \<noteq> None"
    by (simp add: filename_timestamp_def stem fields timestamp_of_fields_def days_in_month_def del: stem_fields.simps)
qed (simp_all add: path_name_def)

lemma cloud_prune_never_empties_witness:
  "eligible (dst_files (snd (prune_cloud_destination (\<lambda>_. Some True) (Some [''ecm-backup-2026-01-02_030405.zip''])
     ''a'' True 1 30 0 one_remote))) \<noteq> []"
proof -
  have "eligible (dst_files one_remote) \<noteq> []"
    using one_remote_names(1,2) by (auto simp: one_remote_def eligible_def)
  with cloud_prune_never_empties [OF _ _ prod.collapse [symmetric], of "[''ecm-backup-2026-01-02_030405.zip'']" one_remote]
  show ?thesis by (simp add: one_remote_names one_remote_def)
qed

text \<open>Two backups and another file; the older backup goes when one is to be kept.\<close>

definition two_backups :: destination where
  "two_backups = \<lparr> dst_files = [''ecm-backup-2026-01-02_030405.zip'', ''notes.txt'', ''ecm-backup-2026-01-03_030405.zip''],
     dst_audit = [] \<rparr>"

lemma newer_backup_name:
  "backup_zip_filename ''ecm-backup-2026-01-03_030405.zip''"
  "filename_timestamp ''ecm-backup-2026-01-03_030405.zip'' = Some 63903092645000000"
  "filename_timestamp ''ecm-backup-2026-01-02_030405.zip'' = Some 63903006245000000"
  "\<not> backup_zip_filename ''notes.txt''"
proof -
  have stems: "artifact_stem ''ecm-backup-2026-01-03_030405.zip'' = Some ''2026-01-03_030405''"
    "artifact_stem ''ecm-backup-2026-01-02_030405.zip'' = Some ''2026-01-02_030405''"
    by (simp_all add: artifact_stem_def artifact_prefix_def artifact_suffix_def py_startswith_def)
  have fields: "stem_fields ''2026-01-03_030405'' = Some (2026, 1, 3, 3, 4, 5)"
    "stem_fields ''2026-01-02_030405'' = Some (2026, 1, 2, 3, 4, 5)"
    by (simp_all add: py_is_digit_def digits_value_def)
  show "backup_zip_filename ''ecm-backup-2026-01-03_030405.zip''"
    by (simp add: backup_zip_filename_def stems fields del: stem_fields.simps)
  show "filename_timestamp ''ecm-backup-2026-01-03_030405.zip'' = Some 63903092645000000"
    "filename_timestamp ''ecm-backup-2026-01-02_030405.zip'' = Some 63903006245000000"
    by (simp_all add: filename_timestamp_def stems fields timestamp_of_fields_def days_in_month_def
        date_ordinal_def days_before_year_def del: stem_fields.simps)
  show "\<not> backup_zip_filename ''notes.txt''"
    by (simp add: backup_zip_filename_def artifact_stem_def artifact_prefix_def py_startswith_def)
qed

lemma two_backups_eligible:
  "eligible (dst_files two_backups)
     = [(63903006245000000, ''ecm-backup-2026-01-02_030405.zip''), (63903092645000000, ''ecm-backup-2026-01-03_030405.zip'')]"
  by (simp add: eligible_def two_backups_def newer_backup_name one_remote_names(1))

lemma two_backups_pruned:
  "map fst (snd (select_prunable (dst_files two_backups) 1 30 0)) = [''ecm-backup-2026-01-02_030405.zip'']"
  by (simp add: select_prunable_def two_backups_eligible Let_def)

lemma two_backups_run:
  "\<exists>s d'. prune_local_backups resolve (\<lambda>_ _. True) True 1 30 0 (Some two_backups) = (s, Some d')
     \<and> dst_files d' = filter (\<lambda>f. Some f \<noteq> resolve ''ecm-backup-2026-01-02_030405.zip'') (dst_files two_backups)"
proof -
  obtain reason where one: "snd (select_prunable (dst_files two_backups) 1 30 0) = [(''ecm-backup-2026-01-02_030405.zip'', reason)]"
    using two_backups_pruned by (auto simp: map_eq_Cons_conv)
  show ?thesis
    by (cases "resolve ''ecm-backup-2026-01-02_030405.zip''")
      (simp_all add: prune_local_backups_def select_prunable_glob one prune_local_step_def one_remote_names(1)
        delete_file_def)
qed

lemma local_prune_never_empties_witness:
  "\<exists>s d'. prune_local_backups Some (\<lambda>_ _. True) True 1 30 0 (Some two_backups) = (s, Some d')
    \<and> dst_files d' = [''notes.txt'', ''ecm-backup-2026-01-03_030405.zip'']
    \<and> 1 \<le> card (as_new_as ''ecm-backup-2026-01-02_030405.zip'' (dst_files d'))
    \<and> length (eligible (dst_files d')) = 1"
proof -
  from two_backups_run [of Some] obtain s d' where
    run: "prune_local_backups Some (\<lambda>_ _. True) True 1 30 0 (Some two_backups) = (s, Some d')"
      "dst_files d' = [''notes.txt'', ''ecm-backup-2026-01-03_030405.zip'']"
    by (auto simp: two_backups_def)
  have "distinct (dst_files two_backups)" by (simp add: two_backups_def)
  note safe = local_prune_never_empties [OF this _ run(1)]
  have "1 \<le> card (as_new_as ''ecm-backup-2026-01-02_030405.zip'' (dst_files d'))"
    using safe by (simp add: run(2)) (simp add: two_backups_def)
  moreover have "length (eligible (dst_files d')) = 1"
    using safe by (simp add: two_backups_eligible)
  ultimately show ?thesis using run by blast
qed

text \<open>
  With a link the guarantee fails: where the older name is a symbolic link to the newer artifact, what is
  deleted is the artifact that was to be kept, and a dangling link is left.
\<close>

lemma linked_name_deletes_the_newest:
  "\<exists>s d'. prune_local_backups (\<lambda>n. Some ''ecm-backup-2026-01-03_030405.zip'') (\<lambda>_ _. True) True 1 30 0 (Some two_backups)
      = (s, Some d') \<and> dst_files d' = [''ecm-backup-2026-01-02_030405.zip'', ''notes.txt'']"
  using two_backups_run [of "\<lambda>n. Some ''ecm-backup-2026-01-03_030405.zip''"] by (auto simp: two_backups_def)

text \<open>
  With a listing that repeats a leaf name the guarantee fails. An S3 listing returns whole keys
  under a key prefix, so the same artifact name can occur in two directories; reduced to leaf names
  it is both kept and pruned, and the only artifact of the destination is deleted although
  \<open>last_n\<close> is 1.
\<close>

theorem repeated_leaf_name_empties_the_destination:
  "dst_files (snd (prune_cloud_destination (\<lambda>_. Some True)
     (Some [''a/ecm-backup-2026-01-02_030405.zip'', ''a/old/ecm-backup-2026-01-02_030405.zip''])
     ''a'' True 1 30 0 one_remote)) = []"
proof -
  obtain ts where ts: "filename_timestamp ''ecm-backup-2026-01-02_030405.zip'' = Some ts"
    using one_remote_names(2) by blast
  show ?thesis
    by (simp add: prune_cloud_destination_def one_remote_names select_prunable_def eligible_def ts
        prune_cloud_step_def delete_file_def one_remote_def Let_def)
qed

end
