(* ===== verification/Stores.thy ===== *)
theory Stores
  imports PyVal
begin

text \<open>
  Three small process-local stores: the mutation plan store
  (\<open>backend/services/mutation_plan_store.py\<close>), the response cache (\<open>backend/cache.py\<close>) and the log
  throttle (\<open>backend/log_throttle.py\<close>). Each method takes the clock reading it makes as an argument;
  time is a double, and adding or subtracting rounds to one. A dict is an association list
  in insertion order with one entry per key.
\<close>

section \<open>Mutation plans\<close>

definition plan_ttl_seconds :: rat where
  "plan_ttl_seconds = 300"

definition plan_max_entries :: nat where
  "plan_max_entries = 128"

definition plan_max_bytes :: nat where
  "plan_max_bytes = 2 * 1024 * 1024"

record mutation_plan =
  plan_id :: string
  operation :: string
  payload :: pyval
  payload_hash :: string
  state_hash :: string
  principal :: string
  created_at :: rat
  expires_at :: rat

datatype plan_error = PlanTooLarge | PlanUnknown | OperationMismatch | HashMismatch | PrincipalMismatch

type_synonym plan_store = "(string \<times> mutation_plan) list"

definition remove_plan :: "string \<Rightarrow> plan_store \<Rightarrow> plan_store" where
  "remove_plan i plans = filter (\<lambda>e. fst e \<noteq> i) plans"

definition put_plan :: "mutation_plan \<Rightarrow> plan_store \<Rightarrow> plan_store" where
  "put_plan p plans =
     (if map_of plans (plan_id p) = None then plans @ [(plan_id p, p)]
      else map (\<lambda>e. if fst e = plan_id p then (plan_id p, p) else e) plans)"

definition prune_plans :: "rat \<Rightarrow> plan_store \<Rightarrow> plan_store" where
  "prune_plans now plans =
     (let live = filter (\<lambda>e. expires_at (snd e) > now) plans in
      if length live \<ge> plan_max_entries
      then fold (\<lambda>p. remove_plan (plan_id p))
             (take (length live - plan_max_entries + 1) (sort_key created_at (map snd live))) live
      else live)"

text \<open>\<open>encoded_size\<close> and \<open>digest\<close> stand for the length of the JSON encoding and for \<open>canonical_hash\<close>;
  \<open>new_id\<close> is the answer of \<open>uuid4\<close>.\<close>

definition create_plan ::
  "(pyval \<Rightarrow> nat) \<Rightarrow> (pyval \<Rightarrow> string) \<Rightarrow> string \<Rightarrow> rat \<Rightarrow> string \<Rightarrow> pyval \<Rightarrow> string \<Rightarrow> string \<Rightarrow> plan_store
     \<Rightarrow> (plan_error, mutation_plan) result \<times> plan_store" where
  "create_plan encoded_size digest new_id now op body state who plans =
     (if encoded_size body > plan_max_bytes then (Inl PlanTooLarge, plans)
      else (let plan = \<lparr> plan_id = new_id, operation = op, payload = body, payload_hash = digest body,
                         state_hash = state, principal = who, created_at = now,
                         expires_at = fl (now + plan_ttl_seconds) \<rparr>
            in (Inr plan, put_plan plan (prune_plans now plans))))"

definition consume_plan ::
  "rat \<Rightarrow> string \<Rightarrow> string \<Rightarrow> string \<Rightarrow> string \<Rightarrow> plan_store \<Rightarrow> (plan_error, mutation_plan) result \<times> plan_store" where
  "consume_plan now i op hash who plans =
     (let plans' = prune_plans now plans in
      case map_of plans' i of
        None \<Rightarrow> (Inl PlanUnknown, plans')
      | Some plan \<Rightarrow>
          if operation plan \<noteq> op then (Inl OperationMismatch, plans')
          else if payload_hash plan \<noteq> hash then (Inl HashMismatch, plans')
          else if principal plan \<noteq> who then (Inl PrincipalMismatch, plans')
          else (Inr plan, remove_plan i plans'))"

datatype plan_call =
    CreatePlan string rat string pyval string string
  | ConsumePlan rat string string string string

fun plan_step :: "(pyval \<Rightarrow> nat) \<Rightarrow> (pyval \<Rightarrow> string) \<Rightarrow> plan_call \<Rightarrow> plan_store
    \<Rightarrow> (plan_error, mutation_plan) result \<times> plan_store" where
  "plan_step encoded_size digest (CreatePlan i now op body state who) = create_plan encoded_size digest i now op body state who"
| "plan_step encoded_size digest (ConsumePlan now i op hash who) = consume_plan now i op hash who"

definition plan_store_inv :: "plan_store \<Rightarrow> bool" where
  "plan_store_inv plans \<longleftrightarrow> distinct (map fst plans) \<and> (\<forall>e \<in> set plans. fst e = plan_id (snd e))
     \<and> length plans \<le> plan_max_entries"

lemma remove_plan_inv:
  assumes "distinct (map fst plans)" "\<forall>e \<in> set plans. fst e = plan_id (snd e)"
  shows "distinct (map fst (remove_plan i plans))" "\<forall>e \<in> set (remove_plan i plans). fst e = plan_id (snd e)"
    "length (remove_plan i plans) \<le> length plans"
  using assms by (simp_all add: remove_plan_def distinct_map_filter)

lemma fold_remove_plan:
  "fold (\<lambda>p. remove_plan (plan_id p)) ps plans = filter (\<lambda>e. fst e \<notin> plan_id ` set ps) plans"
  by (induction ps arbitrary: plans) (auto simp: remove_plan_def intro!: filter_cong)

lemma taken_ids:
  assumes "distinct (map fst live)" "\<forall>e \<in> set live. fst e = plan_id (snd e)"
  shows "card (plan_id ` set (take k (sort_key created_at (map snd live)))) = min k (length live)"
    "plan_id ` set (take k (sort_key created_at (map snd live))) \<subseteq> fst ` set live"
proof -
  let ?s = "sort_key created_at (map snd live)"
  have "map plan_id (map snd live) = map fst live" using assms(2) by simp
  then have "distinct (map plan_id (map snd live))" using assms(1) by (simp only:)
  moreover have "mset (map plan_id ?s) = mset (map plan_id (map snd live))" by (simp only: mset_map mset_sort)
  ultimately have "distinct (map plan_id ?s)" using mset_eq_imp_distinct_iff by blast
  then have "distinct (map plan_id (take k ?s))" by (metis distinct_take take_map)
  then show "card (plan_id ` set (take k ?s)) = min k (length live)"
    using distinct_card [of "map plan_id (take k ?s)"] by (simp add: min.commute)
  show "plan_id ` set (take k ?s) \<subseteq> fst ` set live"
  proof
    fix i assume "i \<in> plan_id ` set (take k ?s)"
    then obtain p where "p \<in> set ?s" "i = plan_id p" by (meson imageE in_set_takeD)
    with assms(2) show "i \<in> fst ` set live" by force
  qed
qed

lemma length_filter_keys:
  assumes "distinct (map fst es)"
  shows "length (filter (\<lambda>e. fst e \<notin> A) es) = card (set (map fst es) - A)"
proof -
  have "length (filter (\<lambda>e. fst e \<notin> A) es) = length (filter (\<lambda>i. i \<notin> A) (map fst es))"
    by (simp add: filter_map o_def)
  also have "\<dots> = card (set (filter (\<lambda>i. i \<notin> A) (map fst es)))"
    using assms by (intro distinct_card [symmetric]) (rule distinct_filter)
  also have "set (filter (\<lambda>i. i \<notin> A) (map fst es)) = set (map fst es) - A" by auto
  finally show ?thesis .
qed

lemma prune_plans_inv:
  assumes "distinct (map fst plans)" "\<forall>e \<in> set plans. fst e = plan_id (snd e)"
  shows "distinct (map fst (prune_plans now plans))" "\<forall>e \<in> set (prune_plans now plans). fst e = plan_id (snd e)"
    "length (prune_plans now plans) < plan_max_entries"
    "set (prune_plans now plans) \<subseteq> set plans" "\<forall>e \<in> set (prune_plans now plans). expires_at (snd e) > now"
proof -
  let ?live = "filter (\<lambda>e. expires_at (snd e) > now) plans"
  let ?ids = "plan_id ` set (take (length ?live - plan_max_entries + 1) (sort_key created_at (map snd ?live)))"
  have d: "distinct (map fst ?live)" "\<forall>e \<in> set ?live. fst e = plan_id (snd e)"
    using assms by (simp_all add: distinct_map_filter)
  have eq: "prune_plans now plans = (if length ?live \<ge> plan_max_entries
      then filter (\<lambda>e. fst e \<notin> ?ids) ?live else ?live)"
    by (simp only: prune_plans_def Let_def fold_remove_plan)
  then show "distinct (map fst (prune_plans now plans))" "\<forall>e \<in> set (prune_plans now plans). fst e = plan_id (snd e)"
    "set (prune_plans now plans) \<subseteq> set plans" "\<forall>e \<in> set (prune_plans now plans). expires_at (snd e) > now"
    using d assms by (auto simp: distinct_map_filter)
  show "length (prune_plans now plans) < plan_max_entries"
  proof (cases "length ?live \<ge> plan_max_entries")
    case True
    have "length (filter (\<lambda>e. fst e \<notin> ?ids) ?live) = card (set (map fst ?live) - ?ids)"
      by (rule length_filter_keys [OF d(1)])
    also have "\<dots> = length ?live - card ?ids"
      using taken_ids(2) [OF d] distinct_card [OF d(1)] by (simp add: card_Diff_subset)
    also have "\<dots> < plan_max_entries" using taken_ids(1) [OF d] True by (simp add: plan_max_entries_def)
    finally show ?thesis using True eq by simp
  next
    case False
    then show ?thesis using eq by simp
  qed
qed

lemma put_plan_inv:
  assumes "distinct (map fst plans)" "\<forall>e \<in> set plans. fst e = plan_id (snd e)"
  shows "distinct (map fst (put_plan p plans))" "\<forall>e \<in> set (put_plan p plans). fst e = plan_id (snd e)"
    "length (put_plan p plans) \<le> Suc (length plans)"
proof -
  have same: "map fst (map (\<lambda>e. if fst e = plan_id p then (plan_id p, p) else e) plans) = map fst plans" by simp
  show "distinct (map fst (put_plan p plans))"
  proof (cases "map_of plans (plan_id p) = None")
    case True
    then have "plan_id p \<notin> set (map fst plans)" by (simp add: map_of_eq_None_iff)
    with True assms(1) show ?thesis by (simp add: put_plan_def)
  next
    case False
    then show ?thesis using assms(1) by (simp only: put_plan_def same if_False)
  qed
  show "\<forall>e \<in> set (put_plan p plans). fst e = plan_id (snd e)" using assms(2) by (auto simp: put_plan_def)
  show "length (put_plan p plans) \<le> Suc (length plans)" by (simp add: put_plan_def)
qed

lemma create_plan_inv:
  assumes "plan_store_inv plans"
  shows "plan_store_inv (snd (create_plan encoded_size digest i now op body state who plans))"
proof -
  have p: "distinct (map fst plans)" "\<forall>e \<in> set plans. fst e = plan_id (snd e)" using assms by (simp_all add: plan_store_inv_def)
  have "plan_store_inv (put_plan q (prune_plans now plans))" for q
    using put_plan_inv [OF prune_plans_inv(1,2) [OF p, of now], of q] prune_plans_inv(3) [OF p, of now]
    by (simp add: plan_store_inv_def)
  with assms show ?thesis by (simp add: create_plan_def Let_def)
qed

lemma consume_plan_inv:
  assumes "plan_store_inv plans"
  shows "plan_store_inv (snd (consume_plan now i op hash who plans))"
proof -
  have p: "distinct (map fst plans)" "\<forall>e \<in> set plans. fst e = plan_id (snd e)" using assms by (simp_all add: plan_store_inv_def)
  have kept: "plan_store_inv (prune_plans now plans)"
    using prune_plans_inv [OF p, of now] by (simp add: plan_store_inv_def)
  then have "plan_store_inv (remove_plan i (prune_plans now plans))"
    using remove_plan_inv [of "prune_plans now plans" i] by (simp add: plan_store_inv_def)
  with kept show ?thesis
    by (cases "map_of (prune_plans now plans) i") (simp_all add: consume_plan_def Let_def)
qed

interpretation plans: call_machine "plan_step encoded_size digest" "\<lambda>s. s = []" plan_store_inv for encoded_size digest
proof unfold_locales
  show "plan_store_inv s" if "s = []" for s using that by (simp add: plan_store_inv_def)
  show "plan_store_inv (snd (plan_step encoded_size digest c s))" if "plan_store_inv s" for c s
    using that create_plan_inv consume_plan_inv by (cases c) auto
qed

text \<open>
  Over any sequence of creations and consumptions the store stays bounded: at most 128 plans,
  one per id, each under its own id.
\<close>

theorem plan_store_is_bounded:
  "plan_store_inv (run_calls (plan_step encoded_size digest) cs [])"
  by (rule plans.run_inv) simp

lemma take_1_sort_key:
  assumes "p \<in> set xs" "\<And>q. q \<in> set xs \<Longrightarrow> q \<noteq> p \<Longrightarrow> f p < f q"
  shows "take 1 (sort_key f xs) = [p]"
proof -
  obtain q qs where s: "sort_key f xs = q # qs" using assms(1) by (cases "sort_key f xs") (auto dest: arg_cong [of _ _ set])
  have "q \<in> set xs" by (metis list.set_intros(1) s set_sort)
  moreover have "p \<in> set (q # qs)" using assms(1) by (metis s set_sort)
  moreover have "sorted (map f (q # qs))" using sorted_sort_key [of f xs] s by simp
  ultimately have "q = p" using assms(2) [of q] by fastforce
  with s show ?thesis by simp
qed

lemma map_of_remove_plan: "map_of (remove_plan i plans) j = (if j = i then None else map_of plans j)"
  by (induction plans) (auto simp: remove_plan_def)

lemma prune_keeps_None:
  assumes "map_of plans i = None"
  shows "map_of (prune_plans now plans) i = None"
proof -
  have "fst ` set (prune_plans now plans) \<subseteq> fst ` set plans"
    by (auto simp: prune_plans_def Let_def fold_remove_plan)
  with assms show ?thesis by (auto simp: map_of_eq_None_iff)
qed

text \<open>
  C38. A plan is consumed once, by the right caller, in time: a successful consumption returns a plan
  that has not expired and was created for this operation, payload and principal, and every later
  attempt on the same id is refused until a plan is created under it again.
\<close>

theorem plan_is_consumed_once:
  assumes "plan_store_inv plans" "consume_plan now i op hash who plans = (Inr plan, plans')"
  shows "expires_at plan > now \<and> plan_id plan = i \<and> operation plan = op \<and> payload_hash plan = hash \<and> principal plan = who
    \<and> (\<forall>now' op' hash' who'. fst (consume_plan now' i op' hash' who' plans') = Inl PlanUnknown)"
proof -
  have p: "distinct (map fst plans)" "\<forall>e \<in> set plans. fst e = plan_id (snd e)" using assms(1) by (simp_all add: plan_store_inv_def)
  have c: "map_of (prune_plans now plans) i = Some plan" "operation plan = op" "payload_hash plan = hash"
    "principal plan = who" "plans' = remove_plan i (prune_plans now plans)"
    using assms(2) by (auto simp: consume_plan_def Let_def split: option.splits if_splits)
  have m: "(i, plan) \<in> set (prune_plans now plans)" using c(1) by (rule map_of_SomeD)
  have "expires_at plan > now" "plan_id plan = i" using prune_plans_inv(2,5) [OF p, of now] m by fastforce+
  moreover have "map_of (prune_plans now' plans') i = None" for now'
    by (rule prune_keeps_None) (simp add: c(5) map_of_remove_plan)
  then have "fst (consume_plan now' i op' hash' who' plans') = Inl PlanUnknown" for now' op' hash' who'
    by (simp add: consume_plan_def Let_def)
  ultimately show ?thesis using c by blast
qed

text \<open>
  A full store loses a live plan to every consumption, valid or not. With 128 unexpired plans,
  \<open>consume\<close> first evicts the oldest one: claiming that plan is refused as unknown, and a claim of an
  unknown id leaves only 127 plans, where the docstring says that invalid claims leave plans intact.
\<close>

theorem full_store_evicts_its_oldest_plan:
  assumes "plan_store_inv plans" "length plans = plan_max_entries" "\<forall>e \<in> set plans. expires_at (snd e) > now"
    and "(i, p) \<in> set plans" "\<forall>e \<in> set plans. e \<noteq> (i, p) \<longrightarrow> created_at p < created_at (snd e)"
  shows "fst (consume_plan now i op hash who plans) = Inl PlanUnknown
    \<and> snd (consume_plan now i op hash who plans) = remove_plan i plans"
proof -
  have id: "i = plan_id p" using assms(1,4) by (auto simp: plan_store_inv_def)
  have live: "filter (\<lambda>e. expires_at (snd e) > now) plans = plans" using assms(3) by (simp add: filter_True)
  have "p \<in> set (map snd plans)" using assms(4) by force
  moreover have "created_at p < created_at q" if "q \<in> set (map snd plans)" "q \<noteq> p" for q
    using that assms(5) by force
  ultimately have "take 1 (sort_key created_at (map snd plans)) = [p]" by (rule take_1_sort_key)
  then have "prune_plans now plans = remove_plan i plans"
    using assms(2) live by (simp add: prune_plans_def Let_def id)
  then show ?thesis by (simp add: consume_plan_def Let_def map_of_remove_plan)
qed

definition sample_plan :: "nat \<Rightarrow> mutation_plan" where
  "sample_plan n = \<lparr> plan_id = replicate n (CHR ''a''), operation = [], payload = PNone, payload_hash = [], state_hash = [],
     principal = [], created_at = of_nat n, expires_at = 1000 \<rparr>"

definition full_store :: plan_store where
  "full_store = map (\<lambda>n. (replicate n (CHR ''a''), sample_plan n)) [0..<128]"

lemma full_store_facts:
  "plan_store_inv full_store" "length full_store = plan_max_entries" "([], sample_plan 0) \<in> set full_store"
  by (auto simp: full_store_def plan_store_inv_def plan_max_entries_def distinct_map inj_on_def sample_plan_def image_iff)

lemma full_store_evicts_its_oldest_plan_witness:
  "fst (consume_plan 500 [] [] [] [] full_store) = Inl PlanUnknown"
proof -
  have "\<forall>e \<in> set full_store. expires_at (snd e) > 500" by (auto simp: full_store_def sample_plan_def)
  moreover have "\<forall>e \<in> set full_store. e \<noteq> ([], sample_plan 0) \<longrightarrow> created_at (sample_plan 0) < created_at (snd e)"
    by (auto simp: full_store_def sample_plan_def)
  ultimately show ?thesis
    using full_store_evicts_its_oldest_plan [OF full_store_facts(1,2) _ full_store_facts(3)] by blast
qed

lemma plan_is_consumed_once_witness:
  "expires_at (sample_plan 1) > 500
    \<and> fst (consume_plan 600 ''a'' [] [] [] []) = Inl PlanUnknown"
  using plan_is_consumed_once [of "[(''a'', sample_plan 1)]" 500 "''a''" "[]" "[]" "[]" "sample_plan 1" "[]"]
  by (simp add: plan_store_inv_def plan_max_entries_def consume_plan_def prune_plans_def sample_plan_def remove_plan_def)

section \<open>The response cache\<close>

record 'v cache =
  cache_entries :: "(string \<times> 'v \<times> rat) list"
  default_ttl :: rat
  hits :: nat
  misses :: nat

definition new_cache :: "rat \<Rightarrow> 'v cache" where
  "new_cache ttl = \<lparr> cache_entries = [], default_ttl = ttl, hits = 0, misses = 0 \<rparr>"

definition drop_key :: "string \<Rightarrow> (string \<times> 'v \<times> rat) list \<Rightarrow> (string \<times> 'v \<times> rat) list" where
  "drop_key k es = filter (\<lambda>e. fst e \<noteq> k) es"

definition cache_get :: "rat \<Rightarrow> string \<Rightarrow> rat option \<Rightarrow> 'v cache \<Rightarrow> 'v option \<times> 'v cache" where
  "cache_get now k ttl c =
     (case map_of (cache_entries c) k of
        None \<Rightarrow> (None, c\<lparr> misses := misses c + 1 \<rparr>)
      | Some (v, cached_at) \<Rightarrow>
          (let effective_ttl = (case ttl of Some t \<Rightarrow> t | None \<Rightarrow> default_ttl c);
               age = fl (now - cached_at)
           in if age > effective_ttl
              then (None, c\<lparr> misses := misses c + 1, cache_entries := drop_key k (cache_entries c) \<rparr>)
              else (Some v, c\<lparr> hits := hits c + 1 \<rparr>)))"

definition cache_set :: "rat \<Rightarrow> string \<Rightarrow> 'v \<Rightarrow> 'v cache \<Rightarrow> 'v cache" where
  "cache_set now k v c =
     c\<lparr> cache_entries := (if map_of (cache_entries c) k = None then cache_entries c @ [(k, v, now)]
                          else map (\<lambda>e. if fst e = k then (k, v, now) else e) (cache_entries c)) \<rparr>"

definition cache_invalidate :: "string \<Rightarrow> 'v cache \<Rightarrow> bool \<times> 'v cache" where
  "cache_invalidate k c =
     (if map_of (cache_entries c) k \<noteq> None then (True, c\<lparr> cache_entries := drop_key k (cache_entries c) \<rparr>)
      else (False, c))"

definition cache_invalidate_prefix :: "string \<Rightarrow> 'v cache \<Rightarrow> nat \<times> 'v cache" where
  "cache_invalidate_prefix prefix c =
     (let keys = map fst (filter (\<lambda>e. py_startswith (fst e) prefix) (cache_entries c))
      in (length keys, c\<lparr> cache_entries := fold drop_key keys (cache_entries c) \<rparr>))"

definition cache_clear :: "'v cache \<Rightarrow> nat \<times> 'v cache" where
  "cache_clear c = (length (cache_entries c), c\<lparr> cache_entries := [] \<rparr>)"

datatype 'v cache_call =
    Get rat string "rat option" | Set rat string 'v | Invalidate string | InvalidatePrefix string | Clear

fun cache_step :: "'v cache_call \<Rightarrow> 'v cache \<Rightarrow> 'v option \<times> 'v cache" where
  "cache_step (Get now k ttl) c = cache_get now k ttl c"
| "cache_step (Set now k v) c = (None, cache_set now k v c)"
| "cache_step (Invalidate k) c = (None, snd (cache_invalidate k c))"
| "cache_step (InvalidatePrefix prefix) c = (None, snd (cache_invalidate_prefix prefix c))"
| "cache_step Clear c = (None, snd (cache_clear c))"

text \<open>The specification: what a key was last set to, and when, if nothing removed it since.\<close>

fun last_set :: "'v cache_call \<Rightarrow> (string \<Rightarrow> ('v \<times> rat) option) \<Rightarrow> string \<Rightarrow> ('v \<times> rat) option" where
  "last_set (Set now k v) m = m(k \<mapsto> (v, now))"
| "last_set (Invalidate k) m = m(k := None)"
| "last_set (InvalidatePrefix prefix) m = (\<lambda>k. if py_startswith k prefix then None else m k)"
| "last_set Clear m = Map.empty"
| "last_set (Get now k ttl) m = m"

lemma map_of_drop_key: "map_of (drop_key k es) j = (if j = k then None else map_of es j)"
  by (induction es) (auto simp: drop_key_def)

lemma map_of_drop_keys: "map_of (fold drop_key ks es) j = (if j \<in> set ks then None else map_of es j)"
  by (induction ks arbitrary: es) (auto simp: map_of_drop_key)

lemma map_of_cache_set:
  "map_of (cache_entries (cache_set now k v c)) = (map_of (cache_entries c))(k \<mapsto> (v, now))"
proof -
  have "map_of (es @ [(k, v, now)]) j = ((map_of es)(k \<mapsto> (v, now))) j" if "map_of es k = None" for es :: "(string \<times> 'a \<times> rat) list" and j
    using that by (induction es) (auto split: if_splits)
  moreover have "map_of (map (\<lambda>e. if fst e = k then (k, v, now) else e) es) j
    = (if j = k then (if map_of es k = None then None else Some (v, now)) else map_of es j)"
    for es :: "(string \<times> 'a \<times> rat) list" and j
    by (induction es) auto
  ultimately show ?thesis by (auto simp: cache_set_def fun_eq_iff)
qed

text \<open>The entries of a cache are a part of what was last set: \<open>get\<close> may have dropped expired ones.\<close>

lemma cache_step_sound:
  assumes "map_of (cache_entries c) \<subseteq>\<^sub>m m"
  shows "map_of (cache_entries (snd (cache_step call c))) \<subseteq>\<^sub>m last_set call m"
proof (cases call)
  case (Get now k ttl)
  with assms show ?thesis
    by (auto simp: cache_get_def map_le_def Let_def map_of_drop_key dom_def split: option.splits prod.splits if_splits)
next
  case (InvalidatePrefix prefix)
  have "map_of (fold drop_key (map fst (filter (\<lambda>e. py_startswith (fst e) prefix) (cache_entries c))) (cache_entries c)) j
    = (if py_startswith j prefix then None else map_of (cache_entries c) j)" for j
    by (auto simp: map_of_drop_keys image_iff dest: map_of_SomeD) (metis fst_conv map_of_SomeD not_Some_eq prod.exhaust_sel)
  with InvalidatePrefix assms show ?thesis
    by (auto simp: cache_invalidate_prefix_def map_le_def dom_def Let_def)
qed (use assms in \<open>auto simp: cache_invalidate_def cache_clear_def map_of_cache_set map_le_def map_of_drop_key dom_def split: if_splits\<close>)

lemma cache_run_sound:
  "map_of (cache_entries (run_calls cache_step cs (new_cache ttl))) \<subseteq>\<^sub>m fold last_set cs Map.empty"
proof -
  have "map_of (cache_entries c) \<subseteq>\<^sub>m m \<Longrightarrow> map_of (cache_entries (run_calls cache_step cs c)) \<subseteq>\<^sub>m fold last_set cs m" for c m
    by (induction cs arbitrary: c m) (simp_all add: cache_step_sound)
  then show ?thesis by (simp add: new_cache_def)
qed

text \<open>
  The cache never answers with anything but the last value set: after any sequence of calls, a
  hit returns the value the key was last set to, the key was not invalidated since, and the entry is
  not older than the time to live that applies.
\<close>

theorem cache_hit_is_the_last_value:
  assumes "fst (cache_get now k ttl (run_calls cache_step cs (new_cache dttl))) = Some v"
  shows "\<exists>cached_at. fold last_set cs Map.empty k = Some (v, cached_at)
    \<and> fl (now - cached_at) \<le> (case ttl of Some t \<Rightarrow> t | None \<Rightarrow> default_ttl (run_calls cache_step cs (new_cache dttl)))"
proof -
  let ?c = "run_calls cache_step cs (new_cache dttl)"
  obtain cached_at where e: "map_of (cache_entries ?c) k = Some (v, cached_at)"
    "fl (now - cached_at) \<le> (case ttl of Some t \<Rightarrow> t | None \<Rightarrow> default_ttl ?c)"
    using assms by (auto simp: cache_get_def Let_def split: option.splits if_splits)
  with cache_run_sound [of cs dttl] have "fold last_set cs Map.empty k = Some (v, cached_at)"
    by (metis domI map_le_def)
  with e(2) show ?thesis by blast
qed

lemma cache_hit_is_the_last_value_witness:
  "\<exists>cached_at. fold last_set [Set 10 ''k'' (1::int)] Map.empty ''k'' = Some (1, cached_at)
    \<and> fl (11 - cached_at) \<le> (case Some 300 of Some t \<Rightarrow> t
       | None \<Rightarrow> default_ttl (run_calls cache_step [Set 10 ''k'' (1::int)] (new_cache 300)))"
  by (rule cache_hit_is_the_last_value) (simp add: new_cache_def cache_set_def cache_get_def)

section \<open>The log throttle\<close>

type_synonym throttle = "string \<rightharpoonup> rat"

definition should_log :: "rat \<Rightarrow> string \<Rightarrow> rat \<Rightarrow> throttle \<Rightarrow> bool \<times> throttle" where
  "should_log now k window last_logged_at =
     (case last_logged_at k of
        Some last_time \<Rightarrow> if fl (now - last_time) < window then (False, last_logged_at)
                          else (True, last_logged_at(k \<mapsto> now))
      | None \<Rightarrow> (True, last_logged_at(k \<mapsto> now)))"

definition throttle_reset :: "string option \<Rightarrow> throttle \<Rightarrow> throttle" where
  "throttle_reset k m = (case k of None \<Rightarrow> Map.empty | Some k \<Rightarrow> m(k := None))"

fun log_answers :: "(rat \<times> string) list \<Rightarrow> rat \<Rightarrow> throttle \<Rightarrow> bool list" where
  "log_answers [] window m = []"
| "log_answers ((now, k) # calls) window m =
     fst (should_log now k window m) # log_answers calls window (snd (should_log now k window m))"

text \<open>
  One line per key and window: once a key was logged, every further call for it inside the
  window is refused, no matter how calls for other keys are interleaved; and a key that was never
  logged is logged at its first call.
\<close>

theorem throttle_allows_one_line_per_window:
  assumes "should_log t k window m = (True, m')"
    and "\<forall>i < length calls. snd (calls ! i) = k \<longrightarrow> fl (fst (calls ! i) - t) < window"
  shows "\<forall>i < length calls. snd (calls ! i) = k \<longrightarrow> \<not> log_answers calls window m' ! i"
proof -
  have "\<forall>i < length calls. snd (calls ! i) = k \<longrightarrow> \<not> log_answers calls window n ! i"
    if "n k = Some t" for n
    using that assms(2)
  proof (induction calls arbitrary: n)
    case (Cons c calls)
    obtain u j where c: "c = (u, j)" by (cases c)
    have "fl (u - t) < window" if "j = k" using Cons.prems(2) that c by force
    then have head: "j = k \<Longrightarrow> should_log u j window n = (False, n)" using Cons.prems(1) by (simp add: should_log_def)
    have "snd (should_log u j window n) k = Some t"
      using head Cons.prems(1) by (cases "j = k") (auto simp: should_log_def split: option.splits)
    with Cons have "\<forall>i < length calls. snd (calls ! i) = k \<longrightarrow> \<not> log_answers calls window (snd (should_log u j window n)) ! i"
      by (intro Cons.IH) (auto simp: nth_Cons split: nat.splits)
    with head show ?case by (auto simp: c nth_Cons split: nat.splits)
  qed simp
  moreover have "m' k = Some t" using assms(1) by (auto simp: should_log_def split: option.splits if_splits)
  ultimately show ?thesis by blast
qed

lemma throttle_allows_one_line_per_window_witness:
  "\<forall>i < length [(20 :: rat, ''b''), (20, ''a'')]. snd ([(20 :: rat, ''b''), (20, ''a'')] ! i) = ''a''
     \<longrightarrow> \<not> log_answers [(20, ''b''), (20, ''a'')] 300 [''a'' \<mapsto> 20] ! i"
  by (rule throttle_allows_one_line_per_window [of 20 _ _ Map.empty])
    (simp_all add: should_log_def All_less_Suc less_Suc_eq)

end
