(* ===== verification/Matching.thy ===== *)
theory Matching
  imports PyVal "HOL-Library.List_Lexorder" "HOL-Library.Char_ord"
begin

text \<open>
  Matching by name and address: the redaction sentinel (\<open>backend/credential_sentinel.py\<close>), the
  conservative name cleaner and the top-1 candidate search of \<open>backend/services/dedup_matcher.py\<close>,
  and the four-tier stream matcher (\<open>backend/dbas/stream_matcher.py\<close>). The fuzzy score of the
  RapidFuzz package, \<open>token_set_ratio\<close>, is the argument \<open>ratio\<close> of the definitions that use it.
\<close>

section \<open>The redaction sentinel\<close>

definition redaction_sentinel :: string where
  "redaction_sentinel = ''***REDACTED***''"

definition is_redaction_sentinel :: "pyval \<Rightarrow> bool" where
  "is_redaction_sentinel v \<longleftrightarrow> v = PStr redaction_sentinel"

definition credential_is_present :: "pyval \<Rightarrow> bool" where
  "credential_is_present v \<longleftrightarrow> truthy v \<and> \<not> is_redaction_sentinel v"

text \<open>An address, \<open>None\<close> where the record has none.\<close>

definition url_is_redacted :: "string option \<Rightarrow> bool" where
  "url_is_redacted u = (case u of None \<Rightarrow> False | Some s \<Rightarrow> s \<noteq> [] \<and> py_contains redaction_sentinel s)"

definition url_can_serve :: "string option \<Rightarrow> bool" where
  "url_can_serve u = (case u of None \<Rightarrow> False | Some s \<Rightarrow> s \<noteq> [] \<and> \<not> py_contains redaction_sentinel s)"

text \<open>\<open>_strip\<close>: the cleaned node and the removed paths, in document order.\<close>

fun strip_node :: "string \<Rightarrow> pyval \<Rightarrow> pyval \<times> string list"
and strip_items :: "string \<Rightarrow> nat \<Rightarrow> pyval list \<Rightarrow> pyval list \<times> string list"
and strip_fields :: "string \<Rightarrow> (string \<times> pyval) list \<Rightarrow> (string \<times> pyval) list \<times> string list" where
  "strip_node prefix (PDict d) = (let (d', removed) = strip_fields prefix d in (PDict d', removed))"
| "strip_node prefix (PList xs) = (let (xs', removed) = strip_items prefix 0 xs in (PList xs', removed))"
| "strip_node prefix v = (v, [])"
| "strip_items prefix i [] = ([], [])"
| "strip_items prefix i (x # xs) =
     (let (x', r) = strip_node (prefix @ ''['' @ nat_digits i @ '']'') x;
          (xs', rs) = strip_items prefix (Suc i) xs
      in (x' # xs', r @ rs))"
| "strip_fields prefix [] = ([], [])"
| "strip_fields prefix ((k, v) # d) =
     (let path = (if prefix \<noteq> [] then prefix @ ''.'' @ k else k);
          (d', rs) = strip_fields prefix d
      in if is_redaction_sentinel v then (d', path # rs)
         else (let (v', r) = strip_node path v in ((k, v') # d', r @ rs)))"

definition strip_redaction_sentinels :: "(string \<times> pyval) list \<Rightarrow> (string \<times> pyval) list \<times> string list" where
  "strip_redaction_sentinels payload = strip_fields [] payload"

section \<open>The conservative cleaner\<close>

definition normalize_max_len :: nat where
  "normalize_max_len = 512"

text \<open>\<open>_CHANNEL_NUMBER_PREFIX_RE.sub("", s)\<close> for the pattern \<^verbatim>\<open>^\s*\d+\s*\|\s*\<close>.\<close>

definition strip_number_prefix :: "string \<Rightarrow> string" where
  "strip_number_prefix s =
     (let s1 = py_lstrip s; digits = takeWhile py_is_digit s1; s2 = py_lstrip (dropWhile py_is_digit s1)
      in if digits \<noteq> [] \<and> s2 \<noteq> [] \<and> hd s2 = CHR ''|'' then py_lstrip (tl s2) else s)"

definition normalize_conservative :: "string \<Rightarrow> string" where
  "normalize_conservative raw =
     (let normalized = (if length raw > normalize_max_len then take normalize_max_len raw else raw);
          stripped = strip_number_prefix normalized;
          chosen = (if py_strip stripped \<noteq> [] then stripped else normalized)
      in py_strip (py_lower chosen))"

section \<open>The top-1 candidate\<close>

definition confidence_floor :: rat where
  "confidence_floor = fl (6 / 10)"

record match_result =
  candidate_channel_id :: string
  candidate_name :: string
  confidence :: rat

definition candidate_confidence :: "(string \<Rightarrow> string \<Rightarrow> rat) \<Rightarrow> string \<Rightarrow> string \<Rightarrow> rat" where
  "candidate_confidence ratio normalized_stream normalized_candidate =
     (if normalized_stream = normalized_candidate then 1
      else fl (ratio normalized_stream normalized_candidate / 100))"

definition admitted_results ::
  "(string \<Rightarrow> string \<Rightarrow> rat) \<Rightarrow> string \<Rightarrow> (string \<times> string) list \<Rightarrow> rat \<Rightarrow> match_result list" where
  "admitted_results ratio stream_name candidates threshold =
     (let effective_threshold = max threshold confidence_floor;
          normalized_stream = normalize_conservative stream_name
      in concat (map (\<lambda>(cid, name).
           let normalized_candidate = normalize_conservative name;
               c = candidate_confidence ratio normalized_stream normalized_candidate
           in if normalized_candidate = [] then []
              else if c < effective_threshold then []
              else [\<lparr> candidate_channel_id = cid, candidate_name = name, confidence = c \<rparr>]) candidates))"

definition find_candidate ::
  "(string \<Rightarrow> string \<Rightarrow> rat) \<Rightarrow> string \<Rightarrow> (string \<times> string) list \<Rightarrow> rat \<Rightarrow> match_result option" where
  "find_candidate ratio stream_name candidates threshold =
     (if candidates = [] then None
      else if normalize_conservative stream_name = [] then None
      else scan_best (higher_score confidence candidate_channel_id)
             (admitted_results ratio stream_name candidates threshold) None)"

section \<open>The stream ladder\<close>

datatype match_tier = MISS | EXACT_URL | EXACT_NAME_SAME_PROVIDER | EXACT_NORMALIZED_NAME | FUZZY_NORMALIZED_NAME

definition stream_fuzzy_floor :: rat where
  "stream_fuzzy_floor = fl (6 / 10)"

text \<open>A stream record by the keys the matcher reads: \<open>_stream_id\<close> of it, the address, the name where
  it is text, and the provider.\<close>

record stream_record =
  sr_id :: "int option"
  sr_url :: "string option"
  sr_name :: "string option"
  sr_provider :: pyval

definition normalized_name :: "stream_record \<Rightarrow> string" where
  "normalized_name r =
     (case sr_name r of None \<Rightarrow> [] | Some n \<Rightarrow> if n = [] then [] else normalize_conservative n)"

text \<open>\<open>==\<close> of provider ids: numbers compare by value.\<close>

fun numeric :: "pyval \<Rightarrow> pyfloat option" where
  "numeric (PBool b) = Some (Fin (if b then 1 else 0))"
| "numeric (PInt n) = Some (Fin (of_int n))"
| "numeric (PFloat f) = Some f"
| "numeric _ = None"

definition same_provider :: "pyval \<Rightarrow> pyval \<Rightarrow> bool" where
  "same_provider a b =
     (case (numeric a, numeric b) of
        (Some x, Some y) \<Rightarrow> x = y \<and> x \<noteq> NaN
      | (None, None) \<Rightarrow> a = b
      | _ \<Rightarrow> False)"

definition ids_where :: "stream_record list \<Rightarrow> (stream_record \<Rightarrow> bool) \<Rightarrow> int list" where
  "ids_where candidates predicate =
     concat (map (\<lambda>c. case sr_id c of None \<Rightarrow> [] | Some i \<Rightarrow> if predicate c then [i] else []) candidates)"

definition lowest_id_where :: "stream_record list \<Rightarrow> (stream_record \<Rightarrow> bool) \<Rightarrow> int option" where
  "lowest_id_where candidates predicate = scan_best (lower_key id) (ids_where candidates predicate) None"

definition lowest_id_preferring_raw_name ::
  "stream_record list \<Rightarrow> (stream_record \<Rightarrow> bool) \<Rightarrow> string option \<Rightarrow> int option" where
  "lowest_id_preferring_raw_name candidates predicate raw_name =
     (let prefer = (raw_name \<noteq> None \<and> raw_name \<noteq> Some []);
          exact_best = lowest_id_where candidates (\<lambda>c. predicate c \<and> prefer \<and> sr_name c = raw_name);
          any_best = lowest_id_where candidates predicate
      in if exact_best \<noteq> None then exact_best else any_best)"

definition select_in_tier :: "stream_record list \<Rightarrow> (stream_record \<Rightarrow> bool) \<Rightarrow> string option \<Rightarrow> int option" where
  "select_in_tier candidates predicate raw_name =
     (let servable = lowest_id_preferring_raw_name candidates (\<lambda>c. predicate c \<and> url_can_serve (sr_url c)) raw_name
      in if servable \<noteq> None then servable else lowest_id_preferring_raw_name candidates predicate raw_name)"

definition fuzzy_scores ::
  "(string \<Rightarrow> string \<Rightarrow> rat) \<Rightarrow> stream_record list \<Rightarrow> string \<Rightarrow> bool \<Rightarrow> (rat \<times> int) list" where
  "fuzzy_scores ratio candidates norm_stream_name servable_only =
     concat (map (\<lambda>c. case sr_id c of
         None \<Rightarrow> []
       | Some i \<Rightarrow>
           if servable_only \<and> \<not> url_can_serve (sr_url c) then []
           else if normalized_name c = [] then []
           else (let score = fl (ratio norm_stream_name (normalized_name c) / 100)
                 in if score < stream_fuzzy_floor then [] else [(score, i)])) candidates)"

definition best_fuzzy_id ::
  "(string \<Rightarrow> string \<Rightarrow> rat) \<Rightarrow> stream_record list \<Rightarrow> string \<Rightarrow> bool \<Rightarrow> int option" where
  "best_fuzzy_id ratio candidates norm_stream_name servable_only =
     map_option snd (scan_best (higher_score fst snd) (fuzzy_scores ratio candidates norm_stream_name servable_only) None)"

definition match_stream ::
  "(string \<Rightarrow> string \<Rightarrow> rat) \<Rightarrow> stream_record \<Rightarrow> stream_record list \<Rightarrow> bool \<Rightarrow> match_tier \<times> int option" where
  "match_stream ratio stream candidates allow_fuzzy =
     (if candidates = [] then (MISS, None)
      else
        (let by_url = (if url_can_serve (sr_url stream)
                       then lowest_id_where candidates (\<lambda>c. sr_url c = sr_url stream) else None);
             norm = normalized_name stream; raw = sr_name stream;
             by_provider = (if sr_provider stream \<noteq> PNone
                            then select_in_tier candidates (\<lambda>c. same_provider (sr_provider c) (sr_provider stream)
                                                                \<and> normalized_name c = norm) raw
                            else None);
             by_name = select_in_tier candidates (\<lambda>c. normalized_name c = norm) raw
         in if by_url \<noteq> None then (EXACT_URL, by_url)
            else if norm = [] then (MISS, None)
            else if by_provider \<noteq> None then (EXACT_NAME_SAME_PROVIDER, by_provider)
            else if by_name \<noteq> None then (EXACT_NORMALIZED_NAME, by_name)
            else if \<not> allow_fuzzy then (MISS, None)
            else (let live = best_fuzzy_id ratio candidates norm True;
                      best = (if live = None then best_fuzzy_id ratio candidates norm False else live)
                  in if best \<noteq> None then (FUZZY_NORMALIZED_NAME, best) else (MISS, None))))"

section \<open>Selection inside a tier\<close>

definition has :: "stream_record list \<Rightarrow> (stream_record \<Rightarrow> bool) \<Rightarrow> int \<Rightarrow> bool" where
  "has candidates P i \<longleftrightarrow> (\<exists>c \<in> set candidates. sr_id c = Some i \<and> P c)"

lemma ids_where_set: "set (ids_where cs P) = {i. has cs P i}"
  by (auto simp: ids_where_def has_def split: option.splits if_splits)

lemma has_set: "set cs = set ds \<Longrightarrow> has cs P = has ds P"
  by (auto simp: has_def fun_eq_iff)

lemma lowest_id_where_Some:
  assumes "lowest_id_where cs P = Some i"
  shows "has cs P i" "has cs P j \<Longrightarrow> i \<le> j"
  using low.scan_best_Some [OF assms [unfolded lowest_id_where_def]] ids_where_set [of cs P]
  by (auto simp: lower_key_def not_less)

lemma lowest_id_where_None: "lowest_id_where cs P = None \<longleftrightarrow> (\<forall>i. \<not> has cs P i)"
  using ids_where_set [of cs P] by (auto simp: lowest_id_where_def low.scan_best_None_iff)

lemma lowest_id_where_order:
  assumes "set cs = set ds"
  shows "lowest_id_where cs P = lowest_id_where ds P"
  unfolding lowest_id_where_def
  by (rule low.scan_best_order_independent) (auto simp: ids_where_set has_set [OF assms] lower_key_def)

lemma has_mono: "has cs P i \<Longrightarrow> (\<And>c. P c \<Longrightarrow> Q c) \<Longrightarrow> has cs Q i"
  by (auto simp: has_def)

lemma prefer_raw_Some:
  assumes "lowest_id_preferring_raw_name cs P raw = Some i"
  shows "has cs P i"
proof -
  let ?E = "\<lambda>c. P c \<and> (raw \<noteq> None \<and> raw \<noteq> Some []) \<and> sr_name c = raw"
  have "lowest_id_where cs ?E = Some i \<or> lowest_id_where cs P = Some i"
    using assms by (auto simp: lowest_id_preferring_raw_name_def Let_def split: if_splits)
  then have "has cs ?E i \<or> has cs P i" using lowest_id_where_Some(1) by blast
  then show ?thesis by (auto simp: has_def)
qed

lemma prefer_raw_None: "lowest_id_preferring_raw_name cs P raw = None \<longleftrightarrow> (\<forall>i. \<not> has cs P i)"
proof -
  let ?E = "\<lambda>c. P c \<and> (raw \<noteq> None \<and> raw \<noteq> Some []) \<and> sr_name c = raw"
  have sub: "has cs ?E i \<Longrightarrow> has cs P i" for i by (auto simp: has_def)
  have "lowest_id_preferring_raw_name cs P raw = None \<longleftrightarrow> lowest_id_where cs ?E = None \<and> lowest_id_where cs P = None"
    unfolding lowest_id_preferring_raw_name_def Let_def by (cases "lowest_id_where cs ?E") auto
  also have "\<dots> \<longleftrightarrow> (\<forall>i. \<not> has cs P i)" using sub by (metis lowest_id_where_None)
  finally show ?thesis .
qed

lemma select_Some:
  assumes "select_in_tier cs P raw = Some i"
  shows "has cs P i" "has cs (\<lambda>c. P c \<and> url_can_serve (sr_url c)) j \<Longrightarrow> has cs (\<lambda>c. P c \<and> url_can_serve (sr_url c)) i"
proof -
  let ?S = "\<lambda>c. P c \<and> url_can_serve (sr_url c)"
  show "has cs P i"
  proof (cases "lowest_id_preferring_raw_name cs ?S raw = None")
    case True
    with assms show ?thesis using prefer_raw_Some [of cs P raw i] by (simp add: select_in_tier_def Let_def)
  next
    case False
    with assms have "has cs ?S i" using prefer_raw_Some [of cs ?S raw i] by (simp add: select_in_tier_def Let_def)
    then show ?thesis by (auto simp: has_def)
  qed
  assume "has cs ?S j"
  then have "lowest_id_preferring_raw_name cs ?S raw \<noteq> None" using prefer_raw_None [of cs ?S raw] by blast
  with assms show "has cs ?S i"
    using prefer_raw_Some [of cs ?S raw i] by (simp add: select_in_tier_def Let_def)
qed

lemma select_None: "select_in_tier cs P raw = None \<longleftrightarrow> (\<forall>i. \<not> has cs P i)"
proof -
  let ?S = "\<lambda>c. P c \<and> url_can_serve (sr_url c)"
  have "has cs ?S i \<Longrightarrow> has cs P i" for i by (auto simp: has_def)
  then show ?thesis
    using prefer_raw_None [of cs ?S raw] prefer_raw_None [of cs P raw] by (auto simp: select_in_tier_def Let_def)
qed

lemma select_order: "set cs = set ds \<Longrightarrow> select_in_tier cs P raw = select_in_tier ds P raw"
  by (simp add: select_in_tier_def lowest_id_preferring_raw_name_def lowest_id_where_order [of cs ds] Let_def)

lemma fuzzy_scores_set:
  "set cs = set ds \<Longrightarrow> set (fuzzy_scores ratio cs key b) = set (fuzzy_scores ratio ds key b)"
  by (simp add: fuzzy_scores_def)

lemma fuzzy_scores_mem:
  "(score, i) \<in> set (fuzzy_scores ratio cs key b) \<longleftrightarrow>
     (\<exists>c \<in> set cs. sr_id c = Some i \<and> (b \<longrightarrow> url_can_serve (sr_url c)) \<and> normalized_name c \<noteq> []
        \<and> score = fl (ratio key (normalized_name c) / 100) \<and> stream_fuzzy_floor \<le> score)"
proof (induction cs)
  case (Cons c cs)
  have "fuzzy_scores ratio (c # cs) key b = fuzzy_scores ratio [c] key b @ fuzzy_scores ratio cs key b"
    by (simp add: fuzzy_scores_def)
  moreover have "(score, i) \<in> set (fuzzy_scores ratio [c] key b) \<longleftrightarrow> sr_id c = Some i
      \<and> (b \<longrightarrow> url_can_serve (sr_url c)) \<and> normalized_name c \<noteq> []
      \<and> score = fl (ratio key (normalized_name c) / 100) \<and> stream_fuzzy_floor \<le> score"
    by (cases "sr_id c") (auto simp: fuzzy_scores_def Let_def not_less)
  ultimately show ?case using Cons.IH by auto
qed (simp add: fuzzy_scores_def)

lemma best_fuzzy_order:
  assumes "set cs = set ds"
  shows "best_fuzzy_id ratio cs key b = best_fuzzy_id ratio ds key b"
proof -
  have "scan_best (higher_score fst snd) (fuzzy_scores ratio cs key b) None
    = scan_best (higher_score fst snd) (fuzzy_scores ratio ds key b) None"
    using fuzzy_scores_set [OF assms]
    by (intro high.scan_best_order_independent) (auto simp: higher_score_def prod_eq_iff)
  then show ?thesis by (simp add: best_fuzzy_id_def)
qed

lemma best_fuzzy_None: "best_fuzzy_id ratio cs key b = None \<longleftrightarrow> fuzzy_scores ratio cs key b = []"
  by (simp add: best_fuzzy_id_def high.scan_best_None_iff)

section \<open>What the ladder guarantees\<close>

text \<open>The tiers as predicates on a candidate.\<close>

definition url_match :: "stream_record \<Rightarrow> stream_record \<Rightarrow> bool" where
  "url_match stream c \<longleftrightarrow> url_can_serve (sr_url stream) \<and> sr_url c = sr_url stream"

definition name_match :: "stream_record \<Rightarrow> stream_record \<Rightarrow> bool" where
  "name_match stream c \<longleftrightarrow> normalized_name stream \<noteq> [] \<and> normalized_name c = normalized_name stream"

definition provider_match :: "stream_record \<Rightarrow> stream_record \<Rightarrow> bool" where
  "provider_match stream c \<longleftrightarrow> sr_provider stream \<noteq> PNone \<and> name_match stream c
     \<and> same_provider (sr_provider c) (sr_provider stream)"

definition fuzzy_match :: "(string \<Rightarrow> string \<Rightarrow> rat) \<Rightarrow> stream_record \<Rightarrow> stream_record \<Rightarrow> bool" where
  "fuzzy_match ratio stream c \<longleftrightarrow> normalized_name stream \<noteq> [] \<and> normalized_name c \<noteq> []
     \<and> stream_fuzzy_floor \<le> fl (ratio (normalized_name stream) (normalized_name c) / 100)"

fun tier_predicate :: "(string \<Rightarrow> string \<Rightarrow> rat) \<Rightarrow> stream_record \<Rightarrow> match_tier \<Rightarrow> stream_record \<Rightarrow> bool" where
  "tier_predicate ratio stream EXACT_URL = url_match stream"
| "tier_predicate ratio stream EXACT_NAME_SAME_PROVIDER = provider_match stream"
| "tier_predicate ratio stream EXACT_NORMALIZED_NAME = name_match stream"
| "tier_predicate ratio stream FUZZY_NORMALIZED_NAME = fuzzy_match ratio stream"
| "tier_predicate ratio stream MISS = (\<lambda>_. False)"

fun tier_rank :: "match_tier \<Rightarrow> nat" where
  "tier_rank EXACT_URL = 1"
| "tier_rank EXACT_NAME_SAME_PROVIDER = 2"
| "tier_rank EXACT_NORMALIZED_NAME = 3"
| "tier_rank FUZZY_NORMALIZED_NAME = 4"
| "tier_rank MISS = 5"

lemma no_has: "(\<And>c. \<not> P c) \<Longrightarrow> \<not> has cs P i"
  by (auto simp: has_def)

lemma by_url_iff:
  "(if url_can_serve (sr_url stream) then lowest_id_where cs (\<lambda>c. sr_url c = sr_url stream) else None)
     = lowest_id_where cs (url_match stream)"
proof (cases "url_can_serve (sr_url stream)")
  case True
  then have "url_match stream = (\<lambda>c. sr_url c = sr_url stream)" by (simp add: url_match_def fun_eq_iff)
  with True show ?thesis by simp
next
  case False
  then have "\<not> has cs (url_match stream) i" for i by (intro no_has) (simp add: url_match_def)
  with False show ?thesis using lowest_id_where_None [of cs "url_match stream"] by auto
qed

lemma by_name_iff:
  assumes "normalized_name stream \<noteq> []"
  shows "select_in_tier cs (\<lambda>c. normalized_name c = normalized_name stream) raw = select_in_tier cs (name_match stream) raw"
    and "(if sr_provider stream \<noteq> PNone
          then select_in_tier cs (\<lambda>c. same_provider (sr_provider c) (sr_provider stream)
                                        \<and> normalized_name c = normalized_name stream) raw
          else None) = select_in_tier cs (provider_match stream) raw"
proof -
  have "name_match stream = (\<lambda>c. normalized_name c = normalized_name stream)"
    using assms by (simp add: name_match_def fun_eq_iff)
  then show "select_in_tier cs (\<lambda>c. normalized_name c = normalized_name stream) raw = select_in_tier cs (name_match stream) raw"
    by simp
  have "\<not> has cs (provider_match stream) i" if "sr_provider stream = PNone" for i
    using that by (intro no_has) (simp add: provider_match_def)
  then have "select_in_tier cs (provider_match stream) raw = None" if "sr_provider stream = PNone"
    using that select_None by blast
  moreover have "provider_match stream = (\<lambda>c. same_provider (sr_provider c) (sr_provider stream)
      \<and> normalized_name c = normalized_name stream)" if "sr_provider stream \<noteq> PNone"
    using that assms by (auto simp: provider_match_def name_match_def fun_eq_iff)
  ultimately show "(if sr_provider stream \<noteq> PNone
          then select_in_tier cs (\<lambda>c. same_provider (sr_provider c) (sr_provider stream)
                                        \<and> normalized_name c = normalized_name stream) raw
          else None) = select_in_tier cs (provider_match stream) raw"
    by (cases "sr_provider stream = PNone") simp_all
qed

definition fuzzy_choice :: "(string \<Rightarrow> string \<Rightarrow> rat) \<Rightarrow> stream_record \<Rightarrow> stream_record list \<Rightarrow> int option" where
  "fuzzy_choice ratio stream cs =
     (let live = best_fuzzy_id ratio cs (normalized_name stream) True
      in if live = None then best_fuzzy_id ratio cs (normalized_name stream) False else live)"

text \<open>The ladder with its tiers as predicates.\<close>

lemma match_stream_eq:
  "match_stream ratio stream cs fuzzy =
     (if lowest_id_where cs (url_match stream) \<noteq> None then (EXACT_URL, lowest_id_where cs (url_match stream))
      else if normalized_name stream = [] then (MISS, None)
      else if select_in_tier cs (provider_match stream) (sr_name stream) \<noteq> None
      then (EXACT_NAME_SAME_PROVIDER, select_in_tier cs (provider_match stream) (sr_name stream))
      else if select_in_tier cs (name_match stream) (sr_name stream) \<noteq> None
      then (EXACT_NORMALIZED_NAME, select_in_tier cs (name_match stream) (sr_name stream))
      else if \<not> fuzzy then (MISS, None)
      else if fuzzy_choice ratio stream cs \<noteq> None then (FUZZY_NORMALIZED_NAME, fuzzy_choice ratio stream cs)
      else (MISS, None))"
proof (cases "cs = []")
  case True
  have none: "\<not> has [] P i" for P i by (simp add: has_def)
  have "fuzzy_choice ratio stream [] = None"
    by (simp add: fuzzy_choice_def best_fuzzy_id_def fuzzy_scores_def)
  with True show ?thesis
    using lowest_id_where_None [of "[]"] select_None [of "[]"] none by (simp add: match_stream_def)
next
  case False
  then show ?thesis
    unfolding match_stream_def Let_def by_url_iff
    by (cases "normalized_name stream = []") (simp_all add: by_name_iff fuzzy_choice_def Let_def)
qed

lemma fuzzy_member:
  assumes "normalized_name stream \<noteq> []"
  shows "(\<exists>score. (score, i) \<in> set (fuzzy_scores ratio cs (normalized_name stream) b)) \<longleftrightarrow>
    has cs (\<lambda>c. fuzzy_match ratio stream c \<and> (b \<longrightarrow> url_can_serve (sr_url c))) i"
  using assms by (auto simp: fuzzy_scores_mem has_def fuzzy_match_def)

lemma best_fuzzy_Some:
  assumes "best_fuzzy_id ratio cs key b = Some i"
  shows "\<exists>score. (score, i) \<in> set (fuzzy_scores ratio cs key b)"
  using assms high.scan_best_Some(1) by (fastforce simp: best_fuzzy_id_def)

lemma fuzzy_choice_facts:
  assumes "normalized_name stream \<noteq> []"
  shows "fuzzy_choice ratio stream cs = Some i \<Longrightarrow> has cs (fuzzy_match ratio stream) i"
    and "fuzzy_choice ratio stream cs = None \<longleftrightarrow> (\<forall>i. \<not> has cs (fuzzy_match ratio stream) i)"
    and "fuzzy_choice ratio stream cs = Some i \<Longrightarrow>
      has cs (\<lambda>c. fuzzy_match ratio stream c \<and> url_can_serve (sr_url c)) j \<Longrightarrow>
      has cs (\<lambda>c. fuzzy_match ratio stream c \<and> url_can_serve (sr_url c)) i"
proof -
  note mem = fuzzy_member [OF assms, of _ ratio cs]
  have none: "best_fuzzy_id ratio cs (normalized_name stream) b = None \<longleftrightarrow>
      (\<forall>i. \<not> has cs (\<lambda>c. fuzzy_match ratio stream c \<and> (b \<longrightarrow> url_can_serve (sr_url c))) i)" for b
    unfolding best_fuzzy_None mem [symmetric]
    by (metis empty_iff empty_set old.prod.exhaust set_empty subset_empty subset_iff)
  have some: "best_fuzzy_id ratio cs (normalized_name stream) b = Some i \<Longrightarrow>
      has cs (\<lambda>c. fuzzy_match ratio stream c \<and> (b \<longrightarrow> url_can_serve (sr_url c))) i" for b i
    using best_fuzzy_Some mem by blast
  show "fuzzy_choice ratio stream cs = Some i \<Longrightarrow> has cs (fuzzy_match ratio stream) i"
    using some [of True i] some [of False i]
    by (auto simp: fuzzy_choice_def Let_def split: if_splits elim: has_mono)
  have "has cs (\<lambda>c. fuzzy_match ratio stream c \<and> url_can_serve (sr_url c)) i \<Longrightarrow> has cs (fuzzy_match ratio stream) i" for i
    by (auto simp: has_def)
  then show "fuzzy_choice ratio stream cs = None \<longleftrightarrow> (\<forall>i. \<not> has cs (fuzzy_match ratio stream) i)"
    using none [of True] none [of False] by (auto simp: fuzzy_choice_def Let_def split: if_splits)
  show "fuzzy_choice ratio stream cs = Some i \<Longrightarrow>
      has cs (\<lambda>c. fuzzy_match ratio stream c \<and> url_can_serve (sr_url c)) j \<Longrightarrow>
      has cs (\<lambda>c. fuzzy_match ratio stream c \<and> url_can_serve (sr_url c)) i"
    using none [of True] some [of True i] by (auto simp: fuzzy_choice_def Let_def split: if_splits)
qed

definition live_stream :: stream_record where
  "live_stream = \<lparr> sr_id = Some 118, sr_url = Some ''http://h/1.ts'', sr_name = Some ''ESPN'', sr_provider = PInt 1 \<rparr>"

definition dead_stream :: stream_record where
  "dead_stream = \<lparr> sr_id = Some 7, sr_url = Some ''http://h/***REDACTED***/1.ts'', sr_name = Some ''ESPN'', sr_provider = PInt 1 \<rparr>"

text \<open>
  C17. The order in which the destination streams are listed does not matter: two lists with the same
  streams give the same tier and the same stream, whatever the fuzzy scorer returns.
\<close>

theorem match_stream_order_independent:
  assumes "set candidates = set candidates'"
  shows "match_stream ratio stream candidates allow_fuzzy = match_stream ratio stream candidates' allow_fuzzy"
proof -
  have "fuzzy_choice ratio stream candidates = fuzzy_choice ratio stream candidates'"
    by (simp add: fuzzy_choice_def best_fuzzy_order [OF assms] Let_def)
  then show ?thesis
    by (simp only: match_stream_eq lowest_id_where_order [OF assms] select_order [OF assms])
qed

lemma match_stream_order_independent_witness:
  "match_stream (\<lambda>a b. 100) dead_stream [live_stream, dead_stream] True
     = match_stream (\<lambda>a b. 100) dead_stream [dead_stream, live_stream] True"
  by (rule match_stream_order_independent) auto

lemma match_url_None:
  "lowest_id_where cs (url_match stream) = None \<longleftrightarrow> (\<forall>i. \<not> has cs (tier_predicate ratio stream EXACT_URL) i)"
  "select_in_tier cs (provider_match stream) raw = None \<longleftrightarrow> (\<forall>i. \<not> has cs (tier_predicate ratio stream EXACT_NAME_SAME_PROVIDER) i)"
  "select_in_tier cs (name_match stream) raw = None \<longleftrightarrow> (\<forall>i. \<not> has cs (tier_predicate ratio stream EXACT_NORMALIZED_NAME) i)"
  by (simp_all add: lowest_id_where_None select_None)

lemma nameless_no_match:
  assumes "normalized_name stream = []"
  shows "\<not> has cs (provider_match stream) i" "\<not> has cs (name_match stream) i" "\<not> has cs (fuzzy_match ratio stream) i"
  using assms by (auto simp: has_def provider_match_def name_match_def fuzzy_match_def)

text \<open>The five ways the ladder ends.\<close>

lemma match_stream_cases:
  assumes "match_stream ratio stream cs fuzzy = (t, m)"
  obtains (url) i where "t = EXACT_URL" "m = Some i" "lowest_id_where cs (url_match stream) = Some i"
  | (provider) i where "t = EXACT_NAME_SAME_PROVIDER" "m = Some i" "\<forall>j. \<not> has cs (url_match stream) j"
      "select_in_tier cs (provider_match stream) (sr_name stream) = Some i"
  | (name) i where "t = EXACT_NORMALIZED_NAME" "m = Some i" "\<forall>j. \<not> has cs (url_match stream) j"
      "\<forall>j. \<not> has cs (provider_match stream) j" "select_in_tier cs (name_match stream) (sr_name stream) = Some i"
  | (fuzzy) i where "t = FUZZY_NORMALIZED_NAME" "m = Some i" "fuzzy" "\<forall>j. \<not> has cs (url_match stream) j"
      "\<forall>j. \<not> has cs (provider_match stream) j" "\<forall>j. \<not> has cs (name_match stream) j"
      "normalized_name stream \<noteq> []" "fuzzy_choice ratio stream cs = Some i"
  | (miss) "t = MISS" "m = None" "\<forall>j. \<not> has cs (url_match stream) j"
      "\<forall>j. \<not> has cs (provider_match stream) j" "\<forall>j. \<not> has cs (name_match stream) j"
      "fuzzy \<longrightarrow> (\<forall>j. \<not> has cs (fuzzy_match ratio stream) j)"
proof (cases "lowest_id_where cs (url_match stream)")
  case (Some i)
  with assms have "t = EXACT_URL" "m = Some i" by (simp_all add: match_stream_eq)
  then show ?thesis using Some by (rule url)
next
  case u: None
  then have nu: "\<forall>j. \<not> has cs (url_match stream) j" by (simp add: lowest_id_where_None)
  show ?thesis
  proof (cases "normalized_name stream = []")
    case True
    then show ?thesis using assms u nu miss nameless_no_match [OF True] by (simp add: match_stream_eq)
  next
    case nn: False
    show ?thesis
    proof (cases "select_in_tier cs (provider_match stream) (sr_name stream)")
      case (Some i)
      with assms u nn have "t = EXACT_NAME_SAME_PROVIDER" "m = Some i" by (simp_all add: match_stream_eq)
      then show ?thesis using nu Some by (rule provider)
    next
      case p: None
      then have np: "\<forall>j. \<not> has cs (provider_match stream) j" by (simp add: select_None)
      show ?thesis
      proof (cases "select_in_tier cs (name_match stream) (sr_name stream)")
        case (Some i)
        with assms u nn p have "t = EXACT_NORMALIZED_NAME" "m = Some i" by (simp_all add: match_stream_eq)
        then show ?thesis using nu np Some by (rule name)
      next
        case n: None
        then have nm: "\<forall>j. \<not> has cs (name_match stream) j" by (simp add: select_None)
        have r: "match_stream ratio stream cs fuzzy =
          (if fuzzy \<and> fuzzy_choice ratio stream cs \<noteq> None then (FUZZY_NORMALIZED_NAME, fuzzy_choice ratio stream cs) else (MISS, None))"
          using u nn p n by (simp add: match_stream_eq)
        show ?thesis
        proof (cases "fuzzy \<and> fuzzy_choice ratio stream cs \<noteq> None")
          case True
          then obtain i where "fuzzy_choice ratio stream cs = Some i" by blast
          with True show ?thesis using assms r nu np nm nn by (intro fuzzy [of i]) simp_all
        next
          case False
          then have "fuzzy \<longrightarrow> (\<forall>j. \<not> has cs (fuzzy_match ratio stream) j)" using fuzzy_choice_facts(2) [OF nn] by blast
          moreover have "t = MISS" "m = None" using assms r False by auto
          ultimately show ?thesis using nu np nm by (intro miss) simp_all
        qed
      qed
    qed
  qed
qed

text \<open>
  The first tier that can match wins. The ladder returns a stream exactly when it returns a tier
  other than \<open>MISS\<close>; the returned id belongs to a listed stream that satisfies that tier; and no
  listed stream satisfies any stronger tier - nor, on a miss, any tier at all, the fuzzy one only
  where it was allowed.
\<close>

theorem match_stream_takes_the_strongest_tier:
  assumes "match_stream ratio stream cs fuzzy = (t, m)"
  shows "(t = MISS \<longleftrightarrow> m = None)
    \<and> (\<forall>i. m = Some i \<longrightarrow> has cs (tier_predicate ratio stream t) i)
    \<and> (\<forall>t' i. tier_rank t' < tier_rank t \<and> (t' = FUZZY_NORMALIZED_NAME \<longrightarrow> fuzzy)
         \<longrightarrow> \<not> has cs (tier_predicate ratio stream t') i)
    \<and> (t = FUZZY_NORMALIZED_NAME \<longrightarrow> fuzzy)"
  using assms
proof (cases rule: match_stream_cases)
  case (url i)
  then show ?thesis using lowest_id_where_Some(1) [OF url(3)] by (auto elim: tier_rank.elims)
next
  case (provider i)
  have "t' = EXACT_URL" if "tier_rank t' < 2" for t' using that by (cases t') simp_all
  with provider select_Some(1) [OF provider(4)] show ?thesis by fastforce
next
  case (name i)
  have "t' = EXACT_URL \<or> t' = EXACT_NAME_SAME_PROVIDER" if "tier_rank t' < 3" for t' using that by (cases t') simp_all
  with name select_Some(1) [OF name(5)] show ?thesis by fastforce
next
  case (fuzzy i)
  have "t' = EXACT_URL \<or> t' = EXACT_NAME_SAME_PROVIDER \<or> t' = EXACT_NORMALIZED_NAME" if "tier_rank t' < 4" for t'
    using that by (cases t') simp_all
  with fuzzy fuzzy_choice_facts(1) [OF fuzzy(7,8)] show ?thesis by fastforce
next
  case miss
  have "\<not> has cs (tier_predicate ratio stream t') i" if "t' = FUZZY_NORMALIZED_NAME \<longrightarrow> fuzzy" for t' i
    using that miss by (cases t') (auto simp: has_def)
  with miss show ?thesis by simp
qed

text \<open>
  A stream that can play beats one that cannot. If any listed stream that satisfies the winning
  tier has an address that can serve, the returned stream has one too; and an archived address that
  carries the redaction sentinel never matches by address.
\<close>

theorem match_stream_prefers_what_can_serve:
  assumes "match_stream ratio stream cs fuzzy = (t, Some i)"
  shows "(has cs (\<lambda>c. tier_predicate ratio stream t c \<and> url_can_serve (sr_url c)) j
      \<longrightarrow> has cs (\<lambda>c. tier_predicate ratio stream t c \<and> url_can_serve (sr_url c)) i)
    \<and> (url_is_redacted (sr_url stream) \<longrightarrow> t \<noteq> EXACT_URL)"
  using assms
proof (cases rule: match_stream_cases)
  case (url k)
  then have "has cs (url_match stream) i" using lowest_id_where_Some(1) [OF url(3)] by simp
  with url(1) show ?thesis by (auto simp: has_def url_match_def url_can_serve_def url_is_redacted_def split: option.splits)
next
  case (provider k)
  then show ?thesis using select_Some(2) [OF provider(4), of j] by simp
next
  case (name k)
  then show ?thesis using select_Some(2) [OF name(5), of j] by simp
next
  case (fuzzy k)
  then show ?thesis using fuzzy_choice_facts(3) [OF fuzzy(7,8), of j] by simp
qed simp

lemma dead_finds_live:
  "match_stream (\<lambda>a b. 0) dead_stream [dead_stream, live_stream] True = (EXACT_NAME_SAME_PROVIDER, Some 118)"
proof -
  have n: "normalized_name dead_stream = ''espn''" "normalized_name live_stream = ''espn''" by code_simp+
  have u: "\<not> url_can_serve (sr_url dead_stream)" "url_can_serve (sr_url live_stream)" by code_simp+
  have f: "sr_id dead_stream = Some 7" "sr_id live_stream = Some 118" "sr_name dead_stream = Some ''ESPN''"
    "sr_name live_stream = Some ''ESPN''" "sr_provider dead_stream = PInt 1" "sr_provider live_stream = PInt 1"
    by (simp_all add: dead_stream_def live_stream_def)
  show ?thesis
    by (simp add: match_stream_def n u f select_in_tier_def lowest_id_preferring_raw_name_def lowest_id_where_def
        ids_where_def same_provider_def)
qed

lemma match_stream_takes_the_strongest_tier_witness:
  "has [dead_stream, live_stream] (tier_predicate (\<lambda>a b. 0) dead_stream EXACT_NAME_SAME_PROVIDER) 118"
  using match_stream_takes_the_strongest_tier [OF dead_finds_live] by blast

lemma match_stream_prefers_what_can_serve_witness:
  "has [dead_stream, live_stream] (\<lambda>c. tier_predicate (\<lambda>a b. 0) dead_stream EXACT_NAME_SAME_PROVIDER c
      \<and> url_can_serve (sr_url c)) 118"
proof -
  have "has [dead_stream, live_stream] (\<lambda>c. tier_predicate (\<lambda>a b. 0) dead_stream EXACT_NAME_SAME_PROVIDER c
      \<and> url_can_serve (sr_url c)) 118"
  proof -
    have "provider_match dead_stream live_stream" "url_can_serve (sr_url live_stream)" "sr_id live_stream = Some 118"
      by code_simp+
    then show ?thesis by (simp add: has_def)
  qed
  with match_stream_prefers_what_can_serve [OF dead_finds_live, of 118] show ?thesis by blast
qed

section \<open>What the candidate search guarantees\<close>

lemma admitted_mem:
  "r \<in> set (admitted_results ratio stream_name candidates threshold) \<longleftrightarrow>
     (candidate_channel_id r, candidate_name r) \<in> set candidates \<and> normalize_conservative (candidate_name r) \<noteq> []
     \<and> confidence r = candidate_confidence ratio (normalize_conservative stream_name) (normalize_conservative (candidate_name r))
     \<and> max threshold confidence_floor \<le> confidence r"
proof (induction candidates)
  case (Cons c cs)
  obtain cid name where c: "c = (cid, name)" by (cases c)
  have "admitted_results ratio stream_name (c # cs) threshold
    = admitted_results ratio stream_name [c] threshold @ admitted_results ratio stream_name cs threshold"
    by (simp add: admitted_results_def Let_def)
  moreover have "r \<in> set (admitted_results ratio stream_name [c] threshold) \<longleftrightarrow>
     candidate_channel_id r = cid \<and> candidate_name r = name \<and> normalize_conservative name \<noteq> []
     \<and> confidence r = candidate_confidence ratio (normalize_conservative stream_name) (normalize_conservative name)
     \<and> max threshold confidence_floor \<le> confidence r"
    by (cases r) (auto simp: admitted_results_def Let_def c not_less)
  ultimately show ?case using Cons.IH by (auto simp: c)
qed (simp add: admitted_results_def)

text \<open>
  The search returns the best admissible candidate. What it returns is a listed channel with its
  true confidence, never below the requested threshold nor below 0.60; no admissible candidate has a
  higher confidence, and none with the same confidence has a smaller id; and it returns nothing only
  when no candidate is admissible or the name is blank.
\<close>

theorem find_candidate_is_best:
  "(\<forall>r. find_candidate ratio s candidates threshold = Some r \<longrightarrow>
      r \<in> set (admitted_results ratio s candidates threshold)
      \<and> (\<forall>r' \<in> set (admitted_results ratio s candidates threshold).
           confidence r' < confidence r \<or> confidence r' = confidence r \<and> candidate_channel_id r \<le> candidate_channel_id r'))
   \<and> (find_candidate ratio s candidates threshold = None \<longleftrightarrow>
      normalize_conservative s = [] \<or> admitted_results ratio s candidates threshold = [])"
proof (intro conjI allI impI)
  fix r assume "find_candidate ratio s candidates threshold = Some r"
  then have r: "scan_best (higher_score confidence candidate_channel_id)
      (admitted_results ratio s candidates threshold) None = Some r"
    by (auto simp: find_candidate_def split: if_splits)
  show "r \<in> set (admitted_results ratio s candidates threshold)" by (rule high.scan_best_Some(1) [OF r])
  show "\<forall>r' \<in> set (admitted_results ratio s candidates threshold).
           confidence r' < confidence r \<or> confidence r' = confidence r \<and> candidate_channel_id r \<le> candidate_channel_id r'"
  proof
    fix r' assume "r' \<in> set (admitted_results ratio s candidates threshold)"
    from high.scan_best_Some(2) [OF r this]
    show "confidence r' < confidence r \<or> confidence r' = confidence r \<and> candidate_channel_id r \<le> candidate_channel_id r'"
      by (auto simp: higher_score_def not_less)
  qed
next
  have "admitted_results ratio s [] threshold = []" by (simp add: admitted_results_def)
  then show "find_candidate ratio s candidates threshold = None \<longleftrightarrow>
      normalize_conservative s = [] \<or> admitted_results ratio s candidates threshold = []"
    by (auto simp: find_candidate_def high.scan_best_None_iff)
qed

lemma find_candidate_is_best_witness:
  "find_candidate (\<lambda>a b. 0) ''ESPN'' [] 1 = None \<longleftrightarrow>
     normalize_conservative ''ESPN'' = [] \<or> admitted_results (\<lambda>a b. 0) ''ESPN'' [] 1 = []"
  using find_candidate_is_best [of "\<lambda>a b. 0" "''ESPN''" "[]" 1] by blast

text \<open>
  An exact name wins with full confidence. If the scorer stays within its documented range and
  the threshold is at most 1, a candidate whose cleaned name equals the cleaned stream name makes
  the search return a candidate with confidence 1.
\<close>

theorem exact_name_is_found:
  assumes "\<And>a b. 0 \<le> ratio a b \<and> ratio a b \<le> 100" "threshold \<le> 1"
    and "(cid, name) \<in> set candidates" "normalize_conservative name = normalize_conservative s"
    and "normalize_conservative s \<noteq> []"
  shows "\<exists>r. find_candidate ratio s candidates threshold = Some r \<and> confidence r = 1"
proof -
  let ?adm = "admitted_results ratio s candidates threshold"
  have le: "candidate_confidence ratio a b \<le> 1" for a b
    using fl_le_one [of "ratio a b / 100"] assms(1) [of a b] by (simp add: candidate_confidence_def)
  have floor: "confidence_floor \<le> 1" unfolding confidence_floor_def by (rule fl_le_one) simp_all
  have e: "\<lparr> candidate_channel_id = cid, candidate_name = name, confidence = 1 \<rparr> \<in> set ?adm"
    using assms floor by (simp add: admitted_mem candidate_confidence_def)
  then have "?adm \<noteq> []" by auto
  then have "find_candidate ratio s candidates threshold \<noteq> None"
    using assms(3,5) high.scan_best_None_iff [of confidence candidate_channel_id ?adm] by (auto simp: find_candidate_def)
  then obtain r where r: "find_candidate ratio s candidates threshold = Some r" by blast
  then have s: "scan_best (higher_score confidence candidate_channel_id) ?adm None = Some r"
    by (auto simp: find_candidate_def split: if_splits)
  have "confidence r \<le> 1" using high.scan_best_Some(1) [OF s] le by (simp add: admitted_mem)
  moreover have "\<not> confidence r < 1" using high.scan_best_Some(2) [OF s e] by (auto simp: higher_score_def)
  ultimately show ?thesis using r by simp
qed

lemma exact_name_is_found_witness:
  "\<exists>r. find_candidate (\<lambda>a b. 0) ''5 | espn'' [(''u1'', ''ESPN'')] (1/2) = Some r \<and> confidence r = 1"
proof (rule exact_name_is_found [where cid = "''u1''" and name = "''ESPN''"])
  show "normalize_conservative ''ESPN'' = normalize_conservative ''5 | espn''" by code_simp
  show "normalize_conservative ''5 | espn'' \<noteq> []" by code_simp
qed simp_all

section \<open>What stripping the sentinel guarantees\<close>

text \<open>No key at any depth of a node holds the sentinel.\<close>

fun clean_node :: "pyval \<Rightarrow> bool"
and clean_items :: "pyval list \<Rightarrow> bool"
and clean_fields :: "(string \<times> pyval) list \<Rightarrow> bool" where
  "clean_node (PDict d) = clean_fields d"
| "clean_node (PList xs) = clean_items xs"
| "clean_node v = True"
| "clean_items [] = True"
| "clean_items (x # xs) = (clean_node x \<and> clean_items xs)"
| "clean_fields [] = True"
| "clean_fields ((k, v) # d) = (\<not> is_redaction_sentinel v \<and> clean_node v \<and> clean_fields d)"

lemma strip_node_not_sentinel:
  "strip_node p v = (v', r) \<Longrightarrow> is_redaction_sentinel v' \<Longrightarrow> is_redaction_sentinel v"
  by (cases v) (auto simp: is_redaction_sentinel_def split: prod.splits)

lemma strip_clean:
  "clean_node (fst (strip_node p v))" "clean_items (fst (strip_items p i xs))" "clean_fields (fst (strip_fields p d))"
  by (induction p v and p i xs and p d rule: strip_node_strip_items_strip_fields.induct)
    (auto simp: Let_def split: prod.splits dest: strip_node_not_sentinel)

lemma strip_clean_id:
  "clean_node v \<Longrightarrow> strip_node p v = (v, [])" "clean_items xs \<Longrightarrow> strip_items p i xs = (xs, [])"
  "clean_fields d \<Longrightarrow> strip_fields p d = (d, [])"
  by (induction p v and p i xs and p d rule: strip_node_strip_items_strip_fields.induct) simp_all

lemma strip_Nil_clean:
  "snd (strip_node p v) = [] \<Longrightarrow> clean_node v" "snd (strip_items p i xs) = [] \<Longrightarrow> clean_items xs"
  "snd (strip_fields p d) = [] \<Longrightarrow> clean_fields d"
  by (induction p v and p i xs and p d rule: strip_node_strip_items_strip_fields.induct)
    (auto simp: Let_def split: prod.splits if_splits)

text \<open>
  Stripping leaves no placeholder behind and touches nothing else: no key of the cleaned record
  holds the sentinel at any depth, stripping it again changes nothing, and the report of removed
  paths is empty exactly when the record had no sentinel-valued key, in which case it is returned
  unchanged.
\<close>

theorem stripping_removes_every_sentinel:
  "clean_fields (fst (strip_redaction_sentinels payload))
   \<and> strip_redaction_sentinels (fst (strip_redaction_sentinels payload)) = (fst (strip_redaction_sentinels payload), [])
   \<and> (snd (strip_redaction_sentinels payload) = [] \<longleftrightarrow> clean_fields payload)
   \<and> (clean_fields payload \<longleftrightarrow> strip_redaction_sentinels payload = (payload, []))"
  using strip_clean(3) [of "[]" payload] strip_clean_id(3) [of _ "[]"] strip_Nil_clean(3) [of "[]" payload]
  unfolding strip_redaction_sentinels_def by (metis snd_conv)

end
