(* ===== verification/Patterns.thy ===== *)
theory Patterns
  imports PyVal
begin

text \<open>
  User-supplied patterns: \<open>backend/safe_regex.py\<close> (the wrapper that bounds every use of the
  \<open>regex\<close> package) and \<open>backend/date_placeholders.py\<close> (expansion of \<open>{date...}\<close> and
  \<open>{today...}\<close> tokens before a pattern is compiled).

  The matching engine is the third-party \<open>regex\<close> package: what it answers for a pattern and a
  text is the argument \<open>rx_library\<close>, an answer being a value, a timeout or a \<open>regex.error\<close>. The
  calendar is an argument too: \<open>strftime i fmt\<close> is
  \<^verbatim>\<open>(datetime.now() + timedelta(days=i)).strftime(fmt)\<close>, \<open>None\<close> when it raises
  \<open>ValueError\<close>. The token grammar of \<open>_DATE_TOKEN_PATTERN\<close> is deterministic (no alternative of
  it can succeed where the greedy one fails), so it is written as a scanner.
\<close>

section \<open>The bounded wrapper\<close>

datatype 'a rx_answer = RxValue 'a | RxTimeout | RxError

record rx_library =
  rx_search :: "string \<Rightarrow> string \<Rightarrow> bool \<Rightarrow> bool rx_answer"
    \<comment> \<open>pattern, text, \<open>IGNORECASE\<close>: is there a match?\<close>
  rx_compiles :: "string \<Rightarrow> bool"
  rx_late :: "string \<Rightarrow> bool"
    \<comment> \<open>does the token substitution on this text exceed its time budget?\<close>

definition default_max_pattern_len :: nat where
  "default_max_pattern_len = 500"

datatype sub_failure_kind = Oversize | Timeout | Pattern | Template

datatype safe_regex_error = PatternTooLongError | SafeRegexError

definition safe_search :: "rx_library \<Rightarrow> string \<Rightarrow> string \<Rightarrow> bool \<Rightarrow> bool" where
  "safe_search lib pattern txt ignorecase =
     (if default_max_pattern_len < length pattern then False
      else case rx_search lib pattern txt ignorecase of
             RxValue m \<Rightarrow> m
           | RxTimeout \<Rightarrow> False
           | RxError \<Rightarrow> False)"

definition safe_compile :: "rx_library \<Rightarrow> string \<Rightarrow> (safe_regex_error, string) result" where
  "safe_compile lib pattern =
     (if default_max_pattern_len < length pattern then raises PatternTooLongError
      else if rx_compiles lib pattern then returns pattern
      else raises SafeRegexError)"

text \<open>Searching with a compiled pattern: its length and syntax were checked by \<open>compile\<close>.\<close>

definition safe_search_compiled :: "rx_library \<Rightarrow> string \<Rightarrow> string \<Rightarrow> bool \<Rightarrow> bool" where
  "safe_search_compiled lib pattern txt ignorecase =
     (case rx_search lib pattern txt ignorecase of RxValue m \<Rightarrow> m | _ \<Rightarrow> False)"

text \<open>\<open>sub\<close>: the text that comes back, and the failure reported to \<open>on_error\<close>. The answer of
  the library's \<open>sub\<close> is an argument; after a \<open>regex.error\<close> the pattern is compiled on its own to
  tell a bad pattern from a bad replacement template.\<close>

definition safe_sub ::
  "rx_library \<Rightarrow> string \<Rightarrow> string rx_answer \<Rightarrow> string \<Rightarrow> string \<times> sub_failure_kind option" where
  "safe_sub lib pattern answer txt =
     (if default_max_pattern_len < length pattern then (txt, Some Oversize)
      else case answer of
             RxValue r \<Rightarrow> (r, None)
           | RxTimeout \<Rightarrow> (txt, Some Timeout)
           | RxError \<Rightarrow> (txt, Some (if rx_compiles lib pattern then Template else Pattern)))"

section \<open>Date tokens\<close>

type_synonym calendar = "int \<Rightarrow> string \<Rightarrow> string option"

definition max_date_range_days :: int where
  "max_date_range_days = 90"

definition date_token_pattern :: string where
  "date_token_pattern =
     (let b = CHR 0x5C in
      b # ''{(?:date|today)([+-]'' @ b # ''d+[dw]?)?(:[^}]+)?'' @ [b, CHR ''}''])"

definition after_prefix :: "string \<Rightarrow> string \<Rightarrow> string option" where
  "after_prefix pre s = (if py_startswith s pre then Some (drop (length pre) s) else None)"

text \<open>Group 1, \<open>([+-]\d+[dw]?)?\<close>, and group 2, \<open>(:[^}]+)?\<close>: what the group holds (\<open>None\<close>:
  it did not take part) and the text after it.\<close>

fun offset_group :: "string \<Rightarrow> string option \<times> string" where
  "offset_group [] = (None, [])"
| "offset_group (c # s) =
     (let ds = takeWhile py_is_digit s; r = dropWhile py_is_digit s in
      if (c = CHR ''+'' \<or> c = CHR ''-'') \<and> ds \<noteq> [] then
        (case r of
           u # r' \<Rightarrow> if u = CHR ''d'' \<or> u = CHR ''w'' then (Some (c # ds @ [u]), r') else (Some (c # ds), r)
         | [] \<Rightarrow> (Some (c # ds), r))
      else (None, c # s))"

fun format_group :: "string \<Rightarrow> string option \<times> string" where
  "format_group [] = (None, [])"
| "format_group (c # s) =
     (let f = takeWhile (\<lambda>x. x \<noteq> CHR ''}'') s in
      if c = CHR '':'' \<and> f \<noteq> [] then (Some (c # f), dropWhile (\<lambda>x. x \<noteq> CHR ''}'') s)
      else (None, c # s))"

definition date_token :: "string \<Rightarrow> (string option \<times> string option \<times> string) option" where
  "date_token s =
     (case (case after_prefix ''{date'' s of Some r \<Rightarrow> Some r | None \<Rightarrow> after_prefix ''{today'' s) of
        None \<Rightarrow> None
      | Some r \<Rightarrow>
          (case offset_group r of (off, r1) \<Rightarrow>
             (case format_group r1 of (fmt, r2) \<Rightarrow>
                (case r2 of
                   c # r3 \<Rightarrow> if c = CHR ''}'' then Some (off, fmt, r3) else None
                 | [] \<Rightarrow> None))))"

text \<open>\<open>int(val_str)\<close> on a sign and digits; \<open>None\<close> is the \<open>ValueError\<close> CPython raises for more
  than 4300 digits.\<close>

fun signed_int :: "string \<Rightarrow> int option" where
  "signed_int [] = None"
| "signed_int (c # ds) =
     (if 4300 < length ds then None
      else if c = CHR ''-'' then Some (- int (digits_value ds)) else Some (int (digits_value ds)))"

definition clamp_days :: "int \<Rightarrow> int" where
  "clamp_days d = (if max_date_range_days < d then max_date_range_days
                   else if d < - max_date_range_days then - max_date_range_days else d)"

text \<open>\<open>range(0, days + step, step)\<close> with \<open>step\<close> the sign of \<open>days\<close>.\<close>

definition day_range :: "int \<Rightarrow> int list" where
  "day_range d = (if 0 < d then [0..d] else map uminus [0..-d])"

fun py_join :: "string \<Rightarrow> string list \<Rightarrow> string" where
  "py_join sep [] = []"
| "py_join sep [x] = x"
| "py_join sep (x # y # xs) = x @ sep @ py_join sep (y # xs)"

definition date_format :: "string option \<Rightarrow> string" where
  "date_format fmt = (case fmt of Some f \<Rightarrow> tl f | None \<Rightarrow> ''%Y-%m-%d'')"

definition range_text :: "calendar \<Rightarrow> string \<Rightarrow> string \<Rightarrow> int \<Rightarrow> string" where
  "range_text strftime whole f days =
     (case those (map (\<lambda>i. strftime i f) (day_range (clamp_days days))) of
        Some dates \<Rightarrow> ''('' @ py_join ''|'' dates @ '')''
      | None \<Rightarrow> whole)"

definition replace_match ::
  "calendar \<Rightarrow> bool \<Rightarrow> string \<Rightarrow> string option \<Rightarrow> string option \<Rightarrow> string" where
  "replace_match strftime allow_ranges whole off fmt =
     (let f = date_format fmt in
      case off of
        None \<Rightarrow> (case strftime 0 f of Some t \<Rightarrow> t | None \<Rightarrow> whole)
      | Some o' \<Rightarrow>
          if \<not> allow_ranges then whole
          else
            (let u = last o';
                 has_unit = (u = CHR ''d'' \<or> u = CHR ''w'');
                 val_str = (if has_unit then butlast o' else o') in
             case signed_int val_str of
               None \<Rightarrow> whole
             | Some v \<Rightarrow>
                 if v = 0 then (case strftime 0 f of Some t \<Rightarrow> t | None \<Rightarrow> whole)
                 else range_text strftime whole f (if u = CHR ''w'' then v * 7 else v)))"

lemma offset_group_length: "length (snd (offset_group s)) \<le> length s"
proof (cases s)
  case (Cons c t)
  have "length (dropWhile py_is_digit t) \<le> length t" by (rule length_dropWhile_le)
  then show ?thesis
    using Cons by (auto simp: Let_def split: list.splits)
qed simp

lemma format_group_length: "length (snd (format_group s)) \<le> length s"
proof (cases s)
  case (Cons c t)
  have "length (dropWhile (\<lambda>x. x \<noteq> CHR ''}'') t) \<le> length t" by (rule length_dropWhile_le)
  then show ?thesis using Cons by (auto simp: Let_def)
qed simp

lemma after_prefix_length: "after_prefix pre s = Some r \<Longrightarrow> length r \<le> length s"
  by (auto simp: after_prefix_def split: if_splits)

lemma date_token_shrinks:
  assumes "date_token s = Some (off, fmt, r)"
  shows "length r < length s"
proof -
  from assms obtain q where q: "length q \<le> length s" "q = q"
    and d: "(case offset_group q of (off, r1) \<Rightarrow> case format_group r1 of (fmt, r2) \<Rightarrow>
              (case r2 of c # r3 \<Rightarrow> if c = CHR ''}'' then Some (off, fmt, r3) else None | [] \<Rightarrow> None))
             = Some (off, fmt, r)"
    by (auto simp: date_token_def split: option.splits dest: after_prefix_length)
  obtain o1 r1 where g: "offset_group q = (o1, r1)" by force
  obtain f1 r2 where f: "format_group r1 = (f1, r2)" by force
  from d g f have "Suc (length r) = length r2" by (auto split: list.splits if_splits)
  moreover have "length r2 \<le> length r1" "length r1 \<le> length q"
    using format_group_length [of r1] offset_group_length [of q] f g by simp_all
  ultimately show ?thesis using q by linarith
qed

text \<open>\<open>regex.sub\<close> with the token pattern: left to right, each token replaced, everything else
  copied.\<close>

function token_sub :: "calendar \<Rightarrow> bool \<Rightarrow> string \<Rightarrow> string" where
  "token_sub strftime ranges [] = []"
| "token_sub strftime ranges (c # s) =
     (case date_token (c # s) of
        Some (off, fmt, r) \<Rightarrow>
          replace_match strftime ranges (take (length (c # s) - length r) (c # s)) off fmt
            @ token_sub strftime ranges r
      | None \<Rightarrow> c # token_sub strftime ranges s)"
  by pat_completeness auto
termination
  by (relation "measure (\<lambda>(_, _, s). length s)") (auto dest: date_token_shrinks)

definition expand_date_placeholders ::
  "rx_library \<Rightarrow> calendar \<Rightarrow> bool \<Rightarrow> pyval \<Rightarrow> pyval" where
  "expand_date_placeholders lib strftime allow_ranges v =
     (case v of
        PStr txt \<Rightarrow>
          if CHR ''{'' \<notin> set txt then PStr txt
          else PStr (fst (safe_sub lib date_token_pattern
                       (if rx_late lib txt then RxTimeout else RxValue (token_sub strftime allow_ranges txt))
                       txt))
      | _ \<Rightarrow> v)"

section \<open>What expansion does\<close>

lemma date_token_needs_brace: "date_token (c # s) \<noteq> None \<Longrightarrow> c = CHR ''{''"
  by (rule ccontr) (simp add: date_token_def after_prefix_def py_startswith_def)

lemma token_sub_plain: "CHR ''{'' \<notin> set s \<Longrightarrow> token_sub strftime ranges s = s"
proof (induction s)
  case (Cons c s)
  then have "date_token (c # s) = None" using date_token_needs_brace by fastforce
  with Cons show ?case by simp
qed simp

lemma token_sub_plain_prefix:
  "CHR ''{'' \<notin> set p \<Longrightarrow> token_sub strftime ranges (p @ s) = p @ token_sub strftime ranges s"
proof (induction p)
  case (Cons c p)
  then have "date_token (c # p @ s) = None" using date_token_needs_brace by fastforce
  with Cons show ?case by simp
qed simp

lemma safe_sub_date:
  "fst (safe_sub lib date_token_pattern (if late then RxTimeout else RxValue r) txt) =
     (if late then txt else r)"
  by (simp add: safe_sub_def date_token_pattern_def default_max_pattern_len_def Let_def)

text \<open>With the guard for texts without a brace folded in, expansion is the token substitution,
  unless the substitution runs out of its time budget.\<close>

lemma expand_str:
  "expand_date_placeholders lib strftime ranges (PStr txt) =
     PStr (if rx_late lib txt then txt else token_sub strftime ranges txt)"
  by (simp add: expand_date_placeholders_def safe_sub_date token_sub_plain)

lemma expand_not_str:
  "(\<And>t. v \<noteq> PStr t) \<Longrightarrow> expand_date_placeholders lib strftime ranges v = v"
  by (cases v) (auto simp: expand_date_placeholders_def)

lemma brace_not_digit: "\<not> py_is_digit CHR ''}''"
  by (simp add: py_is_digit_def)

lemma date_token_plus:
  assumes "ds \<noteq> []" "\<forall>d \<in> set ds. py_is_digit d"
  shows "date_token (''{date+'' @ ds @ ''}'' @ s) = Some (Some (CHR ''+'' # ds), None, s)"
proof -
  have tw: "takeWhile py_is_digit (ds @ CHR ''}'' # s) = ds"
    "dropWhile py_is_digit (ds @ CHR ''}'' # s) = CHR ''}'' # s"
    using assms(2) by (simp_all add: brace_not_digit takeWhile_append2 dropWhile_append2)
  show ?thesis
    using assms(1) by (simp add: date_token_def after_prefix_def py_startswith_def tw Let_def)
qed

lemma last_digit_no_unit:
  assumes "ds \<noteq> []" "\<forall>d \<in> set ds. py_is_digit d"
  shows "last ds \<noteq> CHR ''d''" "last ds \<noteq> CHR ''w''"
proof -
  have "py_is_digit (last ds)" using assms by simp
  then show "last ds \<noteq> CHR ''d''" "last ds \<noteq> CHR ''w''" by (auto simp: py_is_digit_def Let_def)
qed

lemma expand_plus_days:
  assumes "ds \<noteq> []" "\<forall>d \<in> set ds. py_is_digit d" "length ds \<le> 4300" "0 < digits_value ds"
  shows "token_sub strftime True (''{date+'' @ ds @ ''}'') =
         range_text strftime (''{date+'' @ ds @ ''}'') ''%Y-%m-%d'' (int (digits_value ds))"
proof -
  have "token_sub strftime True (''{date+'' @ ds @ ''}'') =
        replace_match strftime True (''{date+'' @ ds @ ''}'') (Some (CHR ''+'' # ds)) None"
    using date_token_plus [OF assms(1,2), of "[]"] by simp
  also have "\<dots> = range_text strftime (''{date+'' @ ds @ ''}'') ''%Y-%m-%d'' (int (digits_value ds))"
    using assms last_digit_no_unit [OF assms(1,2)]
    by (simp add: replace_match_def Let_def date_format_def)
  finally show ?thesis .
qed

lemma length_day_range: "length (day_range d) = nat (abs d) + 1"
  by (auto simp: day_range_def)

lemma distinct_day_range: "distinct (day_range d)"
  by (simp add: day_range_def distinct_map)

lemma set_day_range: "set (day_range d) = (if 0 < d then {0..d} else {d..0})"
  by (auto simp: day_range_def image_iff intro!: bexI [of _ "- _"])

lemma length_join:
  "xs \<noteq> [] \<Longrightarrow> \<forall>x \<in> set xs. length x = n \<Longrightarrow>
   length (py_join ''|'' xs) + 1 = length xs * (n + 1)"
  by (induction "''|''" xs rule: py_join.induct) simp_all

lemma those_map_length:
  "those (map f xs) = Some ys \<Longrightarrow> length ys = length xs \<and> (\<forall>y \<in> set ys. \<exists>x \<in> set xs. f x = Some y)"
proof (induction xs arbitrary: ys)
  case (Cons x xs)
  from Cons.prems obtain z zs where "f x = Some z" "those (map f xs) = Some zs" "ys = z # zs"
    by (auto split: option.splits)
  with Cons.IH show ?case by auto
qed simp

lemma those_map_Some: "\<forall>x \<in> set xs. f x \<noteq> None \<Longrightarrow> \<exists>ys. those (map f xs) = Some ys"
  by (induction xs) auto

text \<open>A range over dates of one width \<open>w\<close> has a length that depends on the day count only.\<close>

lemma length_range_text:
  assumes "\<And>i. \<exists>t. strftime i f = Some t \<and> length t = w"
  shows "length (range_text strftime whole f d) = (nat (abs (clamp_days d)) + 1) * (w + 1) + 1"
proof -
  let ?xs = "day_range (clamp_days d)"
  have "\<exists>ds. those (map (\<lambda>i. strftime i f) ?xs) = Some ds"
    by (rule those_map_Some) (use assms in fastforce)
  then obtain ds where ds: "those (map (\<lambda>i. strftime i f) ?xs) = Some ds" by blast
  from those_map_length [OF this] have len: "length ds = length ?xs"
    and w: "\<forall>t \<in> set ds. \<exists>i \<in> set ?xs. strftime i f = Some t" by auto
  have "\<forall>t \<in> set ds. length t = w" using w assms by (metis option.inject)
  moreover have "ds \<noteq> []" using len by (auto simp: length_day_range)
  ultimately have "length (py_join ''|'' ds) + 1 = length ds * (w + 1)" by (rule length_join [rotated])
  with ds len show ?thesis by (simp add: range_text_def length_day_range)
qed

text \<open>The alternatives of a \<open>{date+N}\<close>, \<open>{date-N}\<close> or \<open>{date+Nw}\<close> token are exactly the days
  from today to the target day, both included, in the direction of the offset; at most 91 of
  them, because a target more than 90 days away is moved to day 90.\<close>

theorem date_range_runs_from_today_to_the_target:
  "set (day_range (clamp_days d)) = (if 0 \<le> d then {0..min d 90} else {max d (- 90)..0}) \<and>
   hd (day_range (clamp_days d)) = 0 \<and>
   last (day_range (clamp_days d)) = (if \<bar>d\<bar> \<le> 90 then d else sgn d * 90) \<and>
   distinct (day_range (clamp_days d)) \<and> length (day_range (clamp_days d)) \<le> 91"
proof -
  have c: "clamp_days d = (if 0 \<le> d then min d 90 else max d (- 90))"
    by (simp add: clamp_days_def max_date_range_days_def)
  have "hd (day_range (clamp_days d)) = 0" by (simp add: day_range_def c upto_rec1)
  moreover have "last (day_range (clamp_days d)) = (if \<bar>d\<bar> \<le> 90 then d else sgn d * 90)"
    by (simp add: day_range_def c upto_rec2 last_map)
  moreover have "set (day_range (clamp_days d)) = (if 0 \<le> d then {0..min d 90} else {max d (- 90)..0})"
    by (auto simp: set_day_range c)
  moreover have "length (day_range (clamp_days d)) \<le> 91" by (auto simp: length_day_range c)
  ultimately show ?thesis using distinct_day_range by blast
qed

text \<open>With the default format every date is ten characters wide, and the expansion of
  \<open>{date+N}\<close> has \<open>11 * (N + 1) + 1\<close> of them. Up to \<open>N = 44\<close> that fits the 500 characters
  \<open>safe_regex\<close> allows; from \<open>N = 45\<close> on the expanded pattern is refused when a rule is saved and
  matches no text at all when it is run, so the documented 90-day cap is out of reach.\<close>

theorem date_ranges_beyond_44_days_never_match:
  assumes digits: "ds \<noteq> []" "\<forall>d \<in> set ds. py_is_digit d" "length ds \<le> 4300"
    and wide: "\<And>i. \<exists>t. strftime i ''%Y-%m-%d'' = Some t \<and> length t = 10"
    and n: "0 < digits_value ds"
    and pat: "expand_date_placeholders lib strftime True (PStr (''{date+'' @ ds @ ''}'')) = PStr pat"
    and quick: "\<not> rx_late lib (''{date+'' @ ds @ ''}'')"
  shows "if digits_value ds \<le> 44 then length pat \<le> default_max_pattern_len
         else safe_compile lib pat = raises PatternTooLongError \<and>
              (\<forall>txt ic. \<not> safe_search lib pat txt ic)"
proof -
  let ?n = "int (digits_value ds)"
  have "pat = range_text strftime (''{date+'' @ ds @ ''}'') ''%Y-%m-%d'' ?n"
    using pat quick expand_plus_days [OF digits n, of strftime] by (simp add: expand_str)
  then have len: "length pat = (nat (abs (clamp_days ?n)) + 1) * 11 + 1"
    using length_range_text [of strftime "''%Y-%m-%d''" 10, OF wide] by simp
  show ?thesis
  proof (cases "digits_value ds \<le> 44")
    case True
    then have "clamp_days ?n = ?n" by (simp add: clamp_days_def max_date_range_days_def)
    with True len show ?thesis by (simp add: default_max_pattern_len_def)
  next
    case False
    then have "45 \<le> clamp_days ?n" by (simp add: clamp_days_def max_date_range_days_def)
    with len have "default_max_pattern_len < length pat" by (simp add: default_max_pattern_len_def)
    with False show ?thesis by (simp add: safe_compile_def safe_search_def)
  qed
qed

theorem date_ranges_beyond_44_days_never_match_witness:
  "\<forall>txt ic. \<not> safe_search \<lparr>rx_search = \<lambda>p t i. RxValue True, rx_compiles = \<lambda>p. True, rx_late = \<lambda>t. False\<rparr>
     (token_sub (\<lambda>i f. Some ''2026-01-31'') True ''{date+45}'') txt ic"
proof -
  let ?lib = "\<lparr>rx_search = \<lambda>p t i. RxValue True, rx_compiles = \<lambda>p. True, rx_late = \<lambda>t. False\<rparr>"
  have v: "digits_value ''45'' = 45" by (simp add: digits_value_def)
  have "if digits_value ''45'' \<le> 44 then
          length (token_sub (\<lambda>i f. Some ''2026-01-31'') True (''{date+'' @ ''45'' @ ''}'')) \<le> default_max_pattern_len
        else safe_compile ?lib (token_sub (\<lambda>i f. Some ''2026-01-31'') True (''{date+'' @ ''45'' @ ''}''))
               = raises PatternTooLongError \<and>
             (\<forall>txt ic. \<not> safe_search ?lib
                (token_sub (\<lambda>i f. Some ''2026-01-31'') True (''{date+'' @ ''45'' @ ''}'')) txt ic)"
    by (rule date_ranges_beyond_44_days_never_match [where strftime = "\<lambda>i f. Some ''2026-01-31''"])
      (simp_all add: expand_str v, simp_all add: py_is_digit_def)
  then show ?thesis by (simp add: v del: token_sub.simps)
qed

text \<open>Where ranges are not allowed (substring and exact-name comparisons) a token with an
  offset is copied as it stands, and everything outside tokens is copied in both modes.\<close>

theorem offsets_stay_literal_without_ranges:
  assumes "ds \<noteq> []" "\<forall>d \<in> set ds. py_is_digit d" "CHR ''{'' \<notin> set pre" "CHR ''{'' \<notin> set suf"
  shows "expand_date_placeholders lib strftime False (PStr (pre @ ''{date+'' @ ds @ ''}'' @ suf))
           = PStr (pre @ ''{date+'' @ ds @ ''}'' @ suf)"
proof -
  have "token_sub strftime False (''{date+'' @ ds @ ''}'' @ suf) = ''{date+'' @ ds @ ''}'' @ suf"
    using date_token_plus [OF assms(1,2), of suf] token_sub_plain [OF assms(4)]
    by (simp add: replace_match_def eval_nat_numeral)
  with token_sub_plain_prefix [OF assms(3)] show ?thesis by (simp add: expand_str)
qed

theorem offsets_stay_literal_without_ranges_witness:
  "\<forall>lib. expand_date_placeholders lib (\<lambda>i f. Some ''x'') False (PStr ''UFC {date+3} live'') =
     PStr ''UFC {date+3} live''"
  using offsets_stay_literal_without_ranges [of "''3''" "''UFC ''" "'' live''" _ "\<lambda>i f. Some ''x''"]
  by (simp add: py_is_digit_def)

end
