(* ===== verification/Evaluator.thy ===== *)
theory Evaluator
  imports Patterns
begin

text \<open>
  Rule conditions of the channel pipeline: \<open>Condition\<close> (\<open>backend/channel_pipeline_schema.py\<close>: wire
  form and validation) and \<open>ConditionEvaluator\<close> (\<open>backend/channel_pipeline_evaluator.py\<close>). A
  condition's \<open>value\<close> is untyped JSON, so every evaluator says what it does with a value of the
  wrong type: Python's exception is the left value of the result. The human-readable
  \<open>details\<close> text is kept as its template and the values put into it. The normalization engine is
  an optional constructor argument of the evaluator, a function that may raise (\<open>None\<close>).
\<close>

section \<open>Operations on untyped values\<close>

datatype py_error = TypeError | AttributeError | ValueError | OverflowError

text \<open>\<open>n == v\<close>, \<open>n >= v\<close> and \<open>n <= v\<close> for an \<open>int\<close> on the left.\<close>

fun int_eq :: "int \<Rightarrow> pyval \<Rightarrow> bool" where
  "int_eq n (PInt m) = (n = m)"
| "int_eq n (PBool b) = (n = of_bool b)"
| "int_eq n (PFloat (Fin x)) = (of_int n = x)"
| "int_eq n _ = False"

fun int_ge :: "int \<Rightarrow> pyval \<Rightarrow> (py_error, bool) result" where
  "int_ge n (PInt m) = returns (m \<le> n)"
| "int_ge n (PBool b) = returns (of_bool b \<le> n)"
| "int_ge n (PFloat (Fin x)) = returns (x \<le> of_int n)"
| "int_ge n (PFloat NegInf) = returns True"
| "int_ge n (PFloat _) = returns False"
| "int_ge n _ = raises TypeError"

fun int_le :: "int \<Rightarrow> pyval \<Rightarrow> (py_error, bool) result" where
  "int_le n (PInt m) = returns (n \<le> m)"
| "int_le n (PBool b) = returns (n \<le> of_bool b)"
| "int_le n (PFloat (Fin x)) = returns (of_int n \<le> x)"
| "int_le n (PFloat Inf) = returns True"
| "int_le n (PFloat _) = returns False"
| "int_le n _ = raises TypeError"

text \<open>\<open>int(s)\<close>: surrounding blanks, one sign, digits with single underscores between them.\<close>

definition underscored_digits :: "string \<Rightarrow> bool" where
  "underscored_digits s \<longleftrightarrow>
     s \<noteq> [] \<and> py_is_digit (hd s) \<and> py_is_digit (last s) \<and>
     list_all (\<lambda>c. py_is_digit c \<or> c = CHR ''_'') s \<and> \<not> py_contains ''__'' s \<and>
     length (filter py_is_digit s) \<le> 4300"

fun int_of_text :: "string \<Rightarrow> (py_error, int) result" where
  "int_of_text s =
     (let t = py_strip s;
          negative = (t \<noteq> [] \<and> hd t = CHR ''-'');
          body = (if t \<noteq> [] \<and> (hd t = CHR ''-'' \<or> hd t = CHR ''+'') then tl t else t) in
      if underscored_digits body
      then returns ((if negative then - 1 else 1) * int (digits_value (filter py_is_digit body)))
      else raises ValueError)"

fun py_int :: "pyval \<Rightarrow> (py_error, int) result" where
  "py_int (PInt n) = returns n"
| "py_int (PBool b) = returns (of_bool b)"
| "py_int (PFloat (Fin x)) = returns (if 0 \<le> x then \<lfloor>x\<rfloor> else \<lceil>x\<rceil>)"
| "py_int (PFloat NaN) = raises ValueError"
| "py_int (PFloat _) = raises OverflowError"
| "py_int (PStr s) = int_of_text s"
| "py_int _ = raises TypeError"

fun str_lower :: "pyval \<Rightarrow> (py_error, string) result" where
  "str_lower (PStr s) = returns (py_lower s)"
| "str_lower _ = raises AttributeError"

section \<open>Conditions\<close>

datatype condition_type =
    STREAM_NAME_MATCHES | STREAM_NAME_CONTAINS | STREAM_GROUP_CONTAINS | STREAM_GROUP_MATCHES
  | STREAM_GROUP_IS | TVG_ID_EXISTS | TVG_ID_MATCHES | LOGO_EXISTS | PROVIDER_IS | QUALITY_MIN
  | QUALITY_MAX | CODEC_IS | HAS_AUDIO_TRACKS | HAS_CHANNEL | CHANNEL_EXISTS_WITH_NAME
  | CHANNEL_EXISTS_MATCHING | CHANNEL_IN_GROUP | CHANNEL_HAS_STREAMS | NORMALIZED_NAME_IN_GROUP
  | NORMALIZED_NAME_NOT_IN_GROUP | NORMALIZED_NAME_EXISTS | NORMALIZED_NAME_NOT_EXISTS
  | AND_TYPE | OR_TYPE | NOT_TYPE | ALWAYS | NEVER

definition condition_type_values :: "(string \<times> condition_type) list" where
  "condition_type_values =
    [(''stream_name_matches'', STREAM_NAME_MATCHES), (''stream_name_contains'', STREAM_NAME_CONTAINS),
     (''stream_group_contains'', STREAM_GROUP_CONTAINS), (''stream_group_matches'', STREAM_GROUP_MATCHES),
     (''stream_group_is'', STREAM_GROUP_IS), (''tvg_id_exists'', TVG_ID_EXISTS),
     (''tvg_id_matches'', TVG_ID_MATCHES), (''logo_exists'', LOGO_EXISTS), (''provider_is'', PROVIDER_IS),
     (''quality_min'', QUALITY_MIN), (''quality_max'', QUALITY_MAX), (''codec_is'', CODEC_IS),
     (''has_audio_tracks'', HAS_AUDIO_TRACKS), (''has_channel'', HAS_CHANNEL),
     (''channel_exists_with_name'', CHANNEL_EXISTS_WITH_NAME),
     (''channel_exists_matching'', CHANNEL_EXISTS_MATCHING), (''channel_in_group'', CHANNEL_IN_GROUP),
     (''channel_has_streams'', CHANNEL_HAS_STREAMS),
     (''normalized_name_in_group'', NORMALIZED_NAME_IN_GROUP),
     (''normalized_name_not_in_group'', NORMALIZED_NAME_NOT_IN_GROUP),
     (''normalized_name_exists'', NORMALIZED_NAME_EXISTS),
     (''normalized_name_not_exists'', NORMALIZED_NAME_NOT_EXISTS),
     (''and'', AND_TYPE), (''or'', OR_TYPE), (''not'', NOT_TYPE), (''always'', ALWAYS), (''never'', NEVER)]"

text \<open>\<open>ConditionType(value)\<close>; \<open>None\<close> is its \<open>ValueError\<close>.\<close>

fun condition_type_of :: "pyval \<Rightarrow> condition_type option" where
  "condition_type_of (PStr s) = map_of condition_type_values s"
| "condition_type_of _ = None"

text \<open>
  What the code takes as a condition: a \<open>Condition\<close> object, or a raw value, normally a dict, which
  \<open>evaluate\<close> converts when it visits it and \<open>validate\<close> passes over. \<open>conditions\<close> is \<open>None\<close> or a list of
  either. \<open>case_sensitive\<close> and \<open>negate\<close> are used for their truth only and kept as that.
\<close>

datatype condition =
    Condition pyval pyval "condition list option" pyval bool bool
  | RawCondition pyval

text \<open>A list or \<open>None\<close> where only the truth, the length and the elements of the list are used.\<close>

definition sub_list :: "'a list option \<Rightarrow> 'a list" where
  "sub_list subs = (case subs of None \<Rightarrow> [] | Some xs \<Rightarrow> xs)"

lemma sub_list_simps [simp]: "sub_list None = []" "sub_list (Some xs) = xs"
  by (simp_all add: sub_list_def)

text \<open>A raw entry of a condition list is written as it is.\<close>

fun to_dict :: "condition \<Rightarrow> pyval" where
  "to_dict (Condition t v subs con cs neg) =
     PDict ([(''type'', t)]
       @ (if v \<noteq> PNone then [(''value'', v)] else [])
       @ (case subs of None \<Rightarrow> [] | Some xs \<Rightarrow> if xs \<noteq> [] then [(''conditions'', PList (map to_dict xs))] else [])
       @ (if truthy con \<and> con \<noteq> PStr ''and'' then [(''connector'', con)] else [])
       @ (if cs then [(''case_sensitive'', PBool True)] else [])
       @ (if neg then [(''negate'', PBool True)] else []))"
| "to_dict (RawCondition v) = v"

definition dict_get_default :: "(string \<times> pyval) list \<Rightarrow> string \<Rightarrow> pyval \<Rightarrow> pyval" where
  "dict_get_default d k v = (case map_of d k of Some w \<Rightarrow> w | None \<Rightarrow> v)"

fun map_result :: "('a \<Rightarrow> ('e, 'b) result) \<Rightarrow> 'a list \<Rightarrow> ('e, 'b list) result" where
  "map_result f [] = returns []"
| "map_result f (x # xs) = bind_result (f x) (\<lambda>y. bind_result (map_result f xs) (\<lambda>ys. returns (y # ys)))"

lemma map_result_cong [fundef_cong]:
  "xs = ys \<Longrightarrow> (\<And>x. x \<in> set ys \<Longrightarrow> f x = g x) \<Longrightarrow> map_result f xs = map_result g ys"
  by (induction xs arbitrary: ys) auto

lemma map_of_size_less: "map_of d k = Some v \<Longrightarrow> size v < Suc (size_list (size_prod (\<lambda>_. 0) size) d)"
  by (induction d) (auto split: if_splits)

text \<open>\<open>Condition.from_dict\<close>. A value that is not a dict fails at \<open>"conditions" in data\<close> or at
  \<open>data.get\<close>; a \<open>conditions\<close> entry that cannot be iterated is a \<open>TypeError\<close>, iterating a
  string or a dict hands its characters or keys to \<open>from_dict\<close>.\<close>

function from_dict :: "pyval \<Rightarrow> (py_error, condition) result" where
  "from_dict (PDict d) =
     bind_result
       (case map_of d ''conditions'' of
          None \<Rightarrow> returns None
        | Some (PList xs) \<Rightarrow> bind_result (map_result from_dict xs) (\<lambda>cs. returns (Some cs))
        | Some (PStr s) \<Rightarrow> (if s = [] then returns (Some []) else raises AttributeError)
        | Some (PDict e) \<Rightarrow>
            (if e = [] then returns (Some [])
             else if py_contains ''conditions'' (fst (hd e)) then raises TypeError else raises AttributeError)
        | Some _ \<Rightarrow> raises TypeError)
       (\<lambda>subs. returns (Condition (dict_get_default d ''type'' (PStr ''always'')) (dict_get d ''value'') subs
          (dict_get_default d ''connector'' (PStr ''and''))
          (truthy (dict_get_default d ''case_sensitive'' (PBool False)))
          (truthy (dict_get_default d ''negate'' (PBool False)))))"
| "from_dict (PStr s) = (if py_contains ''conditions'' s then raises TypeError else raises AttributeError)"
| "from_dict (PList xs) = (if PStr ''conditions'' \<in> set xs then raises TypeError else raises AttributeError)"
| "from_dict PNone = raises TypeError"
| "from_dict (PBool b) = raises TypeError"
| "from_dict (PInt n) = raises TypeError"
| "from_dict (PFloat f) = raises TypeError"
  by pat_completeness auto
termination
proof (relation "measure size")
  fix d :: "(string \<times> pyval) list" and v xs z
  assume v: "map_of d ''conditions'' = Some v" and xs: "v = PList xs" "z \<in> set xs"
  have "size z < size v" using xs by (simp add: size_list_estimation' less_Suc_eq_le)
  also have "size v < Suc (size_list (size_prod (\<lambda>_. 0) size) d)" by (rule map_of_size_less [OF v])
  finally have "size z < size (PDict d)" by simp
  then show "(z, PDict d) \<in> measure size" by simp
qed simp

section \<open>The environment of an evaluation\<close>

text \<open>The regular expression library, the calendar, and \<open>str(v)\<close> of a value that is not a
  string.\<close>

record eval_env =
  regex_lib :: rx_library
  calendar_of :: calendar
  str_of_other :: "pyval \<Rightarrow> string"

definition py_str :: "eval_env \<Rightarrow> pyval \<Rightarrow> string" where
  "py_str env v = (case v of PStr s \<Rightarrow> s | _ \<Rightarrow> str_of_other env v)"

definition expand :: "eval_env \<Rightarrow> bool \<Rightarrow> pyval \<Rightarrow> pyval" where
  "expand env allow_ranges v = expand_date_placeholders (regex_lib env) (calendar_of env) allow_ranges v"

text \<open>\<open>safe_regex.compile(v)\<close> on an untyped value: \<open>len(v)\<close> comes first, so a number or
  \<open>None\<close> is a \<open>TypeError\<close>, and so is a short container, which the library cannot compile.\<close>

definition compile_pattern ::
  "eval_env \<Rightarrow> pyval \<Rightarrow> (py_error, (safe_regex_error, string) result) result" where
  "compile_pattern env v =
     (case v of
        PStr p \<Rightarrow> returns (safe_compile (regex_lib env) p)
      | PList xs \<Rightarrow> if default_max_pattern_len < length xs then returns (raises PatternTooLongError)
                    else raises TypeError
      | PDict d \<Rightarrow> if default_max_pattern_len < length d then returns (raises PatternTooLongError)
                   else raises TypeError
      | _ \<Rightarrow> raises TypeError)"

section \<open>Validation of a rule's conditions\<close>

datatype validation_error =
    UnknownConditionType pyval
  | NeedsSubCondition pyval
  | NeedsExactlyOne
  | NeedsString pyval
  | InvalidPattern pyval safe_regex_error
  | NeedsPositiveNumber pyval
  | NeedsIntOrList pyval
  | ListOnlyIntegers pyval
  | NeedsStringOrList pyval
  | ListOnlyStrings pyval
  | NeedsGroupId pyval
  | ShouldBeBoolean pyval
  | InSubCondition pyval nat validation_error

definition string_valued :: "condition_type list" where
  "string_valued =
     [STREAM_NAME_MATCHES, STREAM_NAME_CONTAINS, STREAM_GROUP_CONTAINS, STREAM_GROUP_MATCHES,
      STREAM_GROUP_IS, TVG_ID_MATCHES, CHANNEL_EXISTS_WITH_NAME, CHANNEL_EXISTS_MATCHING]"

definition regex_valued :: "condition_type list" where
  "regex_valued = [STREAM_NAME_MATCHES, STREAM_GROUP_MATCHES, TVG_ID_MATCHES, CHANNEL_EXISTS_MATCHING]"

fun is_int :: "pyval \<Rightarrow> bool" where
  "is_int (PInt n) = True"
| "is_int (PBool b) = True"
| "is_int _ = False"

fun is_str :: "pyval \<Rightarrow> bool" where
  "is_str (PStr s) = True"
| "is_str _ = False"

text \<open>\<open>not isinstance(value, (int, float)) or value < 0\<close>.\<close>

fun not_a_count :: "pyval \<Rightarrow> bool" where
  "not_a_count (PInt n) = (n < 0)"
| "not_a_count (PBool b) = False"
| "not_a_count (PFloat (Fin x)) = (x < 0)"
| "not_a_count (PFloat NegInf) = True"
| "not_a_count (PFloat _) = False"
| "not_a_count _ = True"

definition validate_value ::
  "eval_env \<Rightarrow> condition_type \<Rightarrow> pyval \<Rightarrow> pyval \<Rightarrow> (py_error, validation_error list) result" where
  "validate_value env k t v =
     (if k \<in> set string_valued then
        (let errors = (if truthy v \<and> is_str v then [] else [NeedsString t]) in
         if k \<in> set regex_valued then
           bind_result (compile_pattern env (expand env True v))
             (\<lambda>c. returns (errors @ (case c of Inl e \<Rightarrow> [InvalidPattern t e] | Inr p \<Rightarrow> [])))
         else returns errors)
      else if k \<in> {QUALITY_MIN, QUALITY_MAX, CHANNEL_HAS_STREAMS, HAS_AUDIO_TRACKS} then
        returns (if not_a_count v then [NeedsPositiveNumber t] else [])
      else if k = PROVIDER_IS then
        returns (case v of
          PList xs \<Rightarrow> if list_all is_int xs then [] else [ListOnlyIntegers t]
        | _ \<Rightarrow> if is_int v then [] else [NeedsIntOrList t])
      else if k = CODEC_IS then
        returns (case v of
          PList xs \<Rightarrow> if list_all is_str xs then [] else [ListOnlyStrings t]
        | _ \<Rightarrow> if is_str v then [] else [NeedsStringOrList t])
      else if k \<in> {CHANNEL_IN_GROUP, NORMALIZED_NAME_IN_GROUP, NORMALIZED_NAME_NOT_IN_GROUP} then
        returns (if is_int v then [] else [NeedsGroupId t])
      else if k \<in> {TVG_ID_EXISTS, LOGO_EXISTS, HAS_CHANNEL} then
        returns (case v of PNone \<Rightarrow> [] | PBool b \<Rightarrow> [] | _ \<Rightarrow> [ShouldBeBoolean t])
      else returns [])"

text \<open>An entry that is not a \<open>Condition\<close> object is passed over.\<close>

fun validate :: "eval_env \<Rightarrow> condition \<Rightarrow> (py_error, validation_error list) result"
  and validate_subs :: "eval_env \<Rightarrow> pyval \<Rightarrow> nat \<Rightarrow> condition list \<Rightarrow> (py_error, validation_error list) result"
where
  "validate env (Condition t v subs con cs neg) =
     (case condition_type_of t of
        None \<Rightarrow> returns [UnknownConditionType t]
      | Some AND_TYPE \<Rightarrow>
          (case subs of Some (c # cs) \<Rightarrow> validate_subs env t 0 (c # cs) | _ \<Rightarrow> returns [NeedsSubCondition t])
      | Some OR_TYPE \<Rightarrow>
          (case subs of Some (c # cs) \<Rightarrow> validate_subs env t 0 (c # cs) | _ \<Rightarrow> returns [NeedsSubCondition t])
      | Some NOT_TYPE \<Rightarrow> (case subs of Some [c] \<Rightarrow> validate env c | _ \<Rightarrow> returns [NeedsExactlyOne])
      | Some k \<Rightarrow> validate_value env k t v)"
| "validate env (RawCondition v) = returns []"
| "validate_subs env t i [] = returns []"
| "validate_subs env t i (c # cs) =
     bind_result (validate env c) (\<lambda>es.
       bind_result (validate_subs env t (Suc i) cs) (\<lambda>rest.
         returns (map (InSubCondition t i) es @ rest)))"

section \<open>Streams, channels and results\<close>

record stream_context =
  stream_id :: int
  stream_name :: string
  stream_url :: "string option"
  group_name :: "string option"
  channel_group_id :: "int option"
  tvg_id :: "string option"
  tvg_name :: "string option"
  logo_url :: "string option"
  m3u_account_id :: "int option"
  m3u_account_name :: "string option"
  is_custom :: bool
  is_catchup :: bool
  resolution :: "string option"
  resolution_height :: "int option"
  video_codec :: "string option"
  audio_codec :: "string option"
  audio_tracks :: "int option"
  bitrate :: "int option"
  channel_id :: "int option"
  channel_name :: "string option"
  m3u_position :: int
  stream_chno :: "pyfloat option"
  ctx_normalized_name :: "string option"

text \<open>An existing channel as Dispatcharr lists it. Its \<open>channel_group\<close> is a dict (with or without
  an \<open>id\<close>), absent, or something else, on which \<open>.get\<close> raises.\<close>

datatype group_field = GroupAbsent | GroupDict "int option" | GroupOther

record dispatcharr_channel =
  ch_id :: int
  ch_name :: string
  ch_group_id :: "int option"
  ch_group :: group_field
  ch_streams :: "int list option"

datatype type_label = TypeName pyval | NotOf type_label

datatype detail =
    UnknownType pyval
  | Unhandled
  | AlwaysMatches
  | NeverMatches
  | NoPattern
  | RegexOutcome string bool string
  | NoSubstring
  | ContainsOutcome string bool string
  | NoValue
  | EqualsOutcome string bool pyval
  | TvgOutcome bool "string option"
  | LogoOutcome bool
  | NoProvider
  | ProviderOutcome int bool pyval
  | QualityUnknown pyval
  | QualityOutcome int pyval bool
  | NoCodec
  | CodecOutcome string bool pyval
  | AudioOutcome int int
  | HasChannelOutcome bool "int option"
  | NameOutcome string bool
  | ChannelMatches string string
  | NoChannelMatches string
  | InvalidRegex safe_regex_error
  | NoChannel
  | ChannelNotFound int
  | InGroupOutcome "int option" bool pyval
  | StreamsOutcome nat pyval bool
  | NoGroupId
  | EmptyGroup pyval
  | GroupNameOutcome string string bool pyval nat
  | NoChannelsAtAll
  | AnyNameOutcome string string bool nat
  | NoSubConditions
  | FailedAt type_label detail
  | AllMatched nat
  | MatchedAt type_label detail
  | NoneMatched nat
  | RequiresOne
  | NegatedSub type_label detail
  | Negated detail
  | InvertedGroupText detail
  | InvertedExistsText detail

record evaluation_result =
  matched :: bool
  label :: type_label
  details :: detail

abbreviation evaluation :: "bool \<Rightarrow> type_label \<Rightarrow> detail \<Rightarrow> evaluation_result" where
  "evaluation m l d \<equiv> \<lparr>matched = m, label = l, details = d\<rparr>"

section \<open>The evaluator and its indices\<close>

type_synonym engine = "(string \<Rightarrow> string option) option"

record evaluator =
  ev_channels :: "dispatcharr_channel list"
  ev_engine :: engine
  ev_channel_by_id :: "(int \<times> dispatcharr_channel) list"
  ev_channel_names :: "string list"
  ev_names_by_group :: "(int \<times> string list) list"
  ev_all_names :: "string list"

text \<open>\<open>channel.get("channel_group_id") or channel.get("channel_group", {}).get("id")\<close>.\<close>

definition group_of_channel :: "dispatcharr_channel \<Rightarrow> (py_error, int option) result" where
  "group_of_channel c =
     (let second = (case ch_group c of
                      GroupAbsent \<Rightarrow> returns None
                    | GroupDict i \<Rightarrow> returns i
                    | GroupOther \<Rightarrow> raises AttributeError) in
      case ch_group_id c of
        Some g \<Rightarrow> if g \<noteq> 0 then returns (Some g) else second
      | None \<Rightarrow> second)"

fun append_to_group ::
  "int \<Rightarrow> dispatcharr_channel \<Rightarrow> (int \<times> dispatcharr_channel list) list \<Rightarrow> (int \<times> dispatcharr_channel list) list" where
  "append_to_group g c [] = [(g, [c])]"
| "append_to_group g c ((h, cs) # rest) =
     (if h = g then (h, cs @ [c]) # rest else (h, cs) # append_to_group g c rest)"

definition index_channel ::
  "dispatcharr_channel \<Rightarrow> (int \<times> dispatcharr_channel list) list
     \<Rightarrow> (py_error, (int \<times> dispatcharr_channel list) list) result" where
  "index_channel c groups =
     bind_result (group_of_channel c) (\<lambda>g. returns (case g of
        Some i \<Rightarrow> if i \<noteq> 0 then append_to_group i c groups else groups
      | None \<Rightarrow> groups))"

text \<open>\<open>re.compile(r'^\d+\s*\|\s*').sub('', raw)\<close>: the pattern is anchored, so it applies once.\<close>

definition strip_channel_number :: "string \<Rightarrow> string" where
  "strip_channel_number raw =
     (if takeWhile py_is_digit raw = [] then raw
      else case dropWhile py_is_space (dropWhile py_is_digit raw) of
             c # r \<Rightarrow> if c = CHR ''|'' then dropWhile py_is_space r else raw
           | [] \<Rightarrow> raw)"

definition add_name :: "string \<Rightarrow> string list \<Rightarrow> string list" where
  "add_name x names = (if x \<in> set names then names else names @ [x])"

definition add_channel_names :: "engine \<Rightarrow> dispatcharr_channel \<Rightarrow> string list \<Rightarrow> string list" where
  "add_channel_names engine c names =
     (let raw = ch_name c;
          names = add_name (py_lower raw) names;
          stripped = strip_channel_number raw;
          names = (if stripped \<noteq> raw then add_name (py_lower stripped) names else names) in
      case engine of
        None \<Rightarrow> names
      | Some run \<Rightarrow>
          (case run stripped of
             None \<Rightarrow> names
           | Some n \<Rightarrow> if n \<noteq> [] then add_name (py_lower n) names else names))"

definition condition_evaluator :: "dispatcharr_channel list \<Rightarrow> engine \<Rightarrow> (py_error, evaluator) result" where
  "condition_evaluator channels engine =
     bind_result (fold_result index_channel channels []) (\<lambda>groups.
       (let names = map (\<lambda>(g, cs). (g, fold (add_channel_names engine) cs [])) groups in
        returns \<lparr>ev_channels = channels, ev_engine = engine,
          ev_channel_by_id = rev (map (\<lambda>c. (ch_id c, c)) channels),
          ev_channel_names = map (\<lambda>c. py_lower (ch_name c)) channels,
          ev_names_by_group = names,
          ev_all_names = fold (\<lambda>(g, ns) acc. fold add_name ns acc) names []\<rparr>))"

section \<open>Single conditions\<close>

type_synonym eval = "(py_error, evaluation_result) result"

definition evaluate_regex :: "eval_env \<Rightarrow> pyval \<Rightarrow> string \<Rightarrow> bool \<Rightarrow> type_label \<Rightarrow> eval" where
  "evaluate_regex env v txt cs l =
     (let pattern = expand env True v in
      if \<not> truthy pattern then returns (evaluation False l NoPattern)
      else case pattern of
             PStr p \<Rightarrow>
               (let m = safe_search (regex_lib env) p txt (\<not> cs) in
                returns (evaluation m l (RegexOutcome txt m p)))
           | _ \<Rightarrow> raises AttributeError)"

definition evaluate_contains :: "eval_env \<Rightarrow> pyval \<Rightarrow> string \<Rightarrow> bool \<Rightarrow> type_label \<Rightarrow> eval" where
  "evaluate_contains env v txt cs l =
     (let sub = expand env False v in
      if \<not> truthy sub then returns (evaluation False l NoSubstring)
      else case sub of
             PStr p \<Rightarrow>
               (let m = (if cs then py_contains p txt else py_contains (py_lower p) (py_lower txt)) in
                returns (evaluation m l (ContainsOutcome txt m p)))
           | _ \<Rightarrow> raises (if cs then TypeError else AttributeError))"

definition evaluate_equals :: "eval_env \<Rightarrow> pyval \<Rightarrow> string \<Rightarrow> bool \<Rightarrow> type_label \<Rightarrow> eval" where
  "evaluate_equals env v actual cs l =
     (if \<not> truthy v then returns (evaluation False l NoValue)
      else (let m = (if cs then PStr actual = v else py_lower actual = py_lower (py_str env v)) in
            returns (evaluation m l (EqualsOutcome actual m v))))"

text \<open>\<open>bool(present) == expected\<close>, with \<open>expected\<close> defaulting to \<open>True\<close>: the shape of
  \<open>tvg_id_exists\<close>, \<open>logo_exists\<close> and \<open>has_channel\<close>.\<close>

definition presence_matches :: "bool \<Rightarrow> pyval \<Rightarrow> bool" where
  "presence_matches present v = int_eq (of_bool present) (if v \<noteq> PNone then v else PBool True)"

definition evaluate_provider_is :: "pyval \<Rightarrow> int option \<Rightarrow> type_label \<Rightarrow> eval" where
  "evaluate_provider_is v actual l =
     (case actual of
        None \<Rightarrow> returns (evaluation False l NoProvider)
      | Some a \<Rightarrow>
          (let m = (case v of PList xs \<Rightarrow> list_ex (int_eq a) xs | _ \<Rightarrow> int_eq a v) in
           returns (evaluation m l (ProviderOutcome a m v))))"

definition evaluate_quality_min :: "pyval \<Rightarrow> int option \<Rightarrow> type_label \<Rightarrow> eval" where
  "evaluate_quality_min v actual l =
     (case actual of
        None \<Rightarrow> returns (evaluation False l (QualityUnknown v))
      | Some h \<Rightarrow> bind_result (int_ge h v) (\<lambda>m. returns (evaluation m l (QualityOutcome h v m))))"

definition evaluate_quality_max :: "pyval \<Rightarrow> int option \<Rightarrow> type_label \<Rightarrow> eval" where
  "evaluate_quality_max v actual l =
     (case actual of
        None \<Rightarrow> returns (evaluation True l (QualityUnknown v))
      | Some h \<Rightarrow> bind_result (int_le h v) (\<lambda>m. returns (evaluation m l (QualityOutcome h v m))))"

definition evaluate_codec_is :: "pyval \<Rightarrow> string option \<Rightarrow> type_label \<Rightarrow> eval" where
  "evaluate_codec_is v actual l =
     (case actual of
        None \<Rightarrow> returns (evaluation False l NoCodec)
      | Some a \<Rightarrow>
          (case v of
             PList xs \<Rightarrow> bind_result (map_result str_lower xs) (\<lambda>ys.
               (let m = py_lower a \<in> set ys in returns (evaluation m l (CodecOutcome a m v))))
           | _ \<Rightarrow> bind_result (str_lower v) (\<lambda>y.
               (let m = (py_lower a = y) in returns (evaluation m l (CodecOutcome a m v))))))"

text \<open>The count comes from a nullable column; \<open>None >= n\<close> is a \<open>TypeError\<close>.\<close>

definition evaluate_audio_tracks :: "pyval \<Rightarrow> int option \<Rightarrow> type_label \<Rightarrow> eval" where
  "evaluate_audio_tracks v tracks l =
     bind_result (if truthy v then py_int v else returns 1) (\<lambda>n.
       case tracks of
         None \<Rightarrow> raises TypeError
       | Some k \<Rightarrow> returns (evaluation (n \<le> k) l (AudioOutcome k n)))"

definition evaluate_channel_exists_name :: "eval_env \<Rightarrow> evaluator \<Rightarrow> pyval \<Rightarrow> type_label \<Rightarrow> eval" where
  "evaluate_channel_exists_name env ev v l =
     (case expand env False v of
        PStr n \<Rightarrow> (let m = py_lower n \<in> set (ev_channel_names ev) in
                   returns (evaluation m l (NameOutcome n m)))
      | _ \<Rightarrow> raises AttributeError)"

definition evaluate_channel_exists_regex ::
  "eval_env \<Rightarrow> evaluator \<Rightarrow> pyval \<Rightarrow> bool \<Rightarrow> type_label \<Rightarrow> eval" where
  "evaluate_channel_exists_regex env ev v cs l =
     bind_result (compile_pattern env (expand env True v)) (\<lambda>c. returns
       (case c of
          Inl e \<Rightarrow> evaluation False l (InvalidRegex e)
        | Inr p \<Rightarrow>
            (case find (\<lambda>ch. safe_search_compiled (regex_lib env) p (ch_name ch) (\<not> cs)) (ev_channels ev) of
               Some ch \<Rightarrow> evaluation True l (ChannelMatches (ch_name ch) p)
             | None \<Rightarrow> evaluation False l (NoChannelMatches p))))"

definition evaluate_channel_in_group :: "evaluator \<Rightarrow> pyval \<Rightarrow> int option \<Rightarrow> type_label \<Rightarrow> eval" where
  "evaluate_channel_in_group ev v cid l =
     (case cid of
        None \<Rightarrow> returns (evaluation False l NoChannel)
      | Some i \<Rightarrow>
          (case map_of (ev_channel_by_id ev) i of
             None \<Rightarrow> returns (evaluation False l (ChannelNotFound i))
           | Some c \<Rightarrow> bind_result (group_of_channel c) (\<lambda>g.
               (let m = (case g of None \<Rightarrow> v = PNone | Some gi \<Rightarrow> int_eq gi v) in
                returns (evaluation m l (InGroupOutcome g m v))))))"

definition evaluate_channel_has_streams :: "evaluator \<Rightarrow> pyval \<Rightarrow> int option \<Rightarrow> type_label \<Rightarrow> eval" where
  "evaluate_channel_has_streams ev v cid l =
     (case cid of
        None \<Rightarrow> returns (evaluation False l NoChannel)
      | Some i \<Rightarrow>
          (case map_of (ev_channel_by_id ev) i of
             None \<Rightarrow> returns (evaluation False l (ChannelNotFound i))
           | Some c \<Rightarrow>
               (let n = (case ch_streams c of Some ss \<Rightarrow> length ss | None \<Rightarrow> 0) in
                bind_result (int_ge (int n) v) (\<lambda>m. returns (evaluation m l (StreamsOutcome n v m))))))"

definition normalize_stream_name :: "evaluator \<Rightarrow> stream_context \<Rightarrow> string" where
  "normalize_stream_name ev ctx =
     (case ev_engine ev of
        None \<Rightarrow> stream_name ctx
      | Some run \<Rightarrow> (case run (stream_name ctx) of None \<Rightarrow> stream_name ctx | Some n \<Rightarrow> n))"

text \<open>\<open>self._channel_names_by_group.get(group_id)\<close>: a list or a dict is not hashable.\<close>

definition group_names_of :: "evaluator \<Rightarrow> pyval \<Rightarrow> (py_error, string list option) result" where
  "group_names_of ev v =
     (case v of
        PList xs \<Rightarrow> raises TypeError
      | PDict d \<Rightarrow> raises TypeError
      | _ \<Rightarrow> returns (map_option snd (find (\<lambda>(g, ns). int_eq g v) (ev_names_by_group ev))))"

definition evaluate_normalized_name_in_group ::
  "evaluator \<Rightarrow> pyval \<Rightarrow> stream_context \<Rightarrow> type_label \<Rightarrow> eval" where
  "evaluate_normalized_name_in_group ev v ctx l =
     (if \<not> truthy v then returns (evaluation False l NoGroupId)
      else bind_result (group_names_of ev v) (\<lambda>names. returns
        (case names of
           None \<Rightarrow> evaluation False l (EmptyGroup v)
         | Some ns \<Rightarrow>
             if ns = [] then evaluation False l (EmptyGroup v)
             else (let n = normalize_stream_name ev ctx; m = py_lower n \<in> set ns in
                   evaluation m l (GroupNameOutcome (stream_name ctx) n m v (length ns))))))"

definition evaluate_normalized_name_not_in_group ::
  "evaluator \<Rightarrow> pyval \<Rightarrow> stream_context \<Rightarrow> type_label \<Rightarrow> eval" where
  "evaluate_normalized_name_not_in_group ev v ctx l =
     bind_result
       (evaluate_normalized_name_in_group ev v ctx (TypeName (PStr ''normalized_name_in_group'')))
       (\<lambda>r. returns (evaluation (\<not> matched r) l (InvertedGroupText (details r))))"

definition evaluate_normalized_name_exists :: "evaluator \<Rightarrow> stream_context \<Rightarrow> type_label \<Rightarrow> evaluation_result" where
  "evaluate_normalized_name_exists ev ctx l =
     (if ev_all_names ev = [] then evaluation False l NoChannelsAtAll
      else (let n = normalize_stream_name ev ctx; m = py_lower n \<in> set (ev_all_names ev) in
            evaluation m l (AnyNameOutcome (stream_name ctx) n m (length (ev_all_names ev)))))"

definition evaluate_normalized_name_not_exists ::
  "evaluator \<Rightarrow> stream_context \<Rightarrow> type_label \<Rightarrow> evaluation_result" where
  "evaluate_normalized_name_not_exists ev ctx l =
     (let r = evaluate_normalized_name_exists ev ctx (TypeName (PStr ''normalized_name_exists'')) in
      evaluation (\<not> matched r) l (InvertedExistsText (details r)))"

definition opt_text :: "string option \<Rightarrow> string" where
  "opt_text x = (case x of None \<Rightarrow> [] | Some s \<Rightarrow> s)"

definition opt_truthy :: "string option \<Rightarrow> bool" where
  "opt_truthy x \<longleftrightarrow> opt_text x \<noteq> []"

definition evaluate_leaf ::
  "eval_env \<Rightarrow> evaluator \<Rightarrow> stream_context \<Rightarrow> condition_type \<Rightarrow> type_label \<Rightarrow> pyval \<Rightarrow> bool \<Rightarrow> eval" where
  "evaluate_leaf env ev ctx k l v cs =
     (case k of
        ALWAYS \<Rightarrow> returns (evaluation True l AlwaysMatches)
      | NEVER \<Rightarrow> returns (evaluation False l NeverMatches)
      | STREAM_NAME_MATCHES \<Rightarrow> evaluate_regex env v (stream_name ctx) cs l
      | STREAM_NAME_CONTAINS \<Rightarrow> evaluate_contains env v (stream_name ctx) cs l
      | STREAM_GROUP_CONTAINS \<Rightarrow> evaluate_contains env v (opt_text (group_name ctx)) cs l
      | STREAM_GROUP_MATCHES \<Rightarrow> evaluate_regex env v (opt_text (group_name ctx)) cs l
      | STREAM_GROUP_IS \<Rightarrow> evaluate_equals env v (opt_text (group_name ctx)) cs l
      | TVG_ID_EXISTS \<Rightarrow>
          (let has = opt_truthy (tvg_id ctx) in
           returns (evaluation (presence_matches has v) l (TvgOutcome has (tvg_id ctx))))
      | TVG_ID_MATCHES \<Rightarrow> evaluate_regex env v (opt_text (tvg_id ctx)) cs l
      | LOGO_EXISTS \<Rightarrow>
          (let has = opt_truthy (logo_url ctx) in
           returns (evaluation (presence_matches has v) l (LogoOutcome has)))
      | PROVIDER_IS \<Rightarrow> evaluate_provider_is v (m3u_account_id ctx) l
      | QUALITY_MIN \<Rightarrow> evaluate_quality_min v (resolution_height ctx) l
      | QUALITY_MAX \<Rightarrow> evaluate_quality_max v (resolution_height ctx) l
      | CODEC_IS \<Rightarrow> evaluate_codec_is v (video_codec ctx) l
      | HAS_AUDIO_TRACKS \<Rightarrow> evaluate_audio_tracks v (audio_tracks ctx) l
      | HAS_CHANNEL \<Rightarrow>
          (let has = (channel_id ctx \<noteq> None) in
           returns (evaluation (presence_matches has v) l (HasChannelOutcome has (channel_id ctx))))
      | CHANNEL_EXISTS_WITH_NAME \<Rightarrow> evaluate_channel_exists_name env ev v l
      | CHANNEL_EXISTS_MATCHING \<Rightarrow> evaluate_channel_exists_regex env ev v cs l
      | CHANNEL_IN_GROUP \<Rightarrow> evaluate_channel_in_group ev v (channel_id ctx) l
      | CHANNEL_HAS_STREAMS \<Rightarrow> evaluate_channel_has_streams ev v (channel_id ctx) l
      | NORMALIZED_NAME_IN_GROUP \<Rightarrow> evaluate_normalized_name_in_group ev v ctx l
      | NORMALIZED_NAME_NOT_IN_GROUP \<Rightarrow> evaluate_normalized_name_not_in_group ev v ctx l
      | NORMALIZED_NAME_EXISTS \<Rightarrow> returns (evaluate_normalized_name_exists ev ctx l)
      | NORMALIZED_NAME_NOT_EXISTS \<Rightarrow> returns (evaluate_normalized_name_not_exists ev ctx l)
      | _ \<Rightarrow> returns (evaluation False l (UnknownType PNone)))"

section \<open>Compound conditions\<close>

abbreviation type_named :: "string \<Rightarrow> type_label" where
  "type_named s \<equiv> TypeName (PStr s)"

definition apply_negation :: "bool \<Rightarrow> evaluation_result \<Rightarrow> evaluation_result" where
  "apply_negation neg r =
     (if neg then evaluation (\<not> matched r) (NotOf (label r)) (Negated (details r)) else r)"

fun evaluate_and :: "(condition \<Rightarrow> eval) \<Rightarrow> nat \<Rightarrow> condition list \<Rightarrow> eval" where
  "evaluate_and sub n [] = returns (evaluation True (type_named ''and'') (AllMatched n))"
| "evaluate_and sub n (c # cs) =
     bind_result (sub c) (\<lambda>r.
       if \<not> matched r then returns (evaluation False (type_named ''and'') (FailedAt (label r) (details r)))
       else evaluate_and sub (Suc n) cs)"

fun evaluate_or :: "(condition \<Rightarrow> eval) \<Rightarrow> nat \<Rightarrow> condition list \<Rightarrow> eval" where
  "evaluate_or sub n [] = returns (evaluation False (type_named ''or'') (NoneMatched n))"
| "evaluate_or sub n (c # cs) =
     bind_result (sub c) (\<lambda>r.
       if matched r then returns (evaluation True (type_named ''or'') (MatchedAt (label r) (details r)))
       else evaluate_or sub n cs)"

fun evaluate_not :: "(condition \<Rightarrow> eval) \<Rightarrow> condition list \<Rightarrow> eval" where
  "evaluate_not sub [c] =
     bind_result (sub c) (\<lambda>r.
       returns (evaluation (\<not> matched r) (type_named ''not'') (NegatedSub (label r) (details r))))"
| "evaluate_not sub cs = returns (evaluation False (type_named ''not'') RequiresOne)"

text \<open>\<open>_evaluate_condition\<close>; \<open>sub\<close> is the evaluation of sub-conditions, \<open>self.evaluate(_, context)\<close>.\<close>

definition evaluate_condition ::
  "(condition \<Rightarrow> eval) \<Rightarrow> eval_env \<Rightarrow> evaluator \<Rightarrow> stream_context \<Rightarrow> pyval \<Rightarrow> pyval \<Rightarrow> condition list \<Rightarrow> bool
     \<Rightarrow> eval" where
  "evaluate_condition sub env ev ctx t v subs cs =
     (case condition_type_of t of
        None \<Rightarrow> returns (evaluation False (TypeName t) (UnknownType t))
      | Some AND_TYPE \<Rightarrow>
          (if subs = [] then returns (evaluation False (type_named ''and'') NoSubConditions)
           else evaluate_and sub 0 subs)
      | Some OR_TYPE \<Rightarrow>
          (if subs = [] then returns (evaluation False (type_named ''or'') NoSubConditions)
           else evaluate_or sub (length subs) subs)
      | Some NOT_TYPE \<Rightarrow> evaluate_not sub subs
      | Some k \<Rightarrow> evaluate_leaf env ev ctx k (TypeName t) v cs)"

lemma evaluate_and_cong: "(\<And>c. c \<in> set cs \<Longrightarrow> f c = g c) \<Longrightarrow> evaluate_and f n cs = evaluate_and g n cs"
proof (induction cs arbitrary: n)
  case (Cons c cs)
  have "evaluate_and f n cs = evaluate_and g n cs" for n using Cons by simp
  then show ?case using Cons.prems by (cases "g c") simp_all
qed simp

lemma evaluate_or_cong: "(\<And>c. c \<in> set cs \<Longrightarrow> f c = g c) \<Longrightarrow> evaluate_or f n cs = evaluate_or g n cs"
proof (induction cs arbitrary: n)
  case (Cons c cs)
  have "evaluate_or f n cs = evaluate_or g n cs" for n using Cons by simp
  then show ?case using Cons.prems by (cases "g c") simp_all
qed simp

lemma evaluate_not_cong: "(\<And>c. c \<in> set cs \<Longrightarrow> f c = g c) \<Longrightarrow> evaluate_not f cs = evaluate_not g cs"
  by (cases "(f, cs)" rule: evaluate_not.cases) simp_all

lemma evaluate_condition_cong [fundef_cong]:
  assumes "env = env'" "ev = ev'" "ctx = ctx'" "t = t'" "v = v'" "subs = subs'" "cs = cs'"
    and "\<And>c. c \<in> set subs' \<Longrightarrow> f c = g c"
  shows "evaluate_condition f env ev ctx t v subs cs = evaluate_condition g env' ev' ctx' t' v' subs' cs'"
proof -
  have "evaluate_and f 0 subs' = evaluate_and g 0 subs'" using assms(8) by (rule evaluate_and_cong)
  moreover have "evaluate_or f (length subs') subs' = evaluate_or g (length subs') subs'"
    using assms(8) by (rule evaluate_or_cong)
  moreover have "evaluate_not f subs' = evaluate_not g subs'" using assms(8) by (rule evaluate_not_cong)
  ultimately show ?thesis
    unfolding evaluate_condition_def assms(1-7) by (simp split: option.split condition_type.split)
qed

text \<open>
  \<open>evaluate\<close> converts a raw dict with \<open>from_dict\<close>, whose result has no raw entries; any other raw value
  has no \<open>type\<close> attribute. The measure of the recursion counts the objects below a condition, those
  that the conversion makes included.
\<close>

fun all_objects :: "condition \<Rightarrow> bool" where
  "all_objects (Condition t v subs con cs neg) = (case subs of None \<Rightarrow> True | Some xs \<Rightarrow> list_all all_objects xs)"
| "all_objects (RawCondition v) = False"

fun object_count :: "condition \<Rightarrow> nat" where
  "object_count (Condition t v subs con cs neg) =
     Suc (case subs of None \<Rightarrow> 0 | Some xs \<Rightarrow> sum_list (map object_count xs))"
| "object_count (RawCondition v) = 0"

fun evaluation_steps :: "condition \<Rightarrow> nat" where
  "evaluation_steps (Condition t v subs con cs neg) =
     Suc (case subs of None \<Rightarrow> 0 | Some xs \<Rightarrow> sum_list (map evaluation_steps xs))"
| "evaluation_steps (RawCondition v) = (case from_dict v of Inr c \<Rightarrow> Suc (object_count c) | Inl e \<Rightarrow> 0)"

lemma map_result_elements: "map_result f xs = Inr ys \<Longrightarrow> y \<in> set ys \<Longrightarrow> \<exists>x \<in> set xs. f x = Inr y"
  by (induction xs arbitrary: ys) auto

lemma from_dict_all_objects: "from_dict v = Inr c \<Longrightarrow> all_objects c"
proof (induction v arbitrary: c rule: from_dict.induct)
  case (1 d)
  have "list_all all_objects cs"
    if "map_of d ''conditions'' = Some (PList xs)" "map_result from_dict xs = Inr cs" for xs cs
    using 1(1) [OF that(1) refl] map_result_elements [OF that(2)] unfolding list_all_iff by blast
  with 1(2) show ?case by (auto split: option.splits pyval.splits if_splits)
qed (auto split: if_splits)

lemma object_steps: "all_objects c \<Longrightarrow> evaluation_steps c = object_count c"
proof (induction c)
  case (Condition t v subs con cs neg)
  then have "map evaluation_steps xs = map object_count xs" if "subs = Some xs" for xs
    using that by (simp add: list_all_iff)
  then show ?case by (cases subs) (simp_all cong: map_cong)
qed simp

lemma bind_result_cong [fundef_cong]:
  "r = r' \<Longrightarrow> (\<And>x. r' = Inr x \<Longrightarrow> f x = g x) \<Longrightarrow> bind_result r f = bind_result r' g"
  by (cases r') simp_all

function evaluate :: "eval_env \<Rightarrow> evaluator \<Rightarrow> stream_context \<Rightarrow> condition \<Rightarrow> eval" where
  "evaluate env ev ctx (Condition t v subs con cs neg) =
     bind_result (evaluate_condition (evaluate env ev ctx) env ev ctx t v (sub_list subs) cs)
       (\<lambda>r. returns (apply_negation neg r))"
| "evaluate env ev ctx (RawCondition v) =
     (case v of PDict d \<Rightarrow> bind_result (from_dict v) (\<lambda>c. evaluate env ev ctx c) | _ \<Rightarrow> raises AttributeError)"
  by pat_completeness auto
termination
proof (relation "measure (\<lambda>(env, ev, ctx, c). evaluation_steps c)")
  fix env :: eval_env and ev :: evaluator and ctx :: stream_context and t v con :: pyval
    and subs :: "condition list option" and cs neg c
  assume "c \<in> set (sub_list subs)"
  then have "evaluation_steps c < evaluation_steps (Condition t v subs con cs neg)"
    by (cases subs) (auto simp: less_Suc_eq_le intro!: member_le_sum_list)
  then show "((env, ev, ctx, c), env, ev, ctx, Condition t v subs con cs neg)
      \<in> measure (\<lambda>(env, ev, ctx, c). evaluation_steps c)" by simp
next
  fix env :: eval_env and ev :: evaluator and ctx :: stream_context and v d c
  assume "v = PDict d" and c: "from_dict v = Inr c"
  have "evaluation_steps c < evaluation_steps (RawCondition v)"
    by (simp add: c object_steps [OF from_dict_all_objects [OF c]])
  then show "((env, ev, ctx, c), env, ev, ctx, RawCondition v) \<in> measure (\<lambda>(env, ev, ctx, c). evaluation_steps c)"
    by simp
qed simp

text \<open>The list of a rule's conditions, joined by their connectors: the groups between
  \<open>"or"\<close> breaks, then the first group all of whose conditions match.\<close>

text \<open>\<open>cond.get("connector", "and")\<close> of a dict, \<open>getattr(cond, 'connector', 'and')\<close> otherwise.\<close>

fun connector :: "condition \<Rightarrow> pyval" where
  "connector (Condition t v subs con cs neg) = con"
| "connector (RawCondition (PDict d)) = dict_get_default d ''connector'' (PStr ''and'')"
| "connector (RawCondition _) = PStr ''and''"

definition add_to_or_groups :: "condition list list \<Rightarrow> condition \<Rightarrow> condition list list" where
  "add_to_or_groups groups c =
     (if connector c = PStr ''or'' \<and> last groups \<noteq> [] then groups @ [[c]]
      else butlast groups @ [last groups @ [c]])"

definition or_groups :: "condition list \<Rightarrow> condition list list" where
  "or_groups cs = foldl add_to_or_groups [[]] cs"

fun group_matches :: "eval_env \<Rightarrow> evaluator \<Rightarrow> stream_context \<Rightarrow> condition list \<Rightarrow> (py_error, bool) result" where
  "group_matches env ev ctx [] = returns True"
| "group_matches env ev ctx (c # cs) =
     bind_result (evaluate env ev ctx c) (\<lambda>r. if matched r then group_matches env ev ctx cs else returns False)"

fun any_group_matches ::
  "eval_env \<Rightarrow> evaluator \<Rightarrow> stream_context \<Rightarrow> condition list list \<Rightarrow> (py_error, bool) result" where
  "any_group_matches env ev ctx [] = returns False"
| "any_group_matches env ev ctx (g # gs) =
     bind_result (group_matches env ev ctx g) (\<lambda>m. if m then returns True else any_group_matches env ev ctx gs)"

definition evaluate_conditions ::
  "eval_env \<Rightarrow> condition list \<Rightarrow> stream_context \<Rightarrow> dispatcharr_channel list \<Rightarrow> (py_error, bool) result" where
  "evaluate_conditions env conditions ctx channels =
     bind_result (condition_evaluator channels None) (\<lambda>ev.
       if conditions = [] then returns True
       else any_group_matches env ev ctx (or_groups conditions))"

section \<open>Wire form\<close>

text \<open>What the wire form keeps of a condition: an empty list of sub-conditions and an empty connector are
  not written, and their defaults \<open>None\<close> and \<open>"and"\<close> come back.\<close>

fun wire_normal :: "condition \<Rightarrow> condition" where
  "wire_normal (Condition t v subs con cs neg) =
     Condition t v
       (case subs of None \<Rightarrow> None | Some xs \<Rightarrow> if xs = [] then None else Some (map wire_normal xs))
       (if truthy con then con else PStr ''and'') cs neg"
| "wire_normal (RawCondition v) = RawCondition v"

text \<open>Nothing of it is lost: no empty list and no empty connector at any depth.\<close>

fun wire_faithful :: "condition \<Rightarrow> bool" where
  "wire_faithful (Condition t v subs con cs neg) \<longleftrightarrow>
     truthy con \<and> (case subs of None \<Rightarrow> True | Some xs \<Rightarrow> xs \<noteq> [] \<and> list_all wire_faithful xs)"
| "wire_faithful (RawCondition v) \<longleftrightarrow> True"

lemma map_id_iff: "map f xs = xs \<longleftrightarrow> (\<forall>x \<in> set xs. f x = x)"
  by (induction xs) auto

lemma wire_normal_id: "wire_normal c = c \<longleftrightarrow> wire_faithful c"
proof (induction c)
  case (Condition t v subs con cs neg)
  show ?case
  proof (cases subs)
    case (Some xs)
    with Condition have "map wire_normal xs = xs \<longleftrightarrow> list_all wire_faithful xs"
      by (simp add: map_id_iff list_all_iff)
    moreover have "con \<noteq> PStr ''and'' \<or> truthy con" by auto
    ultimately show ?thesis using Some by auto
  qed auto
qed simp

lemma map_result_normal: "\<forall>x \<in> set xs. f (g x) = Inr (h x) \<Longrightarrow> map_result f (map g xs) = Inr (map h xs)"
  by (induction xs) simp_all

lemma from_dict_to_dict: "all_objects c \<Longrightarrow> from_dict (to_dict c) = Inr (wire_normal c)"
proof (induction c)
  case (Condition t v subs con cs neg)
  have subs: "map_result from_dict (map to_dict xs) = Inr (map wire_normal xs)" if "subs = Some xs" for xs
    using Condition that by (intro map_result_normal) (auto simp: list_all_iff)
  show ?case
    by (cases subs)
      (auto simp: subs dict_get_default_def dict_get_def map_add_def split: option.splits if_splits)
qed simp

text \<open>C39. For a condition all of whose sub-conditions are \<open>Condition\<close> objects, reading back what
  \<open>to_dict\<close> writes always succeeds and gives the condition again at every depth, but for two things:
  an empty list of sub-conditions comes back as \<open>None\<close> and an empty connector as \<open>"and"\<close>. The
  very same condition comes back iff it has neither.\<close>

theorem condition_wire_roundtrip:
  assumes "all_objects c"
  shows "from_dict (to_dict c) = returns (wire_normal c) \<and>
         (from_dict (to_dict c) = returns c \<longleftrightarrow> wire_faithful c)"
  using from_dict_to_dict [OF assms] wire_normal_id [of c] by simp

theorem condition_wire_roundtrip_witness:
  "from_dict (to_dict (Condition (PStr ''and'') PNone
      (Some [Condition (PStr ''or'') (PInt 720) (Some []) (PStr []) False True,
             Condition (PStr ''stream_name_contains'') (PStr ''ESPN'') None (PStr ''or'') True False])
      (PStr ''and'') False False))
   = returns (Condition (PStr ''and'') PNone
      (Some [Condition (PStr ''or'') (PInt 720) None (PStr ''and'') False True,
             Condition (PStr ''stream_name_contains'') (PStr ''ESPN'') None (PStr ''or'') True False])
      (PStr ''and'') False False)"
  by (subst condition_wire_roundtrip [THEN conjunct1]) simp_all

section \<open>Boolean meaning\<close>

definition returns_result :: "eval_env \<Rightarrow> evaluator \<Rightarrow> stream_context \<Rightarrow> condition \<Rightarrow> bool" where
  "returns_result env ev ctx c \<longleftrightarrow> (\<exists>r. evaluate env ev ctx c = Inr r)"

definition holds :: "eval_env \<Rightarrow> evaluator \<Rightarrow> stream_context \<Rightarrow> condition \<Rightarrow> bool" where
  "holds env ev ctx c \<longleftrightarrow> (case evaluate env ev ctx c of Inr r \<Rightarrow> matched r | Inl e \<Rightarrow> False)"

lemma matched_apply_negation [simp]: "matched (apply_negation neg r) \<longleftrightarrow> neg \<noteq> matched r"
  by (simp add: apply_negation_def)

lemma returns_resultE:
  assumes "returns_result env ev ctx c"
  obtains r where "evaluate env ev ctx c = Inr r" "holds env ev ctx c = matched r"
  using assms by (auto simp: returns_result_def holds_def)

lemma evaluate_and_meaning:
  assumes "\<forall>c \<in> set cs. returns_result env ev ctx c"
  shows "\<exists>r. evaluate_and (evaluate env ev ctx) n cs = Inr r \<and> (matched r \<longleftrightarrow> (\<forall>c \<in> set cs. holds env ev ctx c))"
  using assms
proof (induction cs arbitrary: n)
  case (Cons c cs)
  then obtain r where r: "evaluate env ev ctx c = Inr r" "holds env ev ctx c = matched r"
    by (auto elim: returns_resultE)
  with Cons.IH [of "Suc n"] Cons.prems show ?case by (cases "matched r") auto
qed simp

lemma evaluate_or_meaning:
  assumes "\<forall>c \<in> set cs. returns_result env ev ctx c"
  shows "\<exists>r. evaluate_or (evaluate env ev ctx) n cs = Inr r \<and> (matched r \<longleftrightarrow> (\<exists>c \<in> set cs. holds env ev ctx c))"
  using assms
proof (induction cs arbitrary: n)
  case (Cons c cs)
  then obtain r where r: "evaluate env ev ctx c = Inr r" "holds env ev ctx c = matched r"
    by (auto elim: returns_resultE)
  with Cons.IH [of n] Cons.prems show ?case by (cases "matched r") auto
qed simp

lemma compound_types [simp]:
  "map_of condition_type_values ''and'' = Some AND_TYPE"
  "map_of condition_type_values ''or'' = Some OR_TYPE"
  "map_of condition_type_values ''not'' = Some NOT_TYPE"
  by (simp_all add: condition_type_values_def)

text \<open>Compound conditions are the propositional connectives, short-circuiting included: when the
  sub-conditions evaluate, an \<open>and\<close> matches iff it has sub-conditions and all of them match, an
  \<open>or\<close> iff one of them matches, a \<open>not\<close> over one sub-condition iff it does not match, and
  \<open>negate\<close> inverts whatever the condition gave.\<close>

theorem compound_conditions_are_boolean:
  assumes subs: "\<forall>c \<in> set subs. returns_result env ev ctx c"
    and one: "returns_result env ev ctx c"
  shows "holds env ev ctx (Condition (PStr ''and'') v (Some subs) con cs neg) =
           (neg \<noteq> (subs \<noteq> [] \<and> (\<forall>c \<in> set subs. holds env ev ctx c))) \<and>
         holds env ev ctx (Condition (PStr ''or'') v (Some subs) con cs neg) =
           (neg \<noteq> (\<exists>c \<in> set subs. holds env ev ctx c)) \<and>
         holds env ev ctx (Condition (PStr ''not'') v (Some [c]) con cs neg) =
           (neg \<noteq> (\<not> holds env ev ctx c))"
proof -
  obtain r where r: "evaluate env ev ctx c = Inr r" "holds env ev ctx c = matched r"
    using one by (rule returns_resultE)
  obtain ra where ra: "evaluate_and (evaluate env ev ctx) 0 subs = Inr ra"
    "matched ra \<longleftrightarrow> (\<forall>c \<in> set subs. holds env ev ctx c)"
    using evaluate_and_meaning [OF subs] by blast
  obtain ro where ro: "evaluate_or (evaluate env ev ctx) (length subs) subs = Inr ro"
    "matched ro \<longleftrightarrow> (\<exists>c \<in> set subs. holds env ev ctx c)"
    using evaluate_or_meaning [OF subs] by blast
  have "holds env ev ctx (Condition (PStr ''and'') v (Some subs) con cs neg) =
        (neg \<noteq> (subs \<noteq> [] \<and> (\<forall>c \<in> set subs. holds env ev ctx c)))"
    unfolding ra(2) [symmetric] by (simp add: holds_def evaluate_condition_def ra(1))
  moreover have "holds env ev ctx (Condition (PStr ''or'') v (Some subs) con cs neg) =
        (neg \<noteq> (\<exists>c \<in> set subs. holds env ev ctx c))"
    unfolding ro(2) [symmetric] by (cases "subs = []") (use ro in \<open>simp_all add: holds_def evaluate_condition_def\<close>)
  moreover have "holds env ev ctx (Condition (PStr ''not'') v (Some [c]) con cs neg) = (neg \<noteq> (\<not> holds env ev ctx c))"
    unfolding r(2) by (simp add: holds_def evaluate_condition_def r(1))
  ultimately show ?thesis by blast
qed

section \<open>Connectors\<close>

text \<open>The reference reading of a flat list with connectors: one pass, an accumulator for the
  conjunction read so far, closed by every \<open>"or"\<close>.\<close>

fun precedence :: "bool \<Rightarrow> (bool \<times> bool) list \<Rightarrow> bool" where
  "precedence acc [] = acc"
| "precedence acc ((starts_or, m) # xs) =
     (if starts_or then acc \<or> precedence m xs else precedence (acc \<and> m) xs)"

lemma or_groups_meaning:
  assumes "g \<noteq> []"
  shows "(\<exists>h \<in> set (foldl add_to_or_groups (gs @ [g]) cs). \<forall>c \<in> set h. P c) \<longleftrightarrow>
         (\<exists>h \<in> set gs. \<forall>c \<in> set h. P c) \<or>
         precedence (\<forall>c \<in> set g. P c) (map (\<lambda>c. (connector c = PStr ''or'', P c)) cs)"
  using assms
proof (induction cs arbitrary: gs g)
  case Nil
  then show ?case by auto
next
  case (Cons c cs)
  show ?case
  proof (cases "connector c = PStr ''or''")
    case True
    with Cons.prems Cons.IH [of "[c]" "gs @ [g]"] show ?thesis by (simp add: add_to_or_groups_def) blast
  next
    case False
    with Cons.IH [of "g @ [c]" gs] show ?thesis by (simp add: add_to_or_groups_def conj_commute)
  qed
qed

lemma or_groups_elements:
  "gs \<noteq> [] \<Longrightarrow> \<Union> (set ` set (foldl add_to_or_groups gs cs)) = \<Union> (set ` set gs) \<union> set cs"
proof (induction cs arbitrary: gs)
  case (Cons c cs)
  have step: "add_to_or_groups gs c \<noteq> []" by (simp add: add_to_or_groups_def)
  from Cons.prems obtain hs h where "gs = hs @ [h]" by (cases gs rule: rev_cases) auto
  then have "\<Union> (set ` set (add_to_or_groups gs c)) = \<Union> (set ` set gs) \<union> {c}"
    by (auto simp: add_to_or_groups_def)
  with Cons.IH [OF step] show ?case by simp
qed simp

lemma group_matches_meaning:
  "\<forall>c \<in> set cs. returns_result env ev ctx c \<Longrightarrow>
   group_matches env ev ctx cs = Inr (\<forall>c \<in> set cs. holds env ev ctx c)"
proof (induction cs)
  case (Cons c cs)
  then obtain r where "evaluate env ev ctx c = Inr r" "holds env ev ctx c = matched r"
    by (auto elim: returns_resultE)
  with Cons show ?case by simp
qed simp

lemma any_group_matches_meaning:
  "\<forall>g \<in> set gs. \<forall>c \<in> set g. returns_result env ev ctx c \<Longrightarrow>
   any_group_matches env ev ctx gs = Inr (\<exists>g \<in> set gs. \<forall>c \<in> set g. holds env ev ctx c)"
  by (induction gs) (auto simp: group_matches_meaning)

text \<open>C28. The connectors of a rule's condition list have the usual precedence: the result is that
  of reading the list once from the left with \<open>and\<close> binding tighter than \<open>or\<close>. The connector of
  the first condition is ignored, whatever it is.\<close>

theorem and_binds_tighter_than_or:
  assumes ev: "condition_evaluator channels None = returns ev"
    and subs: "\<forall>d \<in> set (c # cs). returns_result env ev ctx d"
  shows "evaluate_conditions env (c # cs) ctx channels =
         returns (precedence (holds env ev ctx c)
           (map (\<lambda>d. (connector d = PStr ''or'', holds env ev ctx d)) cs))"
proof -
  have start: "or_groups (c # cs) = foldl add_to_or_groups ([] @ [[c]]) cs"
    by (simp add: or_groups_def add_to_or_groups_def)
  have "\<forall>g \<in> set (or_groups (c # cs)). \<forall>d \<in> set g. returns_result env ev ctx d"
    using or_groups_elements [of "[[]]" "c # cs"] subs unfolding or_groups_def by auto
  from any_group_matches_meaning [OF this]
  show ?thesis
    using or_groups_meaning [of "[c]" "[]" cs "holds env ev ctx"] by (simp add: evaluate_conditions_def ev start)
qed

section \<open>Validated conditions evaluate\<close>

text \<open>\<open>validate\<close> lets \<open>NaN\<close> and \<open>Infinity\<close> through as numbers; \<open>int()\<close> of them raises, which only
  \<open>has_audio_tracks\<close> does. The comparison there also needs a stream whose audio count is known.\<close>

fun audio_comparable :: "stream_context \<Rightarrow> condition \<Rightarrow> bool" where
  "audio_comparable ctx (Condition t v subs con cs neg) \<longleftrightarrow>
     (condition_type_of t = Some HAS_AUDIO_TRACKS \<longrightarrow>
        v \<noteq> PFloat Inf \<and> v \<noteq> PFloat NaN \<and> audio_tracks ctx \<noteq> None) \<and>
     (case subs of None \<Rightarrow> True | Some xs \<Rightarrow> list_all (audio_comparable ctx) xs)"
| "audio_comparable ctx (RawCondition v) \<longleftrightarrow> True"

lemma expand_str_is_str: "is_str v \<Longrightarrow> is_str (expand env r v)"
  by (cases v) (simp_all add: expand_def expand_str)

lemma is_strE: "is_str v \<Longrightarrow> (\<And>s. v = PStr s \<Longrightarrow> P) \<Longrightarrow> P"
  by (cases v) simp_all

lemma is_intE: "is_int v \<Longrightarrow> (\<And>n. v = PInt n \<Longrightarrow> P) \<Longrightarrow> (\<And>b. v = PBool b \<Longrightarrow> P) \<Longrightarrow> P"
  by (cases v) simp_all

lemma count_compares:
  assumes "\<not> not_a_count v"
  shows "\<exists>b. int_ge n v = Inr b" "\<exists>b. int_le n v = Inr b"
proof -
  show "\<exists>b. int_ge n v = Inr b" using assms by (cases "(n, v)" rule: int_ge.cases) auto
  show "\<exists>b. int_le n v = Inr b" using assms by (cases "(n, v)" rule: int_le.cases) auto
qed

lemma count_is_int:
  "\<not> not_a_count v \<Longrightarrow> v \<noteq> PFloat Inf \<Longrightarrow> v \<noteq> PFloat NaN \<Longrightarrow> \<exists>n. py_int v = Inr n"
  by (cases v rule: py_int.cases) simp_all

lemma map_str_lower: "list_all is_str xs \<Longrightarrow> \<exists>ys. map_result str_lower xs = Inr ys"
proof (induction xs)
  case (Cons x xs)
  then show ?case by (auto elim: is_strE)
qed simp

lemma fold_result_all:
  "fold_result f xs s = Inr t \<Longrightarrow> x \<in> set xs \<Longrightarrow> \<exists>s' t'. f x s' = Inr t'"
  by (induction xs arbitrary: s) auto

lemma indexed_channels_have_groups:
  assumes "condition_evaluator channels engine = returns ev"
    and "map_of (ev_channel_by_id ev) i = Some c"
  shows "\<exists>g. group_of_channel c = Inr g"
proof -
  from assms(1) obtain groups where groups: "fold_result index_channel channels [] = Inr groups"
    and "ev_channel_by_id ev = rev (map (\<lambda>c. (ch_id c, c)) channels)"
    by (auto simp: condition_evaluator_def Let_def)
  with map_of_SomeD [OF assms(2)] have "c \<in> set channels" by auto
  from fold_result_all [OF groups this] show ?thesis by (auto simp: index_channel_def)
qed

lemma regex_returns: "is_str v \<Longrightarrow> \<exists>r. evaluate_regex env v txt cs l = Inr r"
  using expand_str_is_str [of v env True] by (auto simp: evaluate_regex_def Let_def elim!: is_strE)

lemma contains_returns: "is_str v \<Longrightarrow> \<exists>r. evaluate_contains env v txt cs l = Inr r"
  using expand_str_is_str [of v env False] by (auto simp: evaluate_contains_def Let_def elim!: is_strE)

lemma exists_name_returns: "is_str v \<Longrightarrow> \<exists>r. evaluate_channel_exists_name env ev v l = Inr r"
  using expand_str_is_str [of v env False]
  by (auto simp: evaluate_channel_exists_name_def Let_def elim!: is_strE)

lemma exists_regex_returns: "is_str v \<Longrightarrow> \<exists>r. evaluate_channel_exists_regex env ev v cs l = Inr r"
  using expand_str_is_str [of v env True]
  by (auto simp: evaluate_channel_exists_regex_def compile_pattern_def elim!: is_strE)

lemma codec_returns:
  assumes "case v of PList xs \<Rightarrow> list_all is_str xs | _ \<Rightarrow> is_str v"
  shows "\<exists>r. evaluate_codec_is v a l = Inr r"
proof (cases a)
  case None
  then show ?thesis by (simp add: evaluate_codec_is_def)
next
  case (Some t)
  with assms map_str_lower show ?thesis
    by (cases v) (auto simp: evaluate_codec_is_def Let_def)
qed

lemma quality_returns:
  assumes "\<not> not_a_count v"
  shows "\<exists>r. evaluate_quality_min v h l = Inr r" "\<exists>r. evaluate_quality_max v h l = Inr r"
  using count_compares [OF assms]
  by (auto simp: evaluate_quality_min_def evaluate_quality_max_def split: option.split)

lemma has_streams_returns:
  assumes "\<not> not_a_count v"
  shows "\<exists>r. evaluate_channel_has_streams ev v cid l = Inr r"
  using count_compares(1) [OF assms]
  by (auto simp: evaluate_channel_has_streams_def Let_def split: option.split)

lemma in_group_returns:
  assumes "condition_evaluator channels engine = returns ev"
  shows "\<exists>r. evaluate_channel_in_group ev v cid l = Inr r"
proof (cases cid)
  case (Some i)
  show ?thesis
  proof (cases "map_of (ev_channel_by_id ev) i")
    case (Some c)
    with indexed_channels_have_groups [OF assms Some] \<open>cid = Some i\<close> show ?thesis
      by (auto simp: evaluate_channel_in_group_def Let_def)
  qed (use Some in \<open>simp add: evaluate_channel_in_group_def\<close>)
qed (simp add: evaluate_channel_in_group_def)

lemma normalized_in_group_returns:
  "is_int v \<Longrightarrow> \<exists>r. evaluate_normalized_name_in_group ev v ctx l = Inr r"
  by (erule is_intE) (auto simp: evaluate_normalized_name_in_group_def group_names_of_def Let_def)

lemma audio_returns:
  "\<not> not_a_count v \<Longrightarrow> v \<noteq> PFloat Inf \<Longrightarrow> v \<noteq> PFloat NaN \<Longrightarrow> n \<noteq> None \<Longrightarrow> \<exists>r. evaluate_audio_tracks v n l = Inr r"
  using count_is_int [of v] by (auto simp: evaluate_audio_tracks_def)

lemmas leaf_returns = regex_returns contains_returns exists_name_returns exists_regex_returns
  codec_returns quality_returns has_streams_returns in_group_returns normalized_in_group_returns
  audio_returns

lemma validated_string: "validate_value env k t v = Inr [] \<Longrightarrow> k \<in> set string_valued \<Longrightarrow> is_str v"
  by (auto simp: validate_value_def Let_def split: if_splits sum.splits)

lemma validated_codec:
  "validate_value env CODEC_IS t v = Inr [] \<Longrightarrow> case v of PList xs \<Rightarrow> list_all is_str xs | _ \<Rightarrow> is_str v"
  by (cases v) (auto simp: validate_value_def string_valued_def split: if_splits)

lemma validated_count:
  "validate_value env k t v = Inr [] \<Longrightarrow> k \<in> {QUALITY_MIN, QUALITY_MAX, CHANNEL_HAS_STREAMS, HAS_AUDIO_TRACKS}
   \<Longrightarrow> \<not> not_a_count v"
  by (auto simp: validate_value_def string_valued_def split: if_splits)

lemma validated_group:
  "validate_value env k t v = Inr [] \<Longrightarrow> k \<in> {NORMALIZED_NAME_IN_GROUP, NORMALIZED_NAME_NOT_IN_GROUP} \<Longrightarrow> is_int v"
  by (auto simp: validate_value_def string_valued_def split: if_splits)

lemma validated_leaf_returns:
  assumes ev: "condition_evaluator channels engine = returns ev"
    and ok: "validate_value env k t v = Inr []"
    and audio: "k = HAS_AUDIO_TRACKS \<Longrightarrow> v \<noteq> PFloat Inf \<and> v \<noteq> PFloat NaN \<and> audio_tracks ctx \<noteq> None"
  shows "\<exists>r. evaluate_leaf env ev ctx k l v cs = Inr r"
proof -
  note str = validated_string [OF ok, unfolded string_valued_def]
  note count = validated_count [OF ok]
  note grp = validated_group [OF ok]
  show ?thesis
  proof (cases k)
    case NORMALIZED_NAME_NOT_IN_GROUP
    with grp normalized_in_group_returns show ?thesis
      by (fastforce simp: evaluate_leaf_def evaluate_normalized_name_not_in_group_def)
  next
    case PROVIDER_IS
    then show ?thesis
      by (simp add: evaluate_leaf_def evaluate_provider_is_def Let_def split: option.split)
  next
    case CODEC_IS
    with ok validated_codec codec_returns show ?thesis by (simp add: evaluate_leaf_def)
  next
    case STREAM_GROUP_IS
    then show ?thesis by (simp add: evaluate_leaf_def evaluate_equals_def Let_def)
  qed (use str count grp audio leaf_returns in_group_returns [OF ev] in
        \<open>simp_all add: evaluate_leaf_def Let_def\<close>)
qed

lemma validate_subs_all:
  "validate_subs env t i cs = Inr [] \<Longrightarrow> c \<in> set cs \<Longrightarrow> validate env c = Inr []"
  by (induction cs arbitrary: i) auto

lemma evaluate_by_type:
  assumes "condition_type_of t \<noteq> Some AND_TYPE" "condition_type_of t \<noteq> Some OR_TYPE"
    "condition_type_of t \<noteq> Some NOT_TYPE" "condition_type_of t = Some k"
  shows "evaluate env ev ctx (Condition t v subs con cs neg) =
           bind_result (evaluate_leaf env ev ctx k (TypeName t) v cs) (\<lambda>r. returns (apply_negation neg r))"
    and "validate env (Condition t v subs con cs neg) = validate_value env k t v"
  using assms by (cases k; simp add: evaluate_condition_def)+

lemma evaluate_compound:
  assumes "\<forall>c \<in> set (sub_list subs). returns_result env ev ctx c" "condition_type_of t = Some k"
    and "k \<in> {AND_TYPE, OR_TYPE} \<or> (k = NOT_TYPE \<and> length (sub_list subs) = 1)"
  shows "returns_result env ev ctx (Condition t v subs con cs neg)"
proof -
  consider "k = AND_TYPE" | "k = OR_TYPE" | c where "k = NOT_TYPE" "sub_list subs = [c]"
    using assms(3) by (auto simp: length_Suc_conv)
  then show ?thesis
  proof cases
    case 1
    with assms(2) evaluate_and_meaning [OF assms(1), of 0] show ?thesis
      by (auto simp: returns_result_def evaluate_condition_def)
  next
    case 2
    with assms(2) evaluate_or_meaning [OF assms(1), of "length (sub_list subs)"] show ?thesis
      by (auto simp: returns_result_def evaluate_condition_def)
  next
    case 3
    with assms(1,2) show ?thesis by (auto simp: returns_result_def evaluate_condition_def)
  qed
qed

lemma validated_subs:
  assumes "validate env (Condition t v subs con cs neg) = Inr []" "condition_type_of t = Some k"
    and "k \<in> {AND_TYPE, OR_TYPE, NOT_TYPE}"
  shows "\<forall>c \<in> set (sub_list subs). validate env c = Inr []" "k = NOT_TYPE \<Longrightarrow> length (sub_list subs) = 1"
proof -
  show "\<forall>c \<in> set (sub_list subs). validate env c = Inr []"
    using assms validate_subs_all [of env t 0 "sub_list subs"]
    by (auto split: option.splits list.splits simp del: validate_subs.simps)
  show "k = NOT_TYPE \<Longrightarrow> length (sub_list subs) = 1"
    using assms by (auto split: option.splits list.splits)
qed

lemma validated_returns:
  assumes ev: "condition_evaluator channels engine = returns ev"
    and "validate env c = returns []" "all_objects c" "audio_comparable ctx c"
  shows "returns_result env ev ctx c"
  using assms(2-4)
proof (induction c)
  case (Condition t v subs con cs neg)
  obtain k where k: "condition_type_of t = Some k"
    using Condition.prems(1) by (cases "condition_type_of t") auto
  show ?case
  proof (cases "k \<in> {AND_TYPE, OR_TYPE, NOT_TYPE}")
    case True
    note subs = validated_subs [OF Condition.prems(1) k True]
    have "\<forall>c \<in> set (sub_list subs). returns_result env ev ctx c"
      using Condition.IH Condition.prems(2,3) subs(1) by (cases subs) (auto simp: list_all_iff)
    with evaluate_compound [OF _ k] True subs(2) show ?thesis by auto
  next
    case False
    then have by_type: "condition_type_of t \<noteq> Some AND_TYPE" "condition_type_of t \<noteq> Some OR_TYPE"
      "condition_type_of t \<noteq> Some NOT_TYPE" using k by auto
    have ok: "validate_value env k t v = Inr []"
      using Condition.prems(1) evaluate_by_type(2) [OF by_type k] by simp
    have audio: "k = HAS_AUDIO_TRACKS \<Longrightarrow> v \<noteq> PFloat Inf \<and> v \<noteq> PFloat NaN \<and> audio_tracks ctx \<noteq> None"
      using Condition.prems(3) k by simp
    obtain r where "evaluate_leaf env ev ctx k (TypeName t) v cs = Inr r"
      using validated_leaf_returns [OF ev ok audio] by blast
    then show ?thesis unfolding returns_result_def evaluate_by_type(1) [OF by_type k] by simp
  qed
qed simp

text \<open>C6. A condition that \<open>from_dict\<close> reads and \<open>validate\<close> accepts evaluates without an exception
  against every evaluator that could be built, as an object and as the stored dict alike, whatever
  its nesting: the write-time checks cover every operation the evaluator applies to the untyped
  value. Only \<open>has_audio_tracks\<close> needs more: that its count is not \<open>NaN\<close> or \<open>Infinity\<close>, which validation
  accepts as numbers, and that the audio count of the stream is known.\<close>

theorem validated_condition_never_raises:
  assumes "condition_evaluator channels engine = returns ev"
    and "from_dict (PDict d) = returns c" "validate env c = returns []" "audio_comparable ctx c"
  shows "\<exists>r. evaluate env ev ctx c = returns r \<and> evaluate env ev ctx (RawCondition (PDict d)) = returns r"
proof -
  from validated_returns [OF assms(1,3) from_dict_all_objects [OF assms(2)] assms(4)]
  obtain r where "evaluate env ev ctx c = Inr r" by (auto simp: returns_result_def)
  then show ?thesis by (simp add: assms(2) del: from_dict.simps)
qed

text \<open>On a probed stream whose audio count is unknown, every \<open>has_audio_tracks\<close> condition that
  validates raises: a whole number is all it takes.\<close>

lemma unknown_audio_count_raises:
  assumes "audio_tracks ctx = None"
  shows "validate env (Condition (PStr ''has_audio_tracks'') (PInt 2) None con cs neg) = returns [] \<and>
    evaluate env ev ctx (Condition (PStr ''has_audio_tracks'') (PInt 2) None con cs neg) = raises TypeError"
  using assms by (simp add: condition_type_values_def validate_value_def string_valued_def evaluate_condition_def
      evaluate_leaf_def evaluate_audio_tracks_def)

section \<open>A sample evaluation\<close>

text \<open>Concrete arguments for the witnesses: a library that finds its pattern as a substring, a
  calendar with one day, one channel, one stream.\<close>

definition sample_env :: eval_env where
  "sample_env = \<lparr>regex_lib = \<lparr>rx_search = \<lambda>p t i. RxValue (py_contains p t), rx_compiles = \<lambda>p. True, rx_late = \<lambda>t. False\<rparr>,
     calendar_of = \<lambda>i f. Some ''2026-01-31'', str_of_other = \<lambda>v. ''?''\<rparr>"

definition sample_channel :: dispatcharr_channel where
  "sample_channel = \<lparr>ch_id = 7, ch_name = ''5 | espn'', ch_group_id = Some 3, ch_group = GroupAbsent, ch_streams = Some [1, 2]\<rparr>"

definition sample_stream :: stream_context where
  "sample_stream = \<lparr>stream_id = 1, stream_name = ''ESPN'', stream_url = None, group_name = Some ''Sports'',
     channel_group_id = None, tvg_id = None, tvg_name = None, logo_url = None, m3u_account_id = Some 2,
     m3u_account_name = None, is_custom = False, is_catchup = False, resolution = None,
     resolution_height = Some 1080, video_codec = None, audio_codec = None, audio_tracks = Some 2, bitrate = None,
     channel_id = Some 7, channel_name = None, m3u_position = 1, stream_chno = None, ctx_normalized_name = None\<rparr>"

definition sample_evaluator :: evaluator where
  "sample_evaluator = \<lparr>ev_channels = [sample_channel], ev_engine = None, ev_channel_by_id = [(7, sample_channel)],
     ev_channel_names = [''5 | espn''], ev_names_by_group = [(3, [''5 | espn'', ''espn''])],
     ev_all_names = [''5 | espn'', ''espn'']\<rparr>"

lemma sample_evaluator_built: "condition_evaluator [sample_channel] None = returns sample_evaluator"
  by (simp add: condition_evaluator_def index_channel_def group_of_channel_def sample_channel_def Let_def
      sample_evaluator_def add_channel_names_def strip_channel_number_def add_name_def py_lower_def
      py_lower_char_def py_is_digit_def py_is_space_def)

abbreviation quality_at_least :: "int \<Rightarrow> pyval \<Rightarrow> condition" where
  "quality_at_least n con \<equiv> Condition (PStr ''quality_min'') (PInt n) None con False False"

lemma type_quality_min [simp]: "map_of condition_type_values ''quality_min'' = Some QUALITY_MIN"
  by (simp add: condition_type_values_def)

lemma sample_quality:
  "evaluate sample_env ev sample_stream (quality_at_least n con) =
     Inr (evaluation (n \<le> 1080) (type_named ''quality_min'') (QualityOutcome 1080 (PInt n) (n \<le> 1080)))"
  by (simp add: evaluate_condition_def evaluate_leaf_def evaluate_quality_min_def sample_stream_def apply_negation_def)

lemma sample_quality_holds:
  "returns_result sample_env ev sample_stream (quality_at_least n con)"
  "holds sample_env ev sample_stream (quality_at_least n con) \<longleftrightarrow> n \<le> 1080"
  unfolding returns_result_def holds_def sample_quality by simp_all

definition sample_dict :: "(string \<times> pyval) list" where
  "sample_dict = [(''type'', PStr ''and''), (''negate'', PBool True),
     (''conditions'', PList [PDict [(''type'', PStr ''quality_min''), (''value'', PInt 720)]])]"

definition sample_condition :: condition where
  "sample_condition = Condition (PStr ''and'') PNone (Some [quality_at_least 720 (PStr ''and'')]) (PStr ''and'') False True"

lemma sample_dict_read: "from_dict (PDict sample_dict) = returns sample_condition"
  by (simp add: sample_dict_def sample_condition_def dict_get_default_def dict_get_def)

theorem validated_condition_never_raises_witness:
  "\<exists>r. evaluate sample_env sample_evaluator sample_stream sample_condition = returns r
     \<and> evaluate sample_env sample_evaluator sample_stream (RawCondition (PDict sample_dict)) = returns r"
  by (rule validated_condition_never_raises [OF sample_evaluator_built sample_dict_read])
    (simp_all add: sample_condition_def validate_value_def string_valued_def)

theorem compound_conditions_are_boolean_witness:
  "holds sample_env sample_evaluator sample_stream
     (Condition (PStr ''or'') PNone (Some [quality_at_least 2160 (PStr ''and''), quality_at_least 720 (PStr ''and'')])
        (PStr ''and'') False False)"
  using compound_conditions_are_boolean
    [of "[quality_at_least 2160 (PStr ''and''), quality_at_least 720 (PStr ''and'')]" sample_env sample_evaluator
      sample_stream "quality_at_least 720 (PStr ''and'')" PNone "PStr ''and''" False False]
  by (simp add: sample_quality_holds del: evaluate.simps)

theorem and_binds_tighter_than_or_witness:
  "evaluate_conditions sample_env
     [quality_at_least 2160 (PStr ''or''), quality_at_least 720 (PStr ''and''), quality_at_least 480 (PStr ''or'')]
     sample_stream [sample_channel] = returns True"
  using and_binds_tighter_than_or [OF sample_evaluator_built, of "quality_at_least 2160 (PStr ''or'')"
      "[quality_at_least 720 (PStr ''and''), quality_at_least 480 (PStr ''or'')]" sample_env sample_stream]
  by (simp add: sample_quality_holds)

text \<open>A regular-expression condition without a value is not reported as a validation error: after
  noting the missing string, \<open>validate\<close> still hands the value to \<open>safe_regex.compile\<close>, whose
  \<open>len()\<close> raises \<open>TypeError\<close>. The same holds for a number or a boolean in place of the pattern.\<close>

theorem missing_pattern_breaks_validation:
  assumes "t \<in> {''stream_name_matches'', ''stream_group_matches'', ''tvg_id_matches'', ''channel_exists_matching''}"
    and "v = PNone \<or> v = PBool b \<or> v = PInt n \<or> v = PFloat f"
  shows "validate env (Condition (PStr t) v subs con cs neg) = raises TypeError"
proof -
  from assms(1) obtain k where k: "condition_type_of (PStr t) = Some k" "k \<in> set regex_valued"
    by (auto simp: condition_type_values_def regex_valued_def)
  then have "k \<in> set string_valued" "k \<notin> {AND_TYPE, OR_TYPE, NOT_TYPE}"
    by (auto simp: regex_valued_def string_valued_def)
  moreover have "compile_pattern env (expand env True v) = raises TypeError"
    using assms(2) by (auto simp: compile_pattern_def expand_def expand_date_placeholders_def)
  ultimately show ?thesis
    using k evaluate_by_type(2) [of "PStr t" k] by (auto simp: validate_value_def)
qed

theorem missing_pattern_breaks_validation_witness:
  "validate sample_env (Condition (PStr ''stream_name_matches'') PNone None (PStr ''and'') False False) = raises TypeError"
  by (rule missing_pattern_breaks_validation) simp_all

section \<open>The name indices\<close>

text \<open>What the indices are for: the names under which a channel is found.\<close>

definition channel_names_of :: "engine \<Rightarrow> dispatcharr_channel \<Rightarrow> string set" where
  "channel_names_of engine c =
     {py_lower (ch_name c), py_lower (strip_channel_number (ch_name c))} \<union>
     {py_lower n |n run. engine = Some run \<and> run (strip_channel_number (ch_name c)) = Some n \<and> n \<noteq> []}"

definition in_group :: "dispatcharr_channel \<Rightarrow> int \<Rightarrow> bool" where
  "in_group c g \<longleftrightarrow> g \<noteq> 0 \<and> group_of_channel c = Inr (Some g)"

definition members :: "(int \<times> 'a list) list \<Rightarrow> int \<Rightarrow> 'a set" where
  "members groups g = (case map_of groups g of None \<Rightarrow> {} | Some cs \<Rightarrow> set cs)"

lemma members_Nil [simp]: "members [] g = {}"
  by (simp add: members_def)

lemma members_Cons [simp]: "members ((h, cs) # groups) g = (if g = h then set cs else members groups g)"
  by (simp add: members_def)

lemma members_append: "members (append_to_group h c groups) g = members groups g \<union> (if g = h then {c} else {})"
  by (induction groups) (auto split: if_splits)

lemma members_step:
  "index_channel c gs = Inr gs' \<Longrightarrow> members gs' g = members gs g \<union> (if in_group c g then {c} else {})"
proof -
  assume "index_channel c gs = Inr gs'"
  then obtain k where k: "group_of_channel c = Inr k"
    and "gs' = (case k of Some i \<Rightarrow> if i \<noteq> 0 then append_to_group i c gs else gs | None \<Rightarrow> gs)"
    by (auto simp: index_channel_def)
  then show ?thesis by (cases k) (auto simp: in_group_def members_append)
qed

lemma members_index:
  "fold_result index_channel channels gs = Inr groups \<Longrightarrow>
   members groups g = members gs g \<union> {c \<in> set channels. in_group c g}"
proof (induction channels arbitrary: gs)
  case (Cons c channels)
  from Cons.prems obtain gs' where step: "index_channel c gs = Inr gs'"
    and rest: "fold_result index_channel channels gs' = Inr groups" by auto
  show ?case unfolding Cons.IH [OF rest] members_step [OF step] by auto
qed simp

lemma set_add_name [simp]: "set (add_name x names) = insert x (set names)"
  by (auto simp: add_name_def)

lemma set_add_channel_names: "set (add_channel_names engine c names) = set names \<union> channel_names_of engine c"
  by (auto simp: add_channel_names_def channel_names_of_def Let_def split: option.splits)

lemma set_group_names:
  "set (fold (add_channel_names engine) cs names) = set names \<union> (\<Union>c \<in> set cs. channel_names_of engine c)"
  by (induction cs arbitrary: names) (auto simp: set_add_channel_names)

lemma members_names:
  "members (map (\<lambda>(g, cs). (g, fold (add_channel_names engine) cs [])) groups) g =
   (\<Union>c \<in> members groups g. channel_names_of engine c)"
proof (induction groups)
  case (Cons p groups)
  then show ?case by (cases p) (simp add: set_group_names)
qed simp

lemma set_fold_add_name: "set (fold add_name ns acc) = set ns \<union> set acc"
  by (induction ns arbitrary: acc) auto

lemma set_all_names:
  "set (fold (\<lambda>(g, ns) acc. fold add_name ns acc) names acc) = set acc \<union> (\<Union>(g, ns) \<in> set names. set ns)"
  by (induction names arbitrary: acc) (auto simp: set_fold_add_name)

lemma append_to_group_keys:
  "fst ` set (append_to_group g c groups) = insert g (fst ` set groups)"
  "distinct (map fst groups) \<Longrightarrow> distinct (map fst (append_to_group g c groups))"
proof -
  show keys: "fst ` set (append_to_group g c groups) = insert g (fst ` set groups)" for groups
  proof (induction groups)
    case (Cons p groups)
    then show ?case by (cases p) (simp add: insert_commute insert_absorb)
  qed simp
  show "distinct (map fst groups) \<Longrightarrow> distinct (map fst (append_to_group g c groups))"
    by (induction groups) (auto simp: keys)
qed

lemma index_keys_distinct:
  assumes "fold_result index_channel channels gs = Inr groups" "distinct (map fst gs)"
  shows "distinct (map fst groups)"
  using assms
  by (rule fold_result_invariant)
    (auto simp: index_channel_def append_to_group_keys(2) split: option.splits if_splits)

lemma members_Union: "distinct (map fst names) \<Longrightarrow> (\<Union>(g, ns) \<in> set names. set ns) = (\<Union>g. members names g)"
proof -
  assume "distinct (map fst names)"
  note key = map_of_eq_Some_iff [OF this]
  have mem: "x \<in> members names g \<longleftrightarrow> (\<exists>ns. (g, ns) \<in> set names \<and> x \<in> set ns)" for x g
  proof (cases "map_of names g")
    case None
    then have "(g, ns) \<notin> set names" for ns using key [of g ns] by simp
    with None show ?thesis by (simp add: members_def)
  next
    case (Some ms)
    then have "(g, ns) \<in> set names \<longleftrightarrow> ns = ms" for ns using key [of g ns] by auto
    with Some show ?thesis by (simp add: members_def)
  qed
  show ?thesis unfolding set_eq_iff UN_iff mem by fastforce
qed

lemma evaluator_names:
  assumes "condition_evaluator channels engine = returns ev"
  shows "members (ev_names_by_group ev) g = (\<Union>c \<in> {c \<in> set channels. in_group c g}. channel_names_of engine c)"
    and "set (ev_all_names ev) = (\<Union>g. members (ev_names_by_group ev) g)"
    and "ev_engine ev = engine"
proof -
  from assms obtain groups where groups: "fold_result index_channel channels [] = Inr groups"
    and names: "ev_names_by_group ev = map (\<lambda>(g, cs). (g, fold (add_channel_names engine) cs [])) groups"
    and all: "ev_all_names ev = fold (\<lambda>(g, ns) acc. fold add_name ns acc) (ev_names_by_group ev) []"
    and eng: "ev_engine ev = engine"
    by (auto simp: condition_evaluator_def Let_def)
  show "members (ev_names_by_group ev) g = (\<Union>c \<in> {c \<in> set channels. in_group c g}. channel_names_of engine c)"
    unfolding names members_names members_index [OF groups] by (simp add: members_def)
  have "distinct (map fst (ev_names_by_group ev))"
    using index_keys_distinct [OF groups] by (simp add: names o_def case_prod_beta')
  then show "set (ev_all_names ev) = (\<Union>g. members (ev_names_by_group ev) g)"
    by (simp add: all set_all_names members_Union)
  show "ev_engine ev = engine" by (rule eng)
qed

lemma find_key: "find (\<lambda>(h, ns). h = g) names = map_option (\<lambda>ns. (g, ns)) (map_of names g)"
  by (induction names) auto

lemma group_names_members:
  "\<exists>names. group_names_of ev (PInt g) = Inr names \<and>
     (case names of None \<Rightarrow> {} | Some ns \<Rightarrow> set ns) = members (ev_names_by_group ev) g"
  by (simp add: group_names_of_def find_key members_def option.map_comp o_def option.map_ident)

definition found_in :: "dispatcharr_channel list \<Rightarrow> evaluator \<Rightarrow> stream_context \<Rightarrow> int \<Rightarrow> bool" where
  "found_in channels ev ctx g \<longleftrightarrow>
     (\<exists>c \<in> set channels. in_group c g \<and>
        py_lower (normalize_stream_name ev ctx) \<in> channel_names_of (ev_engine ev) c)"

text \<open>C27. The name conditions answer from the lineup, not from how it is indexed: the stream is found in
  group \<open>g\<close> iff some channel of that group carries its (normalized, case-folded) name, as it is, with a
  channel-number prefix removed, or normalized itself; it is found at all iff that is so in some group;
  and the \<open>not\<close> forms are the exact complements.\<close>

theorem name_conditions_follow_the_lineup:
  assumes "condition_evaluator channels engine = returns ev" and "g \<noteq> 0"
  shows "map_sum id matched (evaluate_normalized_name_in_group ev (PInt g) ctx l) =
           returns (found_in channels ev ctx g) \<and>
         map_sum id matched (evaluate_normalized_name_not_in_group ev (PInt g) ctx l) =
           returns (\<not> found_in channels ev ctx g) \<and>
         matched (evaluate_normalized_name_exists ev ctx l) = (\<exists>h. found_in channels ev ctx h) \<and>
         matched (evaluate_normalized_name_not_exists ev ctx l) = (\<not> (\<exists>h. found_in channels ev ctx h))"
proof -
  let ?n = "py_lower (normalize_stream_name ev ctx)"
  note idx = evaluator_names [OF assms(1)]
  have found: "?n \<in> members (ev_names_by_group ev) h \<longleftrightarrow> found_in channels ev ctx h" for h
    unfolding idx(1) found_in_def idx(3) by auto
  obtain names where names: "group_names_of ev (PInt g) = Inr names"
    and mem: "(case names of None \<Rightarrow> {} | Some ns \<Rightarrow> set ns) = members (ev_names_by_group ev) g"
    using group_names_members by blast
  have "map_sum id matched (evaluate_normalized_name_in_group ev (PInt g) ctx l) = returns (found_in channels ev ctx g)" for l
    using \<open>g \<noteq> 0\<close> found [of g] mem
    by (auto simp: evaluate_normalized_name_in_group_def names Let_def split: option.splits)
  note in_g = this
  have r: "map_sum id matched (bind_result (evaluate_normalized_name_in_group ev (PInt g) ctx l')
             (\<lambda>r. returns (evaluation (\<not> matched r) l (f r)))) = returns (\<not> found_in channels ev ctx g)" for l' f
    using in_g [of l'] by (cases "evaluate_normalized_name_in_group ev (PInt g) ctx l'") simp_all
  have ex: "matched (evaluate_normalized_name_exists ev ctx l) = (\<exists>h. found_in channels ev ctx h)" for l
    using found idx(2) by (auto simp: evaluate_normalized_name_exists_def Let_def)
  show ?thesis
    unfolding evaluate_normalized_name_not_in_group_def evaluate_normalized_name_not_exists_def Let_def
    by (simp add: in_g ex r)
qed

theorem name_conditions_follow_the_lineup_witness:
  "matched (evaluate_normalized_name_exists sample_evaluator sample_stream (type_named ''normalized_name_exists''))
     = (\<exists>h. found_in [sample_channel] sample_evaluator sample_stream h)"
  using name_conditions_follow_the_lineup [OF sample_evaluator_built, of 3 sample_stream] by simp

end
