(* ===== verification/Consolidate.thy ===== *)
theory Consolidate
  imports NumberPlan
begin

text \<open>
  What a bulk commit does to a request before it is executed, \<open>backend/routers/channels.py\<close>: the
  operations of the request, the check that every temporary channel is created before it is named
  (\<open>_validate_bulk_channel_dependencies\<close>) and the folding of redundant operations
  (\<open>_consolidate_operations\<close>). A \<open>dict\<close> is an association list in insertion order.
\<close>

section \<open>The operations of a request\<close>

text \<open>The fields of \<open>BulkCreateChannelOp\<close> that have nothing to do with its number.\<close>

record create_fields =
  cf_group_id :: "int option"
  cf_new_group_name :: "string option"
  cf_logo_id :: "int option"
  cf_logo_url :: "string option"
  cf_tvg_id :: "string option"
  cf_station_id :: "string option"
  cf_normalize :: bool
  cf_expected_streams :: "int list option"

text \<open>The last argument of an update is \<open>expectedNumber\<close>: its presence is the claim, its value the
  number the caller believes in.\<close>

datatype bulk_operation =
    BulkUpdateChannel int "(string \<times> pyval) list" "acknowledged option" "pyval option"
  | BulkAddStream int int
  | BulkRemoveStream int int
  | BulkReorderStreams int "int list"
  | BulkAssignNumbers "int list" "pyfloat option"
  | BulkCreateChannel int string "pyfloat option" create_fields "acknowledged option"
  | BulkDeleteChannel int
  | BulkCreateGroup string
  | BulkDeleteGroup int
  | BulkRenameGroup int string
  | BulkSetProfileMembership int int bool
  | BulkRestoreGroup int
  | BulkClearStreamStats "int list"

fun negative_channel_references :: "bulk_operation \<Rightarrow> int list" where
  "negative_channel_references (BulkAssignNumbers ids start) = filter (\<lambda>i. i < 0) ids"
| "negative_channel_references (BulkUpdateChannel i d a e) = (if i < 0 then [i] else [])"
| "negative_channel_references (BulkAddStream i s) = (if i < 0 then [i] else [])"
| "negative_channel_references (BulkRemoveStream i s) = (if i < 0 then [i] else [])"
| "negative_channel_references (BulkReorderStreams i ss) = (if i < 0 then [i] else [])"
| "negative_channel_references (BulkDeleteChannel i) = (if i < 0 then [i] else [])"
| "negative_channel_references (BulkSetProfileMembership p i b) = (if i < 0 then [i] else [])"
| "negative_channel_references _ = []"

datatype dependency_error = DuplicateTempId int nat | TempChannelDependency int nat

fun check_dependencies ::
  "nat \<Rightarrow> int list \<Rightarrow> bulk_operation list \<Rightarrow> (dependency_error, unit) result" where
  "check_dependencies i created [] = returns ()"
| "check_dependencies i created (BulkCreateChannel t n num f a # ops) =
     (if t \<in> set created then raises (DuplicateTempId t i)
      else check_dependencies (Suc i) (t # created) ops)"
| "check_dependencies i created (op # ops) =
     (case find (\<lambda>c. c \<notin> set created) (negative_channel_references op) of
        Some c \<Rightarrow> raises (TempChannelDependency c i)
      | None \<Rightarrow> check_dependencies (Suc i) created ops)"

definition validate_bulk_channel_dependencies :: "bulk_operation list \<Rightarrow> (dependency_error, unit) result" where
  "validate_bulk_channel_dependencies ops = check_dependencies 0 [] ops"

text \<open>The operation as the numbering plan sees it: streams, groups, profiles and statistics do not
  change a number.\<close>

definition number_value :: "pyfloat option \<Rightarrow> pyval" where
  "number_value n = (case n of None \<Rightarrow> PNone | Some f \<Rightarrow> PFloat f)"

fun numbering_view :: "bulk_operation \<Rightarrow> operation" where
  "numbering_view (BulkUpdateChannel i d a e) = UpdateChannel i (PDict d) a"
| "numbering_view (BulkAssignNumbers ids start) = BulkAssignChannelNumbers ids start None"
| "numbering_view (BulkCreateChannel t n num f a) = CreateChannel t (Some n) (number_value num) a"
| "numbering_view (BulkDeleteChannel i) = DeleteChannel i"
| "numbering_view _ = OtherOperation"

section \<open>Consolidation\<close>

datatype number_owner = OwnedByAssign | OwnedByUpdate | OwnedByCreate

record consolidation =
  co_updates :: "(int \<times> (string \<times> pyval) list) list"
  co_update_last :: "int \<rightharpoonup> acknowledged option \<times> pyval option"
  co_number_source :: "int \<rightharpoonup> acknowledged option \<times> pyval option"
  co_final_numbers :: "(int \<times> pyval) list"
  co_owner :: "int \<rightharpoonup> number_owner"
  co_ordered :: "bulk_operation list"

definition empty_consolidation :: consolidation where
  "empty_consolidation = \<lparr>co_updates = [], co_update_last = Map.empty, co_number_source = Map.empty,
     co_final_numbers = [], co_owner = Map.empty, co_ordered = []\<rparr>"

fun deleted_channel :: "bulk_operation \<Rightarrow> int list" where
  "deleted_channel (BulkDeleteChannel i) = [i]"
| "deleted_channel _ = []"

fun created_channel :: "bulk_operation \<Rightarrow> int list" where
  "created_channel (BulkCreateChannel t n num f a) = [t]"
| "created_channel _ = []"

definition channels_to_delete :: "bulk_operation list \<Rightarrow> int set" where
  "channels_to_delete ops = set (concat (map deleted_channel ops))"

definition channels_to_create :: "bulk_operation list \<Rightarrow> int set" where
  "channels_to_create ops = set (concat (map created_channel ops))"

definition range_start :: "pyfloat option \<Rightarrow> pyval" where
  "range_start start = (case start of None \<Rightarrow> PInt 1 | Some f \<Rightarrow> PFloat f)"

definition fold_assign :: "int set \<Rightarrow> pyval \<Rightarrow> nat \<times> int \<Rightarrow> consolidation \<Rightarrow> consolidation" where
  "fold_assign deletes first entry st =
     (case entry of (k, c) \<Rightarrow>
        if c \<in> deletes then st
        else st\<lparr>co_final_numbers := dict_put c (add_offset first k) (co_final_numbers st),
                co_owner := (co_owner st)(c \<mapsto> OwnedByAssign)\<rparr>)"

definition fold_update ::
  "int \<Rightarrow> (string \<times> pyval) list \<Rightarrow> acknowledged option \<Rightarrow> pyval option \<Rightarrow> consolidation \<Rightarrow> consolidation" where
  "fold_update c data a e st =
     (let existing = (case map_of (co_updates st) c of None \<Rightarrow> [] | Some d \<Rightarrow> d);
          st = st\<lparr>co_updates := dict_put c (dict_update existing data) (co_updates st),
                  co_update_last := (co_update_last st)(c \<mapsto> (a, e))\<rparr> in
      if map_of data ''channel_number'' \<noteq> None
      then st\<lparr>co_number_source := (co_number_source st)(c \<mapsto> (a, e)),
              co_owner := (co_owner st)(c \<mapsto> OwnedByUpdate)\<rparr>
      else st)"

definition pass_through :: "bulk_operation \<Rightarrow> consolidation \<Rightarrow> consolidation" where
  "pass_through op st = st\<lparr>co_ordered := co_ordered st @ [op]\<rparr>"

text \<open>A stream operation is dropped only with the temporary channel it belongs to.\<close>

definition fold_stream_operation ::
  "int set \<Rightarrow> int set \<Rightarrow> int \<Rightarrow> bulk_operation \<Rightarrow> consolidation \<Rightarrow> consolidation" where
  "fold_stream_operation deletes creates c op st =
     (if c < 0 \<and> c \<in> creates \<and> c \<in> deletes then st else pass_through op st)"

fun consolidate_step :: "int set \<Rightarrow> int set \<Rightarrow> bulk_operation \<Rightarrow> consolidation \<Rightarrow> consolidation" where
  "consolidate_step deletes creates (BulkAssignNumbers ids start) st =
     fold (fold_assign deletes (range_start start)) (enumerate 0 ids) st"
| "consolidate_step deletes creates (BulkUpdateChannel c data a e) st =
     (if c \<in> deletes then st else fold_update c data a e st)"
| "consolidate_step deletes creates (BulkAddStream c s) st =
     fold_stream_operation deletes creates c (BulkAddStream c s) st"
| "consolidate_step deletes creates (BulkRemoveStream c s) st =
     fold_stream_operation deletes creates c (BulkRemoveStream c s) st"
| "consolidate_step deletes creates (BulkReorderStreams c ss) st =
     fold_stream_operation deletes creates c (BulkReorderStreams c ss) st"
| "consolidate_step deletes creates (BulkCreateChannel t n num f a) st =
     (if t \<in> deletes then st
      else (pass_through (BulkCreateChannel t n num f a) st)
             \<lparr>co_owner := (co_owner st)(t \<mapsto> OwnedByCreate)\<rparr>)"
| "consolidate_step deletes creates (BulkDeleteChannel c) st =
     (if c < 0 \<and> c \<in> creates then st else pass_through (BulkDeleteChannel c) st)"
| "consolidate_step deletes creates op st = pass_through op st"

text \<open>A create whose number a later operation owns is emitted without the number and its consent.\<close>

fun emit_ordered :: "(int \<rightharpoonup> number_owner) \<Rightarrow> bulk_operation \<Rightarrow> bulk_operation" where
  "emit_ordered owner (BulkCreateChannel t n num f a) =
     (if num \<noteq> None \<and> owner t \<noteq> Some OwnedByCreate then BulkCreateChannel t n None f None
      else BulkCreateChannel t n num f a)"
| "emit_ordered owner op = op"

definition emit_update :: "consolidation \<Rightarrow> int \<times> (string \<times> pyval) list \<Rightarrow> bulk_operation list" where
  "emit_update st entry =
     (case entry of (c, data) \<Rightarrow>
        (let superseded = (map_of data ''channel_number'' \<noteq> None \<and> co_owner st c \<noteq> Some OwnedByUpdate);
             merged = (if superseded then filter (\<lambda>(k, v). k \<noteq> ''channel_number'') data else data);
             template = (case co_number_source st c of
                           Some t \<Rightarrow> t
                         | None \<Rightarrow> (case co_update_last st c of Some t \<Rightarrow> t | None \<Rightarrow> (None, None))) in
         if merged = [] then []
         else if superseded then [BulkUpdateChannel c merged None None]
         else [BulkUpdateChannel c merged (fst template) (snd template)]))"

text \<open>The number a value stands for; the numbers of a request are finite.\<close>

fun number_as_rat :: "pyval \<Rightarrow> rat" where
  "number_as_rat (PInt n) = of_int n"
| "number_as_rat (PFloat (Fin x)) = x"
| "number_as_rat _ = 0"

text \<open>The inner loop: how far a range of consecutive numbers reaches.\<close>

fun take_run :: "pyval \<Rightarrow> (int \<times> pyval) list \<Rightarrow> int list \<times> (int \<times> pyval) list" where
  "take_run v [] = ([], [])"
| "take_run v ((c, w) # es) =
     (if number_as_rat w = number_as_rat (add_offset v 1)
      then (case take_run w es of (ids, rest) \<Rightarrow> (c # ids, rest))
      else ([], (c, w) # es))"

lemma take_run_length: "length (snd (take_run v es)) \<le> length es"
  by (induction v es rule: take_run.induct) (auto split: prod.splits)

function consecutive_runs :: "(int \<times> pyval) list \<Rightarrow> (pyval \<times> int list) list" where
  "consecutive_runs [] = []"
| "consecutive_runs ((c, v) # es) =
     (case take_run v es of (ids, rest) \<Rightarrow> (v, c # ids) # consecutive_runs rest)"
  by pat_completeness auto
termination
  by (relation "measure length") (auto simp: less_Suc_eq_le, metis snd_conv take_run_length)

text \<open>\<open>BulkAssignNumbersOp(channelIds=ids, startingNumber=start)\<close>: building the model validates the
  start and converts it to a float.\<close>

definition emit_range :: "pyval \<times> int list \<Rightarrow> (number_error, bulk_operation) result" where
  "emit_range run =
     bind_result (pydantic_channel_number (fst run)) (\<lambda>v.
       returns (BulkAssignNumbers (snd run) (case v of PFloat f \<Rightarrow> Some f | _ \<Rightarrow> None)))"

fun emit_ranges :: "(pyval \<times> int list) list \<Rightarrow> (number_error, bulk_operation list) result" where
  "emit_ranges [] = returns []"
| "emit_ranges (run # runs) =
     bind_result (emit_range run) (\<lambda>op. bind_result (emit_ranges runs) (\<lambda>ops. returns (op # ops)))"

definition owned_numbers :: "consolidation \<Rightarrow> (int \<times> pyval) list" where
  "owned_numbers st = filter (\<lambda>(c, v). co_owner st c = Some OwnedByAssign) (co_final_numbers st)"

definition scan_operations :: "bulk_operation list \<Rightarrow> consolidation" where
  "scan_operations ops =
     fold (consolidate_step (channels_to_delete ops) (channels_to_create ops)) ops empty_consolidation"

definition consolidate_operations ::
  "bulk_operation list \<Rightarrow> (number_error, bulk_operation list) result" where
  "consolidate_operations ops =
     (let st = scan_operations ops in
      bind_result (emit_ranges (consecutive_runs (sort_key (\<lambda>(c, v). number_as_rat v) (owned_numbers st))))
        (\<lambda>ranges. returns
           (map (emit_ordered (co_owner st)) (co_ordered st)
            @ concat (map (emit_update st) (co_updates st))
            @ ranges)))"

section \<open>The effect of a request on one channel's number\<close>

text \<open>What the replay specification \<open>number_effect\<close> does at one channel.\<close>

fun assign_at :: "int \<Rightarrow> int list \<Rightarrow> pyval \<Rightarrow> nat \<Rightarrow> pyval option \<Rightarrow> pyval option" where
  "assign_at c [] first k x = x"
| "assign_at c (i # ids) first k x =
     assign_at c ids first (Suc k) (if i = c then map_option (\<lambda>_. add_offset first k) x else x)"

fun number_at :: "int \<Rightarrow> bulk_operation \<Rightarrow> pyval option \<Rightarrow> pyval option" where
  "number_at c (BulkUpdateChannel i d a e) x =
     (if i = c then (case map_of d ''channel_number'' of Some v \<Rightarrow> map_option (\<lambda>_. v) x | None \<Rightarrow> x) else x)"
| "number_at c (BulkAssignNumbers ids start) x = assign_at c ids (range_start start) 0 x"
| "number_at c (BulkCreateChannel t n num f a) x = (if t = c then Some (number_value num) else x)"
| "number_at c (BulkDeleteChannel i) x = (if i = c then None else x)"
| "number_at c _ x = x"

lemma assign_numbers_at: "assign_numbers ids first k m c = assign_at c ids first k (m c)"
proof (induction ids arbitrary: k m)
  case (Cons i ids)
  then show ?case by (cases "m i") auto
qed simp

lemma number_effect_at: "number_effect (numbering_view op) m c = number_at c op (m c)"
  by (cases op) (auto simp: assign_numbers_at range_start_def payload_field_def split: option.splits)

lemma replay_at:
  "fold number_effect (map numbering_view ops) m c = fold (number_at c) ops (m c)"
  by (induction ops arbitrary: m) (simp_all add: number_effect_at)

fun touches :: "int \<Rightarrow> bulk_operation \<Rightarrow> bool" where
  "touches c (BulkUpdateChannel i d a e) \<longleftrightarrow> i = c \<and> map_of d ''channel_number'' \<noteq> None"
| "touches c (BulkAssignNumbers ids start) \<longleftrightarrow> c \<in> set ids"
| "touches c (BulkCreateChannel t n num f a) \<longleftrightarrow> t = c"
| "touches c (BulkDeleteChannel i) \<longleftrightarrow> i = c"
| "touches c _ \<longleftrightarrow> False"

fun creates :: "int \<Rightarrow> bulk_operation \<Rightarrow> bool" where
  "creates c (BulkCreateChannel t n num f a) \<longleftrightarrow> t = c"
| "creates c _ \<longleftrightarrow> False"

fun deletes :: "int \<Rightarrow> bulk_operation \<Rightarrow> bool" where
  "deletes c (BulkDeleteChannel i) \<longleftrightarrow> i = c"
| "deletes c _ \<longleftrightarrow> False"

lemma assign_at_absent: "c \<notin> set ids \<Longrightarrow> assign_at c ids first k x = x"
  by (induction ids arbitrary: k) auto

lemma number_at_untouched: "\<not> touches c op \<Longrightarrow> number_at c op x = x"
  by (cases op) (auto simp: assign_at_absent split: option.splits)

lemma fold_number_at_filter: "fold (number_at c) ops x = fold (number_at c) (filter (touches c) ops) x"
  by (induction ops arbitrary: x) (simp_all add: number_at_untouched)

lemma assign_at_None [simp]: "assign_at c ids first k None = None"
  by (induction ids arbitrary: k) auto

lemma number_at_None: "\<not> creates c op \<Longrightarrow> number_at c op None = None"
  by (cases op) (auto split: option.splits)

lemma fold_number_at_None: "\<forall>op \<in> set ops. \<not> creates c op \<Longrightarrow> fold (number_at c) ops None = None"
  by (induction ops) (simp_all add: number_at_None)

lemma deleted_is_gone:
  assumes "op \<in> set ops" "deletes c op" "\<forall>op \<in> set ops. \<not> creates c op"
  shows "fold (number_at c) ops x = None"
proof -
  from split_list [OF assms(1)] obtain ps qs where ops: "ops = ps @ op # qs" by blast
  have "number_at c op y = None" for y using assms(2) by (cases op) auto
  with ops assms(3) show ?thesis by (simp add: fold_number_at_None)
qed

lemma channels_to_delete_iff: "c \<in> channels_to_delete ops \<longleftrightarrow> (\<exists>op \<in> set ops. deletes c op)"
proof -
  have "c \<in> set (deleted_channel op) \<longleftrightarrow> deletes c op" for op by (cases op) auto
  then show ?thesis by (simp add: channels_to_delete_def)
qed

lemma channels_to_create_iff: "c \<in> channels_to_create ops \<longleftrightarrow> (\<exists>op \<in> set ops. creates c op)"
proof -
  have "c \<in> set (created_channel op) \<longleftrightarrow> creates c op" for op by (cases op) auto
  then show ?thesis by (simp add: channels_to_create_def)
qed

section \<open>Checked dependencies\<close>

lemma find_case_iff:
  "(case find P xs of Some x \<Rightarrow> raises (f x) | None \<Rightarrow> r) = returns u \<longleftrightarrow> (\<forall>x \<in> set xs. \<not> P x) \<and> r = returns u"
proof (cases "find P xs")
  case None
  moreover from this have "\<forall>x \<in> set xs. \<not> P x" by (simp add: find_None_iff)
  ultimately show ?thesis by simp
next
  case (Some x)
  then have "x \<in> set xs" "P x" by (auto simp: find_Some_iff)
  with Some show ?thesis by auto
qed

lemma check_dependencies_Cons:
  "check_dependencies i created (op # ops) = returns () \<longleftrightarrow>
     (\<forall>c \<in> set (negative_channel_references op). c \<in> set created) \<and>
     (\<forall>t. creates t op \<longrightarrow> t \<notin> set created) \<and>
     check_dependencies (Suc i) (created_channel op @ created) ops = returns ()"
  by (cases op) (auto simp: find_case_iff)

lemma created_not_again:
  "check_dependencies i created ops = returns () \<Longrightarrow> c \<in> set created \<Longrightarrow> \<forall>op \<in> set ops. \<not> creates c op"
proof (induction ops arbitrary: i created)
  case (Cons op ops)
  then show ?case by (auto simp: check_dependencies_Cons)
qed simp

lemma created_channel_iff: "c \<in> set (created_channel op) \<longleftrightarrow> creates c op"
  by (cases op) auto

lemma created_once: "check_dependencies i created ops = returns () \<Longrightarrow> length (filter (creates c) ops) \<le> 1"
proof (induction ops arbitrary: i created)
  case (Cons op ops)
  then have rest: "check_dependencies (Suc i) (created_channel op @ created) ops = returns ()"
    by (simp add: check_dependencies_Cons)
  show ?case
  proof (cases "creates c op")
    case True
    then have "filter (creates c) ops = []"
      using created_not_again [OF rest, of c] by (auto simp: created_channel_iff filter_empty_conv)
    with True show ?thesis by simp
  next
    case False
    with Cons.IH [OF rest] show ?thesis by simp
  qed
qed simp

lemma created_before:
  "check_dependencies i created (ps @ op # qs) = returns () \<Longrightarrow> c \<in> set (negative_channel_references op) \<Longrightarrow>
   c \<in> set created \<or> (\<exists>p \<in> set ps. creates c p)"
proof (induction ps arbitrary: i created)
  case (Cons p ps)
  then have "check_dependencies (Suc i) (created_channel p @ created) (ps @ op # qs) = returns ()"
    by (simp add: check_dependencies_Cons)
  from Cons.IH [OF this Cons.prems(2)] show ?case by (auto simp: created_channel_iff)
qed (simp add: check_dependencies_Cons)

text \<open>A temporary channel that the request deletes is gone after the request.\<close>

lemma deleted_temp_is_gone:
  assumes ok: "validate_bulk_channel_dependencies ops = returns ()" and "c < 0" "c \<in> channels_to_delete ops"
  shows "fold (number_at c) ops x = None"
proof -
  from assms(3) obtain op where op: "op \<in> set ops" "deletes c op" by (auto simp: channels_to_delete_iff)
  from split_list [OF op(1)] obtain ps qs where ops: "ops = ps @ op # qs" by blast
  have chk: "check_dependencies 0 [] (ps @ op # qs) = returns ()"
    using ok by (simp add: validate_bulk_channel_dependencies_def ops)
  have "c \<in> set (negative_channel_references op)" using op(2) \<open>c < 0\<close> by (cases op) auto
  from created_before [OF chk this] obtain p where p: "p \<in> set ps" "creates c p" by auto
  have "\<forall>q \<in> set qs. \<not> creates c q"
  proof (rule ccontr)
    assume "\<not> ?thesis"
    then have "filter (creates c) qs \<noteq> []" by (auto simp: filter_empty_conv)
    moreover have "filter (creates c) ps \<noteq> []" using p by (auto simp: filter_empty_conv)
    ultimately have "2 \<le> length (filter (creates c) ps) + length (filter (creates c) qs)"
      by (cases "filter (creates c) ps"; cases "filter (creates c) qs") auto
    with created_once [OF chk, of c] show False by (simp split: if_splits)
  qed
  moreover have "number_at c op y = None" for y using op(2) by (cases op) auto
  ultimately show ?thesis by (simp add: ops fold_number_at_None)
qed

section \<open>What consolidation remembers\<close>

lemma fold_assign_simps:
  "co_updates (fold_assign D first e st) = co_updates st"
  "co_ordered (fold_assign D first e st) = co_ordered st"
  "snd e \<in> D \<Longrightarrow> fold_assign D first e st = st"
  "snd e \<notin> D \<Longrightarrow> co_final_numbers (fold_assign D first e st) =
     dict_put (snd e) (add_offset first (fst e)) (co_final_numbers st)"
  "snd e \<notin> D \<Longrightarrow> co_owner (fold_assign D first e st) = (co_owner st)(snd e \<mapsto> OwnedByAssign)"
  by (auto simp: fold_assign_def split: prod.splits)

lemma fold_assigns_frame:
  "co_updates (fold (fold_assign D first) es st) = co_updates st"
  "co_ordered (fold (fold_assign D first) es st) = co_ordered st"
  by (induction es arbitrary: st) (simp_all add: fold_assign_simps)

text \<open>The dictionaries stay dictionaries, and never mention a channel that is to be deleted.\<close>

definition clean_dicts :: "int set \<Rightarrow> consolidation \<Rightarrow> bool" where
  "clean_dicts D st \<longleftrightarrow>
     distinct (map fst (co_updates st)) \<and> distinct (map fst (co_final_numbers st)) \<and>
     fst ` set (co_updates st) \<inter> D = {} \<and> fst ` set (co_final_numbers st) \<inter> D = {}"

lemma clean_assign: "clean_dicts D st \<Longrightarrow> clean_dicts D (fold_assign D first e st)"
  by (cases "snd e \<in> D") (auto simp: clean_dicts_def fold_assign_simps distinct_dict_put dict_put_keys)

lemma clean_assigns: "clean_dicts D st \<Longrightarrow> clean_dicts D (fold (fold_assign D first) es st)"
  by (induction es arbitrary: st) (simp_all add: clean_assign)

lemma fold_update_simps:
  "co_updates (fold_update c d a e st) =
     dict_put c (dict_update (case map_of (co_updates st) c of None \<Rightarrow> [] | Some d' \<Rightarrow> d') d) (co_updates st)"
  "co_ordered (fold_update c d a e st) = co_ordered st"
  "co_final_numbers (fold_update c d a e st) = co_final_numbers st"
  "co_owner (fold_update c d a e st) =
     (if map_of d ''channel_number'' \<noteq> None then (co_owner st)(c \<mapsto> OwnedByUpdate) else co_owner st)"
  by (simp_all add: fold_update_def Let_def)

lemma pass_through_simps [simp]:
  "co_updates (pass_through op st) = co_updates st"
  "co_final_numbers (pass_through op st) = co_final_numbers st"
  "co_owner (pass_through op st) = co_owner st"
  "co_ordered (pass_through op st) = co_ordered st @ [op]"
  by (simp_all add: pass_through_def)

lemma clean_update: "c \<notin> D \<Longrightarrow> clean_dicts D st \<Longrightarrow> clean_dicts D (fold_update c d a e st)"
  by (auto simp: clean_dicts_def fold_update_simps distinct_dict_put dict_put_keys)

lemma clean_pass: "clean_dicts D st \<Longrightarrow> clean_dicts D (pass_through op st)"
  by (simp add: clean_dicts_def)

lemma clean_step: "clean_dicts D st \<Longrightarrow> clean_dicts D (consolidate_step D C op st)"
proof (cases op)
  case (BulkCreateChannel t n num f a)
  moreover assume "clean_dicts D st"
  ultimately show ?thesis by (simp add: clean_dicts_def)
qed (auto simp: clean_assigns clean_update clean_pass fold_stream_operation_def)

lemma clean_fold: "clean_dicts D st \<Longrightarrow> clean_dicts D (fold (consolidate_step D C) ops st)"
  by (induction ops arbitrary: st) (simp_all add: clean_step)

text \<open>The operations kept in order that concern a channel's number: its create, or its deletes.\<close>

lemma ordered_of_step:
  "filter (touches c) (co_ordered (consolidate_step D C op st)) =
     filter (touches c) (co_ordered st) @
     (if c \<in> D then (if deletes c op \<and> \<not> (c < 0 \<and> c \<in> C) then [op] else [])
      else if creates c op \<or> deletes c op \<and> \<not> (c < 0 \<and> c \<in> C) then [op] else [])"
  by (cases op) (auto simp: fold_assigns_frame fold_update_simps fold_stream_operation_def)

lemma ordered_of_fold:
  "filter (touches c) (co_ordered (fold (consolidate_step D C) ops st)) =
     filter (touches c) (co_ordered st) @
     filter (\<lambda>op. deletes c op \<and> \<not> (c < 0 \<and> c \<in> C) \<or> c \<notin> D \<and> creates c op) ops"
proof (induction ops arbitrary: st)
  case (Cons op ops)
  have "\<not> (creates c op \<and> deletes c op)" by (cases op) auto
  then show ?case by (cases "c \<in> D") (auto simp: Cons.IH ordered_of_step)
qed simp

text \<open>The owner of a channel's number, and the number it stands for: \<open>tracks c num ps st\<close> says that
  after the operations \<open>ps\<close> the owner recorded in \<open>st\<close> determines the number the replay gives
  \<open>c\<close>, wherever \<open>c\<close> exists.\<close>

definition owner_value :: "int \<Rightarrow> bulk_operation list \<Rightarrow> consolidation \<Rightarrow> pyval option" where
  "owner_value c ps st =
     (case co_owner st c of
        None \<Rightarrow> None
      | Some OwnedByAssign \<Rightarrow> map_of (co_final_numbers st) c
      | Some OwnedByUpdate \<Rightarrow> Option.bind (map_of (co_updates st) c) (\<lambda>d. map_of d ''channel_number'')
      | Some OwnedByCreate \<Rightarrow> fold (number_at c) (filter (creates c) ps) None)"

definition tracks :: "int \<Rightarrow> bulk_operation list \<Rightarrow> consolidation \<Rightarrow> bool" where
  "tracks c ps st \<longleftrightarrow>
     (\<forall>x. fold (number_at c) ps x = None \<longleftrightarrow> x = None \<and> (\<forall>op \<in> set ps. \<not> creates c op)) \<and>
     (co_owner st c = None \<longrightarrow> (\<forall>op \<in> set ps. \<not> touches c op)) \<and>
     (co_owner st c \<noteq> None \<longrightarrow>
        owner_value c ps st \<noteq> None \<and>
        (\<forall>x y. fold (number_at c) ps x = Some y \<longrightarrow> owner_value c ps st = Some y)) \<and>
     (co_owner st c = Some OwnedByCreate \<longrightarrow> (\<exists>op \<in> set ps. creates c op))"

lemma tracks_untouched:
  assumes "tracks c ps st" "\<not> touches c op" "co_owner st' c = co_owner st c"
    "map_of (co_final_numbers st') c = map_of (co_final_numbers st) c"
    "Option.bind (map_of (co_updates st') c) (\<lambda>d. map_of d ''channel_number'') =
     Option.bind (map_of (co_updates st) c) (\<lambda>d. map_of d ''channel_number'')"
  shows "tracks c (ps @ [op]) st'"
proof -
  have "\<not> creates c op" using assms(2) by (cases op) auto
  then have "owner_value c (ps @ [op]) st' = owner_value c ps st"
    unfolding owner_value_def assms(3,4,5) by (simp split: option.split number_owner.split)
  with assms(1) \<open>\<not> creates c op\<close> show ?thesis
    unfolding tracks_def assms(3) by (simp add: number_at_untouched [OF assms(2)] assms(2))
qed

lemma tracks_written:
  assumes "tracks c ps st" "\<not> creates c op" "\<not> deletes c op"
    "\<And>x. number_at c op x = map_option (\<lambda>_. v) x"
    "co_owner st' c = Some w" "w \<noteq> OwnedByCreate" "owner_value c (ps @ [op]) st' = Some v"
  shows "tracks c (ps @ [op]) st'"
  using assms unfolding tracks_def by (auto simp: option.map_comp)

lemma assigns_tracked:
  assumes "c \<notin> D"
  shows "if c \<in> set ids
         then \<exists>v. (\<forall>x. assign_at c ids first k x = map_option (\<lambda>_. v) x) \<and>
                map_of (co_final_numbers (fold (fold_assign D first) (enumerate k ids) st)) c = Some v \<and>
                co_owner (fold (fold_assign D first) (enumerate k ids) st) c = Some OwnedByAssign
         else map_of (co_final_numbers (fold (fold_assign D first) (enumerate k ids) st)) c =
                map_of (co_final_numbers st) c \<and>
              co_owner (fold (fold_assign D first) (enumerate k ids) st) c = co_owner st c"
proof (induction ids arbitrary: k st)
  case (Cons i ids)
  let ?st = "fold_assign D first (k, i) st"
  have at: "i \<noteq> c \<Longrightarrow> map_of (co_final_numbers ?st) c = map_of (co_final_numbers st) c \<and> co_owner ?st c = co_owner st c"
    by (simp add: fold_assign_def)
  have hit: "i = c \<Longrightarrow> map_of (co_final_numbers ?st) c = Some (add_offset first k) \<and> co_owner ?st c = Some OwnedByAssign"
    using assms by (simp add: fold_assign_def)
  show ?case
  proof (cases "c \<in> set ids")
    case True
    with Cons.IH [of "Suc k" ?st] obtain v where v: "\<forall>x. assign_at c ids first (Suc k) x = map_option (\<lambda>_. v) x"
      "map_of (co_final_numbers (fold (fold_assign D first) (enumerate (Suc k) ids) ?st)) c = Some v"
      "co_owner (fold (fold_assign D first) (enumerate (Suc k) ids) ?st) c = Some OwnedByAssign" by auto
    with True show ?thesis by (auto simp: option.map_comp o_def)
  next
    case False
    with Cons.IH [of "Suc k" ?st] at hit assign_at_absent [OF False] show ?thesis by (cases "i = c") auto
  qed
qed simp

text \<open>The data of an update is a dict.\<close>

fun is_dict_update :: "bulk_operation \<Rightarrow> bool" where
  "is_dict_update (BulkUpdateChannel c d a e) \<longleftrightarrow> distinct (map fst d)"
| "is_dict_update _ \<longleftrightarrow> True"

lemma tracks_created:
  assumes "tracks c ps st" "co_owner st' c = Some OwnedByCreate" "creates c op"
  shows "tracks c (ps @ [op]) st'"
proof -
  obtain n num f a where op: "op = BulkCreateChannel c n num f a" using assms(3) by (cases op) auto
  show ?thesis unfolding tracks_def owner_value_def assms(2) by (auto simp: op)
qed

lemma tracks_update:
  assumes "tracks c ps st" "distinct (map fst d)"
  shows "tracks c (ps @ [BulkUpdateChannel i d a e]) (fold_update i d a e st)"
proof (cases "i = c \<and> map_of d ''channel_number'' \<noteq> None")
  case True
  then obtain v where v: "map_of d ''channel_number'' = Some v" by auto
  have "Option.bind (map_of (co_updates (fold_update i d a e st)) c) (\<lambda>d. map_of d ''channel_number'') = Some v"
    using True v by (simp add: fold_update_simps map_of_dict_update [OF assms(2)])
  with True v show ?thesis
    by (intro tracks_written [OF assms(1), where v = v and w = OwnedByUpdate])
      (auto simp: fold_update_simps owner_value_def)
next
  case False
  then show ?thesis
  proof (intro tracks_untouched [OF assms(1)])
    show "Option.bind (map_of (co_updates (fold_update i d a e st)) c) (\<lambda>d. map_of d ''channel_number'') =
          Option.bind (map_of (co_updates st) c) (\<lambda>d. map_of d ''channel_number'')"
      using False by (auto simp: fold_update_simps map_of_dict_update [OF assms(2)] split: option.splits)
  qed (auto simp: fold_update_simps)
qed

lemma tracks_step:
  assumes "tracks c ps st" "c \<notin> D" "\<not> deletes c op" "is_dict_update op"
  shows "tracks c (ps @ [op]) (consolidate_step D C op st)"
proof (cases op)
  case (BulkUpdateChannel i d a e)
  then show ?thesis
  proof (cases "i \<in> D")
    case True
    with BulkUpdateChannel assms(1,2) show ?thesis by (intro tracks_untouched [OF assms(1)]) auto
  next
    case False
    with BulkUpdateChannel assms(4) tracks_update [OF assms(1)] show ?thesis by simp
  qed
next
  case (BulkAssignNumbers ids start)
  let ?st = "fold (fold_assign D (range_start start)) (enumerate 0 ids) st"
  note asg = assigns_tracked [OF assms(2), of ids "range_start start" 0 st]
  show ?thesis
  proof (cases "c \<in> set ids")
    case True
    with asg obtain v where v: "\<forall>x. assign_at c ids (range_start start) 0 x = map_option (\<lambda>_. v) x"
      "map_of (co_final_numbers ?st) c = Some v" "co_owner ?st c = Some OwnedByAssign" by auto
    then show ?thesis
      unfolding BulkAssignNumbers
      by (intro tracks_written [OF assms(1), where v = v and w = OwnedByAssign]) (auto simp: owner_value_def)
  next
    case False
    with asg show ?thesis
      unfolding BulkAssignNumbers by (intro tracks_untouched [OF assms(1)]) (auto simp: fold_assigns_frame)
  qed
next
  case (BulkCreateChannel t n num f a)
  show ?thesis
  proof (cases "t = c")
    case True
    with BulkCreateChannel assms(2) show ?thesis by (intro tracks_created [OF assms(1)]) auto
  next
    case False
    with BulkCreateChannel show ?thesis by (intro tracks_untouched [OF assms(1)]) auto
  qed
next
  case (BulkDeleteChannel i)
  with assms(3) show ?thesis by (intro tracks_untouched [OF assms(1)]) auto
qed (use tracks_untouched [OF assms(1)] in \<open>auto simp: fold_stream_operation_def\<close>)

lemma tracks_fold:
  assumes "c \<notin> D" "\<forall>op \<in> set ops. \<not> deletes c op \<and> is_dict_update op" "tracks c ps st"
  shows "tracks c (ps @ ops) (fold (consolidate_step D C) ops st)"
  using assms(2,3)
proof (induction ops arbitrary: ps st)
  case (Cons op ops)
  then have "tracks c (ps @ [op]) (consolidate_step D C op st)" by (intro tracks_step assms(1)) auto
  with Cons.IH [of "ps @ [op]"] Cons.prems(1) show ?case by simp
qed simp

lemma scan_tracks:
  assumes "\<forall>op \<in> set ops. is_dict_update op" "c \<notin> channels_to_delete ops"
  shows "tracks c ops (scan_operations ops)"
proof -
  have "tracks c [] empty_consolidation" by (simp add: tracks_def empty_consolidation_def)
  with assms tracks_fold [of c "channels_to_delete ops" ops "[]" empty_consolidation "channels_to_create ops"]
  show ?thesis by (simp add: scan_operations_def channels_to_delete_iff)
qed

lemma scan_clean: "clean_dicts (channels_to_delete ops) (scan_operations ops)"
  unfolding scan_operations_def by (rule clean_fold) (simp add: clean_dicts_def empty_consolidation_def)

lemma scan_ordered:
  "filter (touches c) (co_ordered (scan_operations ops)) =
     filter (\<lambda>op. deletes c op \<and> \<not> (c < 0 \<and> c \<in> channels_to_create ops) \<or>
                  c \<notin> channels_to_delete ops \<and> creates c op) ops"
  unfolding scan_operations_def ordered_of_fold by (simp add: empty_consolidation_def)

section \<open>What is emitted\<close>

lemma touches_emit [simp]: "touches c (emit_ordered ow op) \<longleftrightarrow> touches c op"
  by (cases op) auto

lemma fold_ordered:
  "fold (number_at c) (map (emit_ordered ow) zs) x = fold (number_at c) (map (emit_ordered ow) (filter (touches c) zs)) x"
proof -
  have "filter (touches c) (map (emit_ordered ow) zs) = map (emit_ordered ow) (filter (touches c) zs)"
    by (induction zs) auto
  then show ?thesis using fold_number_at_filter by metis
qed

lemma map_of_without: "map_of (filter (\<lambda>(k, v). k \<noteq> key) d) key = None"
  by (induction d) auto

lemma emit_update_effect:
  "fold (number_at c) (emit_update st (i, d)) x =
     (if i = c \<and> co_owner st c = Some OwnedByUpdate
      then (case map_of d ''channel_number'' of Some v \<Rightarrow> map_option (\<lambda>_. v) x | None \<Rightarrow> x) else x)"
proof (cases "map_of d ''channel_number''")
  case None
  then show ?thesis by (simp add: emit_update_def Let_def)
next
  case (Some v)
  then have "d \<noteq> []" by auto
  with Some show ?thesis by (auto simp: emit_update_def Let_def map_of_without)
qed

lemma emit_updates_effect:
  "distinct (map fst us) \<Longrightarrow>
   fold (number_at c) (concat (map (emit_update st) us)) x =
     (case Option.bind (map_of us c) (\<lambda>d. map_of d ''channel_number'') of
        Some v \<Rightarrow> if co_owner st c = Some OwnedByUpdate then map_option (\<lambda>_. v) x else x
      | None \<Rightarrow> x)"
proof (induction us arbitrary: x)
  case (Cons u us)
  obtain i d where u: "u = (i, d)" by (cases u)
  have rest: "i = c \<Longrightarrow> map_of us c = None"
    using Cons.prems by (auto simp: u map_of_eq_None_iff)
  show ?case
    using Cons by (cases "i = c") (auto simp: u emit_update_effect rest split: option.splits)
qed simp

text \<open>Whole numbers below \<open>2 ^ 49\<close>: arithmetic on them is exact in both of Python's number types.\<close>

definition whole :: "pyval \<Rightarrow> int \<Rightarrow> bool" where
  "whole v n \<longleftrightarrow> (v = PInt n \<or> v = PFloat (Fin (of_int n))) \<and> \<bar>n\<bar> < 2 ^ 49"

lemma whole_number [simp]: "whole v n \<Longrightarrow> number_as_rat v = of_int n"
  by (auto simp: whole_def)

lemma add_offset_whole:
  assumes "v = PInt n \<or> v = PFloat (Fin (of_int n))" "\<bar>n + int k\<bar> \<le> 2 ^ 53"
  shows "add_offset v k = PInt (n + int k) \<or> add_offset v k = PFloat (Fin (of_int (n + int k)))"
  using assms(1)
proof
  assume v: "v = PFloat (Fin (of_int n))"
  have "fl (of_int n + of_nat k) = fl (of_int (n + int k))" by simp
  also have "\<dots> = of_int (n + int k)" using assms(2) by (rule fl_of_int)
  finally have f: "fl (of_int n + of_nat k) = of_int (n + int k)" .
  have "of_int (n + int k) \<le> (2 ^ 53 :: rat)"
    using assms(2) by (metis abs_le_D1 of_int_le_iff of_int_numeral of_int_power)
  also have "\<dots> < 2 ^ 1024" by simp
  finally show ?thesis by (simp add: v f Let_def)
qed simp

lemma whole_offset: "whole v n \<Longrightarrow> \<bar>n + int k\<bar> < 2 ^ 49 \<Longrightarrow> whole (add_offset v k) (n + int k)"
  using add_offset_whole [of v n k] by (auto simp: whole_def)

lemma whole_next: "whole v n \<Longrightarrow> 0 \<le> n \<Longrightarrow> number_as_rat (add_offset v 1) = of_int (n + 1)"
  using add_offset_whole [of v n 1] by (auto simp: whole_def)

lemma whole_start:
  assumes "whole v n" "pydantic_channel_number v = returns w"
  shows "w = PFloat (Fin (of_int n))"
proof -
  have "float_of_int n = Some (of_int n)" using assms(1) by (intro float_of_int_small) (simp add: whole_def)
  with assms show ?thesis by (auto simp: whole_def pydantic_channel_number_def split: if_splits)
qed

lemma take_run_whole:
  assumes "whole v n" "0 \<le> n" "\<forall>e \<in> set es. \<exists>m \<ge> 0. whole (snd e) m" "take_run v es = (ids, rest)"
  shows "\<exists>pre. es = pre @ rest \<and> ids = map fst pre \<and> (\<forall>k < length pre. whole (snd (pre ! k)) (n + 1 + int k))"
  using assms
proof (induction v es arbitrary: n ids rule: take_run.induct)
  case (2 v c w es)
  show ?case
  proof (cases "number_as_rat w = number_as_rat (add_offset v 1)")
    case True
    from 2(4) obtain m where m: "0 \<le> m" "whole w m" by auto
    with True whole_next [OF 2(2,3)] have "m = n + 1" by simp
    from True 2(5) obtain ids' where ids': "take_run w es = (ids', rest)" "ids = c # ids'"
      by (auto split: prod.splits)
    from 2(1) [OF True m(2,1) _ ids'(1)] 2(4) obtain pre where pre: "es = pre @ rest" "ids' = map fst pre"
      "\<forall>k < length pre. whole (snd (pre ! k)) (m + 1 + int k)" by auto
    have "whole (snd (((c, w) # pre) ! k)) (n + 1 + int k)" if "k < length ((c, w) # pre)" for k
      using that pre(3) m \<open>m = n + 1\<close> by (cases k) (auto simp: algebra_simps)
    with pre ids' show ?thesis by (intro exI [of _ "(c, w) # pre"]) auto
  next
    case False
    with 2(5) show ?thesis by (intro exI [of _ "[]"]) auto
  qed
qed simp

lemma assign_at_nth:
  "distinct ids \<Longrightarrow> k < length ids \<Longrightarrow> assign_at (ids ! k) ids first j x = map_option (\<lambda>_. add_offset first (j + k)) x"
proof (induction ids arbitrary: j k x)
  case (Cons i ids)
  show ?case
  proof (cases k)
    case 0
    with Cons.prems show ?thesis by (simp add: assign_at_absent)
  next
    case (Suc k')
    with Cons.prems have "ids ! k' \<noteq> i" by (auto simp: in_set_conv_nth)
    with Suc Cons.IH [of k' "Suc j" x] Cons.prems show ?thesis by simp
  qed
qed simp

text \<open>One emitted range gives every channel of its run the number it had in the dictionary.\<close>

lemma emit_range_effect:
  assumes run: "emit_range (v, map fst ((c0, v) # pre)) = returns op" "distinct (map fst ((c0, v) # pre))"
    and v: "whole v n" and pre: "\<forall>k < length pre. whole (snd (pre ! k)) (n + 1 + int k)"
  shows "c \<notin> fst ` set ((c0, v) # pre) \<Longrightarrow> number_at c op x = x"
    and "(c, u) \<in> set ((c0, v) # pre) \<Longrightarrow>
         \<exists>w m. whole u m \<and> whole w m \<and> (\<forall>x. number_at c op x = map_option (\<lambda>_. w) x)"
proof -
  let ?run = "(c0, v) # pre" and ?first = "PFloat (Fin (of_int n))"
  have op: "op = BulkAssignNumbers (map fst ?run) (Some (Fin (of_int n)))"
    using run(1) whole_start [OF v] by (auto simp: emit_range_def)
  then have at: "number_at c op x = assign_at c (map fst ?run) ?first 0 x" for c x
    by (simp add: range_start_def)
  show "c \<notin> fst ` set ?run \<Longrightarrow> number_at c op x = x" unfolding at by (rule assign_at_absent) simp
  assume "(c, u) \<in> set ?run"
  then obtain k where k: "k < length ?run" "?run ! k = (c, u)" by (metis in_set_conv_nth)
  have u: "whole u (n + int k)"
  proof (cases k)
    case (Suc j)
    with k have j: "j < length pre" "pre ! j = (c, u)" by simp_all
    from pre [rule_format, OF j(1)] j(2) have "whole u (n + 1 + int j)" by simp
    with Suc show ?thesis by (simp add: algebra_simps)
  qed (use k v in simp)
  have "map fst ?run ! k = c" using k by (metis fst_conv nth_map)
  then have "assign_at c (map fst ?run) ?first 0 x = map_option (\<lambda>_. add_offset ?first k) x" for x
    using assign_at_nth [OF run(2), of k ?first 0 x] k(1) by simp
  moreover have "whole (add_offset ?first k) (n + int k)"
    using v u by (intro whole_offset) (auto simp: whole_def)
  ultimately show "\<exists>w m. whole u m \<and> whole w m \<and> (\<forall>x. number_at c op x = map_option (\<lambda>_. w) x)"
    unfolding at using u by blast
qed

lemma emit_ranges_effect:
  assumes "emit_ranges (consecutive_runs es) = returns R" "distinct (map fst es)"
    "\<forall>e \<in> set es. \<exists>m \<ge> 0. whole (snd e) m"
  shows "(c \<notin> fst ` set es \<longrightarrow> (\<forall>x. fold (number_at c) R x = x)) \<and>
         (\<forall>u. (c, u) \<in> set es \<longrightarrow>
            (\<exists>w m. whole u m \<and> whole w m \<and> (\<forall>x. fold (number_at c) R x = map_option (\<lambda>_. w) x)))"
  using assms
proof (induction es arbitrary: R rule: consecutive_runs.induct)
  case (2 c0 v es)
  obtain ids rest where tr: "take_run v es = (ids, rest)" by force
  from 2(4) obtain n where n: "0 \<le> n" "whole v n" by auto
  from take_run_whole [OF n(2,1) _ tr] 2(4) obtain pre where pre: "es = pre @ rest" "ids = map fst pre"
    "\<forall>k < length pre. whole (snd (pre ! k)) (n + 1 + int k)" by auto
  from 2(2) obtain op R' where R: "emit_range (v, map fst ((c0, v) # pre)) = returns op"
    "emit_ranges (consecutive_runs rest) = returns R'" "R = op # R'"
    by (auto simp: tr pre(2))
  have d: "distinct (map fst ((c0, v) # pre))" "distinct (map fst rest)"
    and disj: "fst ` set ((c0, v) # pre) \<inter> fst ` set rest = {}" using 2(3) by (auto simp: pre(1))
  note one = emit_range_effect [OF R(1) d(1) n(2) pre(3)]
  note IH = 2(1) [OF tr [symmetric] R(2) d(2)]
  have IH': "(c \<notin> fst ` set rest \<longrightarrow> (\<forall>x. fold (number_at c) R' x = x)) \<and>
         (\<forall>u. (c, u) \<in> set rest \<longrightarrow>
            (\<exists>w m. whole u m \<and> whole w m \<and> (\<forall>x. fold (number_at c) R' x = map_option (\<lambda>_. w) x)))"
    by (rule IH) (use 2(4) pre(1) in auto)
  show ?case
  proof (intro conjI impI allI)
    fix x assume "c \<notin> fst ` set ((c0, v) # es)"
    then have "c \<notin> fst ` set ((c0, v) # pre)" "c \<notin> fst ` set rest" by (auto simp: pre(1))
    with one(1) IH' show "fold (number_at c) R x = x" by (simp add: R(3))
  next
    fix u assume "(c, u) \<in> set ((c0, v) # es)"
    then consider "(c, u) \<in> set ((c0, v) # pre)" | "(c, u) \<in> set rest" by (auto simp: pre(1))
    then show "\<exists>w m. whole u m \<and> whole w m \<and> (\<forall>x. fold (number_at c) R x = map_option (\<lambda>_. w) x)"
    proof cases
      case 1
      then have "c \<notin> fst ` set rest" using disj by force
      with 1 one(2) IH' show ?thesis by (auto simp: R(3))
    next
      case 2
      then have "c \<notin> fst ` set ((c0, v) # pre)" using disj by force
      with 2 one(1) IH' show ?thesis by (simp add: R(3))
    qed
  qed
qed simp

lemma owned_numbers_sorted:
  assumes "clean_dicts D st"
  shows "distinct (map fst (sort_key f (owned_numbers st)))"
    and "(c, u) \<in> set (sort_key f (owned_numbers st)) \<longleftrightarrow>
         co_owner st c = Some OwnedByAssign \<and> map_of (co_final_numbers st) c = Some u"
proof -
  have d: "distinct (map fst (owned_numbers st))"
    using assms by (simp add: clean_dicts_def owned_numbers_def distinct_map_filter)
  have "mset (map fst (sort_key f (owned_numbers st))) = mset (map fst (owned_numbers st))" by simp
  with d show "distinct (map fst (sort_key f (owned_numbers st)))" by (metis mset_eq_imp_distinct_iff)
  show "(c, u) \<in> set (sort_key f (owned_numbers st)) \<longleftrightarrow>
         co_owner st c = Some OwnedByAssign \<and> map_of (co_final_numbers st) c = Some u"
    using assms by (auto simp: owned_numbers_def clean_dicts_def)
qed

section \<open>Consolidation keeps the numbering\<close>

text \<open>Requests whose ranges start at whole numbers, in the range where doubles are exact.\<close>

fun whole_range :: "bulk_operation \<Rightarrow> bool" where
  "whole_range (BulkAssignNumbers ids start) \<longleftrightarrow>
     (case start of
        None \<Rightarrow> 1 + int (length ids) < 2 ^ 49
      | Some f \<Rightarrow> \<exists>n \<ge> 0. f = Fin (of_int n) \<and> n + int (length ids) < 2 ^ 49)"
| "whole_range _ \<longleftrightarrow> True"

definition whole_numbers :: "consolidation \<Rightarrow> bool" where
  "whole_numbers st \<longleftrightarrow> (\<forall>e \<in> set (co_final_numbers st). \<exists>m \<ge> 0. whole (snd e) m)"

lemma whole_assigns:
  assumes "whole first n" "0 \<le> n" "n + int k + int (length ids) < 2 ^ 49" "whole_numbers st"
  shows "whole_numbers (fold (fold_assign D first) (enumerate k ids) st)"
  using assms(3,4)
proof (induction ids arbitrary: k st)
  case (Cons i ids)
  have "whole (add_offset first k) (n + int k)"
    using assms(1,2) Cons.prems(1) by (intro whole_offset) auto
  then have new: "\<exists>m \<ge> 0. whole (add_offset first k) m" using assms(2) by (intro exI [of _ "n + int k"]) simp
  have "whole_numbers (fold_assign D first (k, i) st)"
  proof (cases "i \<in> D")
    case True
    with Cons.prems(2) show ?thesis by (simp add: fold_assign_def)
  next
    case False
    show ?thesis
      unfolding whole_numbers_def
    proof
      fix e assume "e \<in> set (co_final_numbers (fold_assign D first (k, i) st))"
      with False have "e = (i, add_offset first k) \<or> e \<in> set (co_final_numbers st)"
        using set_dict_put [of i "add_offset first k" "co_final_numbers st"] by (auto simp: fold_assign_def)
      with new Cons.prems(2) show "\<exists>m \<ge> 0. whole (snd e) m" by (auto simp: whole_numbers_def)
    qed
  qed
  with Cons.IH [of "Suc k"] Cons.prems(1) show ?case by simp
qed simp

lemma whole_step: "whole_range op \<Longrightarrow> whole_numbers st \<Longrightarrow> whole_numbers (consolidate_step D C op st)"
proof (cases op)
  case (BulkAssignNumbers ids start)
  assume w: "whole_range op" "whole_numbers st"
  obtain n where "0 \<le> n" "range_start start = PInt n \<or> range_start start = PFloat (Fin (of_int n))"
    "n + int (length ids) < 2 ^ 49"
    using w(1) by (cases start) (auto simp: BulkAssignNumbers range_start_def)
  then have "whole (range_start start) n" "0 \<le> n" "n + int 0 + int (length ids) < 2 ^ 49"
    by (auto simp: whole_def)
  from whole_assigns [OF this w(2)] show ?thesis by (simp add: BulkAssignNumbers)
qed (auto simp: whole_numbers_def fold_update_simps fold_stream_operation_def)

lemma whole_fold:
  "\<forall>op \<in> set ops. whole_range op \<Longrightarrow> whole_numbers st \<Longrightarrow> whole_numbers (fold (consolidate_step D C) ops st)"
  by (induction ops arbitrary: st) (simp_all add: whole_step)

lemma scan_whole: "\<forall>op \<in> set ops. whole_range op \<Longrightarrow> whole_numbers (scan_operations ops)"
  unfolding scan_operations_def by (rule whole_fold) (simp_all add: whole_numbers_def empty_consolidation_def)

lemma whole_accepted: "whole v n \<Longrightarrow> 0 \<le> n \<Longrightarrow> \<exists>w. pydantic_channel_number v = returns w"
  using valid_whole_number [of n] by (auto simp: whole_def pydantic_channel_number_def float_of_int_small)

lemma run_starts: "run \<in> set (consecutive_runs es) \<Longrightarrow> fst run \<in> snd ` set es"
proof (induction es rule: consecutive_runs.induct)
  case (2 c v es)
  have rest: "take_run v es = (ids, rest) \<Longrightarrow> set rest \<subseteq> set es" for v es ids rest
    by (induction v es arbitrary: ids rule: take_run.induct) (auto split: if_splits prod.splits)
  obtain ids rest' where tr: "take_run v es = (ids, rest')" by force
  with 2(2) have "run = (v, c # ids) \<or> run \<in> set (consecutive_runs rest')" by simp
  with 2(1) [OF tr [symmetric]] rest [OF tr] show ?case by auto
qed simp

lemma emit_ranges_returns:
  "\<forall>run \<in> set runs. \<exists>n \<ge> 0. whole (fst run) n \<Longrightarrow> \<exists>R. emit_ranges runs = returns R"
proof (induction runs)
  case (Cons run runs)
  then obtain w R where "pydantic_channel_number (fst run) = returns w" "emit_ranges runs = returns R"
    using whole_accepted by fastforce
  then show ?case by (simp add: emit_range_def)
qed simp

text \<open>Building the ranges never fails on whole numbers.\<close>

lemma consolidation_returns:
  assumes "\<forall>op \<in> set ops. whole_range op"
  shows "\<exists>out. consolidate_operations ops = returns out"
proof -
  let ?es = "sort_key (\<lambda>(c, v). number_as_rat v) (owned_numbers (scan_operations ops))"
  have "\<exists>n \<ge> 0. whole (fst run) n" if r: "run \<in> set (consecutive_runs ?es)" for run
  proof -
    obtain c where "(c, fst run) \<in> set (co_final_numbers (scan_operations ops))"
      using run_starts [OF r] by (auto simp: owned_numbers_def)
    with scan_whole [OF assms] show ?thesis unfolding whole_numbers_def by (metis snd_conv)
  qed
  then obtain R where "emit_ranges (consecutive_runs ?es) = returns R" using emit_ranges_returns by blast
  then show ?thesis by (simp add: consolidate_operations_def Let_def)
qed

text \<open>Two numbers as Python compares them: equal, or the same whole number as \<open>int\<close> and \<open>float\<close>.\<close>

definition equal_number :: "pyval \<Rightarrow> pyval \<Rightarrow> bool" where
  "equal_number v w \<longleftrightarrow> v = w \<or> (\<exists>n. whole v n \<and> whole w n)"

definition well_formed_request :: "bulk_operation list \<Rightarrow> bool" where
  "well_formed_request ops \<longleftrightarrow>
     validate_bulk_channel_dependencies ops = returns () \<and>
     (\<forall>op \<in> set ops. is_dict_update op \<and> (\<forall>c. creates c op \<longrightarrow> c < 0))"

text \<open>The three parts of the output, as seen from one channel.\<close>

lemma consolidated_parts:
  assumes "consolidate_operations ops = returns out" "\<forall>op \<in> set ops. whole_range op"
  defines "st \<equiv> scan_operations ops"
  obtains R where "out = map (emit_ordered (co_owner st)) (co_ordered st) @ concat (map (emit_update st) (co_updates st)) @ R"
    and "\<And>c x. co_owner st c \<noteq> Some OwnedByAssign \<or> map_of (co_final_numbers st) c = None \<Longrightarrow> fold (number_at c) R x = x"
    and "\<And>c u. co_owner st c = Some OwnedByAssign \<Longrightarrow> map_of (co_final_numbers st) c = Some u \<Longrightarrow>
           \<exists>w m. whole u m \<and> whole w m \<and> (\<forall>x. fold (number_at c) R x = map_option (\<lambda>_. w) x)"
proof -
  let ?es = "sort_key (\<lambda>(c, v). number_as_rat v) (owned_numbers st)"
  obtain R where R: "emit_ranges (consecutive_runs ?es) = returns R"
    "out = map (emit_ordered (co_owner st)) (co_ordered st) @ concat (map (emit_update st) (co_updates st)) @ R"
    using assms(1) by (auto simp: consolidate_operations_def Let_def st_def)
  note es = owned_numbers_sorted [OF scan_clean [of ops], where f = "\<lambda>(c, v). number_as_rat v", folded st_def]
  have whole: "\<forall>e \<in> set ?es. \<exists>m \<ge> 0. whole (snd e) m"
    using scan_whole [OF assms(2)] by (auto simp: whole_numbers_def owned_numbers_def st_def)
  note eff = emit_ranges_effect [OF R(1) es(1) whole]
  show thesis
  proof (rule that [OF R(2)])
    fix c x assume "co_owner st c \<noteq> Some OwnedByAssign \<or> map_of (co_final_numbers st) c = None"
    then have "c \<notin> fst ` set ?es" using es(2) by fastforce
    with eff show "fold (number_at c) R x = x" by blast
  next
    fix c u assume "co_owner st c = Some OwnedByAssign" "map_of (co_final_numbers st) c = Some u"
    then have "(c, u) \<in> set ?es" using es(2) by blast
    with eff show "\<exists>w m. whole u m \<and> whole w m \<and> (\<forall>x. fold (number_at c) R x = map_option (\<lambda>_. w) x)" by blast
  qed
qed

lemma ordered_effect:
  assumes ok: "well_formed_request ops" and c: "c \<notin> channels_to_delete ops"
  defines "st \<equiv> scan_operations ops"
  shows "fold (number_at c) (map (emit_ordered (co_owner st)) (co_ordered st)) x =
           (case filter (creates c) ops of
              [] \<Rightarrow> x
            | op # _ \<Rightarrow> number_at c (emit_ordered (co_owner st) op) x)"
proof -
  have "\<not> deletes c op" if "op \<in> set ops" for op using that c by (auto simp: channels_to_delete_iff)
  then have ord: "filter (touches c) (co_ordered st) = filter (creates c) ops"
    unfolding st_def scan_ordered using c by (auto intro: filter_cong)
  have "length (filter (creates c) ops) \<le> 1"
    using ok created_once by (auto simp: well_formed_request_def validate_bulk_channel_dependencies_def)
  then show ?thesis
    unfolding fold_ordered [of c _ "co_ordered st"] ord by (cases "filter (creates c) ops") auto
qed

lemma deleted_consolidated:
  assumes ok: "well_formed_request ops" and out: "consolidate_operations ops = returns out"
    and w: "\<forall>op \<in> set ops. whole_range op" and c: "c \<in> channels_to_delete ops" and new: "c < 0 \<Longrightarrow> x = None"
  shows "fold (number_at c) out x = None"
proof -
  let ?st = "scan_operations ops"
  obtain R where R: "out = map (emit_ordered (co_owner ?st)) (co_ordered ?st) @ concat (map (emit_update ?st) (co_updates ?st)) @ R"
    and none: "\<And>c x. co_owner ?st c \<noteq> Some OwnedByAssign \<or> map_of (co_final_numbers ?st) c = None \<Longrightarrow> fold (number_at c) R x = x"
    by (rule consolidated_parts [OF out w]) (rule that)
  have keys: "map_of (co_updates ?st) c = None" "map_of (co_final_numbers ?st) c = None"
    and d: "distinct (map fst (co_updates ?st))"
    using scan_clean [of ops] c by (auto simp: clean_dicts_def map_of_eq_None_iff)
  have rest: "fold (number_at c) out x =
      fold (number_at c) (map (emit_ordered (co_owner ?st)) (co_ordered ?st)) x"
    by (simp add: R none keys emit_updates_effect [OF d])
  have ord: "filter (touches c) (co_ordered ?st) =
      (if c < 0 \<and> c \<in> channels_to_create ops then [] else filter (deletes c) ops)"
    unfolding scan_ordered using c by auto
  show ?thesis
  proof (cases "c < 0 \<and> c \<in> channels_to_create ops")
    case True
    with rest ord new show ?thesis by (simp add: fold_ordered [of c _ "co_ordered ?st"])
  next
    case False
    from c obtain op where op: "op \<in> set (filter (deletes c) ops)" by (auto simp: channels_to_delete_iff)
    have id: "map (emit_ordered ow) (filter (deletes c) ops) = filter (deletes c) ops" for ow
    proof -
      have "emit_ordered ow op = op" if "deletes c op" for op using that by (cases op) auto
      then show ?thesis by (intro map_idI) simp
    qed
    have "\<forall>q \<in> set (filter (deletes c) ops). \<not> creates c q"
    proof
      fix q assume "q \<in> set (filter (deletes c) ops)"
      then have "deletes c q" by simp
      then show "\<not> creates c q" by (cases q) auto
    qed
    from deleted_is_gone [OF op _ this] op have "fold (number_at c) (filter (deletes c) ops) x = None" by auto
    moreover have "filter (touches c) (co_ordered ?st) = filter (deletes c) ops" using ord False by auto
    ultimately show ?thesis by (simp add: rest fold_ordered [of c _ "co_ordered ?st"] id)
  qed
qed

lemma kept_consolidated:
  assumes ok: "well_formed_request ops" and out: "consolidate_operations ops = returns out"
    and w: "\<forall>op \<in> set ops. whole_range op" and c: "c \<notin> channels_to_delete ops"
  shows "rel_option equal_number (fold (number_at c) ops x) (fold (number_at c) out x)"
proof -
  let ?st = "scan_operations ops" and ?orig = "fold (number_at c) ops x"
  let ?A = "fold (number_at c) (map (emit_ordered (co_owner ?st)) (co_ordered ?st)) x"
  obtain R where R: "out = map (emit_ordered (co_owner ?st)) (co_ordered ?st) @ concat (map (emit_update ?st) (co_updates ?st)) @ R"
    and none: "\<And>c x. co_owner ?st c \<noteq> Some OwnedByAssign \<or> map_of (co_final_numbers ?st) c = None \<Longrightarrow> fold (number_at c) R x = x"
    and assigned: "\<And>c u. co_owner ?st c = Some OwnedByAssign \<Longrightarrow> map_of (co_final_numbers ?st) c = Some u \<Longrightarrow>
           \<exists>w m. whole u m \<and> whole w m \<and> (\<forall>x. fold (number_at c) R x = map_option (\<lambda>_. w) x)"
    by (rule consolidated_parts [OF out w]) (rule that)
  have d: "distinct (map fst (co_updates ?st))" using scan_clean [of ops] by (simp add: clean_dicts_def)
  have tr: "tracks c ops ?st" using ok c by (intro scan_tracks) (auto simp: well_formed_request_def)
  note A = ordered_effect [OF ok c, of x]
  have A_None: "?A = None \<longleftrightarrow> ?orig = None"
  proof -
    have made: "number_at c (emit_ordered ow op) y \<noteq> None" if "creates c op" for ow op y using that by (cases op) auto
    have orig: "?orig = None \<longleftrightarrow> x = None \<and> filter (creates c) ops = []"
      using tr by (auto simp: tracks_def filter_empty_conv)
    show ?thesis
    proof (cases "filter (creates c) ops")
      case (Cons op rest)
      then have "creates c op" by (metis filter_eq_ConsD)
      with made have "number_at c (emit_ordered (co_owner ?st) op) x \<noteq> None" by blast
      with Cons orig show ?thesis unfolding A by auto
    qed (simp add: A orig)
  qed
  have out_c: "fold (number_at c) out x = fold (number_at c) R
      (case Option.bind (map_of (co_updates ?st) c) (\<lambda>d. map_of d ''channel_number'') of
         Some v \<Rightarrow> if co_owner ?st c = Some OwnedByUpdate then map_option (\<lambda>_. v) ?A else ?A | None \<Rightarrow> ?A)"
    by (simp add: R emit_updates_effect [OF d])
  show ?thesis
  proof (cases "co_owner ?st c")
    case None
    with tr have "\<forall>op \<in> set ops. \<not> touches c op" by (simp add: tracks_def)
    moreover from this have "filter (creates c) ops = []"
      by (auto simp: filter_empty_conv) (metis creates.elims(2) touches.simps(3))
    ultimately have "?orig = x" "?A = x" unfolding A by (simp_all add: fold_number_at_filter [of c ops] filter_empty_conv)
    with None show ?thesis by (simp add: out_c none option.rel_refl equal_number_def split: option.splits)
  next
    case (Some ow)
    with tr have val: "owner_value c ops ?st \<noteq> None"
      "\<And>y. ?orig = Some y \<Longrightarrow> owner_value c ops ?st = Some y" by (auto simp: tracks_def)
    then obtain v where "owner_value c ops ?st = Some v" by auto
    with val(2) have v: "owner_value c ops ?st = Some v" "?orig = None \<or> ?orig = Some v"
      by (cases ?orig; auto)+
    show ?thesis
    proof (cases ow)
      case OwnedByAssign
      with Some v have "map_of (co_final_numbers ?st) c = Some v" by (simp add: owner_value_def)
      from assigned [OF _ this] Some OwnedByAssign obtain u m where
        "whole v m" "whole u m" "\<forall>x. fold (number_at c) R x = map_option (\<lambda>_. u) x" by auto
      with Some OwnedByAssign v A_None show ?thesis
        by (auto simp: out_c equal_number_def split: option.splits)
    next
      case OwnedByUpdate
      with Some v show ?thesis using A_None by (auto simp: out_c none owner_value_def equal_number_def)
    next
      case OwnedByCreate
      with Some tr obtain op where "op \<in> set ops" "creates c op" by (auto simp: tracks_def)
      then obtain op rest where f: "filter (creates c) ops = op # rest" "creates c op"
        by (cases "filter (creates c) ops") (auto simp: filter_empty_conv filter_eq_Cons_iff)
      have "length (filter (creates c) ops) \<le> 1"
        using ok created_once by (auto simp: well_formed_request_def validate_bulk_channel_dependencies_def)
      with f have one: "filter (creates c) ops = [op]" by simp
      obtain n num g a where op: "op = BulkCreateChannel c n num g a" using f(2) by (cases op) auto
      have "?A = Some (number_value num)" unfolding A one using Some OwnedByCreate by (simp add: op)
      moreover have "v = number_value num" using v(1) Some OwnedByCreate by (simp add: owner_value_def one op)
      moreover have "?orig \<noteq> None" using A_None \<open>?A = Some (number_value num)\<close> by simp
      ultimately show ?thesis using v(2) Some OwnedByCreate
        by (auto simp: out_c none equal_number_def split: option.splits)
    qed
  qed
qed

lemma consolidated_channel:
  assumes ok: "well_formed_request ops" and out: "consolidate_operations ops = returns out"
    and whole: "\<forall>op \<in> set ops. whole_range op" and lineup: "\<forall>c < 0. m c = None"
  shows "rel_option equal_number (fold number_effect (map numbering_view ops) m c)
           (fold number_effect (map numbering_view out) m c)"
proof (cases "c \<in> channels_to_delete ops")
  case True
  have "fold (number_at c) ops (m c) = None"
  proof (cases "c < 0")
    case True
    with ok \<open>c \<in> channels_to_delete ops\<close> show ?thesis
      by (intro deleted_temp_is_gone) (auto simp: well_formed_request_def)
  next
    case False
    with ok have "\<forall>op \<in> set ops. \<not> creates c op" by (auto simp: well_formed_request_def)
    with True deleted_is_gone show ?thesis by (auto simp: channels_to_delete_iff)
  qed
  with deleted_consolidated [OF ok out whole True, of "m c"] lineup show ?thesis by (simp add: replay_at)
next
  case False
  with kept_consolidated [OF ok out whole] show ?thesis by (simp add: replay_at)
qed

text \<open>C20. Folding redundant operations succeeds and does not change where any channel ends up: replaying the
  consolidated request gives every channel the number, or the absence, that replaying the submitted
  request gives it. Last write wins by submitted position, whatever kind of operation wrote it, and
  cancelled creates, deletes and regrouped ranges make no difference. (For ranges of whole numbers below
  \<open>2 ^ 49\<close>; a whole number may change from \<open>int\<close> to \<open>float\<close>.)\<close>

theorem consolidation_keeps_final_numbers:
  assumes "well_formed_request ops" "\<forall>op \<in> set ops. whole_range op" "\<forall>c < 0. m c = None"
  shows "\<exists>out. consolidate_operations ops = returns out \<and>
           (\<forall>c. rel_option equal_number (fold number_effect (map numbering_view ops) m c)
                  (fold number_effect (map numbering_view out) m c))"
  using consolidation_returns [OF assms(2)] consolidated_channel [OF assms(1) _ assms(2,3)] by blast

section \<open>One write per channel\<close>

fun writes_number :: "int \<Rightarrow> bulk_operation \<Rightarrow> bool" where
  "writes_number c (BulkUpdateChannel i d a e) \<longleftrightarrow> i = c \<and> map_of d ''channel_number'' \<noteq> None"
| "writes_number c (BulkAssignNumbers ids start) \<longleftrightarrow> c \<in> set ids"
| "writes_number c (BulkCreateChannel t n num f a) \<longleftrightarrow> t = c \<and> num \<noteq> None"
| "writes_number c _ \<longleftrightarrow> False"

lemma ordered_ops_kinds:
  "op \<in> set (co_ordered (fold (consolidate_step D C) ops st)) \<Longrightarrow>
   op \<in> set (co_ordered st) \<or> op \<in> set ops \<and> (\<forall>c. touches c op \<longrightarrow> creates c op \<or> deletes c op)"
proof (induction ops arbitrary: st)
  case (Cons q ops)
  have "op \<in> set (co_ordered (consolidate_step D C q st)) \<Longrightarrow>
        op \<in> set (co_ordered st) \<or> op = q \<and> (\<forall>c. touches c op \<longrightarrow> creates c op \<or> deletes c op)"
    by (cases q) (auto simp: fold_assigns_frame fold_update_simps fold_stream_operation_def split: if_splits)
  with Cons show ?case by auto
qed simp

lemma length_filter_map_le:
  "\<forall>x \<in> set xs. P (f x) \<longrightarrow> Q x \<Longrightarrow> length (filter P (map f xs)) \<le> length (filter Q xs)"
  by (induction xs) auto

lemma ordered_creates:
  assumes "well_formed_request ops"
  shows "length (filter (creates c) (co_ordered (scan_operations ops))) \<le> 1"
proof -
  have crt: "creates c op \<Longrightarrow> touches c op \<and> \<not> deletes c op" for op by (cases op) auto
  have "filter (creates c) (co_ordered (scan_operations ops)) =
        filter (creates c) (filter (touches c) (co_ordered (scan_operations ops)))"
    using crt by (auto simp: filter_filter intro: filter_cong)
  also have "\<dots> = filter (\<lambda>op. c \<notin> channels_to_delete ops \<and> creates c op) ops"
    unfolding scan_ordered filter_filter using crt by (auto intro: filter_cong)
  also have "length \<dots> \<le> length (filter (creates c) ops)" by (induction ops) auto
  also have "\<dots> \<le> 1"
    using assms created_once by (auto simp: well_formed_request_def validate_bulk_channel_dependencies_def)
  finally show ?thesis .
qed

lemma ordered_writers:
  assumes "well_formed_request ops"
  defines "st \<equiv> scan_operations ops"
  shows "length (filter (writes_number c) (map (emit_ordered (co_owner st)) (co_ordered st))) \<le>
         (if co_owner st c = Some OwnedByCreate then 1 else 0)"
proof -
  have crt: "creates c op \<and> co_owner st c = Some OwnedByCreate"
    if "op \<in> set (co_ordered st)" "writes_number c (emit_ordered (co_owner st) op)" for op
  proof -
    have "\<forall>c. touches c op \<longrightarrow> creates c op \<or> deletes c op"
      using ordered_ops_kinds that(1) unfolding st_def scan_operations_def by (fastforce simp: empty_consolidation_def)
    moreover have "touches c op" using that(2) by (cases op) (auto split: if_splits)
    ultimately show ?thesis using that(2) by (cases op) (auto split: if_splits)
  qed
  show ?thesis
  proof (cases "co_owner st c = Some OwnedByCreate")
    case True
    have "length (filter (writes_number c) (map (emit_ordered (co_owner st)) (co_ordered st)))
        \<le> length (filter (creates c) (co_ordered st))" using crt by (intro length_filter_map_le) blast
    also have "\<dots> \<le> 1" unfolding st_def by (rule ordered_creates [OF assms(1)])
    finally show ?thesis using True by simp
  next
    case False
    then have "filter (writes_number c) (map (emit_ordered (co_owner st)) (co_ordered st)) = []"
      using crt by (auto simp: filter_empty_conv)
    then show ?thesis by simp
  qed
qed

lemma emit_update_writers:
  "filter (writes_number c) (emit_update st (i, d)) = [] \<or>
   i = c \<and> co_owner st c = Some OwnedByUpdate \<and> length (filter (writes_number c) (emit_update st (i, d))) = 1"
  by (auto simp: emit_update_def Let_def map_of_without)

lemma update_writers:
  assumes "distinct (map fst us)"
  shows "length (filter (writes_number c) (concat (map (emit_update st) us))) \<le>
         (if co_owner st c = Some OwnedByUpdate \<and> c \<in> fst ` set us then 1 else 0)"
  using assms
proof (induction us)
  case (Cons u us)
  obtain i d where u: "u = (i, d)" by (cases u)
  have IH: "length (filter (writes_number c) (concat (map (emit_update st) us))) \<le>
      (if co_owner st c = Some OwnedByUpdate \<and> c \<in> fst ` set us then 1 else 0)" using Cons by simp
  from emit_update_writers [of c st i d] show ?case
  proof
    assume "filter (writes_number c) (emit_update st (i, d)) = []"
    with IH show ?thesis by (simp add: u split: if_splits)
  next
    assume e: "i = c \<and> co_owner st c = Some OwnedByUpdate \<and> length (filter (writes_number c) (emit_update st (i, d))) = 1"
    then have "c \<notin> fst ` set us" using Cons.prems by (simp add: u)
    with e IH show ?thesis by (auto simp: u)
  qed
qed simp

lemma run_channels: "concat (map snd (consecutive_runs es)) = map fst es"
proof (induction es rule: consecutive_runs.induct)
  case (2 c v es)
  have split: "take_run v es = (ids, rest) \<Longrightarrow> map fst es = ids @ map fst rest" for v es ids rest
    by (induction v es arbitrary: ids rule: take_run.induct) (auto split: if_splits prod.splits)
  obtain ids rest where tr: "take_run v es = (ids, rest)" by force
  with 2 [OF tr [symmetric]] split [OF tr] show ?case by simp
qed simp

text \<open>How often an operation writes the number of a channel.\<close>

fun number_writes :: "int \<Rightarrow> bulk_operation \<Rightarrow> nat" where
  "number_writes c (BulkAssignNumbers ids start) = count_list ids c"
| "number_writes c op = (if writes_number c op then 1 else 0)"

lemma single_writes:
  assumes "\<forall>op \<in> set ops. \<forall>ids start. op = BulkAssignNumbers ids start \<longrightarrow> c \<notin> set ids"
  shows "sum_list (map (number_writes c) ops) = length (filter (writes_number c) ops)"
  using assms
proof (induction ops)
  case (Cons op ops)
  then show ?case by (cases op) (auto simp: count_list_0_iff)
qed simp

lemma range_writers:
  "emit_ranges runs = returns R \<Longrightarrow> sum_list (map (number_writes c) R) = count_list (concat (map snd runs)) c"
proof (induction runs arbitrary: R)
  case (Cons run runs)
  then obtain start R' where R: "R = BulkAssignNumbers (snd run) start # R'" "emit_ranges runs = returns R'"
    by (auto simp: emit_range_def)
  with Cons.IH [OF R(2)] show ?case by simp
qed simp

lemma no_ranges_in_order:
  assumes "op \<in> set (map (emit_ordered ow) (co_ordered (scan_operations ops)))"
  shows "op = BulkAssignNumbers ids start \<longrightarrow> c \<notin> set ids"
proof
  assume op: "op = BulkAssignNumbers ids start"
  from assms obtain q where q: "q \<in> set (co_ordered (scan_operations ops))" "emit_ordered ow q = op" by auto
  with op have "q = BulkAssignNumbers ids start" by (cases q) (auto split: if_splits)
  moreover have "\<forall>c. touches c q \<longrightarrow> creates c q \<or> deletes c q"
    using ordered_ops_kinds [OF q(1) [unfolded scan_operations_def]] by (auto simp: empty_consolidation_def)
  ultimately show "c \<notin> set ids" by auto
qed

lemma no_ranges_in_updates:
  "op \<in> set (concat (map (emit_update st) us)) \<Longrightarrow> op = BulkAssignNumbers ids start \<longrightarrow> c \<notin> set ids"
  by (auto simp: emit_update_def Let_def split: if_splits)

lemma one_owner:
  fixes a b r :: nat
  assumes "a \<le> (if ow = Some OwnedByCreate then 1 else 0)" "b \<le> (if ow = Some OwnedByUpdate then 1 else 0)"
    "r \<le> (if ow = Some OwnedByAssign then 1 else 0)"
  shows "a + (b + r) \<le> 1"
  using assms by (auto split: if_splits)

text \<open>After consolidation any given channel's number is written at most once, over all operations
  together and within a range, so the order in which the kinds of operation are emitted cannot decide
  the result.\<close>

theorem consolidation_writes_each_number_once:
  assumes ok: "well_formed_request ops" and out: "consolidate_operations ops = returns out"
  shows "sum_list (map (number_writes c) out) \<le> 1"
proof -
  let ?st = "scan_operations ops"
  let ?es = "sort_key (\<lambda>(c, v). number_as_rat v) (owned_numbers ?st)"
  let ?A = "map (emit_ordered (co_owner ?st)) (co_ordered ?st)" and ?B = "concat (map (emit_update ?st) (co_updates ?st))"
  obtain R where R: "emit_ranges (consecutive_runs ?es) = returns R" "out = ?A @ ?B @ R"
    using out by (auto simp: consolidate_operations_def Let_def)
  note es = owned_numbers_sorted [OF scan_clean [of ops], where f = "\<lambda>(c, v). number_as_rat v"]
  have Rw: "sum_list (map (number_writes c) R) \<le> (if co_owner ?st c = Some OwnedByAssign then 1 else 0)"
  proof (cases "c \<in> fst ` set ?es")
    case True
    then have "co_owner ?st c = Some OwnedByAssign" using es(2) by fastforce
    moreover have "count_list (map fst ?es) c \<le> 1"
      using es(1) distinct_count_atmost_1 [of "map fst ?es"] by (metis count_mset le_refl zero_le_one)
    ultimately show ?thesis by (simp add: range_writers [OF R(1)] run_channels)
  next
    case False
    then show ?thesis by (simp add: range_writers [OF R(1)] run_channels count_list_0_iff)
  qed
  have Aw: "sum_list (map (number_writes c) ?A) = length (filter (writes_number c) ?A)"
    using no_ranges_in_order by (intro single_writes) blast
  have "sum_list (map (number_writes c) ?B) = length (filter (writes_number c) ?B)"
    using no_ranges_in_updates by (intro single_writes) blast
  also have "\<dots> \<le> (if co_owner ?st c = Some OwnedByUpdate then 1 else 0)"
    using update_writers [of "co_updates ?st" c ?st] scan_clean [of ops] by (auto simp: clean_dicts_def split: if_splits)
  finally have Bw: "sum_list (map (number_writes c) ?B) \<le> (if co_owner ?st c = Some OwnedByUpdate then 1 else 0)" .
  show ?thesis
    unfolding R(2) map_append sum_list_append
    by (rule one_owner [OF _ Bw Rw]) (unfold Aw, rule ordered_writers [OF ok])
qed

fun stream_channel :: "bulk_operation \<Rightarrow> int option" where
  "stream_channel (BulkAddStream c s) = Some c"
| "stream_channel (BulkRemoveStream c s) = Some c"
| "stream_channel (BulkReorderStreams c ss) = Some c"
| "stream_channel _ = None"

definition is_stream_operation :: "bulk_operation \<Rightarrow> bool" where
  "is_stream_operation op \<longleftrightarrow> stream_channel op \<noteq> None"

lemma streams_in_order:
  "filter is_stream_operation (co_ordered (fold (consolidate_step D C) ops st)) =
   filter is_stream_operation (co_ordered st) @
   filter (\<lambda>op. \<exists>c. stream_channel op = Some c \<and> \<not> (c < 0 \<and> c \<in> C \<and> c \<in> D)) ops"
proof (induction ops arbitrary: st)
  case (Cons op ops)
  show ?case
    unfolding fold.simps o_def Cons.IH
    by (cases op) (auto simp: is_stream_operation_def [abs_def] fold_assigns_frame fold_update_simps fold_stream_operation_def)
qed simp

text \<open>Operations on a channel's streams depend on their order and are never folded: the ones in the
  output are the submitted ones, in the submitted order, less those of a temporary channel that the
  request both creates and deletes.\<close>

theorem stream_operations_pass_in_order:
  assumes "consolidate_operations ops = returns out"
  shows "filter is_stream_operation out =
         filter (\<lambda>op. \<exists>c. stream_channel op = Some c \<and>
            \<not> (c < 0 \<and> c \<in> channels_to_create ops \<and> c \<in> channels_to_delete ops)) ops"
proof -
  let ?st = "scan_operations ops"
  obtain runs R where R: "emit_ranges runs = returns R"
    "out = map (emit_ordered (co_owner ?st)) (co_ordered ?st) @ concat (map (emit_update ?st) (co_updates ?st)) @ R"
    using assms by (auto simp: consolidate_operations_def Let_def)
  have "filter is_stream_operation R = []"
    using R(1) by (induction runs arbitrary: R) (auto simp: emit_range_def is_stream_operation_def [abs_def])
  moreover have "filter is_stream_operation (concat (map (emit_update ?st) us)) = []" for us
    by (induction us) (auto simp: emit_update_def is_stream_operation_def [abs_def] Let_def)
  moreover have "filter is_stream_operation (map (emit_ordered ow) zs) = filter is_stream_operation zs" for ow zs
  proof (induction zs)
    case (Cons z zs)
    then show ?case by (cases z) (auto simp: is_stream_operation_def [abs_def])
  qed simp
  ultimately show ?thesis
    by (simp add: R(2)) (simp add: scan_operations_def streams_in_order empty_consolidation_def)
qed

section \<open>Checking the consolidated request again\<close>

text \<open>\<open>_run_bulk_commit\<close> checks the dependencies a second time, on what consolidation returns. Which
  operations reach the output through \<open>ordered_ops\<close>:\<close>

fun kept_in_order :: "int set \<Rightarrow> int set \<Rightarrow> bulk_operation \<Rightarrow> bool" where
  "kept_in_order D C (BulkUpdateChannel c d a e) \<longleftrightarrow> False"
| "kept_in_order D C (BulkAssignNumbers ids start) \<longleftrightarrow> False"
| "kept_in_order D C (BulkAddStream c s) \<longleftrightarrow> \<not> (c < 0 \<and> c \<in> C \<and> c \<in> D)"
| "kept_in_order D C (BulkRemoveStream c s) \<longleftrightarrow> \<not> (c < 0 \<and> c \<in> C \<and> c \<in> D)"
| "kept_in_order D C (BulkReorderStreams c ss) \<longleftrightarrow> \<not> (c < 0 \<and> c \<in> C \<and> c \<in> D)"
| "kept_in_order D C (BulkCreateChannel t n num f a) \<longleftrightarrow> t \<notin> D"
| "kept_in_order D C (BulkDeleteChannel c) \<longleftrightarrow> \<not> (c < 0 \<and> c \<in> C)"
| "kept_in_order D C _ \<longleftrightarrow> True"

lemma ordered_is_filter:
  "co_ordered (fold (consolidate_step D C) ops st) = co_ordered st @ filter (kept_in_order D C) ops"
proof (induction ops arbitrary: st)
  case (Cons op ops)
  show ?case
    unfolding fold.simps o_def Cons.IH
    by (cases op) (auto simp: fold_assigns_frame fold_update_simps fold_stream_operation_def)
qed simp

text \<open>The dependency check as a predicate on the set of channels created so far.\<close>

fun deps_ok :: "int set \<Rightarrow> bulk_operation list \<Rightarrow> bool" where
  "deps_ok S [] \<longleftrightarrow> True"
| "deps_ok S (op # ops) \<longleftrightarrow>
     set (negative_channel_references op) \<subseteq> S \<and> set (created_channel op) \<inter> S = {} \<and>
     deps_ok (S \<union> set (created_channel op)) ops"

lemma check_is_deps_ok: "check_dependencies i created ops = returns () \<longleftrightarrow> deps_ok (set created) ops"
proof (induction ops arbitrary: i created)
  case (Cons op ops)
  have "(\<forall>t. creates t op \<longrightarrow> t \<notin> set created) \<longleftrightarrow> set (created_channel op) \<inter> set created = {}"
    by (auto simp: created_channel_iff)
  then show ?case by (simp add: check_dependencies_Cons Cons.IH subset_eq Un_commute)
qed simp

lemma validate_is_deps_ok: "validate_bulk_channel_dependencies ops = returns () \<longleftrightarrow> deps_ok {} ops"
  by (simp add: validate_bulk_channel_dependencies_def check_is_deps_ok)

lemma deps_ok_append:
  "deps_ok S (xs @ ys) \<longleftrightarrow> deps_ok S xs \<and> deps_ok (S \<union> channels_to_create xs) ys"
  by (induction xs arbitrary: S) (auto simp: channels_to_create_def Un_assoc)

lemma deps_ok_no_creates:
  "\<forall>op \<in> set ops. created_channel op = [] \<Longrightarrow>
   deps_ok S ops \<longleftrightarrow> (\<forall>op \<in> set ops. set (negative_channel_references op) \<subseteq> S)"
  by (induction ops) auto

lemma deps_ok_refs:
  "deps_ok S ops \<Longrightarrow> op \<in> set ops \<Longrightarrow> c \<in> set (negative_channel_references op) \<Longrightarrow> c \<in> S \<union> channels_to_create ops"
  by (induction ops arbitrary: S) (auto simp: channels_to_create_def)

lemma refs_negative: "c \<in> set (negative_channel_references op) \<Longrightarrow> c < 0"
  by (cases op) (auto split: if_splits)

lemma deps_ok_emitted: "deps_ok S (map (emit_ordered ow) ops) \<longleftrightarrow> deps_ok S ops"
proof (induction ops arbitrary: S)
  case (Cons op ops)
  have "negative_channel_references (emit_ordered ow op) = negative_channel_references op"
    "created_channel (emit_ordered ow op) = created_channel op" by (cases op; simp)+
  with Cons show ?case by simp
qed simp

lemma created_emitted: "channels_to_create (map (emit_ordered ow) ops) = channels_to_create ops"
proof -
  have "created_channel (emit_ordered ow op) = created_channel op" for op by (cases op) auto
  then show ?thesis by (simp add: channels_to_create_def o_def)
qed

lemma kept_creates:
  assumes "set (created_channel op) \<subseteq> {c. c < 0}"
  shows "kept_in_order D C op \<Longrightarrow> S \<union> set (created_channel op) - {c \<in> D. c < 0} = S - {c \<in> D. c < 0} \<union> set (created_channel op)"
    and "\<not> kept_in_order D C op \<Longrightarrow> S \<union> set (created_channel op) - {c \<in> D. c < 0} = S - {c \<in> D. c < 0}"
  using assms by (cases op; auto)+

lemma deps_ok_kept:
  assumes "deps_ok S ops" "\<forall>op \<in> set ops. set (created_channel op) \<subseteq> {c. c < 0}"
  shows "deps_ok (S - {c \<in> D. c < 0}) (filter (kept_in_order D C) ops) \<longleftrightarrow>
         (\<forall>op \<in> set ops. kept_in_order D C op \<longrightarrow> set (negative_channel_references op) \<inter> D = {})"
  using assms
proof (induction ops arbitrary: S)
  case (Cons op ops)
  let ?X = "{c \<in> D. c < 0}"
  have IH: "deps_ok (S \<union> set (created_channel op) - ?X) (filter (kept_in_order D C) ops) \<longleftrightarrow>
      (\<forall>op \<in> set ops. kept_in_order D C op \<longrightarrow> set (negative_channel_references op) \<inter> D = {})"
    using Cons by simp
  have refs: "set (negative_channel_references op) \<subseteq> S - ?X \<longleftrightarrow> set (negative_channel_references op) \<inter> D = {}"
    using Cons.prems(1) refs_negative [of _ op] by auto
  have neg: "set (created_channel op) \<subseteq> {c. c < 0}" and fresh: "set (created_channel op) \<inter> S = {}"
    using Cons.prems by auto
  show ?case
  proof (cases "kept_in_order D C op")
    case True
    have new: "set (created_channel op) \<inter> (S - ?X) = {}" using fresh by auto
    show ?thesis using True IH refs new unfolding kept_creates(1) [OF neg True] by auto
  next
    case False
    then show ?thesis using IH unfolding kept_creates(2) [OF neg False] by simp
  qed
qed simp

text \<open>Where the numbers and updates of the dictionaries come from.\<close>

fun written_channels :: "bulk_operation \<Rightarrow> int set" where
  "written_channels (BulkUpdateChannel c d a e) = {c}"
| "written_channels (BulkAssignNumbers ids start) = set ids"
| "written_channels _ = {}"

lemma written_referenced: "c \<in> written_channels op \<Longrightarrow> c < 0 \<Longrightarrow> c \<in> set (negative_channel_references op)"
  by (cases op) auto

lemma assigns_keys:
  "fst ` set (co_final_numbers (fold (fold_assign D first) es st)) \<subseteq> fst ` set (co_final_numbers st) \<union> snd ` set es"
proof (induction es arbitrary: st)
  case (Cons e es)
  have "fst ` set (co_final_numbers (fold_assign D first e st)) \<subseteq> insert (snd e) (fst ` set (co_final_numbers st))"
    by (cases e) (auto simp: fold_assign_def dict_put_keys)
  with Cons.IH [of "fold_assign D first e st"] show ?case by auto
qed simp

lemma step_keys:
  "fst ` set (co_updates (consolidate_step D C op st)) \<union> fst ` set (co_final_numbers (consolidate_step D C op st)) \<subseteq>
   fst ` set (co_updates st) \<union> fst ` set (co_final_numbers st) \<union> written_channels op"
proof (cases op)
  case (BulkAssignNumbers ids start)
  have "snd ` set (enumerate 0 ids) = set ids" by (metis map_snd_enumerate set_map)
  with BulkAssignNumbers assigns_keys [of D "range_start start" "enumerate 0 ids" st] show ?thesis
    by (auto simp: fold_assigns_frame)
qed (auto simp: fold_update_simps fold_stream_operation_def dict_put_keys)

lemma scan_keys:
  "fst ` set (co_updates (fold (consolidate_step D C) ops st)) \<union>
   fst ` set (co_final_numbers (fold (consolidate_step D C) ops st)) \<subseteq>
   fst ` set (co_updates st) \<union> fst ` set (co_final_numbers st) \<union> (\<Union>op \<in> set ops. written_channels op)"
proof (induction ops arbitrary: st)
  case (Cons op ops)
  note Cons.IH [of "consolidate_step D C op st"]
  also have "fst ` set (co_updates (consolidate_step D C op st)) \<union>
      fst ` set (co_final_numbers (consolidate_step D C op st)) \<union> (\<Union>op \<in> set ops. written_channels op) \<subseteq>
      fst ` set (co_updates st) \<union> fst ` set (co_final_numbers st) \<union> written_channels op \<union> (\<Union>op \<in> set ops. written_channels op)"
    by (intro Un_mono step_keys order_refl)
  finally show ?case by (simp add: Un_assoc)
qed simp

lemma range_refs:
  "emit_ranges runs = returns R \<Longrightarrow> op \<in> set R \<Longrightarrow>
   created_channel op = [] \<and> set (negative_channel_references op) \<subseteq> set (concat (map snd runs))"
proof (induction runs arbitrary: R)
  case (Cons run runs)
  then obtain start R' where R: "R = BulkAssignNumbers (snd run) start # R'" "emit_ranges runs = returns R'"
    by (auto simp: emit_range_def)
  with Cons show ?case by auto
qed simp

lemma update_refs:
  "op \<in> set (emit_update st e) \<Longrightarrow> created_channel op = [] \<and> set (negative_channel_references op) \<subseteq> {fst e}"
  by (auto simp: emit_update_def Let_def split: prod.splits if_splits)

lemma kept_created:
  "channels_to_create (filter (kept_in_order D C) ops) = channels_to_create ops - D"
proof -
  have "creates c op \<Longrightarrow> kept_in_order D C op \<longleftrightarrow> c \<notin> D" for c op by (cases op) auto
  then show ?thesis by (auto simp: channels_to_create_iff) blast
qed

lemma kept_reference_to_deleted:
  assumes "deps_ok {} ops" "op \<in> set ops"
  shows "kept_in_order (channels_to_delete ops) (channels_to_create ops) op \<and>
           set (negative_channel_references op) \<inter> channels_to_delete ops \<noteq> {} \<longleftrightarrow>
         (\<exists>p c b. op = BulkSetProfileMembership p c b \<and> c < 0 \<and> c \<in> channels_to_delete ops)"
  using deps_ok_refs [OF assms] by (cases op) auto

lemma consolidated_deps:
  assumes ok: "well_formed_request ops" and out: "consolidate_operations ops = returns out"
  shows "validate_bulk_channel_dependencies out = returns () \<longleftrightarrow>
         \<not> (\<exists>p c b. BulkSetProfileMembership p c b \<in> set ops \<and> c < 0 \<and> c \<in> channels_to_delete ops)"
proof -
  let ?st = "scan_operations ops" and ?D = "channels_to_delete ops" and ?C = "channels_to_create ops"
  let ?es = "sort_key (\<lambda>(c, v). number_as_rat v) (owned_numbers ?st)" and ?kept = "filter (kept_in_order ?D ?C) ops"
  let ?B = "concat (map (emit_update ?st) (co_updates ?st))"
  obtain R where R: "emit_ranges (consecutive_runs ?es) = returns R"
    "out = map (emit_ordered (co_owner ?st)) (co_ordered ?st) @ ?B @ R"
    using out by (auto simp: consolidate_operations_def Let_def)
  have valid: "deps_ok {} ops" using ok by (simp add: well_formed_request_def validate_is_deps_ok)
  have neg: "\<forall>op \<in> set ops. set (created_channel op) \<subseteq> {c. c < 0}"
    using ok by (auto simp: well_formed_request_def created_channel_iff)
  have ordered: "co_ordered ?st = ?kept"
    by (simp add: scan_operations_def ordered_is_filter empty_consolidation_def)
  have "fst ` set (co_updates ?st) \<union> fst ` set (co_final_numbers ?st) \<subseteq> (\<Union>op \<in> set ops. written_channels op)"
    using scan_keys [of ?D ?C ops empty_consolidation] by (simp add: scan_operations_def empty_consolidation_def)
  note written = this
  have keys: "c \<in> ?C - ?D" if "c \<in> fst ` set (co_updates ?st) \<union> fst ` set (co_final_numbers ?st)" "c < 0" for c
  proof -
    from that(1) written obtain op where "op \<in> set ops" "c \<in> written_channels op" by blast
    with deps_ok_refs [OF valid] written_referenced [OF _ that(2)] have "c \<in> ?C" by auto
    with that(1) scan_clean [of ops] show ?thesis by (auto simp: clean_dicts_def)
  qed
  have BR: "created_channel op = [] \<and> set (negative_channel_references op) \<subseteq> ?C - ?D" if op: "op \<in> set (?B @ R)" for op
  proof -
    have "created_channel op = [] \<and>
        set (negative_channel_references op) \<subseteq> fst ` set (co_updates ?st) \<union> fst ` set (co_final_numbers ?st)"
    proof (cases "op \<in> set R")
      case True
      with range_refs [OF R(1)] show ?thesis by (auto simp: run_channels owned_numbers_def)
    next
      case False
      with op obtain e where "e \<in> set (co_updates ?st)" "op \<in> set (emit_update ?st e)" by auto
      with update_refs [of op ?st e] show ?thesis by blast
    qed
    with keys refs_negative [of _ op] show ?thesis by blast
  qed
  have "deps_ok {} out \<longleftrightarrow> deps_ok {} ?kept \<and> deps_ok (?C - ?D) (?B @ R)"
    unfolding R(2) ordered deps_ok_append [of "{}" _ "?B @ R"] deps_ok_emitted created_emitted kept_created Un_empty_left ..
  also have "\<dots> \<longleftrightarrow> deps_ok {} ?kept" using BR by (subst deps_ok_no_creates) blast+
  also have "\<dots> \<longleftrightarrow> (\<forall>op \<in> set ops. kept_in_order ?D ?C op \<longrightarrow> set (negative_channel_references op) \<inter> ?D = {})"
    using deps_ok_kept [OF valid neg, of ?D ?C] by simp
  also have "\<dots> \<longleftrightarrow> \<not> (\<exists>p c b. BulkSetProfileMembership p c b \<in> set ops \<and> c < 0 \<and> c \<in> ?D)"
    using kept_reference_to_deleted [OF valid] by blast
  finally show ?thesis by (simp add: validate_is_deps_ok)
qed

text \<open>C21. The second check accepts what consolidation returns, with exactly one exception. A request that
  passed the first check fails the second one if and only if it sets a profile membership on a temporary
  channel that it also deletes: the cancellation of the create and the delete drops every other dependent
  operation, but profile memberships pass through.\<close>

theorem consolidated_request_is_accepted_again:
  assumes "well_formed_request ops" and "consolidate_operations ops = returns out"
  shows "validate_bulk_channel_dependencies out = returns () \<longleftrightarrow>
         \<not> (\<exists>p c b. BulkSetProfileMembership p c b \<in> set ops \<and> c < 0 \<and> c \<in> channels_to_delete ops)"
  using assms by (rule consolidated_deps)

section \<open>A request\<close>

text \<open>The request of the source's own explanation: a channel is created on 5, a range moves it and an
  existing channel to 10 and 11, an update then puts the existing channel on 20.\<close>

definition plain_fields :: create_fields where
  "plain_fields = \<lparr>cf_group_id = None, cf_new_group_name = None, cf_logo_id = None, cf_logo_url = None,
     cf_tvg_id = None, cf_station_id = None, cf_normalize = False, cf_expected_streams = None\<rparr>"

definition sample_request :: "bulk_operation list" where
  "sample_request =
     [BulkCreateChannel (- 1) ''News'' (Some (Fin 5)) plain_fields None,
      BulkAssignNumbers [- 1, 1] (Some (Fin 10)),
      BulkAddStream 1 7,
      BulkUpdateChannel 1 [(''channel_number'', PInt 20)] None None]"

definition sample_output :: "bulk_operation list" where
  "sample_output =
     [BulkCreateChannel (- 1) ''News'' None plain_fields None,
      BulkAddStream 1 7,
      BulkUpdateChannel 1 [(''channel_number'', PInt 20)] None None,
      BulkAssignNumbers [- 1] (Some (Fin 10))]"

lemma fl_small: "fl 10 = 10" "fl 11 = 11"
  using fl_of_int [of 10] fl_of_int [of 11] by simp_all

lemma ten_is_valid: "valid_float 10"
  using fl_of_int [of 100] by (intro valid_float_on_grid [of _ 100]) simp_all

lemma sample_scan:
  "scan_operations sample_request =
     \<lparr>co_updates = [(1, [(''channel_number'', PInt 20)])],
      co_update_last = [1 \<mapsto> (None, None)], co_number_source = [1 \<mapsto> (None, None)],
      co_final_numbers = [(- 1, PFloat (Fin 10)), (1, PFloat (Fin 11))],
      co_owner = [- 1 \<mapsto> OwnedByAssign, 1 \<mapsto> OwnedByUpdate],
      co_ordered = [BulkCreateChannel (- 1) ''News'' (Some (Fin 5)) plain_fields None, BulkAddStream 1 7]\<rparr>"
  by (simp add: scan_operations_def sample_request_def channels_to_delete_def channels_to_create_def
      empty_consolidation_def pass_through_def fold_assign_def fold_update_def fold_stream_operation_def
      dict_update_def range_start_def fl_small Let_def)

lemma sample_consolidates: "consolidate_operations sample_request = returns sample_output"
  unfolding consolidate_operations_def Let_def sample_scan
  by (simp add: owned_numbers_def emit_range_def emit_update_def sample_output_def Let_def
      pydantic_channel_number_def ten_is_valid)

lemma sample_well_formed: "well_formed_request sample_request"
  by (simp add: well_formed_request_def sample_request_def validate_bulk_channel_dependencies_def)

lemma sample_whole: "\<forall>op \<in> set sample_request. whole_range op"
  by (auto simp: sample_request_def intro: exI [of _ "10 :: int"])

lemma consolidation_keeps_final_numbers_witness:
  "\<forall>c. rel_option equal_number (fold number_effect (map numbering_view sample_request) [1 \<mapsto> PInt 3] c)
     (fold number_effect (map numbering_view sample_output) [1 \<mapsto> PInt 3] c)"
  using consolidation_keeps_final_numbers [OF sample_well_formed sample_whole, of "[1 \<mapsto> PInt 3]"] sample_consolidates by auto

lemma consolidation_writes_each_number_once_witness:
  "sum_list (map (number_writes 1) sample_output) \<le> 1"
  by (rule consolidation_writes_each_number_once [OF sample_well_formed sample_consolidates])

lemma stream_operations_pass_in_order_witness: "filter is_stream_operation sample_output = [BulkAddStream 1 7]"
  unfolding stream_operations_pass_in_order [OF sample_consolidates] by (simp add: sample_request_def)

definition cancelled_request :: "bulk_operation list" where
  "cancelled_request = [BulkCreateChannel (- 1) ''News'' None plain_fields None,
     BulkSetProfileMembership 3 (- 1) True, BulkDeleteChannel (- 1)]"

lemma cancelled_request_facts:
  "well_formed_request cancelled_request"
  "consolidate_operations cancelled_request = returns [BulkSetProfileMembership 3 (- 1) True]"
  by (simp_all add: cancelled_request_def well_formed_request_def validate_bulk_channel_dependencies_def
      consolidate_operations_def scan_operations_def channels_to_delete_def channels_to_create_def
      empty_consolidation_def pass_through_def owned_numbers_def)

lemma consolidated_request_is_accepted_again_witness:
  "validate_bulk_channel_dependencies sample_output = returns () \<and>
   validate_bulk_channel_dependencies [BulkSetProfileMembership 3 (- 1) True] \<noteq> returns ()"
  using consolidated_request_is_accepted_again [OF sample_well_formed sample_consolidates]
    consolidated_request_is_accepted_again [OF cancelled_request_facts]
  by (auto simp: sample_request_def cancelled_request_def channels_to_delete_def)

end
