(* ===== verification/ExecutionOrder.thy ===== *)
theory ExecutionOrder
  imports Consolidate NumberApply
begin

text \<open>
  The order in which a bulk commit executes its operations, \<open>_numbering_execution_order\<close> of
  \<open>backend/routers/channels.py\<close>: runs of renumberings are resequenced by \<open>order_numbering_writes\<close>.
\<close>

section \<open>Execution order\<close>

text \<open>The lineup by id: a channel's name and number.\<close>

type_synonym lineup = "int \<rightharpoonup> string option \<times> pyval"

definition write_of :: "lineup \<Rightarrow> int \<Rightarrow> (string \<times> pyval) list \<Rightarrow> numbering_write" where
  "write_of existing c data =
     \<lparr>nw_channel_id = c,
      nw_name = or_default (case existing c of Some (n, v) \<Rightarrow> n | None \<Rightarrow> None) c,
      nw_before = (case existing c of Some (n, v) \<Rightarrow> v | None \<Rightarrow> PNone),
      nw_after = (case map_of data ''channel_number'' of Some v \<Rightarrow> v | None \<Rightarrow> PNone)\<rparr>"

fun run_write :: "lineup \<Rightarrow> nat \<times> bulk_operation \<Rightarrow> numbering_write list" where
  "run_write existing (i, BulkUpdateChannel c data a e) = [write_of existing c data]"
| "run_write existing _ = []"

fun run_channel :: "nat \<times> bulk_operation \<Rightarrow> int" where
  "run_channel (i, BulkUpdateChannel c data a e) = c"
| "run_channel _ = 0"

text \<open>\<open>flush_run\<close>: the operations of the run in the order of their writes, found back by channel.\<close>

definition flush_run ::
  "lineup \<Rightarrow> (nat \<times> bulk_operation) list \<Rightarrow> (order_error, (nat \<times> bulk_operation) list) result" where
  "flush_run existing run =
     (if length run < 2 then returns run
      else bind_result (order_numbering_writes (concat (map (run_write existing) run))) (\<lambda>ord.
        returns (map (\<lambda>w. the (find (\<lambda>e. run_channel e = nw_channel_id w) run)) (no_writes ord))))"

fun is_numbering_edit :: "int list \<Rightarrow> bulk_operation \<Rightarrow> bool" where
  "is_numbering_edit seen (BulkUpdateChannel c data a e) \<longleftrightarrow>
     map_of data ''channel_number'' \<noteq> None \<and> 0 \<le> c \<and> c \<notin> set seen"
| "is_numbering_edit seen _ \<longleftrightarrow> False"

fun execution_order ::
  "lineup \<Rightarrow> (nat \<times> bulk_operation) list \<Rightarrow> (nat \<times> bulk_operation) list
     \<Rightarrow> (order_error, (nat \<times> bulk_operation) list) result" where
  "execution_order existing run [] = flush_run existing run"
| "execution_order existing run ((i, op) # ops) =
     (if is_numbering_edit (map run_channel run) op
      then execution_order existing (run @ [(i, op)]) ops
      else bind_result (flush_run existing run) (\<lambda>done_run.
        bind_result (execution_order existing [] ops) (\<lambda>rest.
          returns (done_run @ (i, op) # rest))))"

definition numbering_execution_order ::
  "lineup \<Rightarrow> bulk_operation list \<Rightarrow> (order_error, (nat \<times> bulk_operation) list) result" where
  "numbering_execution_order existing ops = execution_order existing [] (enumerate 0 ops)"

section \<open>Resequencing\<close>

definition valid_run :: "(nat \<times> bulk_operation) list \<Rightarrow> bool" where
  "valid_run run \<longleftrightarrow>
     distinct (map run_channel run) \<and> (\<forall>e \<in> set run. \<exists>i c d a x. e = (i, BulkUpdateChannel c d a x))"

lemma order_returns_permutation:
  assumes "order_numbering_writes ws = returns ord"
  shows "mset (no_writes ord) = mset ws"
proof (cases "ws = []")
  case True
  with assms show ?thesis by (auto simp: order_numbering_writes_def)
next
  case False
  with assms have "plan_defined ws" by (auto simp: order_numbering_writes_def plan_defined_def split: if_splits)
  then obtain ps cs where "order_numbering_writes ws = Inr \<lparr>no_writes = map ((!) ws) ps, no_cycles = sort (map (cycle_ids ws) cs)\<rparr>"
    "distinct ps" "set ps = {..<length ws}" by (rule order_defined)
  moreover from this(2,3) have "mset (map ((!) ws) ps) = mset ws" by (rule positions_permutation)
  ultimately show ?thesis using assms by simp
qed

lemma find_in_run:
  assumes "distinct (map run_channel run)" "e \<in> set run"
  shows "find (\<lambda>e'. run_channel e' = run_channel e) run = Some e"
  using assms
proof (induction run)
  case (Cons f run)
  show ?case
  proof (cases "f = e")
    case False
    with Cons.prems have "e \<in> set run" by simp
    moreover from this Cons.prems(1) have "run_channel f \<noteq> run_channel e" by (metis image_eqI list.simps(9) distinct.simps(2) set_map)
    ultimately show ?thesis using Cons by simp
  qed simp
qed simp

lemma flush_run_permutes:
  assumes "valid_run run" "flush_run existing run = returns plan"
  shows "mset plan = mset run"
proof (cases "length run < 2")
  case True
  with assms(2) show ?thesis by (simp add: flush_run_def)
next
  case False
  define w where "w = (\<lambda>e. hd (run_write existing e))"
  have one: "run_write existing e = [w e]" "nw_channel_id (w e) = run_channel e" if "e \<in> set run" for e
    using that assms(1) by (auto simp: valid_run_def w_def write_of_def)
  then have ws: "concat (map (run_write existing) run) = map w run"
    by (induction run) auto
  let ?found = "\<lambda>v. the (find (\<lambda>e. run_channel e = nw_channel_id v) run)"
  from assms(2) False obtain ord where ord: "order_numbering_writes (map w run) = returns ord"
    "plan = map ?found (no_writes ord)" by (auto simp: flush_run_def ws)
  have "mset plan = image_mset ?found (mset (map w run))"
    unfolding ord(2) mset_map [of ?found] order_returns_permutation [OF ord(1)] ..
  also have "\<dots> = mset (map (?found \<circ> w) run)" by (simp add: multiset.map_comp)
  also have "map (?found \<circ> w) run = run"
    using one(2) find_in_run assms(1) by (intro map_idI) (auto simp: valid_run_def)
  finally show ?thesis .
qed

lemma filter_perm_single:
  assumes "mset xs = mset ys" "length (filter P ys) \<le> 1"
  shows "filter P xs = filter P ys"
proof -
  have m: "mset (filter P xs) = mset (filter P ys)" unfolding mset_filter assms(1) ..
  show ?thesis
  proof (cases "filter P ys")
    case Nil
    with m show ?thesis by (metis mset_zero_iff)
  next
    case (Cons y zs)
    with assms(2) have "filter P ys = [y]" by simp
    with m show ?thesis by (simp del: mset_filter)
  qed
qed

lemma run_touches_once:
  assumes "distinct (map run_channel run)" "\<forall>e \<in> set run. \<exists>i c d a x. e = (i, BulkUpdateChannel c d a x)"
  shows "length (filter (touches c) (map snd run)) \<le> 1"
  using assms
proof (induction run)
  case (Cons e run)
  then obtain i c' d a x where e: "e = (i, BulkUpdateChannel c' d a x)" by auto
  have "filter (touches c') (map snd run) = []"
  proof -
    have "\<not> touches c' (snd q)" if mem: "q \<in> set run" for q
    proof -
      obtain j c'' d' a' x' where q: "q = (j, BulkUpdateChannel c'' d' a' x')" 
        using bspec [OF Cons.prems(2), of q] mem by auto
      then have "c'' \<noteq> c'" using Cons.prems(1) mem by (force simp: e)
      then show ?thesis by (simp add: q)
    qed
    then show ?thesis by (auto simp: filter_empty_conv)
  qed
  with Cons show ?case by (cases "c = c'") (auto simp: e)
qed simp

lemma flush_run_effect:
  assumes "valid_run run" "flush_run existing run = returns plan"
  shows "fold (number_at c) (map snd plan) x = fold (number_at c) (map snd run) x"
proof -
  have "mset (map snd plan) = mset (map snd run)" using flush_run_permutes [OF assms] by simp
  from filter_perm_single [OF this, of "touches c"] run_touches_once [of run c] assms(1)
  have "filter (touches c) (map snd plan) = filter (touches c) (map snd run)" by (auto simp: valid_run_def)
  then show ?thesis by (metis fold_number_at_filter)
qed

lemma execution_order_facts:
  assumes "valid_run run" "execution_order existing run ops = returns plan"
  shows "mset plan = mset (run @ ops) \<and>
         (\<forall>k. length run \<le> k \<longrightarrow> k < length (run @ ops) \<longrightarrow>
            \<not> is_numbering_edit [] (snd ((run @ ops) ! k)) \<longrightarrow> plan ! k = (run @ ops) ! k) \<and>
         (\<forall>c x. fold (number_at c) (map snd plan) x = fold (number_at c) (map snd (run @ ops)) x)"
  using assms
proof (induction existing run ops arbitrary: plan rule: execution_order.induct)
  case (1 existing run)
  then show ?case using flush_run_permutes flush_run_effect by simp
next
  case (2 existing run i op ops)
  show ?case
  proof (cases "is_numbering_edit (map run_channel run) op")
    case True
    then obtain c d a x where op: "op = BulkUpdateChannel c d a x" "c \<notin> run_channel ` set run" "is_numbering_edit [] op"
      by (cases op) auto
    have "valid_run (run @ [(i, op)])" using 2(3) op by (auto simp: valid_run_def)
    from 2(1) [OF True this] 2(4) True
    have IH: "mset plan = mset ((run @ [(i, op)]) @ ops) \<and>
         (\<forall>k. length (run @ [(i, op)]) \<le> k \<longrightarrow> k < length ((run @ [(i, op)]) @ ops) \<longrightarrow>
            \<not> is_numbering_edit [] (snd (((run @ [(i, op)]) @ ops) ! k)) \<longrightarrow> plan ! k = ((run @ [(i, op)]) @ ops) ! k) \<and>
         (\<forall>c x. fold (number_at c) (map snd plan) x = fold (number_at c) (map snd ((run @ [(i, op)]) @ ops)) x)"
      by simp
    have "plan ! k = (run @ (i, op) # ops) ! k"
      if k: "length run \<le> k" "k < length (run @ (i, op) # ops)" "\<not> is_numbering_edit [] (snd ((run @ (i, op) # ops) ! k))" for k
    proof -
      have "k \<noteq> length run" using k(3) op(3) by auto
      with IH k show ?thesis by simp
    qed
    with IH show ?thesis by simp
  next
    case False
    with 2(4) obtain r rest where r: "flush_run existing run = returns r" "execution_order existing [] ops = returns rest"
      "plan = r @ (i, op) # rest" by auto
    have "valid_run []" by (simp add: valid_run_def)
    note IH = 2(2) [OF False this r(2)]
    have perm: "mset r = mset run" using flush_run_permutes [OF 2(3) r(1)] .
    then have len: "length r = length run" by (metis size_mset)
    have "plan ! k = (run @ (i, op) # ops) ! k"
      if k: "length run \<le> k" "k < length (run @ (i, op) # ops)" "\<not> is_numbering_edit [] (snd ((run @ (i, op) # ops) ! k))" for k
    proof (cases "k = length run")
      case True
      then show ?thesis by (simp add: r(3) len nth_append)
    next
      case False
      with k obtain j where j: "k = length run + Suc j" by (metis less_iff_Suc_add le_neq_implies_less add_Suc_right)
      with k IH show ?thesis by (simp add: r(3) len nth_append)
    qed
    with IH perm flush_run_effect [OF 2(3) r(1)] show ?thesis by (simp add: r(3))
  qed
qed

lemma submitted_order_facts:
  assumes "numbering_execution_order existing ops = returns plan"
  shows "mset plan = mset (enumerate 0 ops)"
    and "k < length ops \<Longrightarrow> \<not> is_numbering_edit [] (ops ! k) \<Longrightarrow> plan ! k = (k, ops ! k)"
    and "fold (number_at c) (map snd plan) x = fold (number_at c) ops x"
  using execution_order_facts [of "[]" existing "enumerate 0 ops" plan] assms
  by (simp_all add: numbering_execution_order_def valid_run_def nth_enumerate_eq)

lemma resequenced_effect:
  assumes "numbering_execution_order existing ops = returns plan"
  shows "fold number_effect (map (numbering_view \<circ> snd) plan) m = fold number_effect (map numbering_view ops) m"
proof
  fix c
  have "fold number_effect (map numbering_view (map snd plan)) m c = fold number_effect (map numbering_view ops) m c"
    unfolding replay_at by (rule submitted_order_facts(3) [OF assms])
  then show "fold number_effect (map (numbering_view \<circ> snd) plan) m c = fold number_effect (map numbering_view ops) m c"
    by simp
qed

text \<open>Resequencing is as narrow as it promises. The plan is a permutation of the submitted operations
  with their submitted indexes; every operation that is not a renumbering of a real channel is executed
  exactly at its submitted position; and the final numbers are those of the submitted order.\<close>

theorem resequencing_is_narrow:
  assumes "numbering_execution_order existing ops = returns plan"
  shows "mset plan = mset (enumerate 0 ops) \<and>
         (\<forall>k < length ops. \<not> is_numbering_edit [] (ops ! k) \<longrightarrow> plan ! k = (k, ops ! k)) \<and>
         fold number_effect (map (numbering_view \<circ> snd) plan) m = fold number_effect (map numbering_view ops) m"
  using submitted_order_facts [OF assms] resequenced_effect [OF assms] by blast

section \<open>A run of edits\<close>

definition sample_edits :: "bulk_operation list" where
  "sample_edits = [BulkUpdateChannel 1 [(''channel_number'', PInt 2)] None None,
     BulkUpdateChannel 2 [(''channel_number'', PInt 3)] None None, BulkAddStream 1 7]"

definition sample_lineup :: lineup where
  "sample_lineup = [1 \<mapsto> (Some ''a'', PInt 1), 2 \<mapsto> (Some ''b'', PInt 2)]"

abbreviation shift_one :: numbering_write where
  "shift_one \<equiv> \<lparr>nw_channel_id = 1, nw_name = ''a'', nw_before = PInt 1, nw_after = PInt 2\<rparr>"

abbreviation shift_two :: numbering_write where
  "shift_two \<equiv> \<lparr>nw_channel_id = 2, nw_name = ''b'', nw_before = PInt 2, nw_after = PInt 3\<rparr>"

lemma sample_run: "concat (map (run_write sample_lineup) (enumerate 0 (take 2 sample_edits))) = [shift_one, shift_two]"
  by (simp add: sample_edits_def sample_lineup_def write_of_def or_default_def)

lemma shift_moves: "moves shift_one = Inr True" "moves shift_two = Inr True"
  by (simp_all add: moves_defined int_slot same_slot_def del: int_overflows.simps)

lemma shift_blockers: "blockers [shift_one, shift_two] 0 = [Suc 0]" "blockers [shift_one, shift_two] (Suc 0) = []"
  by (simp_all add: blockers_def leaving_def upt_rec int_slot shift_moves)

lemma shift_blocking: "blocking [shift_one, shift_two] 0 = []" "blocking [shift_one, shift_two] (Suc 0) = [0]"
  by (simp_all add: blocking_def shift_blockers upt_rec)

lemma shift_order: "order_numbering_writes [shift_one, shift_two] = returns \<lparr>no_writes = [shift_two, shift_one], no_cycles = []\<rparr>"
  by (simp add: order_numbering_writes_def order_loop.simps release_def shift_blockers shift_blocking Let_def
      float_of_int_small upt_rec)

lemma sample_resequenced:
  "numbering_execution_order sample_lineup sample_edits =
     returns [(1, sample_edits ! 1), (0, sample_edits ! 0), (2, sample_edits ! 2)]"
  using sample_run by (simp add: numbering_execution_order_def sample_edits_def flush_run_def shift_order)

lemma resequencing_is_narrow_witness:
  "mset [(1, sample_edits ! 1), (0, sample_edits ! 0), (2, sample_edits ! 2)] = mset (enumerate 0 sample_edits) \<and>
   fold number_effect (map numbering_view [sample_edits ! 1, sample_edits ! 0, sample_edits ! 2]) [1 \<mapsto> PInt 1, 2 \<mapsto> PInt 2] =
   fold number_effect (map numbering_view sample_edits) [1 \<mapsto> PInt 1, 2 \<mapsto> PInt 2]"
  using resequencing_is_narrow [OF sample_resequenced, of "[1 \<mapsto> PInt 1, 2 \<mapsto> PInt 2]"] by simp

section \<open>From the request to the execution plan\<close>

text \<open>How \<open>_run_bulk_commit\<close> prepares the operations before it looks at the lineup.\<close>

datatype prepare_error = DependencyError dependency_error | RangeError number_error

definition prepare_operations :: "bool \<Rightarrow> bulk_operation list \<Rightarrow> (prepare_error, bulk_operation list) result" where
  "prepare_operations consolidate ops =
     (case validate_bulk_channel_dependencies ops of
        Inl e \<Rightarrow> raises (DependencyError e)
      | Inr _ \<Rightarrow>
          if \<not> consolidate then returns ops
          else (case consolidate_operations ops of
                  Inl e \<Rightarrow> raises (RangeError e)
                | Inr out \<Rightarrow>
                    (case validate_bulk_channel_dependencies out of
                       Inl e \<Rightarrow> raises (DependencyError e)
                     | Inr _ \<Rightarrow> returns out)))"

definition profiles_survive :: "bulk_operation list \<Rightarrow> bool" where
  "profiles_survive ops \<longleftrightarrow>
     \<not> (\<exists>p c b. BulkSetProfileMembership p c b \<in> set ops \<and> c < 0 \<and> c \<in> channels_to_delete ops)"

text \<open>Numbers that fit a \<open>float\<close>, as the request models and the lineup carry them.\<close>

fun representable_edit :: "bulk_operation \<Rightarrow> bool" where
  "representable_edit (BulkUpdateChannel c d a e) \<longleftrightarrow>
     (\<forall>v. map_of d ''channel_number'' = Some v \<longrightarrow> \<not> int_overflows v)"
| "representable_edit _ \<longleftrightarrow> True"

definition representable_lineup :: "lineup \<Rightarrow> bool" where
  "representable_lineup existing \<longleftrightarrow> (\<forall>c n v. existing c = Some (n, v) \<longrightarrow> \<not> int_overflows v)"

lemma run_writes_defined:
  assumes "representable_lineup existing" "\<forall>e \<in> set run. representable_edit (snd e)"
  shows "plan_defined (concat (map (run_write existing) run))"
proof -
  have "\<not> int_overflows (nw_before w) \<and> \<not> int_overflows (nw_after w)"
    if "e \<in> set run" "w \<in> set (run_write existing e)" for e w
  proof -
    obtain i op where e: "e = (i, op)" by (cases e)
    with assms(2) that(1) have "representable_edit op" by auto
    with that(2) assms(1) show ?thesis
      by (cases op) (auto simp: e write_of_def representable_lineup_def split: option.splits)
  qed
  then show ?thesis by (auto simp: plan_defined_def)
qed

lemma flush_run_returns:
  assumes "representable_lineup existing" "\<forall>e \<in> set run. representable_edit (snd e)"
  shows "\<exists>plan. flush_run existing run = returns plan"
proof -
  obtain ord where "order_numbering_writes (concat (map (run_write existing) run)) = returns ord"
    by (rule order_defined [OF run_writes_defined [OF assms]])
  then show ?thesis by (simp add: flush_run_def)
qed

lemma execution_order_returns:
  assumes "representable_lineup existing" "\<forall>e \<in> set (run @ ops). representable_edit (snd e)"
  shows "\<exists>plan. execution_order existing run ops = returns plan"
  using assms
proof (induction existing run ops rule: execution_order.induct)
  case (1 existing run)
  then show ?case using flush_run_returns by simp
next
  case (2 existing run i op ops)
  have "\<exists>r. flush_run existing run = returns r" using 2(3,4) by (intro flush_run_returns) auto
  with 2 show ?case by (cases "is_numbering_edit (map run_channel run) op") auto
qed

definition representable_updates :: "consolidation \<Rightarrow> bool" where
  "representable_updates st \<longleftrightarrow>
     (\<forall>e \<in> set (co_updates st). \<forall>v. map_of (snd e) ''channel_number'' = Some v \<longrightarrow> \<not> int_overflows v)"

lemma step_representable:
  assumes "representable_edit op" "is_dict_update op" "representable_updates st"
  shows "representable_updates (consolidate_step D C op st)"
proof (cases op)
  case (BulkUpdateChannel i data a e)
  let ?old = "case map_of (co_updates st) i of None \<Rightarrow> [] | Some d \<Rightarrow> d"
  have old: "\<not> int_overflows v" if "map_of ?old ''channel_number'' = Some v" for v
    using that assms(3) by (fastforce simp: representable_updates_def split: option.splits dest: map_of_SomeD)
  have new: "\<not> int_overflows v" if "map_of (dict_update ?old data) ''channel_number'' = Some v" for v
    using that old assms(1,2) by (auto simp: BulkUpdateChannel map_of_dict_update split: option.splits)
  have "set (co_updates (fold_update i data a e st)) \<subseteq> insert (i, dict_update ?old data) (set (co_updates st))"
    using set_dict_put by (simp add: fold_update_simps)
  with new assms(3) have "representable_updates (fold_update i data a e st)"
    unfolding representable_updates_def by fastforce
  with assms(3) show ?thesis by (simp add: BulkUpdateChannel)
qed (use assms(3) in \<open>auto simp: representable_updates_def fold_assigns_frame fold_stream_operation_def\<close>)

lemma scan_representable:
  "\<forall>op \<in> set ops. representable_edit op \<and> is_dict_update op \<Longrightarrow> representable_updates st \<Longrightarrow>
   representable_updates (fold (consolidate_step D C) ops st)"
  by (induction ops arbitrary: st) (simp_all add: step_representable)

lemma emitted_representable:
  assumes "\<And>v. map_of (snd e) ''channel_number'' = Some v \<Longrightarrow> \<not> int_overflows v" "op \<in> set (emit_update st e)"
  shows "representable_edit op"
  using assms by (auto simp: emit_update_def Let_def map_of_without split: prod.splits if_splits)

lemma consolidated_representable:
  assumes "well_formed_request ops" "\<forall>op \<in> set ops. representable_edit op"
    "consolidate_operations ops = returns out" "op \<in> set out"
  shows "representable_edit op"
proof -
  let ?st = "scan_operations ops"
  obtain runs R where R: "emit_ranges runs = returns R"
    "out = map (emit_ordered (co_owner ?st)) (co_ordered ?st) @ concat (map (emit_update ?st) (co_updates ?st)) @ R"
    using assms(3) by (auto simp: consolidate_operations_def Let_def)
  have ranges: "\<forall>op \<in> set R. representable_edit op"
    using R(1) by (induction runs arbitrary: R) (auto simp: emit_range_def)
  have upd: "representable_updates ?st"
    unfolding scan_operations_def
    using assms(1,2) by (intro scan_representable) (auto simp: well_formed_request_def empty_consolidation_def representable_updates_def)
  have ordered: "representable_edit (emit_ordered ow q)" if "kept_in_order D C q" for ow D C q
    using that by (cases q) auto
  consider "op \<in> set R" | e where "e \<in> set (co_updates ?st)" "op \<in> set (emit_update ?st e)"
    | q where "q \<in> set (co_ordered ?st)" "op = emit_ordered (co_owner ?st) q"
    using assms(4) unfolding R(2) by auto
  then show ?thesis
  proof cases
    case 2
    then show ?thesis using upd emitted_representable [of e] by (auto simp: representable_updates_def)
  next
    case 3
    then show ?thesis using ordered by (auto simp: scan_operations_def ordered_is_filter empty_consolidation_def)
  qed (use ranges in blast)
qed

lemma prepared_by_consolidation:
  assumes "well_formed_request ops" "\<forall>op \<in> set ops. whole_range op" "profiles_survive ops"
  obtains out where "prepare_operations True ops = returns out" "consolidate_operations ops = returns out"
proof -
  obtain out where out: "consolidate_operations ops = returns out" using consolidation_returns [OF assms(2)] by blast
  have "validate_bulk_channel_dependencies out = returns ()"
    using consolidated_deps [OF assms(1) out] assms(3) by (simp add: profiles_survive_def)
  with assms(1) out have "prepare_operations True ops = returns out"
    by (simp add: prepare_operations_def well_formed_request_def)
  with out show thesis by (rule that [rotated])
qed

text \<open>C19. From the request to the plan, end to end. A well-formed request whose profile memberships survive
  the cancellation of temporary channels is prepared without an error, ordered without an error, and
  executing the plan in its order gives every channel the number that the submitted operations, in the
  submitted order, give it.\<close>

theorem prepared_plan_reaches_the_requested_numbers:
  assumes "well_formed_request ops" "\<forall>op \<in> set ops. whole_range op \<and> representable_edit op"
    "profiles_survive ops" "representable_lineup existing" "\<forall>c < 0. m c = None"
  shows "\<exists>out plan. prepare_operations True ops = returns out \<and>
           numbering_execution_order existing out = returns plan \<and>
           (\<forall>c. rel_option equal_number (fold number_effect (map numbering_view ops) m c)
                  (fold number_effect (map (numbering_view \<circ> snd) plan) m c))"
proof -
  from assms(1-3) obtain out where out: "prepare_operations True ops = returns out" "consolidate_operations ops = returns out"
    by (metis prepared_by_consolidation)
  have "\<forall>e \<in> set (enumerate 0 out). representable_edit (snd e)"
    using consolidated_representable [OF assms(1) _ out(2)] assms(2) by (auto simp: in_set_enumerate_eq)
  then obtain plan where plan: "numbering_execution_order existing out = returns plan"
    using execution_order_returns [OF assms(4), of "[]" "enumerate 0 out"] by (auto simp: numbering_execution_order_def)
  have "fold number_effect (map (numbering_view \<circ> snd) plan) m = fold number_effect (map numbering_view out) m"
    by (rule resequenced_effect [OF plan])
  with out plan consolidated_channel [OF assms(1) out(2) _ assms(5)] assms(2) show ?thesis by auto
qed

lemma prepared_plan_reaches_the_requested_numbers_witness:
  "\<exists>out plan. prepare_operations True sample_request = returns out \<and>
           numbering_execution_order sample_lineup out = returns plan \<and>
           (\<forall>c. rel_option equal_number (fold number_effect (map numbering_view sample_request) [1 \<mapsto> PInt 3] c)
                  (fold number_effect (map (numbering_view \<circ> snd) plan) [1 \<mapsto> PInt 3] c))"
  using sample_whole
  by (intro prepared_plan_reaches_the_requested_numbers [OF sample_well_formed])
    (auto simp: sample_request_def profiles_survive_def representable_lineup_def sample_lineup_def float_of_int_small
      split: if_splits)

end
