(* ===== verification/WritePlan.thy ===== *)
theory WritePlan
  imports NumberPlan "HOL-Library.List_Lexorder" "HOL-Library.Char_ord"
begin

text \<open>
  Planning and replaying the writes of a channel-pipeline run, \<open>backend/services/pipeline_write_plan.py\<close>.
  A planning run executes the normal decision logic against a client that records every write and hands
  out temporary ids; the plan is replayed later, after the state it relied on has been checked, with the
  temporary ids replaced by real ones. The Dispatcharr client is an argument: what it answers to reads is
  a record of functions, what it does on a write is a function on an arbitrary state. Ids of groups and
  profiles are integers; \<open>kwargs\<close> of a planned write is always empty and left out.
\<close>

section \<open>Planned writes\<close>

type_synonym py_dict = "(string \<times> pyval) list"

datatype write_method =
    AssignChannelNumbers | CreateChannelM | CreateChannelGroup | CreateLogo
  | DeleteChannelM | DeleteChannelGroup | UpdateChannelM | UpdateProfileChannel

text \<open>\<open>method.startswith("create_")\<close>.\<close>

fun is_create :: "write_method \<Rightarrow> bool" where
  "is_create CreateChannelM \<longleftrightarrow> True"
| "is_create CreateChannelGroup \<longleftrightarrow> True"
| "is_create CreateLogo \<longleftrightarrow> True"
| "is_create _ \<longleftrightarrow> False"

record planned_write =
  pw_method :: write_method
  pw_args :: "pyval list"

text \<open>The dictionaries of preconditions are keyed by ids; the code writes the keys as text.\<close>

record write_plan =
  wp_writes :: "planned_write list"
  wp_channel_preconditions :: "(int \<times> py_dict) list"
  wp_group_preconditions :: "(int \<times> pyval) list"
  wp_profile_preconditions :: "((int \<times> int) \<times> bool) list"

definition empty_plan :: write_plan where
  "empty_plan = \<lparr>wp_writes = [], wp_channel_preconditions = [], wp_group_preconditions = [],
     wp_profile_preconditions = []\<rparr>"

datatype write_target = TargetChannel pyval | TargetGroup pyval | TargetCreate write_method nat

fun write_targets :: "nat \<times> planned_write \<Rightarrow> write_target list" where
  "write_targets (i, w) =
     (case (pw_method w, pw_args w) of
        (AssignChannelNumbers, PList ids # _) \<Rightarrow> map TargetChannel ids
      | (UpdateProfileChannel, _ # c # _) \<Rightarrow> [TargetChannel c]
      | (UpdateChannelM, c # _) \<Rightarrow> [TargetChannel c]
      | (DeleteChannelM, c # _) \<Rightarrow> [TargetChannel c]
      | (DeleteChannelGroup, g # _) \<Rightarrow> [TargetGroup g]
      | (m, _) \<Rightarrow> [TargetCreate m i])"

definition accounting :: "write_plan \<Rightarrow> nat \<times> nat" where
  "accounting plan =
     (length (wp_writes plan),
      length (remdups (concat (map write_targets (enumerate 0 (wp_writes plan))))))"

section \<open>The planning client\<close>

record channel_group =
  cg_id :: int
  cg_name :: pyval

record channel_profile =
  cp_id :: int
  cp_channels :: "pyval list"

record upstream_reads =
  rd_channel :: "int \<Rightarrow> (string, py_dict) result"
  rd_groups :: "channel_group list"
  rd_profiles :: "channel_profile list"

datatype plan_error = ReadError string | NotIterable | GroupNotFound int | ProfileNotFound int

record planner =
  pc_plan :: write_plan
  pc_next_temp :: int
  pc_shadow :: "(int \<times> py_dict) list"

definition new_planner :: planner where
  "new_planner = \<lparr>pc_plan = empty_plan, pc_next_temp = - 1, pc_shadow = []\<rparr>"

text \<open>\<open>list(v or [])\<close>.\<close>

definition list_or_empty :: "pyval \<Rightarrow> (plan_error, pyval list) result" where
  "list_or_empty v =
     (if \<not> truthy v then returns []
      else (case v of
              PList xs \<Rightarrow> returns xs
            | PStr s \<Rightarrow> returns (map (\<lambda>c. PStr [c]) s)
            | PDict d \<Rightarrow> returns (map (PStr \<circ> fst) d)
            | _ \<Rightarrow> raises NotIterable))"

definition relevant_fields :: "int \<Rightarrow> py_dict \<Rightarrow> pyval list \<Rightarrow> py_dict" where
  "relevant_fields c channel streams =
     [(''id'', PInt c),
      (''name'', dict_get channel ''name''),
      (''streams'', PList streams),
      (''channel_group_id'', dict_get channel ''channel_group_id''),
      (''logo_id'', dict_get channel ''logo_id''),
      (''tvg_id'', dict_get channel ''tvg_id''),
      (''channel_number'', dict_get channel ''channel_number''),
      (''stream_profile_id'', dict_get channel ''stream_profile_id''),
      (''epg_data_id'', dict_get channel ''epg_data_id'')]"

definition dict_setdefault :: "'k \<Rightarrow> 'v \<Rightarrow> ('k \<times> 'v) list \<Rightarrow> ('k \<times> 'v) list" where
  "dict_setdefault k v d = (if map_of d k = None then d @ [(k, v)] else d)"

definition dict_pop :: "'k \<Rightarrow> ('k \<times> 'v) list \<Rightarrow> ('k \<times> 'v) list" where
  "dict_pop k d = filter (\<lambda>(k', v). k' \<noteq> k) d"

definition get_channel :: "upstream_reads \<Rightarrow> int \<Rightarrow> planner \<Rightarrow> (plan_error, py_dict) result" where
  "get_channel reads c st =
     (case map_of (pc_shadow st) c of
        Some channel \<Rightarrow> returns channel
      | None \<Rightarrow> (case rd_channel reads c of Inl e \<Rightarrow> raises (ReadError e) | Inr channel \<Rightarrow> returns channel))"

definition channel_before ::
  "upstream_reads \<Rightarrow> int \<Rightarrow> planner \<Rightarrow> (plan_error, py_dict) result \<times> planner" where
  "channel_before reads c st =
     (case map_of (pc_shadow st) c of
        Some channel \<Rightarrow> (returns channel, st)
      | None \<Rightarrow>
          (case rd_channel reads c of
             Inl e \<Rightarrow> (raises (ReadError e), st)
           | Inr channel \<Rightarrow>
               (case list_or_empty (dict_get channel ''streams'') of
                  Inl e \<Rightarrow> (raises e, st)
                | Inr streams \<Rightarrow>
                    (let relevant = relevant_fields c channel streams; plan = pc_plan st in
                     (returns relevant,
                      st\<lparr>pc_plan := plan\<lparr>wp_channel_preconditions :=
                           dict_setdefault c relevant (wp_channel_preconditions plan)\<rparr>,
                         pc_shadow := dict_put c relevant (pc_shadow st)\<rparr>)))))"

definition record_call :: "write_method \<Rightarrow> pyval list \<Rightarrow> planner \<Rightarrow> planner" where
  "record_call m args st =
     st\<lparr>pc_plan := (pc_plan st)\<lparr>wp_writes := wp_writes (pc_plan st) @ [\<lparr>pw_method = m, pw_args = args\<rparr>]\<rparr>\<rparr>"

fun channels_before :: "upstream_reads \<Rightarrow> int list \<Rightarrow> planner \<Rightarrow> (plan_error, unit) result \<times> planner" where
  "channels_before reads [] st = (returns (), st)"
| "channels_before reads (c # cs) st =
     (case channel_before reads c st of
        (Inl e, st') \<Rightarrow> (raises e, st')
      | (Inr _, st') \<Rightarrow> channels_before reads cs st')"

definition member_id :: "pyval \<Rightarrow> pyval" where
  "member_id item = (case item of PDict d \<Rightarrow> dict_get d ''id'' | _ \<Rightarrow> item)"

definition is_member :: "channel_profile \<Rightarrow> int \<Rightarrow> bool" where
  "is_member profile c \<longleftrightarrow> PInt c \<in> set (map member_id (cp_channels profile))"

datatype pipeline_call =
    GetChannel int
  | PlanCreateChannel py_dict
  | PlanCreateGroup string
  | PlanCreateLogo py_dict
  | PlanUpdateChannel int py_dict
  | PlanDeleteChannel int
  | PlanDeleteGroup int
  | PlanAssignNumbers "int list" pyval
  | PlanUpdateProfile int int py_dict

text \<open>The three creates share their handing out of a temporary id.\<close>

definition take_temp :: "write_method \<Rightarrow> pyval list \<Rightarrow> planner \<Rightarrow> planner" where
  "take_temp m args st = record_call m args (st\<lparr>pc_next_temp := pc_next_temp st - 1\<rparr>)"

fun plan_call :: "upstream_reads \<Rightarrow> pipeline_call \<Rightarrow> planner \<Rightarrow> (plan_error, pyval) result \<times> planner" where
  "plan_call reads (GetChannel c) st =
     (case get_channel reads c st of Inl e \<Rightarrow> (raises e, st) | Inr d \<Rightarrow> (returns (PDict d), st))"
| "plan_call reads (PlanCreateChannel data) st =
     (let created = dict_update [(''id'', PInt (pc_next_temp st))] data in
      (returns (PDict created),
       take_temp CreateChannelM [PDict data]
         (st\<lparr>pc_shadow := dict_put (pc_next_temp st) created (pc_shadow st)\<rparr>)))"
| "plan_call reads (PlanCreateGroup name) st =
     (returns (PDict [(''id'', PInt (pc_next_temp st)), (''name'', PStr name)]),
      take_temp CreateChannelGroup [PStr name] st)"
| "plan_call reads (PlanCreateLogo data) st =
     (returns (PDict (dict_update [(''id'', PInt (pc_next_temp st))] data)), take_temp CreateLogo [PDict data] st)"
| "plan_call reads (PlanUpdateChannel c data) st =
     (case channel_before reads c st of
        (Inl e, st') \<Rightarrow> (raises e, st')
      | (Inr before, st') \<Rightarrow>
          (let current = dict_update before data in
           (returns (PDict current),
            record_call UpdateChannelM [PInt c, PDict data]
              (st'\<lparr>pc_shadow := dict_put c current (pc_shadow st')\<rparr>))))"
| "plan_call reads (PlanDeleteChannel c) st =
     (case channel_before reads c st of
        (Inl e, st') \<Rightarrow> (raises e, st')
      | (Inr _, st') \<Rightarrow>
          (returns PNone,
           (record_call DeleteChannelM [PInt c] st')\<lparr>pc_shadow := dict_pop c (pc_shadow st')\<rparr>))"
| "plan_call reads (PlanDeleteGroup g) st =
     (case find (\<lambda>item. cg_id item = g) (rd_groups reads) of
        None \<Rightarrow> (raises (GroupNotFound g), st)
      | Some grp \<Rightarrow>
          (returns PNone,
           record_call DeleteChannelGroup [PInt g]
             (st\<lparr>pc_plan := (pc_plan st)\<lparr>wp_group_preconditions :=
                   dict_put g (cg_name grp) (wp_group_preconditions (pc_plan st))\<rparr>\<rparr>)))"
| "plan_call reads (PlanAssignNumbers cs start) st =
     (case channels_before reads cs st of
        (Inl e, st') \<Rightarrow> (raises e, st')
      | (Inr _, st') \<Rightarrow>
          (returns (PDict [(''status'', PStr ''planned'')]),
           record_call AssignChannelNumbers [PList (map PInt cs), start] st'))"
| "plan_call reads (PlanUpdateProfile p c data) st =
     (case channel_before reads c st of
        (Inl e, st') \<Rightarrow> (raises e, st')
      | (Inr _, st') \<Rightarrow>
          (case find (\<lambda>item. cp_id item = p) (rd_profiles reads) of
             None \<Rightarrow> (raises (ProfileNotFound p), st')
           | Some profile \<Rightarrow>
               (returns (PDict data),
                record_call UpdateProfileChannel [PInt p, PInt c, PDict data]
                  (st'\<lparr>pc_plan := (pc_plan st')\<lparr>wp_profile_preconditions :=
                        dict_put (p, c) (is_member profile c) (wp_profile_preconditions (pc_plan st'))\<rparr>\<rparr>))))"

section \<open>The read set\<close>

text \<open>\<open>canonical_hash\<close> encodes a value as JSON with sorted keys and takes the SHA-256 digest; \<open>digest\<close>
  is the digest of the encoding of a value whose keys are already sorted.\<close>

fun canonical :: "pyval \<Rightarrow> pyval" where
  "canonical (PList xs) = PList (map canonical xs)"
| "canonical (PDict d) = PDict (sort_key fst (map (\<lambda>p. (fst p, canonical (snd p))) d))"
| "canonical v = v"

definition canonical_hash :: "(pyval \<Rightarrow> 'h) \<Rightarrow> pyval \<Rightarrow> 'h" where
  "canonical_hash digest v = digest (canonical v)"

datatype drift = ChannelDrifted int | ChannelReadFailed string | GroupDrifted int | ProfileDrifted int int

definition actual_fields :: "int \<Rightarrow> py_dict \<Rightarrow> py_dict \<Rightarrow> py_dict" where
  "actual_fields c current expected =
     map (\<lambda>(k, v). (k, dict_get current k)) (filter (\<lambda>(k, v). k \<noteq> ''id'') expected) @ [(''id'', PInt c)]"

fun check_channels :: "(pyval \<Rightarrow> 'h) \<Rightarrow> upstream_reads \<Rightarrow> (int \<times> py_dict) list \<Rightarrow> (drift, unit) result" where
  "check_channels digest reads [] = returns ()"
| "check_channels digest reads ((c, expected) # rest) =
     (case rd_channel reads c of
        Inl e \<Rightarrow> raises (ChannelReadFailed e)
      | Inr current \<Rightarrow>
          if canonical_hash digest (PDict (actual_fields c current expected)) \<noteq> canonical_hash digest (PDict expected)
          then raises (ChannelDrifted c)
          else check_channels digest reads rest)"

text \<open>A dict comprehension over a list keeps the last item of an id.\<close>

definition last_with :: "('a \<Rightarrow> bool) \<Rightarrow> 'a list \<Rightarrow> 'a option" where
  "last_with P xs = find P (rev xs)"

fun check_groups :: "channel_group list \<Rightarrow> (int \<times> pyval) list \<Rightarrow> (drift, unit) result" where
  "check_groups groups [] = returns ()"
| "check_groups groups ((g, name) # rest) =
     (case last_with (\<lambda>item. cg_id item = g) groups of
        None \<Rightarrow> raises (GroupDrifted g)
      | Some current \<Rightarrow> if cg_name current \<noteq> name then raises (GroupDrifted g) else check_groups groups rest)"

definition member_now :: "channel_profile list \<Rightarrow> int \<Rightarrow> int \<Rightarrow> bool" where
  "member_now profiles p c =
     (case last_with (\<lambda>item. cp_id item = p) profiles of None \<Rightarrow> False | Some profile \<Rightarrow> is_member profile c)"

fun check_profiles :: "channel_profile list \<Rightarrow> ((int \<times> int) \<times> bool) list \<Rightarrow> (drift, unit) result" where
  "check_profiles profiles [] = returns ()"
| "check_profiles profiles (((p, c), expected) # rest) =
     (if member_now profiles p c \<noteq> expected then raises (ProfileDrifted p c) else check_profiles profiles rest)"

definition validate_read_set :: "(pyval \<Rightarrow> 'h) \<Rightarrow> upstream_reads \<Rightarrow> write_plan \<Rightarrow> (drift, unit) result" where
  "validate_read_set digest reads plan =
     bind_result (check_channels digest reads (wp_channel_preconditions plan)) (\<lambda>_.
     bind_result (check_groups (rd_groups reads) (wp_group_preconditions plan)) (\<lambda>_.
       check_profiles (rd_profiles reads) (wp_profile_preconditions plan)))"

section \<open>Replay\<close>

text \<open>\<open>int(v)\<close>: the truncation of a float, the number a text denotes, an error otherwise.\<close>

definition int_text :: "string \<Rightarrow> int option" where
  "int_text text =
     (let s = py_strip text;
          (sign, ds) = (case s of CHR ''-'' # t \<Rightarrow> (- 1, t) | CHR ''+'' # t \<Rightarrow> (1, t) | _ \<Rightarrow> (1, s));
          separated = (\<lambda>i. ds ! i = CHR ''_'' \<and> 0 < i \<and> i + 1 < length ds \<and>
                         py_is_digit (ds ! (i - 1)) \<and> py_is_digit (ds ! (i + 1))) in
      if ds \<noteq> [] \<and> (\<forall>i \<in> set [0..<length ds]. py_is_digit (ds ! i) \<or> separated i)
      then Some (sign * int (digits_value (filter py_is_digit ds))) else None)"

definition int_of_value :: "pyval \<Rightarrow> int option" where
  "int_of_value v =
     (case v of
        PInt n \<Rightarrow> Some n
      | PBool b \<Rightarrow> Some (if b then 1 else 0)
      | PFloat (Fin x) \<Rightarrow> Some (if x < 0 then - \<lfloor>- x\<rfloor> else \<lfloor>x\<rfloor>)
      | PStr s \<Rightarrow> int_text s
      | _ \<Rightarrow> None)"

datatype replay_exception = UnresolvedTempId int | UpstreamError string | NoIdReturned | IdNotAnInt

fun mapped :: "(int \<rightharpoonup> int) \<Rightarrow> pyval \<Rightarrow> (replay_exception, pyval) result"
  and mapped_list :: "(int \<rightharpoonup> int) \<Rightarrow> pyval list \<Rightarrow> (replay_exception, pyval list) result"
  and mapped_dict :: "(int \<rightharpoonup> int) \<Rightarrow> py_dict \<Rightarrow> (replay_exception, py_dict) result" where
  "mapped remap (PInt n) =
     (if n < 0 then (case remap n of None \<Rightarrow> raises (UnresolvedTempId n) | Some r \<Rightarrow> returns (PInt r))
      else returns (PInt n))"
| "mapped remap (PList xs) = bind_result (mapped_list remap xs) (\<lambda>ys. returns (PList ys))"
| "mapped remap (PDict d) = bind_result (mapped_dict remap d) (\<lambda>e. returns (PDict e))"
| "mapped remap v = returns v"
| "mapped_list remap [] = returns []"
| "mapped_list remap (x # xs) =
     bind_result (mapped remap x) (\<lambda>y. bind_result (mapped_list remap xs) (\<lambda>ys. returns (y # ys)))"
| "mapped_dict remap [] = returns []"
| "mapped_dict remap ((k, v) # d) =
     bind_result (mapped remap v) (\<lambda>w. bind_result (mapped_dict remap d) (\<lambda>e. returns ((k, w) # e)))"

text \<open>What the client does on a write: the answer or the text of the exception, and its state.\<close>

type_synonym 's upstream = "write_method \<Rightarrow> pyval list \<Rightarrow> 's \<Rightarrow> (string, pyval) result \<times> 's"

record 's replay =
  rp_upstream :: 's
  rp_remap :: "int \<rightharpoonup> int"
  rp_next_temp :: int
  rp_completed :: "(planned_write \<times> pyval list \<times> pyval) list"

definition real_id :: "pyval \<Rightarrow> (replay_exception, int) result" where
  "real_id answer =
     (case (case answer of PDict d \<Rightarrow> dict_get d ''id'' | _ \<Rightarrow> PNone) of
        PNone \<Rightarrow> raises NoIdReturned
      | v \<Rightarrow> (case int_of_value v of None \<Rightarrow> raises IdNotAnInt | Some n \<Rightarrow> returns n))"

text \<open>One turn of the loop. The results of the code are the answers in \<open>completed\<close>.\<close>

definition replay_step ::
  "'s upstream \<Rightarrow> planned_write \<Rightarrow> 's replay \<Rightarrow> (replay_exception, unit) result \<times> 's replay" where
  "replay_step call w st =
     (case mapped_list (rp_remap st) (pw_args w) of
        Inl e \<Rightarrow> (raises e, st)
      | Inr args \<Rightarrow>
          (case call (pw_method w) args (rp_upstream st) of
             (Inl e, up) \<Rightarrow> (raises (UpstreamError e), st\<lparr>rp_upstream := up\<rparr>)
           | (Inr answer, up) \<Rightarrow>
               (let st' = st\<lparr>rp_upstream := up\<rparr> in
                if is_create (pw_method w) then
                  (case real_id answer of
                     Inl e \<Rightarrow> (raises e, st')
                   | Inr n \<Rightarrow>
                       (returns (),
                        st'\<lparr>rp_remap := (rp_remap st)(rp_next_temp st \<mapsto> n),
                            rp_next_temp := rp_next_temp st - 1,
                            rp_completed := rp_completed st @ [(w, args, answer)]\<rparr>))
                else (returns (), st'\<lparr>rp_completed := rp_completed st @ [(w, args, answer)]\<rparr>))))"

fun replay_writes ::
  "'s upstream \<Rightarrow> planned_write list \<Rightarrow> 's replay \<Rightarrow> (replay_exception, unit) result \<times> 's replay" where
  "replay_writes call [] st = (returns (), st)"
| "replay_writes call (w # ws) st =
     (case replay_step call w st of
        (Inl e, st') \<Rightarrow> (raises e, st')
      | (Inr _, st') \<Rightarrow> replay_writes call ws st')"

text \<open>The compensating call for one completed write, where the code makes one.\<close>

definition compensation_call ::
  "write_plan \<Rightarrow> planned_write \<times> pyval list \<times> pyval \<Rightarrow> (write_method \<times> pyval list) option" where
  "compensation_call plan entry =
     (case entry of (done_write, args, answer) \<Rightarrow>
        (case pw_method done_write of
           CreateChannelM \<Rightarrow> Some (DeleteChannelM, [case answer of PDict d \<Rightarrow> dict_get d ''id'' | _ \<Rightarrow> PNone])
         | CreateChannelGroup \<Rightarrow> Some (DeleteChannelGroup, [case answer of PDict d \<Rightarrow> dict_get d ''id'' | _ \<Rightarrow> PNone])
         | UpdateChannelM \<Rightarrow>
             (case args of
                PInt c # _ \<Rightarrow>
                  if 0 < c then
                    (case map_of (wp_channel_preconditions plan) c of
                       Some before \<Rightarrow>
                         if before \<noteq> []
                         then Some (UpdateChannelM, [PInt c, PDict (filter (\<lambda>(k, v). k \<noteq> ''id'') before)])
                         else None
                     | None \<Rightarrow> None)
                  else None
              | _ \<Rightarrow> None)
         | _ \<Rightarrow> None))"

fun compensate ::
  "'s upstream \<Rightarrow> write_plan \<Rightarrow> (planned_write \<times> pyval list \<times> pyval) list \<Rightarrow> 's
     \<Rightarrow> (write_method \<times> string) list \<times> 's" where
  "compensate call plan [] up = ([], up)"
| "compensate call plan (entry # rest) up =
     (case compensation_call plan entry of
        None \<Rightarrow> compensate call plan rest up
      | Some (m, args) \<Rightarrow>
          (case call m args up of
             (Inr _, up') \<Rightarrow> compensate call plan rest up'
           | (Inl e, up') \<Rightarrow>
               (case compensate call plan rest up' of
                  (errors, up'') \<Rightarrow> ((pw_method (fst entry), e) # errors, up''))))"

datatype replay_failure =
    Drifted drift
  | PartialReplayError nat "(write_method \<times> pyval option) list" "(write_method \<times> string) list"

definition completed_target :: "planned_write \<times> pyval list \<times> pyval \<Rightarrow> write_method \<times> pyval option" where
  "completed_target entry =
     (pw_method (fst entry), case fst (snd entry) of [] \<Rightarrow> None | a # _ \<Rightarrow> Some a)"

definition start_replay :: "'s \<Rightarrow> 's replay" where
  "start_replay up = \<lparr>rp_upstream = up, rp_remap = Map.empty, rp_next_temp = - 1, rp_completed = []\<rparr>"

definition replay_write_plan ::
  "(pyval \<Rightarrow> 'h) \<Rightarrow> ('s \<Rightarrow> upstream_reads) \<Rightarrow> 's upstream \<Rightarrow> write_plan \<Rightarrow> bool \<Rightarrow> 's
     \<Rightarrow> (replay_failure, pyval list \<times> (int \<rightharpoonup> int)) result \<times> 's" where
  "replay_write_plan digest reads call plan read_set_validated up =
     (case (if read_set_validated then returns () else validate_read_set digest (reads up) plan) of
        Inl e \<Rightarrow> (raises (Drifted e), up)
      | Inr _ \<Rightarrow>
          (case replay_writes call (wp_writes plan) (start_replay up) of
             (Inr _, st) \<Rightarrow>
               (returns (map (\<lambda>entry. snd (snd entry)) (rp_completed st), rp_remap st), rp_upstream st)
           | (Inl e, st) \<Rightarrow>
               (case compensate call plan (rev (rp_completed st)) (rp_upstream st) of
                  (errors, up') \<Rightarrow>
                    (raises (PartialReplayError (length (rp_completed st))
                               (map completed_target (rp_completed st)) errors), up'))))"

text \<open>
  The last steps of the router that applies a plan: the read set is checked again right before the replay,
  which is told not to. The exception of the check ends the request (a drift as a 409).
\<close>

definition apply_planned_writes ::
  "(pyval \<Rightarrow> 'h) \<Rightarrow> ('s \<Rightarrow> upstream_reads) \<Rightarrow> 's upstream \<Rightarrow> write_plan \<Rightarrow> 's
     \<Rightarrow> (replay_failure, pyval list \<times> (int \<rightharpoonup> int)) result \<times> 's" where
  "apply_planned_writes digest reads call plan up =
     (case validate_read_set digest (reads up) plan of
        Inl e \<Rightarrow> (raises (Drifted e), up)
      | Inr _ \<Rightarrow> replay_write_plan digest reads call plan True up)"

section \<open>Temporary ids\<close>

text \<open>\<open>remap.get(c, c)\<close>.\<close>

definition resolve_temp :: "(int \<rightharpoonup> int) \<Rightarrow> int \<Rightarrow> int" where
  "resolve_temp remap c = (case remap c of Some r \<Rightarrow> r | None \<Rightarrow> c)"

text \<open>The negative integers in a value.\<close>

fun temps :: "pyval \<Rightarrow> int list" where
  "temps (PInt n) = (if n < 0 then [n] else [])"
| "temps (PList xs) = concat (map temps xs)"
| "temps (PDict d) = concat (map (\<lambda>p. temps (snd p)) d)"
| "temps _ = []"

definition write_temps :: "planned_write \<Rightarrow> int list" where
  "write_temps w = concat (map temps (pw_args w))"

text \<open>The value with every negative integer replaced.\<close>

fun substituted :: "(int \<rightharpoonup> int) \<Rightarrow> pyval \<Rightarrow> pyval" where
  "substituted r (PInt n) = PInt (if n < 0 then resolve_temp r n else n)"
| "substituted r (PList xs) = PList (map (substituted r) xs)"
| "substituted r (PDict d) = PDict (map (\<lambda>p. (fst p, substituted r (snd p))) d)"
| "substituted r v = v"

lemma mapped_substitutes:
  "set (temps v) \<subseteq> dom r \<Longrightarrow> mapped r v = returns (substituted r v)"
  "set (concat (map temps xs)) \<subseteq> dom r \<Longrightarrow> mapped_list r xs = returns (map (substituted r) xs)"
  "set (concat (map (\<lambda>p. temps (snd p)) d)) \<subseteq> dom r \<Longrightarrow>
     mapped_dict r d = returns (map (\<lambda>p. (fst p, substituted r (snd p))) d)"
proof (induction r v and r xs and r d rule: mapped_mapped_list_mapped_dict.induct)
  case (1 r n)
  then show ?case by (auto simp: resolve_temp_def split: option.splits)
qed auto

lemma substituted_mono: "r \<subseteq>\<^sub>m r' \<Longrightarrow> set (temps v) \<subseteq> dom r \<Longrightarrow> substituted r v = substituted r' v"
proof (induction v rule: temps.induct)
  case (1 n)
  then show ?case by (auto simp: resolve_temp_def map_le_def dom_def split: option.splits)
next
  case (2 xs)
  have "substituted r x = substituted r' x" if "x \<in> set xs" for x
    using 2 that by (intro "2.IH") auto
  then show ?case by simp
next
  case (3 d)
  have "substituted r (snd p) = substituted r' (snd p)" if "p \<in> set d" for p
    using "3.prems" that by (intro "3.IH") auto
  then show ?case by simp
qed auto

definition creates_in :: "planned_write list \<Rightarrow> nat" where
  "creates_in ws = length (filter (\<lambda>w. is_create (pw_method w)) ws)"

lemma creates_in_simps [simp]:
  "creates_in [] = 0"
  "creates_in (w # ws) = (if is_create (pw_method w) then 1 else 0) + creates_in ws"
  "creates_in (vs @ ws) = creates_in vs + creates_in ws"
  by (simp_all add: creates_in_def)

text \<open>\<open>resolvable n ws\<close>: with the temporary ids above \<open>n\<close> known, every write names only known ones, a
  create making one more known.\<close>

fun resolvable :: "int \<Rightarrow> planned_write list \<Rightarrow> bool" where
  "resolvable n [] \<longleftrightarrow> True"
| "resolvable n (w # ws) \<longleftrightarrow>
     (\<forall>t \<in> set (write_temps w). n < t) \<and> resolvable (if is_create (pw_method w) then n - 1 else n) ws"

lemma resolvable_snoc:
  "resolvable n (ws @ [w]) \<longleftrightarrow> resolvable n ws \<and> (\<forall>t \<in> set (write_temps w). n - int (creates_in ws) < t)"
  by (induction ws arbitrary: n) auto

section \<open>A complete replay\<close>

text \<open>The state after a sequence of calls, whatever they answer.\<close>

fun exec_calls :: "'s upstream \<Rightarrow> (write_method \<times> pyval list) list \<Rightarrow> 's \<Rightarrow> 's" where
  "exec_calls call [] up = up"
| "exec_calls call ((m, args) # cs) up = exec_calls call cs (snd (call m args up))"

lemma exec_calls_append: "exec_calls call (cs @ ds) up = exec_calls call ds (exec_calls call cs up)"
  by (induction call cs up rule: exec_calls.induct) simp_all

text \<open>A client that carries out every write and answers a create with an id.\<close>

definition reliable :: "'s upstream \<Rightarrow> bool" where
  "reliable call \<longleftrightarrow>
     (\<forall>m args up. \<exists>answer. fst (call m args up) = returns answer \<and>
        (is_create m \<longrightarrow> (\<exists>n. real_id answer = returns n)))"

definition replayed_call :: "(int \<rightharpoonup> int) \<Rightarrow> planned_write \<Rightarrow> write_method \<times> pyval list" where
  "replayed_call r w = (pw_method w, map (substituted r) (pw_args w))"

lemma write_temps_neg: "t \<in> set (write_temps w) \<Longrightarrow> t < 0"
proof -
  have "t \<in> set (temps v) \<Longrightarrow> t < 0" for v
    by (induction v rule: temps.induct) (auto split: if_splits)
  then show "t \<in> set (write_temps w) \<Longrightarrow> t < 0" by (auto simp: write_temps_def)
qed

lemma replay_step_returns:
  assumes "reliable call" "\<forall>t \<in> set (write_temps w). rp_next_temp st < t" "dom (rp_remap st) = {rp_next_temp st <..< 0}"
    "rp_next_temp st < 0"
  obtains answer st' where
    "replay_step call w st = (returns (), st')"
    "rp_upstream st' = exec_calls call [replayed_call (rp_remap st) w] (rp_upstream st)"
    "rp_completed st' = rp_completed st @ [(w, snd (replayed_call (rp_remap st) w), answer)]"
    "rp_next_temp st' = (if is_create (pw_method w) then rp_next_temp st - 1 else rp_next_temp st)"
    "rp_remap st \<subseteq>\<^sub>m rp_remap st'" "dom (rp_remap st') = {rp_next_temp st' <..< 0}"
    "is_create (pw_method w) \<Longrightarrow> real_id answer = returns (the (rp_remap st' (rp_next_temp st)))"
proof -
  let ?args = "snd (replayed_call (rp_remap st) w)"
  have "set (write_temps w) \<subseteq> dom (rp_remap st)" using assms(2,3) write_temps_neg by auto
  then have args: "mapped_list (rp_remap st) (pw_args w) = returns ?args"
    by (simp add: mapped_substitutes write_temps_def replayed_call_def)
  obtain answer up where up: "call (pw_method w) ?args (rp_upstream st) = (returns answer, up)"
    and rid: "is_create (pw_method w) \<Longrightarrow> \<exists>n. real_id answer = returns n"
    using assms(1) unfolding reliable_def by (metis prod.collapse)
  show thesis
  proof (cases "is_create (pw_method w)")
    case True
    with rid obtain n where n: "real_id answer = returns n" by blast
    have fresh: "rp_next_temp st \<notin> dom (rp_remap st)" using assms(3) by simp
    show thesis
      by (rule that [of "st\<lparr>rp_upstream := up, rp_remap := (rp_remap st)(rp_next_temp st \<mapsto> n),
            rp_next_temp := rp_next_temp st - 1, rp_completed := rp_completed st @ [(w, ?args, answer)]\<rparr>" answer])
        (use True n args up assms(3,4) fresh in \<open>auto simp: replay_step_def replayed_call_def Let_def map_le_def\<close>)
  next
    case False
    show thesis
      by (rule that [of "st\<lparr>rp_upstream := up, rp_completed := rp_completed st @ [(w, ?args, answer)]\<rparr>" answer])
        (use False args up assms(3) in \<open>auto simp: replay_step_def replayed_call_def Let_def\<close>)
  qed
qed

definition answers_of :: "'s replay \<Rightarrow> pyval list" where
  "answers_of st = map (\<lambda>entry. snd (snd entry)) (rp_completed st)"

text \<open>The answers to the creates, by position: position \<open>k\<close> resolves the temporary id it was handed.\<close>

definition ids_resolved :: "(int \<rightharpoonup> int) \<Rightarrow> int \<Rightarrow> planned_write list \<Rightarrow> pyval list \<Rightarrow> bool" where
  "ids_resolved r n ws answers \<longleftrightarrow>
     length answers = length ws \<and>
     (\<forall>k < length ws. is_create (pw_method (ws ! k)) \<longrightarrow>
        (\<exists>m. real_id (answers ! k) = returns m \<and> r (n - int (creates_in (take k ws))) = Some m))"

lemma ids_resolved_Cons:
  assumes "ids_resolved r (if is_create (pw_method w) then n - 1 else n) ws answers"
    "is_create (pw_method w) \<Longrightarrow> \<exists>m. real_id answer = returns m \<and> r n = Some m"
  shows "ids_resolved r n (w # ws) (answer # answers)"
  unfolding ids_resolved_def
proof (intro conjI allI impI)
  show "length (answer # answers) = length (w # ws)" using assms(1) by (simp add: ids_resolved_def)
  fix k assume k: "k < length (w # ws)" "is_create (pw_method ((w # ws) ! k))"
  show "\<exists>m. real_id ((answer # answers) ! k) = returns m \<and> r (n - int (creates_in (take k (w # ws)))) = Some m"
  proof (cases k)
    case (Suc j)
    with k assms(1) show ?thesis by (auto simp: ids_resolved_def algebra_simps split: if_splits)
  qed (use k assms(2) in simp)
qed

lemma replay_writes_return:
  assumes "reliable call" "resolvable (rp_next_temp st) ws" "dom (rp_remap st) = {rp_next_temp st <..< 0}"
    "rp_next_temp st < 0"
  shows "\<exists>st' answers. replay_writes call ws st = (returns (), st') \<and> rp_remap st \<subseteq>\<^sub>m rp_remap st' \<and>
           dom (rp_remap st') = {rp_next_temp st - int (creates_in ws) <..< 0} \<and>
           rp_upstream st' = exec_calls call (map (replayed_call (rp_remap st')) ws) (rp_upstream st) \<and>
           answers_of st' = answers_of st @ answers \<and>
           ids_resolved (rp_remap st') (rp_next_temp st) ws answers"
  using assms
proof (induction ws arbitrary: st)
  case Nil
  then show ?case by (simp add: ids_resolved_def)
next
  case (Cons w ws)
  from Cons.prems(2) have temps: "\<forall>t \<in> set (write_temps w). rp_next_temp st < t" by simp
  obtain answer st1 where s: "replay_step call w st = (returns (), st1)"
    "rp_upstream st1 = exec_calls call [replayed_call (rp_remap st) w] (rp_upstream st)"
    "rp_completed st1 = rp_completed st @ [(w, snd (replayed_call (rp_remap st) w), answer)]"
    "rp_next_temp st1 = (if is_create (pw_method w) then rp_next_temp st - 1 else rp_next_temp st)"
    "rp_remap st \<subseteq>\<^sub>m rp_remap st1" "dom (rp_remap st1) = {rp_next_temp st1 <..< 0}"
    "is_create (pw_method w) \<Longrightarrow> real_id answer = returns (the (rp_remap st1 (rp_next_temp st)))"
    by (rule replay_step_returns [OF assms(1) temps Cons.prems(3,4)]) blast
  have "resolvable (rp_next_temp st1) ws" "rp_next_temp st1 < 0" using Cons.prems(2,4) s(4) by auto
  from Cons.IH [OF assms(1) this(1) s(6) this(2)] obtain st2 answers where r:
    "replay_writes call ws st1 = (returns (), st2)" "rp_remap st1 \<subseteq>\<^sub>m rp_remap st2"
    "dom (rp_remap st2) = {rp_next_temp st1 - int (creates_in ws) <..< 0}"
    "rp_upstream st2 = exec_calls call (map (replayed_call (rp_remap st2)) ws) (rp_upstream st1)"
    "answers_of st2 = answers_of st1 @ answers"
    "ids_resolved (rp_remap st2) (rp_next_temp st1) ws answers" by blast
  have le: "rp_remap st \<subseteq>\<^sub>m rp_remap st2" using s(5) r(2) by (rule map_le_trans)
  have "substituted (rp_remap st) v = substituted (rp_remap st2) v" if "v \<in> set (pw_args w)" for v
    using that temps write_temps_neg [of _ w] Cons.prems(3)
    by (intro substituted_mono [OF le]) (fastforce simp: write_temps_def)
  then have same: "replayed_call (rp_remap st) w = replayed_call (rp_remap st2) w" by (simp add: replayed_call_def)
  have "\<exists>m. real_id answer = returns m \<and> rp_remap st2 (rp_next_temp st) = Some m" if "is_create (pw_method w)"
  proof -
    have "rp_next_temp st \<in> dom (rp_remap st1)" using s(4,6) that Cons.prems(4) by simp
    then obtain m where "rp_remap st1 (rp_next_temp st) = Some m" by blast
    moreover from this have "rp_remap st2 (rp_next_temp st) = Some m" using r(2) by (metis domI map_le_def)
    ultimately show ?thesis using s(7) [OF that] by simp
  qed
  with r(6) s(4) have ids: "ids_resolved (rp_remap st2) (rp_next_temp st) (w # ws) (answer # answers)"
    by (intro ids_resolved_Cons) simp_all
  have "answers_of st2 = answers_of st @ answer # answers" using r(5) s(3) by (simp add: answers_of_def)
  moreover have "rp_upstream st2 = exec_calls call (map (replayed_call (rp_remap st2)) (w # ws)) (rp_upstream st)"
  proof -
    have "exec_calls call (map (replayed_call (rp_remap st2)) (w # ws)) (rp_upstream st) =
        exec_calls call (map (replayed_call (rp_remap st2)) ws) (exec_calls call [replayed_call (rp_remap st2) w] (rp_upstream st))"
      by (cases "replayed_call (rp_remap st2) w") simp
    then show ?thesis unfolding r(4) s(2) same by simp
  qed
  moreover have "dom (rp_remap st2) = {rp_next_temp st - int (creates_in (w # ws)) <..< 0}"
    using r(3) s(4) by (simp add: algebra_simps)
  moreover have "replay_writes call (w # ws) st = (returns (), st2)" using s(1) r(1) by simp
  ultimately show ?case using le ids by blast
qed

section \<open>What planning records\<close>

definition planning_call :: "upstream_reads \<times> pipeline_call \<Rightarrow> planner \<Rightarrow> (plan_error, pyval) result \<times> planner" where
  "planning_call rc st = plan_call (fst rc) (snd rc) st"

text \<open>The temporary ids among the arguments of a call that records a write.\<close>

fun call_temps :: "pipeline_call \<Rightarrow> int list" where
  "call_temps (GetChannel c) = []"
| "call_temps (PlanCreateChannel data) = temps (PDict data)"
| "call_temps (PlanCreateGroup name) = []"
| "call_temps (PlanCreateLogo data) = temps (PDict data)"
| "call_temps (PlanUpdateChannel c data) = temps (PInt c) @ temps (PDict data)"
| "call_temps (PlanDeleteChannel c) = temps (PInt c)"
| "call_temps (PlanDeleteGroup g) = temps (PInt g)"
| "call_temps (PlanAssignNumbers cs start) = temps (PList (map PInt cs)) @ temps start"
| "call_temps (PlanUpdateProfile p c data) = temps (PInt p) @ temps (PInt c) @ temps (PDict data)"

text \<open>A caller that uses only temporary ids it was handed out.\<close>

fun honest_run :: "(upstream_reads \<times> pipeline_call) list \<Rightarrow> planner \<Rightarrow> bool" where
  "honest_run [] st \<longleftrightarrow> True"
| "honest_run (rc # rcs) st \<longleftrightarrow>
     (\<forall>t \<in> set (call_temps (snd rc)). pc_next_temp st < t) \<and> honest_run rcs (snd (planning_call rc st))"

definition writes_of :: "planner \<Rightarrow> planned_write list" where
  "writes_of st = wp_writes (pc_plan st)"

lemma channel_before_frame:
  "writes_of (snd (channel_before reads c st)) = writes_of st"
  "pc_next_temp (snd (channel_before reads c st)) = pc_next_temp st"
  by (auto simp: channel_before_def writes_of_def Let_def split: option.splits sum.splits)

lemma channels_before_frame:
  "writes_of (snd (channels_before reads cs st)) = writes_of st \<and>
   pc_next_temp (snd (channels_before reads cs st)) = pc_next_temp st"
proof (induction cs arbitrary: st)
  case (Cons c cs)
  obtain a st' where a: "channel_before reads c st = (a, st')" by fastforce
  with channel_before_frame [of reads c st] have "writes_of st' = writes_of st" "pc_next_temp st' = pc_next_temp st" by simp_all
  with a Cons.IH [of st'] show ?case by (cases a) auto
qed simp

lemma record_call_frame:
  "writes_of (record_call m args st) = writes_of st @ [\<lparr>pw_method = m, pw_args = args\<rparr>]"
  "pc_next_temp (record_call m args st) = pc_next_temp st"
  "writes_of (take_temp m args st) = writes_of st @ [\<lparr>pw_method = m, pw_args = args\<rparr>]"
  "pc_next_temp (take_temp m args st) = pc_next_temp st - 1"
  by (simp_all add: record_call_def take_temp_def writes_of_def)

text \<open>A call records at most one write, which names only what the call names.\<close>

definition recorded_at_most_one :: "pipeline_call \<Rightarrow> planner \<Rightarrow> planner \<Rightarrow> bool" where
  "recorded_at_most_one c st st' \<longleftrightarrow>
     (writes_of st' = writes_of st \<and> pc_next_temp st' = pc_next_temp st) \<or>
     (\<exists>w. writes_of st' = writes_of st @ [w] \<and> set (write_temps w) \<subseteq> set (call_temps c) \<and>
          pc_next_temp st' = (if is_create (pw_method w) then pc_next_temp st - 1 else pc_next_temp st))"

lemma frame_updates [simp]:
  "writes_of (st\<lparr>pc_shadow := x\<rparr>) = writes_of st"
  "pc_next_temp (st\<lparr>pc_shadow := x\<rparr>) = pc_next_temp st"
  "writes_of (st\<lparr>pc_plan := (pc_plan st)\<lparr>wp_group_preconditions := g\<rparr>\<rparr>) = writes_of st"
  "writes_of (st\<lparr>pc_plan := (pc_plan st)\<lparr>wp_profile_preconditions := q\<rparr>\<rparr>) = writes_of st"
  by (simp_all add: writes_of_def)

lemma records_one:
  assumes "writes_of st' = writes_of st @ [\<lparr>pw_method = m, pw_args = args\<rparr>]" "set (concat (map temps args)) \<subseteq> set (call_temps c)"
    "pc_next_temp st' = (if is_create m then pc_next_temp st - 1 else pc_next_temp st)"
  shows "recorded_at_most_one c st st'"
  unfolding recorded_at_most_one_def
  by (intro disjI2 exI [of _ "\<lparr>pw_method = m, pw_args = args\<rparr>"]) (use assms in \<open>simp add: write_temps_def\<close>)

lemma records_none:
  "writes_of st' = writes_of st \<Longrightarrow> pc_next_temp st' = pc_next_temp st \<Longrightarrow> recorded_at_most_one c st st'"
  by (simp add: recorded_at_most_one_def)

lemma plan_call_records: "recorded_at_most_one c st (snd (plan_call reads c st))"
proof (cases c)
    case (GetChannel i)
    then show ?thesis by (auto intro!: records_none split: sum.splits)
  next
    case (PlanUpdateChannel i data)
    obtain a st' where a: "channel_before reads i st = (a, st')" by fastforce
    with channel_before_frame [of reads i st] have f: "writes_of st' = writes_of st" "pc_next_temp st' = pc_next_temp st" by simp_all
    show ?thesis
      using a f by (cases a) (simp_all add: PlanUpdateChannel Let_def record_call_frame records_none records_one [where m = UpdateChannelM and args = "[PInt i, PDict data]"])
  next
    case (PlanDeleteChannel i)
    obtain a st' where a: "channel_before reads i st = (a, st')" by fastforce
    with channel_before_frame [of reads i st] have f: "writes_of st' = writes_of st" "pc_next_temp st' = pc_next_temp st" by simp_all
    show ?thesis
      using a f by (cases a) (simp_all add: PlanDeleteChannel record_call_frame records_none records_one [where m = DeleteChannelM and args = "[PInt i]"])
  next
    case (PlanAssignNumbers cs start)
    obtain a st' where a: "channels_before reads cs st = (a, st')" by fastforce
    with channels_before_frame [of reads cs st] have f: "writes_of st' = writes_of st" "pc_next_temp st' = pc_next_temp st" by simp_all
    show ?thesis
      using a f by (cases a) (simp_all add: PlanAssignNumbers record_call_frame records_none records_one [where m = AssignChannelNumbers and args = "[PList (map PInt cs), start]"])
  next
    case (PlanUpdateProfile p i data)
    obtain a st' where a: "channel_before reads i st = (a, st')" by fastforce
    with channel_before_frame [of reads i st] have f: "writes_of st' = writes_of st" "pc_next_temp st' = pc_next_temp st" by simp_all
    show ?thesis
      using a f by (cases a)
        (simp_all add: PlanUpdateProfile record_call_frame records_none records_one [where m = UpdateProfileChannel and args = "[PInt p, PInt i, PDict data]"] split: option.split)
  next
    case (PlanDeleteGroup g)
    then show ?thesis
      by (simp add: record_call_frame records_none records_one [where m = DeleteChannelGroup and args = "[PInt g]"] split: option.split)
qed (auto simp: Let_def record_call_frame intro!: records_one)

text \<open>The next temporary id counts the recorded creates.\<close>

definition ids_counted :: "planner \<Rightarrow> bool" where
  "ids_counted st \<longleftrightarrow> pc_next_temp st = - 1 - int (creates_in (writes_of st))"

interpretation planning: call_machine planning_call "\<lambda>st. st = new_planner" ids_counted
proof unfold_locales
  fix st rc
  show "ids_counted st" if "st = new_planner" for st
    using that by (simp add: ids_counted_def new_planner_def empty_plan_def writes_of_def)
  assume "ids_counted st"
  then show "ids_counted (snd (planning_call rc st))"
    using plan_call_records [of "snd rc" st "fst rc"]
    by (auto simp: recorded_at_most_one_def planning_call_def ids_counted_def)
qed

lemma honest_run_resolvable:
  "honest_run rcs st \<Longrightarrow> ids_counted st \<Longrightarrow> resolvable (- 1) (writes_of st) \<Longrightarrow>
   resolvable (- 1) (writes_of (run_calls planning_call rcs st))"
proof (induction rcs arbitrary: st)
  case (Cons rc rcs)
  let ?st = "snd (planning_call rc st)"
  from Cons.prems(1) have temps: "\<forall>t \<in> set (call_temps (snd rc)). pc_next_temp st < t" by simp
  from plan_call_records [of "snd rc" st "fst rc"] have "resolvable (- 1) (writes_of ?st)"
    unfolding recorded_at_most_one_def
  proof (elim disjE exE conjE)
    fix w assume w: "writes_of (snd (plan_call (fst rc) (snd rc) st)) = writes_of st @ [w]"
      "set (write_temps w) \<subseteq> set (call_temps (snd rc))"
    have "\<forall>t \<in> set (write_temps w). - 1 - int (creates_in (writes_of st)) < t"
      using w(2) temps Cons.prems(2) by (auto simp: ids_counted_def)
    with w(1) Cons.prems(3) show ?thesis by (simp add: planning_call_def resolvable_snoc)
  qed (use Cons.prems(3) in \<open>simp add: planning_call_def\<close>)
  moreover have "ids_counted ?st" using Cons.prems(2) by (rule planning.call_inv)
  ultimately show ?case using Cons.IH [of ?st] Cons.prems(1) by simp
qed simp

text \<open>C22. Plans replay completely. Whatever the pipeline asked of the planning client, as long as it named
  only temporary ids it had been handed: against a client that carries out its calls, the replay returns,
  it makes exactly the recorded calls in the recorded order, with every temporary id replaced by the id
  that the corresponding create returned, and it never meets an unresolved id.\<close>

theorem plans_replay_completely:
  assumes "honest_run rcs new_planner" "reliable call"
  defines "plan \<equiv> pc_plan (run_calls planning_call rcs new_planner)"
  shows "\<exists>answers r. replay_write_plan digest reads call plan True up =
             (returns (answers, r), exec_calls call (map (replayed_call r) (wp_writes plan)) up) \<and>
           dom r = {- 1 - int (creates_in (wp_writes plan)) <..< 0} \<and>
           ids_resolved r (- 1) (wp_writes plan) answers"
proof -
  have "ids_counted new_planner" "resolvable (- 1) (writes_of new_planner)"
    by (simp_all add: planning.start_inv) (simp add: new_planner_def empty_plan_def writes_of_def)
  with honest_run_resolvable [OF assms(1)] have res: "resolvable (- 1) (wp_writes plan)"
    by (simp add: plan_def writes_of_def)
  have start: "rp_next_temp (start_replay up) = - 1" "rp_remap (start_replay up) = Map.empty"
    "rp_upstream (start_replay up) = up" "answers_of (start_replay up) = []"
    by (simp_all add: start_replay_def answers_of_def)
  have res': "resolvable (rp_next_temp (start_replay up)) (wp_writes plan)" using res start by simp
  have dom: "dom (rp_remap (start_replay up)) = {rp_next_temp (start_replay up) <..< 0}"
    "rp_next_temp (start_replay up) < 0" using start by auto
  from replay_writes_return [OF assms(2) res' dom] obtain st answers where st:
    "replay_writes call (wp_writes plan) (start_replay up) = (returns (), st)"
    "dom (rp_remap st) = {- 1 - int (creates_in (wp_writes plan)) <..< 0}"
    "rp_upstream st = exec_calls call (map (replayed_call (rp_remap st)) (wp_writes plan)) up"
    "answers_of st = answers" "ids_resolved (rp_remap st) (- 1) (wp_writes plan) answers"
    unfolding start by auto
  then show ?thesis
    by (intro exI [of _ answers] exI [of _ "rp_remap st"]) (simp add: replay_write_plan_def answers_of_def)
qed

section \<open>Drift\<close>

definition canonical_fields :: "py_dict \<Rightarrow> py_dict" where
  "canonical_fields d = map (\<lambda>p. (fst p, canonical (snd p))) d"

lemma canonical_dict: "canonical (PDict d) = PDict (sort_key fst (canonical_fields d))"
  by (simp add: canonical_fields_def)

lemma canonical_dict_same_set:
  assumes "canonical (PDict d) = canonical (PDict e)"
  shows "set (canonical_fields d) = set (canonical_fields e)"
  using assms unfolding canonical_dict by (metis pyval.inject(6) set_sort)

lemma canonical_dict_perm:
  assumes "mset d = mset e" "distinct (map fst d)"
  shows "canonical (PDict d) = canonical (PDict e)"
proof -
  have "mset (canonical_fields d) = mset (canonical_fields e)"
    unfolding canonical_fields_def mset_map assms(1) ..
  moreover have "inj_on fst (set (canonical_fields d))"
    using assms(2) by (auto simp: canonical_fields_def distinct_map inj_on_def)
  ultimately have "sort_key fst (canonical_fields d) = sort_key fst (canonical_fields e)"
    by (intro sort_key_inj_key_eq) simp_all
  then show ?thesis by (simp only: canonical_dict)
qed

lemma check_channels_ok:
  "check_channels digest reads pre = returns () \<longleftrightarrow>
     (\<forall>(c, expected) \<in> set pre. \<exists>current. rd_channel reads c = returns current \<and>
        canonical_hash digest (PDict (actual_fields c current expected)) = canonical_hash digest (PDict expected))"
  by (induction digest reads pre rule: check_channels.induct) (auto split: sum.splits)

lemma check_groups_ok:
  "check_groups groups pre = returns () \<longleftrightarrow>
     (\<forall>(g, name) \<in> set pre. \<exists>item. last_with (\<lambda>item. cg_id item = g) groups = Some item \<and> cg_name item = name)"
  by (induction groups pre rule: check_groups.induct) (auto split: option.splits)

lemma check_profiles_ok:
  "check_profiles profiles pre = returns () \<longleftrightarrow> (\<forall>((p, c), b) \<in> set pre. member_now profiles p c = b)"
  by (induction profiles pre rule: check_profiles.induct) auto

text \<open>C24. A drifted channel stops a run before its first write: when any recorded field of any channel
  of the read set has changed, or the channel can no longer be read, the check of the read set fails; the
  router, which checks just before it replays with \<open>read_set_validated\<close>, answers with the drift and
  the client's state is untouched, and so does a replay that is left to check by itself.
  (\<open>inj digest\<close>: the digest of the JSON encoding has no collisions.)\<close>

theorem drift_stops_the_replay:
  assumes "inj digest" "(c, expected) \<in> set (wp_channel_preconditions plan)"
    and drift: "case rd_channel (reads up) c of
           Inl _ \<Rightarrow> True
         | Inr current \<Rightarrow> \<exists>(k, v) \<in> set expected. k \<noteq> ''id'' \<and> canonical (dict_get current k) \<noteq> canonical v"
  shows "\<exists>e. validate_read_set digest (reads up) plan = raises e \<and>
    apply_planned_writes digest reads call plan up = (raises (Drifted e), up) \<and>
    replay_write_plan digest reads call plan False up = (raises (Drifted e), up)"
proof -
  have "check_channels digest (reads up) (wp_channel_preconditions plan) \<noteq> returns ()"
  proof
    assume "check_channels digest (reads up) (wp_channel_preconditions plan) = returns ()"
    with assms(2) obtain current where cur: "rd_channel (reads up) c = returns current"
      "canonical_hash digest (PDict (actual_fields c current expected)) = canonical_hash digest (PDict expected)"
      by (auto simp: check_channels_ok)
    then have same: "set (canonical_fields (actual_fields c current expected)) = set (canonical_fields expected)"
      using canonical_dict_same_set injD [OF assms(1)] unfolding canonical_hash_def by blast
    from drift cur obtain k v where kv: "(k, v) \<in> set expected" "k \<noteq> ''id''" "canonical (dict_get current k) \<noteq> canonical v"
      by auto
    then have "(k, canonical v) \<in> set (canonical_fields expected)" by (force simp: canonical_fields_def)
    with kv show False unfolding same [symmetric] by (auto simp: canonical_fields_def actual_fields_def)
  qed
  then obtain e where "validate_read_set digest (reads up) plan = raises e"
    by (cases "check_channels digest (reads up) (wp_channel_preconditions plan)") (auto simp: validate_read_set_def)
  then show ?thesis by (simp add: replay_write_plan_def apply_planned_writes_def)
qed

section \<open>An unchanged upstream\<close>

definition preconditions_hold :: "upstream_reads \<Rightarrow> write_plan \<Rightarrow> bool" where
  "preconditions_hold reads plan \<longleftrightarrow>
     (\<forall>(c, expected) \<in> set (wp_channel_preconditions plan). \<exists>current streams.
        rd_channel reads c = returns current \<and> list_or_empty (dict_get current ''streams'') = returns streams \<and>
        expected = relevant_fields c current streams) \<and>
     (\<forall>(g, name) \<in> set (wp_group_preconditions plan). \<exists>item.
        find (\<lambda>item. cg_id item = g) (rd_groups reads) = Some item \<and> cg_name item = name) \<and>
     (\<forall>((p, c), b) \<in> set (wp_profile_preconditions plan). \<exists>item.
        find (\<lambda>item. cp_id item = p) (rd_profiles reads) = Some item \<and> is_member item c = b)"

lemma set_dict_setdefault: "set (dict_setdefault k v d) \<subseteq> insert (k, v) (set d)"
  by (auto simp: dict_setdefault_def)

lemma channel_before_holds:
  assumes "preconditions_hold reads (pc_plan st)"
  shows "preconditions_hold reads (pc_plan (snd (channel_before reads c st)))"
proof (cases "map_of (pc_shadow st) c")
  case None
  show ?thesis
  proof (cases "rd_channel reads c")
    case (Inr current)
    show ?thesis
    proof (cases "list_or_empty (dict_get current ''streams'')")
      case (Inr streams)
      let ?new = "dict_setdefault c (relevant_fields c current streams) (wp_channel_preconditions (pc_plan st))"
      have "preconditions_hold reads ((pc_plan st)\<lparr>wp_channel_preconditions := ?new\<rparr>)"
        using assms \<open>rd_channel reads c = returns current\<close> Inr
          set_dict_setdefault [of c "relevant_fields c current streams" "wp_channel_preconditions (pc_plan st)"]
        unfolding preconditions_hold_def by auto
      with None Inr \<open>rd_channel reads c = returns current\<close> show ?thesis by (simp add: channel_before_def Let_def)
    qed (use assms None \<open>rd_channel reads c = returns current\<close> in \<open>simp add: channel_before_def\<close>)
  qed (use assms None in \<open>simp add: channel_before_def\<close>)
qed (use assms in \<open>simp add: channel_before_def\<close>)

lemma channels_before_holds:
  "preconditions_hold reads (pc_plan st) \<Longrightarrow> preconditions_hold reads (pc_plan (snd (channels_before reads cs st)))"
proof (induction cs arbitrary: st)
  case (Cons c cs)
  obtain a st' where a: "channel_before reads c st = (a, st')" by fastforce
  with channel_before_holds [OF Cons.prems, of c] have "preconditions_hold reads (pc_plan st')" by simp
  with a Cons.IH [of st'] show ?case by (cases a) auto
qed simp

lemma preconditions_frame [simp]:
  "preconditions_hold reads (pc_plan (record_call m args st)) = preconditions_hold reads (pc_plan st)"
  "preconditions_hold reads (pc_plan (take_temp m args st)) = preconditions_hold reads (pc_plan st)"
  by (simp_all add: record_call_def take_temp_def preconditions_hold_def)

lemma group_recorded_holds:
  assumes "preconditions_hold reads plan" "find (\<lambda>item. cg_id item = g) (rd_groups reads) = Some item"
  shows "preconditions_hold reads (plan\<lparr>wp_group_preconditions := dict_put g (cg_name item) (wp_group_preconditions plan)\<rparr>)"
  using assms set_dict_put [of g "cg_name item" "wp_group_preconditions plan"]
  unfolding preconditions_hold_def by auto

lemma profile_recorded_holds:
  assumes "preconditions_hold reads plan" "find (\<lambda>item. cp_id item = p) (rd_profiles reads) = Some item"
  shows "preconditions_hold reads
           (plan\<lparr>wp_profile_preconditions := dict_put (p, c) (is_member item c) (wp_profile_preconditions plan)\<rparr>)"
  using assms set_dict_put [of "(p, c)" "is_member item c" "wp_profile_preconditions plan"]
  unfolding preconditions_hold_def by auto

lemma plan_call_holds:
  assumes "preconditions_hold reads (pc_plan st)"
  shows "preconditions_hold reads (pc_plan (snd (plan_call reads c st)))"
proof (cases c)
  case (GetChannel i)
  with assms show ?thesis by (simp split: sum.split)
next
  case (PlanUpdateChannel i data)
  obtain a st' where a: "channel_before reads i st = (a, st')" by fastforce
  with channel_before_holds [OF assms, of i] show ?thesis by (cases a) (simp_all add: PlanUpdateChannel Let_def)
next
  case (PlanDeleteChannel i)
  obtain a st' where a: "channel_before reads i st = (a, st')" by fastforce
  with channel_before_holds [OF assms, of i] show ?thesis by (cases a) (simp_all add: PlanDeleteChannel)
next
  case (PlanAssignNumbers cs start)
  obtain a st' where a: "channels_before reads cs st = (a, st')" by fastforce
  with channels_before_holds [OF assms, of cs] show ?thesis by (cases a) (simp_all add: PlanAssignNumbers)
next
  case (PlanUpdateProfile p i data)
  obtain a st' where a: "channel_before reads i st = (a, st')" by fastforce
  with channel_before_holds [OF assms, of i] have "preconditions_hold reads (pc_plan st')" by simp
  with a show ?thesis by (cases a) (simp_all add: PlanUpdateProfile profile_recorded_holds split: option.split)
next
  case (PlanDeleteGroup g)
  with assms show ?thesis by (simp add: group_recorded_holds split: option.split)
qed (use assms in \<open>simp_all add: Let_def\<close>)

interpretation steady: call_machine "plan_call reads" "\<lambda>st. st = new_planner"
  "\<lambda>st. preconditions_hold reads (pc_plan st)" for reads
proof unfold_locales
  show "preconditions_hold reads (pc_plan st)" if "st = new_planner" for st
    using that by (simp add: new_planner_def empty_plan_def preconditions_hold_def)
qed (rule plan_call_holds)

lemma find_SomeD: "find P xs = Some y \<Longrightarrow> y \<in> set xs \<and> P y"
  by (induction xs) (auto split: if_splits)

lemma find_unique:
  assumes "distinct (map f xs)" "find (\<lambda>x. f x = k) xs = Some y"
  shows "last_with (\<lambda>x. f x = k) xs = Some y"
proof -
  from find_SomeD [OF assms(2)] have y: "y \<in> set xs" "f y = k" by simp_all
  then have "find (\<lambda>x. f x = k) (rev xs) \<noteq> None" by (auto simp: find_None_iff)
  then obtain z where z: "find (\<lambda>x. f x = k) (rev xs) = Some z" by blast
  from find_SomeD [OF z] have "z \<in> set xs" "f z = k" by simp_all
  with y assms(1) have "z = y" by (auto simp: distinct_map inj_on_def)
  with z show ?thesis by (simp add: last_with_def)
qed

fun is_list :: "pyval \<Rightarrow> bool" where
  "is_list (PList xs) \<longleftrightarrow> True"
| "is_list _ \<longleftrightarrow> False"

text \<open>The recorded fields of a channel are those read back exactly when the live \<open>streams\<close> is a list.\<close>

lemma unchanged_channel:
  assumes "inj digest" "list_or_empty (dict_get current ''streams'') = returns streams"
  shows "canonical_hash digest (PDict (actual_fields c current (relevant_fields c current streams))) =
           canonical_hash digest (PDict (relevant_fields c current streams)) \<longleftrightarrow>
         is_list (dict_get current ''streams'')"
proof
  let ?expected = "relevant_fields c current streams" and ?live = "dict_get current ''streams''"
  let ?actual = "actual_fields c current ?expected"
  assume "canonical_hash digest (PDict ?actual) = canonical_hash digest (PDict ?expected)"
  then have "set (canonical_fields ?actual) = set (canonical_fields ?expected)"
    using canonical_dict_same_set injD [OF assms(1)] unfolding canonical_hash_def by blast
  moreover have "(''streams'', canonical ?live) \<in> set (canonical_fields ?actual)"
    by (simp add: canonical_fields_def actual_fields_def relevant_fields_def)
  ultimately have "(''streams'', canonical ?live) \<in> set (canonical_fields ?expected)" by simp
  then have "canonical ?live = canonical (PList streams)" by (simp add: canonical_fields_def relevant_fields_def)
  then show "is_list ?live" by (cases ?live) auto
next
  let ?expected = "relevant_fields c current streams" and ?live = "dict_get current ''streams''"
  assume "is_list ?live"
  then obtain xs where "?live = PList xs" by (cases ?live) auto
  with assms(2) have live: "?live = PList streams" by (auto simp: list_or_empty_def split: if_splits)
  have "mset (actual_fields c current ?expected) = mset ?expected"
    by (simp add: actual_fields_def relevant_fields_def live)
  moreover have "distinct (map fst (actual_fields c current ?expected))"
    by (simp add: actual_fields_def relevant_fields_def)
  ultimately show "canonical_hash digest (PDict (actual_fields c current ?expected)) = canonical_hash digest (PDict ?expected)"
    unfolding canonical_hash_def by (metis canonical_dict_perm)
qed

text \<open>On an upstream that has not changed since planning, the read set is accepted if and only if every
  channel in it answers with a list of streams. A channel whose \<open>streams\<close> is missing or null is recorded
  with the empty list but compared raw, so a plan that touches it is refused as drifted on every attempt.\<close>

theorem unchanged_upstream_accepted_iff:
  fixes calls :: "pipeline_call list"
  assumes "inj digest" "distinct (map cg_id (rd_groups reads))" "distinct (map cp_id (rd_profiles reads))"
  defines "plan \<equiv> pc_plan (run_calls (plan_call reads) calls new_planner)"
  shows "validate_read_set digest reads plan = returns () \<longleftrightarrow>
         (\<forall>c \<in> fst ` set (wp_channel_preconditions plan). \<forall>current.
            rd_channel reads c = returns current \<longrightarrow> is_list (dict_get current ''streams''))"
proof -
  have inv: "preconditions_hold reads plan" unfolding plan_def by (rule steady.run_inv) simp
  have "check_groups (rd_groups reads) (wp_group_preconditions plan) = returns ()"
    using inv find_unique [OF assms(2)] unfolding check_groups_ok preconditions_hold_def by fastforce
  moreover have "check_profiles (rd_profiles reads) (wp_profile_preconditions plan) = returns ()"
    using inv find_unique [OF assms(3)] unfolding check_profiles_ok preconditions_hold_def member_now_def by fastforce
  ultimately have "validate_read_set digest reads plan = returns () \<longleftrightarrow>
      check_channels digest reads (wp_channel_preconditions plan) = returns ()"
    by (auto simp: validate_read_set_def)
  also have "\<dots> \<longleftrightarrow> (\<forall>(c, expected) \<in> set (wp_channel_preconditions plan). \<forall>current.
      rd_channel reads c = returns current \<longrightarrow> is_list (dict_get current ''streams''))"
    unfolding check_channels_ok
  proof (intro ball_cong refl)
    fix entry assume "entry \<in> set (wp_channel_preconditions plan)"
    moreover obtain c expected where e: "entry = (c, expected)" by (cases entry)
    ultimately obtain current streams where "rd_channel reads c = returns current"
      "list_or_empty (dict_get current ''streams'') = returns streams" "expected = relevant_fields c current streams"
      using inv by (auto simp: preconditions_hold_def)
    with unchanged_channel [OF assms(1)] e show "(case entry of (c, expected) \<Rightarrow> \<exists>current. rd_channel reads c = returns current \<and>
        canonical_hash digest (PDict (actual_fields c current expected)) = canonical_hash digest (PDict expected)) \<longleftrightarrow>
      (case entry of (c, expected) \<Rightarrow> \<forall>current. rd_channel reads c = returns current \<longrightarrow> is_list (dict_get current ''streams''))"
      by simp
  qed
  also have "\<dots> \<longleftrightarrow> (\<forall>c \<in> fst ` set (wp_channel_preconditions plan). \<forall>current.
      rd_channel reads c = returns current \<longrightarrow> is_list (dict_get current ''streams''))" by fastforce
  finally show ?thesis .
qed

section \<open>A replay that fails\<close>

text \<open>The answers to a sequence of calls.\<close>

fun call_answers :: "'s upstream \<Rightarrow> (write_method \<times> pyval list) list \<Rightarrow> 's \<Rightarrow> (string, pyval) result list" where
  "call_answers call [] up = []"
| "call_answers call ((m, args) # cs) up = fst (call m args up) # call_answers call cs (snd (call m args up))"

text \<open>
  What takes back a call that was answered: the deletion of the channel or group whose id the answer
  names; the recorded fields of an existing channel, all but its id. Renumberings, logos, deletions and
  profile memberships are not taken back.
\<close>

fun undoing :: "write_plan \<Rightarrow> write_method \<times> pyval list \<Rightarrow> pyval \<Rightarrow> (write_method \<times> pyval list) list" where
  "undoing plan (CreateChannelM, _) (PDict d) = [(DeleteChannelM, [dict_get d ''id''])]"
| "undoing plan (CreateChannelGroup, _) (PDict d) = [(DeleteChannelGroup, [dict_get d ''id''])]"
| "undoing plan (UpdateChannelM, PInt c # _) _ =
     concat (map (\<lambda>recorded. [(UpdateChannelM, [PInt c, PDict (filter (\<lambda>(k, v). k \<noteq> ''id'') recorded)])])
       (filter (\<lambda>recorded. 0 < c \<and> recorded \<noteq> []) (case map_of (wp_channel_preconditions plan) c of None \<Rightarrow> [] | Some r \<Rightarrow> [r])))"
| "undoing plan _ _ = []"

lemma compensation_call_undoes:
  assumes "is_create (pw_method w) \<Longrightarrow> \<exists>n. real_id answer = returns n"
  shows "(case compensation_call plan (w, args, answer) of None \<Rightarrow> [] | Some c \<Rightarrow> [c]) = undoing plan (pw_method w, args) answer"
proof (cases "is_create (pw_method w)")
  case True
  with assms obtain d where "answer = PDict d" by (cases answer) (auto simp: real_id_def)
  with True show ?thesis by (cases "pw_method w") (simp_all add: compensation_call_def)
next
  case False
  show ?thesis
  proof (cases "pw_method w = UpdateChannelM")
    case True
    show ?thesis
    proof (cases args)
      case (Cons v vs)
      with True show ?thesis by (cases v) (simp_all add: compensation_call_def split: option.split)
    qed (use True in \<open>simp add: compensation_call_def\<close>)
  next
    case other: False
    with False show ?thesis by (cases "pw_method w") (simp_all add: compensation_call_def)
  qed
qed

lemma compensate_makes_every_call:
  "snd (compensate call plan entries up) =
     exec_calls call (concat (map (\<lambda>entry. case compensation_call plan entry of None \<Rightarrow> [] | Some c \<Rightarrow> [c]) entries)) up"
proof (induction entries arbitrary: up)
  case (Cons entry rest)
  show ?case
  proof (cases "compensation_call plan entry")
    case (Some c)
    obtain m args where c: "c = (m, args)" by (cases c)
    obtain a up' where a: "call m args up = (a, up')" by fastforce
    with Some c Cons.IH [of up'] show ?thesis by (cases a) (auto split: prod.splits)
  qed (use Cons.IH in simp)
qed simp

lemma mapped_only_known:
  "mapped r v = returns v' \<Longrightarrow> set (temps v) \<subseteq> dom r"
  "mapped_list r xs = returns xs' \<Longrightarrow> set (concat (map temps xs)) \<subseteq> dom r"
  "mapped_dict r d = returns d' \<Longrightarrow> set (concat (map (\<lambda>p. temps (snd p)) d)) \<subseteq> dom r"
proof (induction r v and r xs and r d arbitrary: v' and xs' and d' rule: mapped_mapped_list_mapped_dict.induct)
  case (1 r n)
  then show ?case by (auto split: option.splits if_splits)
qed (fastforce simp: subset_iff dom_def)+

lemma mapped_args:
  assumes "mapped_list r (pw_args w) = returns args"
  shows "args = snd (replayed_call r w)" "set (write_temps w) \<subseteq> dom r"
  using mapped_only_known(2) [OF assms] mapped_substitutes(2) [of "pw_args w" r] assms
  by (simp_all add: write_temps_def replayed_call_def)

lemma replayed_call_mono:
  assumes "set (write_temps w) \<subseteq> dom r" "r \<subseteq>\<^sub>m r'"
  shows "replayed_call r w = replayed_call r' w"
proof -
  have "substituted r v = substituted r' v" if "v \<in> set (pw_args w)" for v
  proof (rule substituted_mono [OF assms(2)])
    have "set (temps v) \<subseteq> set (write_temps w)" using that by (auto simp: write_temps_def)
    with assms(1) show "set (temps v) \<subseteq> dom r" by (rule order_trans [rotated])
  qed
  then show ?thesis by (simp add: replayed_call_def)
qed

lemma failed_step:
  assumes "replay_step call w st = (raises e, st')"
  shows "\<exists>extra. rp_completed st' = rp_completed st \<and> rp_remap st' = rp_remap st \<and>
    rp_upstream st' = exec_calls call extra (rp_upstream st) \<and> (extra = [] \<or> extra = [replayed_call (rp_remap st) w])"
proof (cases "mapped_list (rp_remap st) (pw_args w)")
  case (Inl x)
  with assms show ?thesis by (intro exI [of _ "[]"]) (auto simp: replay_step_def)
next
  case (Inr args)
  obtain a up where a: "call (pw_method w) args (rp_upstream st) = (a, up)" by fastforce
  from Inr have call: "replayed_call (rp_remap st) w = (pw_method w, args)"
    using mapped_args(1) [OF Inr] by (simp add: replayed_call_def)
  show ?thesis
    by (intro exI [of _ "[replayed_call (rp_remap st) w]"])
      (use assms Inr a in \<open>auto simp: replay_step_def call Let_def split: sum.splits if_splits\<close>)
qed

text \<open>What a step that succeeds did.\<close>

lemma done_step:
  assumes "replay_step call w st = (returns u, st')"
    and "dom (rp_remap st) = {rp_next_temp st <..< 0}" "rp_next_temp st < 0"
  shows "\<exists>answer. set (write_temps w) \<subseteq> dom (rp_remap st) \<and> rp_remap st \<subseteq>\<^sub>m rp_remap st' \<and>
    call_answers call [replayed_call (rp_remap st) w] (rp_upstream st) = [returns answer] \<and>
    rp_upstream st' = exec_calls call [replayed_call (rp_remap st) w] (rp_upstream st) \<and>
    rp_completed st' = rp_completed st @ [(w, snd (replayed_call (rp_remap st) w), answer)] \<and>
    dom (rp_remap st') = {rp_next_temp st' <..< 0} \<and> rp_next_temp st' < 0 \<and>
    rp_next_temp st' = (if is_create (pw_method w) then rp_next_temp st - 1 else rp_next_temp st) \<and>
    (is_create (pw_method w) \<longrightarrow> (\<exists>n. real_id answer = returns n \<and> rp_remap st' (rp_next_temp st) = Some n))"
proof (cases "mapped_list (rp_remap st) (pw_args w)")
  case (Inr args)
  note known = mapped_args [OF Inr]
  then have call: "replayed_call (rp_remap st) w = (pw_method w, args)" by (simp add: replayed_call_def)
  obtain a up where a: "call (pw_method w) args (rp_upstream st) = (a, up)" by fastforce
  with assms(1) Inr obtain answer where ans: "a = returns answer" by (cases a) (auto simp: replay_step_def)
  have fresh: "rp_next_temp st \<notin> dom (rp_remap st)" using assms(2) by simp
  show ?thesis
  proof (cases "is_create (pw_method w)")
    case True
    with assms(1) Inr a ans obtain n where n: "real_id answer = returns n"
      "st' = st\<lparr>rp_upstream := up, rp_remap := (rp_remap st)(rp_next_temp st \<mapsto> n),
         rp_next_temp := rp_next_temp st - 1, rp_completed := rp_completed st @ [(w, args, answer)]\<rparr>"
      by (cases "real_id answer") (auto simp: replay_step_def Let_def)
    with True a ans known(2) call fresh assms(2,3) show ?thesis
      by (intro exI [of _ answer]) (auto simp: map_le_def)
  next
    case False
    with assms(1) Inr a ans have "st' = st\<lparr>rp_upstream := up, rp_completed := rp_completed st @ [(w, args, answer)]\<rparr>"
      by (auto simp: replay_step_def Let_def)
    with False a ans known(2) call assms(2,3) show ?thesis by (intro exI [of _ answer]) auto
  qed
qed (use assms in \<open>auto simp: replay_step_def\<close>)

text \<open>The entries of \<open>completed\<close> for writes under a remap table with their answers.\<close>

definition replayed_entries ::
  "(int \<rightharpoonup> int) \<Rightarrow> planned_write list \<Rightarrow> pyval list \<Rightarrow> (planned_write \<times> pyval list \<times> pyval) list" where
  "replayed_entries r ws answers = map2 (\<lambda>w answer. (w, snd (replayed_call r w), answer)) ws answers"

lemma failed_writes:
  assumes "replay_writes call ws st = (raises e, st')"
    and "dom (rp_remap st) = {rp_next_temp st <..< 0}" "rp_next_temp st < 0"
  shows "\<exists>i answers extra. i < length ws \<and> length answers = i \<and> rp_remap st \<subseteq>\<^sub>m rp_remap st' \<and>
    rp_completed st' = rp_completed st @ replayed_entries (rp_remap st') (take i ws) answers \<and>
    call_answers call (map (replayed_call (rp_remap st')) (take i ws)) (rp_upstream st) = map Inr answers \<and>
    ids_resolved (rp_remap st') (rp_next_temp st) (take i ws) answers \<and>
    (extra = [] \<or> extra = [replayed_call (rp_remap st') (ws ! i)]) \<and>
    rp_upstream st' = exec_calls call (map (replayed_call (rp_remap st')) (take i ws) @ extra) (rp_upstream st)"
  using assms
proof (induction ws arbitrary: st)
  case (Cons w ws)
  obtain a st1 where a: "replay_step call w st = (a, st1)" by fastforce
  show ?case
  proof (cases a)
    case (Inl x)
    with a Cons.prems have "replay_step call w st = (raises x, st')" by auto
    from failed_step [OF this] obtain extra where "rp_completed st' = rp_completed st" "rp_remap st' = rp_remap st"
      "rp_upstream st' = exec_calls call extra (rp_upstream st)" "extra = [] \<or> extra = [replayed_call (rp_remap st) w]" by blast
    then show ?thesis
      by (intro exI [of _ 0] exI [of _ "[]"] exI [of _ extra]) (auto simp: replayed_entries_def ids_resolved_def)
  next
    case (Inr u)
    with a Cons.prems(1) have rest: "replay_writes call ws st1 = (raises e, st')" by simp
    from done_step [OF a [unfolded Inr] Cons.prems(2,3)] obtain answer where s:
      "set (write_temps w) \<subseteq> dom (rp_remap st)" "rp_remap st \<subseteq>\<^sub>m rp_remap st1"
      "call_answers call [replayed_call (rp_remap st) w] (rp_upstream st) = [returns answer]"
      "rp_upstream st1 = exec_calls call [replayed_call (rp_remap st) w] (rp_upstream st)"
      "rp_completed st1 = rp_completed st @ [(w, snd (replayed_call (rp_remap st) w), answer)]"
      "dom (rp_remap st1) = {rp_next_temp st1 <..< 0}" "rp_next_temp st1 < 0"
      "rp_next_temp st1 = (if is_create (pw_method w) then rp_next_temp st - 1 else rp_next_temp st)"
      "is_create (pw_method w) \<Longrightarrow> \<exists>n. real_id answer = returns n \<and> rp_remap st1 (rp_next_temp st) = Some n" by blast
    from Cons.IH [OF rest s(6,7)] obtain i answers extra where r: "i < length ws" "length answers = i"
      "rp_remap st1 \<subseteq>\<^sub>m rp_remap st'"
      "rp_completed st' = rp_completed st1 @ replayed_entries (rp_remap st') (take i ws) answers"
      "call_answers call (map (replayed_call (rp_remap st')) (take i ws)) (rp_upstream st1) = map Inr answers"
      "ids_resolved (rp_remap st') (rp_next_temp st1) (take i ws) answers"
      "extra = [] \<or> extra = [replayed_call (rp_remap st') (ws ! i)]"
      "rp_upstream st' = exec_calls call (map (replayed_call (rp_remap st')) (take i ws) @ extra) (rp_upstream st1)" by blast
    have le: "rp_remap st \<subseteq>\<^sub>m rp_remap st'" using s(2) r(3) by (rule map_le_trans)
    note same = replayed_call_mono [OF s(1) le]
    have "\<exists>m. real_id answer = returns m \<and> rp_remap st' (rp_next_temp st) = Some m" if "is_create (pw_method w)"
      using s(9) [OF that] r(3) by (metis domI map_le_def)
    with r(6) s(8) have ids: "ids_resolved (rp_remap st') (rp_next_temp st) (take (Suc i) (w # ws)) (answer # answers)"
      by (simp add: ids_resolved_Cons)
    obtain m args where call: "replayed_call (rp_remap st') w = (m, args)" by fastforce
    show ?thesis
      by (intro exI [of _ "Suc i"] exI [of _ "answer # answers"] exI [of _ extra])
        (use s(3-5) r(1,2,4,5,7,8) ids le call in \<open>simp add: same replayed_entries_def\<close>)
  qed
qed simp

lemma undo_of_entries:
  assumes "ids_resolved r n ws answers"
  shows "concat (map (\<lambda>entry. case compensation_call plan entry of None \<Rightarrow> [] | Some c \<Rightarrow> [c]) (rev (replayed_entries r ws answers)))
    = concat (rev (map2 (undoing plan) (map (replayed_call r) ws) answers))"
proof -
  have "map (\<lambda>entry. case compensation_call plan entry of None \<Rightarrow> [] | Some c \<Rightarrow> [c]) (replayed_entries r ws answers)
      = map2 (undoing plan) (map (replayed_call r) ws) answers"
  proof (rule nth_equalityI)
    fix k assume "k < length (map (\<lambda>entry. case compensation_call plan entry of None \<Rightarrow> [] | Some c \<Rightarrow> [c]) (replayed_entries r ws answers))"
    then have k: "k < length ws" "k < length answers" by (simp_all add: replayed_entries_def)
    then have "\<exists>m. real_id (answers ! k) = returns m" if "is_create (pw_method (ws ! k))"
      using assms that by (auto simp: ids_resolved_def)
    from compensation_call_undoes [OF this] k
    show "map (\<lambda>entry. case compensation_call plan entry of None \<Rightarrow> [] | Some c \<Rightarrow> [c]) (replayed_entries r ws answers) ! k
      = map2 (undoing plan) (map (replayed_call r) ws) answers ! k"
      by (simp add: replayed_entries_def replayed_call_def)
  qed (simp add: replayed_entries_def)
  then show ?thesis by (simp add: rev_map [symmetric])
qed

text \<open>C23. A failed replay stops at the write it names and is undone newest first. The reported index is the
  number of writes that landed; the client was given exactly those, with every temporary id replaced by the
  id its create returned, then at most the failing one, then for each landed write what takes it back: the
  deletion of a created channel or group by the id in its answer, the recorded fields of an updated
  existing channel; in reverse order, whether or not one of these calls failed. Renumberings, logos,
  deletions and profile memberships are not undone.\<close>

theorem failed_replay_is_undone_in_reverse:
  assumes "replay_write_plan digest reads call plan True up = (raises (PartialReplayError i targets errors), up')"
  shows "\<exists>r answers extra calls. i < length (wp_writes plan) \<and>
    calls = map (replayed_call r) (take i (wp_writes plan)) \<and>
    call_answers call calls up = map returns answers \<and>
    ids_resolved r (- 1) (take i (wp_writes plan)) answers \<and>
    targets = map (\<lambda>(m, args). (m, if args = [] then None else Some (hd args))) calls \<and>
    (extra = [] \<or> extra = [replayed_call r (wp_writes plan ! i)]) \<and>
    up' = exec_calls call (calls @ extra @ concat (rev (map2 (undoing plan) calls answers))) up"
proof -
  obtain a st where run: "replay_writes call (wp_writes plan) (start_replay up) = (a, st)" by fastforce
  with assms obtain e where a: "a = raises e" by (cases a) (auto simp: replay_write_plan_def)
  obtain errs up2 where c: "compensate call plan (rev (rp_completed st)) (rp_upstream st) = (errs, up2)" by fastforce
  with assms run a have i: "i = length (rp_completed st)" "targets = map completed_target (rp_completed st)" "up' = up2"
    by (auto simp: replay_write_plan_def)
  have start: "dom (rp_remap (start_replay up)) = {rp_next_temp (start_replay up) <..< 0}" "rp_next_temp (start_replay up) < 0"
    by (auto simp: start_replay_def)
  let ?r = "rp_remap st"
  from failed_writes [OF run [unfolded a] start] obtain j answers extra where f: "j < length (wp_writes plan)" "length answers = j"
    "rp_completed st = replayed_entries ?r (take j (wp_writes plan)) answers"
    "call_answers call (map (replayed_call ?r) (take j (wp_writes plan))) up = map Inr answers"
    "ids_resolved ?r (- 1) (take j (wp_writes plan)) answers"
    "extra = [] \<or> extra = [replayed_call ?r (wp_writes plan ! j)]"
    "rp_upstream st = exec_calls call (map (replayed_call ?r) (take j (wp_writes plan)) @ extra) up"
    by (auto simp: start_replay_def)
  have "j = i" using f(1,2,3) i(1) by (simp add: replayed_entries_def)
  note f = f [unfolded this]
  have "targets = map (\<lambda>(m, args). (m, if args = [] then None else Some (hd args))) (map (replayed_call ?r) (take i (wp_writes plan)))"
    unfolding i(2) f(3) using f(1,2)
    by (intro nth_equalityI)
      (auto simp: replayed_entries_def completed_target_def replayed_call_def split: list.splits)
  moreover have "up' = exec_calls call (map (replayed_call ?r) (take i (wp_writes plan)) @ extra
      @ concat (rev (map2 (undoing plan) (map (replayed_call ?r) (take i (wp_writes plan))) answers))) up"
    using compensate_makes_every_call [of call plan "rev (rp_completed st)" "rp_upstream st"] c i(3)
    unfolding f(3) undo_of_entries [OF f(5)] f(7) by (simp add: exec_calls_append)
  ultimately show ?thesis using f(1,4-6) by blast
qed

section \<open>A planned run\<close>

text \<open>A run that creates a channel, updates it and an existing one, and deletes a group with the number of
  the existing channel.\<close>

definition live_channel :: py_dict where
  "live_channel = [(''name'', PStr ''News''), (''streams'', PList [PInt 7, PInt 8]), (''channel_number'', PInt 3)]"

definition sample_reads :: upstream_reads where
  "sample_reads = \<lparr>rd_channel = (\<lambda>c. if c = 5 then returns live_channel else raises ''404''),
     rd_groups = [\<lparr>cg_id = 5, cg_name = PStr ''Old''\<rparr>], rd_profiles = []\<rparr>"

definition sample_calls :: "pipeline_call list" where
  "sample_calls = [PlanCreateChannel [(''name'', PStr ''New'')], PlanUpdateChannel (- 1) [(''streams'', PList [PInt 9])],
     PlanUpdateChannel 5 [(''streams'', PList [PInt 8, PInt 7])], PlanDeleteGroup 5]"

definition sample_plan :: write_plan where
  "sample_plan =
     \<lparr>wp_writes =
        [\<lparr>pw_method = CreateChannelM, pw_args = [PDict [(''name'', PStr ''New'')]]\<rparr>,
         \<lparr>pw_method = UpdateChannelM, pw_args = [PInt (- 1), PDict [(''streams'', PList [PInt 9])]]\<rparr>,
         \<lparr>pw_method = UpdateChannelM, pw_args = [PInt 5, PDict [(''streams'', PList [PInt 8, PInt 7])]]\<rparr>,
         \<lparr>pw_method = DeleteChannelGroup, pw_args = [PInt 5]\<rparr>],
      wp_channel_preconditions = [(5, relevant_fields 5 live_channel [PInt 7, PInt 8])],
      wp_group_preconditions = [(5, PStr ''Old'')], wp_profile_preconditions = []\<rparr>"

lemma sample_planned: "pc_plan (run_calls (plan_call sample_reads) sample_calls new_planner) = sample_plan"
  by (simp add: sample_calls_def sample_reads_def new_planner_def empty_plan_def take_temp_def record_call_def Let_def
      channel_before_def list_or_empty_def live_channel_def dict_get_def dict_setdefault_def sample_plan_def relevant_fields_def)

lemma sample_planning:
  "run_calls planning_call (map (Pair sample_reads) cs) st = run_calls (plan_call sample_reads) cs st"
  by (induction cs arbitrary: st) (simp_all add: planning_call_def)

lemma sample_honest: "honest_run (map (Pair sample_reads) sample_calls) new_planner"
  by (simp add: sample_calls_def sample_reads_def planning_call_def new_planner_def empty_plan_def take_temp_def
      record_call_def Let_def channel_before_def list_or_empty_def live_channel_def dict_get_def)

text \<open>A client that answers every call with a fresh id.\<close>

definition counting_client :: "int upstream" where
  "counting_client m args up = (returns (PDict [(''id'', PInt up)]), up + 1)"

lemma counting_client_reliable: "reliable counting_client"
  by (simp add: reliable_def counting_client_def real_id_def dict_get_def int_of_value_def)

lemma plans_replay_completely_witness:
  "\<exists>answers r. replay_write_plan canonical (\<lambda>up. sample_reads) counting_client sample_plan True 100 =
       (returns (answers, r), exec_calls counting_client (map (replayed_call r) (wp_writes sample_plan)) 100) \<and>
     dom r = {- 1 - int (creates_in (wp_writes sample_plan)) <..< 0} \<and> ids_resolved r (- 1) (wp_writes sample_plan) answers"
  using plans_replay_completely [OF sample_honest counting_client_reliable] by (simp add: sample_planning sample_planned)

lemma drift_stops_the_replay_witness:
  "\<exists>e. validate_read_set (\<lambda>v. v) (sample_reads\<lparr>rd_channel := \<lambda>c. returns (dict_put ''name'' (PStr ''X'') live_channel)\<rparr>)
       sample_plan = raises e \<and>
     apply_planned_writes (\<lambda>v. v) (\<lambda>up. sample_reads\<lparr>rd_channel := \<lambda>c. returns (dict_put ''name'' (PStr ''X'') live_channel)\<rparr>)
       counting_client sample_plan 100 = (raises (Drifted e), 100) \<and>
     replay_write_plan (\<lambda>v. v) (\<lambda>up. sample_reads\<lparr>rd_channel := \<lambda>c. returns (dict_put ''name'' (PStr ''X'') live_channel)\<rparr>)
       counting_client sample_plan False 100 = (raises (Drifted e), 100)"
  by (rule drift_stops_the_replay [of _ 5 "relevant_fields 5 live_channel [PInt 7, PInt 8]"])
    (simp_all add: sample_plan_def relevant_fields_def live_channel_def dict_get_def)

lemma unchanged_upstream_accepted_iff_witness:
  "validate_read_set (\<lambda>v. v) sample_reads sample_plan = returns ()"
proof -
  have "distinct (map cg_id (rd_groups sample_reads))" "distinct (map cp_id (rd_profiles sample_reads))"
    by (simp_all add: sample_reads_def)
  from unchanged_upstream_accepted_iff [OF _ this, of "\<lambda>v. v" sample_calls] show ?thesis
    unfolding sample_planned by (simp add: sample_plan_def sample_reads_def live_channel_def dict_get_def)
qed

text \<open>A client that refuses to delete groups.\<close>

definition refusing_client :: "(write_method \<times> pyval list) list upstream" where
  "refusing_client m args up =
     (if m = DeleteChannelGroup then raises ''refused'' else returns (PDict [(''id'', PInt 40)]), up @ [(m, args)])"

lemma refused_replay:
  "replay_write_plan (\<lambda>v. v) (\<lambda>up. sample_reads) refusing_client sample_plan True [] =
     (raises (PartialReplayError 3
        [(CreateChannelM, Some (PDict [(''name'', PStr ''New'')])), (UpdateChannelM, Some (PInt 40)), (UpdateChannelM, Some (PInt 5))] []),
      [(CreateChannelM, [PDict [(''name'', PStr ''New'')]]),
       (UpdateChannelM, [PInt 40, PDict [(''streams'', PList [PInt 9])]]),
       (UpdateChannelM, [PInt 5, PDict [(''streams'', PList [PInt 8, PInt 7])]]),
       (DeleteChannelGroup, [PInt 5]),
       (UpdateChannelM, [PInt 5, PDict (filter (\<lambda>(k, v). k \<noteq> ''id'') (relevant_fields 5 live_channel [PInt 7, PInt 8]))]),
       (DeleteChannelM, [PInt 40])])"
  by (simp add: replay_write_plan_def sample_plan_def start_replay_def replay_step_def refusing_client_def real_id_def
      dict_get_def int_of_value_def Let_def compensation_call_def completed_target_def relevant_fields_def)

lemma failed_replay_is_undone_in_reverse_witness:
  "\<exists>r answers extra. call_answers refusing_client (map (replayed_call r) (take 3 (wp_writes sample_plan))) [] = map returns answers \<and>
     ids_resolved r (- 1) (take 3 (wp_writes sample_plan)) answers \<and>
     exec_calls refusing_client (map (replayed_call r) (take 3 (wp_writes sample_plan)) @ extra @
         concat (rev (map2 (undoing sample_plan) (map (replayed_call r) (take 3 (wp_writes sample_plan))) answers))) [] =
       [(CreateChannelM, [PDict [(''name'', PStr ''New'')]]),
        (UpdateChannelM, [PInt 40, PDict [(''streams'', PList [PInt 9])]]),
        (UpdateChannelM, [PInt 5, PDict [(''streams'', PList [PInt 8, PInt 7])]]),
        (DeleteChannelGroup, [PInt 5]),
        (UpdateChannelM, [PInt 5, PDict (filter (\<lambda>(k, v). k \<noteq> ''id'') (relevant_fields 5 live_channel [PInt 7, PInt 8]))]),
        (DeleteChannelM, [PInt 40])]"
proof -
  from failed_replay_is_undone_in_reverse [OF refused_replay] obtain r answers extra calls where
    "calls = map (replayed_call r) (take 3 (wp_writes sample_plan))"
    "call_answers refusing_client calls [] = map returns answers"
    "ids_resolved r (- 1) (take 3 (wp_writes sample_plan)) answers"
    "[(CreateChannelM, [PDict [(''name'', PStr ''New'')]]),
      (UpdateChannelM, [PInt 40, PDict [(''streams'', PList [PInt 9])]]),
      (UpdateChannelM, [PInt 5, PDict [(''streams'', PList [PInt 8, PInt 7])]]),
      (DeleteChannelGroup, [PInt 5]),
      (UpdateChannelM, [PInt 5, PDict (filter (\<lambda>(k, v). k \<noteq> ''id'') (relevant_fields 5 live_channel [PInt 7, PInt 8]))]),
      (DeleteChannelM, [PInt 40])] =
     exec_calls refusing_client (calls @ extra @ concat (rev (map2 (undoing sample_plan) calls answers))) []"
    by blast
  then show ?thesis by (intro exI [of _ r] exI [of _ answers] exI [of _ extra]) (simp only: simp_thms)
qed

end
