(* ===== verification/PlanJournal.thy ===== *)
theory PlanJournal
  imports WritePlan
begin

text \<open>
  The audit rows of a replayed plan, \<open>journal_entries_for_plan\<close> of
  \<open>backend/services/pipeline_write_plan.py\<close>: a walk over the writes of the plan with a snapshot of every
  channel that is brought up to date write by write.
\<close>

section \<open>The journal of a replay\<close>

text \<open>The target-specific part of an audit row; the constant fields and the description are left out.\<close>

datatype journal_action = JournalMethod write_method | JournalAssignNumber | JournalAssignProfile | JournalMergeStream | JournalRemoveStream

record journal_entry =
  je_action :: journal_action
  je_entity_id :: int
  je_name :: pyval
  je_before :: pyval
  je_after :: pyval

text \<open>\<open>TypeError\<close>: a stream id that cannot be a set element or compared, a starting number that is no
  number; \<open>Malformed\<close>: an argument list that no recording produces.\<close>

datatype journal_error = JournalTypeError | MalformedWrite

type_synonym journal_state = "(int \<times> py_dict) list \<times> int"

definition shadow_get :: "(int \<times> py_dict) list \<Rightarrow> int \<Rightarrow> py_dict" where
  "shadow_get shadow c = (case map_of shadow c of Some d \<Rightarrow> d | None \<Rightarrow> [])"

text \<open>\<open>starting_number + index\<close>.\<close>

definition number_plus :: "pyval \<Rightarrow> nat \<Rightarrow> (journal_error, pyval) result" where
  "number_plus start i =
     (case start of
        PNone \<Rightarrow> returns PNone
      | PBool b \<Rightarrow> returns (PInt ((if b then 1 else 0) + int i))
      | PInt n \<Rightarrow> returns (add_offset start i)
      | PFloat f \<Rightarrow> returns (add_offset start i)
      | _ \<Rightarrow> raises JournalTypeError)"

text \<open>Stream ids are integers.\<close>

fun stream_ids :: "pyval list \<Rightarrow> (journal_error, int list) result" where
  "stream_ids [] = returns []"
| "stream_ids (PInt n # xs) = bind_result (stream_ids xs) (\<lambda>ns. returns (n # ns))"
| "stream_ids _ = raises MalformedWrite"

definition streams_field :: "py_dict \<Rightarrow> (journal_error, int list) result" where
  "streams_field d =
     (case list_or_empty (dict_get d ''streams'') of Inl e \<Rightarrow> raises JournalTypeError | Inr xs \<Rightarrow> stream_ids xs)"

definition sorted_ids :: "int set \<Rightarrow> pyval" where
  "sorted_ids A = PList (map PInt (sorted_list_of_set A))"

definition stream_rows :: "int \<Rightarrow> pyval \<Rightarrow> int set \<Rightarrow> int set \<Rightarrow> journal_entry list" where
  "stream_rows c name old new =
     map (\<lambda>s. \<lparr>je_action = JournalMergeStream, je_entity_id = c, je_name = name,
                je_before = PDict [(''stream_ids'', sorted_ids old)], je_after = PDict [(''stream_id'', PInt s)]\<rparr>)
       (sorted_list_of_set (new - old))
     @ map (\<lambda>s. \<lparr>je_action = JournalRemoveStream, je_entity_id = c, je_name = name,
                je_before = PDict [(''stream_id'', PInt s)], je_after = PDict [(''stream_ids'', sorted_ids new)]\<rparr>)
       (sorted_list_of_set (old - new))"

fun journal_assign ::
  "(int \<rightharpoonup> int) \<Rightarrow> pyval \<Rightarrow> nat \<Rightarrow> pyval list \<Rightarrow> (int \<times> py_dict) list
     \<Rightarrow> (journal_error, journal_entry list \<times> (int \<times> py_dict) list) result" where
  "journal_assign remap start i [] shadow = returns ([], shadow)"
| "journal_assign remap start i (PInt raw # ids) shadow =
     (let c = resolve_temp remap raw; before = shadow_get shadow c in
      bind_result (number_plus start i) (\<lambda>new.
      bind_result (journal_assign remap start (Suc i) ids (dict_put c (dict_put ''channel_number'' new before) shadow))
        (\<lambda>(rows, shadow').
          returns (\<lparr>je_action = JournalAssignNumber, je_entity_id = c, je_name = dict_get before ''name'',
                    je_before = PDict [(''channel_number'', dict_get before ''channel_number'')],
                    je_after = PDict [(''channel_number'', new)]\<rparr> # rows, shadow'))))"
| "journal_assign remap start i _ shadow = raises MalformedWrite"

definition journal_create ::
  "(int \<rightharpoonup> int) \<Rightarrow> write_method \<Rightarrow> pyval list \<Rightarrow> journal_state
     \<Rightarrow> (journal_error, journal_entry list \<times> journal_state) result" where
  "journal_create remap m args state =
     (case state of (shadow, next) \<Rightarrow>
        (let c = resolve_temp remap next;
             payload = (case args of [] \<Rightarrow> PDict [] | a # _ \<Rightarrow> a) in
         (case payload of
            PDict d \<Rightarrow>
              returns ([\<lparr>je_action = JournalMethod m, je_entity_id = c, je_name = dict_get d ''name'',
                         je_before = PNone, je_after = payload\<rparr>],
                       (if m = CreateChannelM then dict_put c (dict_update [(''id'', PInt c)] d) shadow else shadow, next - 1))
          | PStr s \<Rightarrow>
              returns ([\<lparr>je_action = JournalMethod m, je_entity_id = c, je_name = PStr s,
                         je_before = PNone, je_after = payload\<rparr>], (shadow, next - 1))
          | _ \<Rightarrow> raises MalformedWrite)))"

text \<open>The last part of the loop: updates and deletions of an entity named by the first argument.\<close>

definition entity_before :: "write_plan \<Rightarrow> (int \<rightharpoonup> int) \<Rightarrow> int \<Rightarrow> (int \<times> py_dict) list \<Rightarrow> py_dict" where
  "entity_before plan remap raw shadow =
     (case map_of shadow (resolve_temp remap raw) of
        Some d \<Rightarrow> d
      | None \<Rightarrow> shadow_get (wp_channel_preconditions plan) raw)"

definition journal_entity ::
  "write_plan \<Rightarrow> (int \<rightharpoonup> int) \<Rightarrow> write_method \<Rightarrow> int \<Rightarrow> pyval option \<Rightarrow> (int \<times> py_dict) list
     \<Rightarrow> (journal_error, journal_entry list \<times> (int \<times> py_dict) list) result" where
  "journal_entity plan remap m raw payload shadow =
     (let c = resolve_temp remap raw;
          before = entity_before plan remap raw shadow;
          row = (\<lambda>after. \<lparr>je_action = JournalMethod m, je_entity_id = c, je_name = dict_get before ''name'',
                          je_before = PDict before, je_after = after\<rparr>) in
      (case (m, payload) of
         (UpdateChannelM, Some (PDict d)) \<Rightarrow>
           (let shadow' = dict_put c (dict_update before d) shadow in
            if map_of d ''streams'' = None then returns ([row (PDict d)], shadow')
            else bind_result (streams_field before) (\<lambda>old. bind_result (streams_field d) (\<lambda>new.
              (let remaining = filter (\<lambda>(k, v). k \<noteq> ''streams'') d in
               returns (stream_rows c (dict_get before ''name'') (set old) (set new)
                        @ (if remaining = [] then [] else [row (PDict remaining)]), shadow')))))
       | (DeleteChannelM, _) \<Rightarrow> returns ([row (case payload of None \<Rightarrow> PNone | Some v \<Rightarrow> v)], dict_pop c shadow)
       | _ \<Rightarrow> returns ([row (case payload of None \<Rightarrow> PNone | Some v \<Rightarrow> v)], shadow)))"

definition journal_write ::
  "write_plan \<Rightarrow> (int \<rightharpoonup> int) \<Rightarrow> planned_write \<Rightarrow> journal_state
     \<Rightarrow> (journal_error, journal_entry list \<times> journal_state) result" where
  "journal_write plan remap w state =
     (case state of (shadow, next) \<Rightarrow>
        if is_create (pw_method w) then journal_create remap (pw_method w) (pw_args w) state
        else (case (pw_method w, pw_args w) of
                (AssignChannelNumbers, [PList ids, start]) \<Rightarrow>
                  bind_result (journal_assign remap start 0 ids shadow) (\<lambda>(rows, shadow'). returns (rows, (shadow', next)))
              | (AssignChannelNumbers, _) \<Rightarrow> raises MalformedWrite
              | (UpdateProfileChannel, [p, PInt raw, payload]) \<Rightarrow>
                  returns ([\<lparr>je_action = JournalAssignProfile, je_entity_id = resolve_temp remap raw, je_name = PNone,
                             je_before = PDict [(''profile_id'', p)], je_after = payload\<rparr>], (shadow, next))
              | (UpdateProfileChannel, _) \<Rightarrow> raises MalformedWrite
              | (m, PInt raw # rest) \<Rightarrow>
                  bind_result (journal_entity plan remap m raw (case rest of [] \<Rightarrow> None | v # _ \<Rightarrow> Some v) shadow)
                    (\<lambda>(rows, shadow'). returns (rows, (shadow', next)))
              | _ \<Rightarrow> raises MalformedWrite))"

fun journal_writes ::
  "write_plan \<Rightarrow> (int \<rightharpoonup> int) \<Rightarrow> planned_write list \<Rightarrow> journal_state \<Rightarrow> (journal_error, journal_entry list) result" where
  "journal_writes plan remap [] state = returns []"
| "journal_writes plan remap (w # ws) state =
     bind_result (journal_write plan remap w state) (\<lambda>(rows, state').
     bind_result (journal_writes plan remap ws state') (\<lambda>rest. returns (rows @ rest)))"

definition journal_entries_for_plan ::
  "write_plan \<Rightarrow> (int \<rightharpoonup> int) \<Rightarrow> (journal_error, journal_entry list) result" where
  "journal_entries_for_plan plan remap =
     journal_writes plan remap (wp_writes plan) (wp_channel_preconditions plan, - 1)"

section \<open>The audit rows\<close>

lemma assign_rows: "journal_assign remap start i ids shadow = returns (rows, shadow') \<Longrightarrow> length rows = length ids"
  by (induction remap start i ids shadow arbitrary: rows shadow' rule: journal_assign.induct) (auto simp: Let_def)

lemma stream_rows_Nil: "finite old \<Longrightarrow> finite new \<Longrightarrow> stream_rows c name old new = [] \<longleftrightarrow> old = new"
  by (auto simp: stream_rows_def)

definition only_reorders_streams :: "write_plan \<Rightarrow> (int \<rightharpoonup> int) \<Rightarrow> planned_write \<Rightarrow> (int \<times> py_dict) list \<Rightarrow> bool" where
  "only_reorders_streams plan remap w shadow \<longleftrightarrow>
     pw_method w = UpdateChannelM \<and>
     (\<exists>raw d rest old new. pw_args w = PInt raw # PDict d # rest \<and>
        map_of d ''streams'' \<noteq> None \<and> filter (\<lambda>(k, v). k \<noteq> ''streams'') d = [] \<and>
        streams_field (entity_before plan remap raw shadow) = returns old \<and> streams_field d = returns new \<and>
        set old = set new)"

lemma journal_entity_rows:
  assumes "journal_entity plan remap m raw payload shadow = returns (rows, shadow')"
  shows "rows = [] \<longleftrightarrow> m = UpdateChannelM \<and>
     (\<exists>d old new. payload = Some (PDict d) \<and> map_of d ''streams'' \<noteq> None \<and> filter (\<lambda>(k, v). k \<noteq> ''streams'') d = [] \<and>
        streams_field (entity_before plan remap raw shadow) = returns old \<and> streams_field d = returns new \<and> set old = set new)"
proof (cases "m = UpdateChannelM \<and> (\<exists>d. payload = Some (PDict d) \<and> map_of d ''streams'' \<noteq> None)")
  case True
  then obtain d where d: "m = UpdateChannelM" "payload = Some (PDict d)" "map_of d ''streams'' \<noteq> None" by blast
  with assms obtain old new where "streams_field (entity_before plan remap raw shadow) = returns old" "streams_field d = returns new"
    "rows = stream_rows (resolve_temp remap raw) (dict_get (entity_before plan remap raw shadow) ''name'') (set old) (set new)
       @ (if filter (\<lambda>(k, v). k \<noteq> ''streams'') d = [] then []
          else [\<lparr>je_action = JournalMethod m, je_entity_id = resolve_temp remap raw,
                 je_name = dict_get (entity_before plan remap raw shadow) ''name'',
                 je_before = PDict (entity_before plan remap raw shadow),
                 je_after = PDict (filter (\<lambda>(k, v). k \<noteq> ''streams'') d)\<rparr>])"
    by (auto simp: journal_entity_def Let_def)
  with d show ?thesis by (auto simp: stream_rows_Nil)
next
  case False
  then have "rows \<noteq> []" using assms
    by (auto simp: journal_entity_def Let_def split: write_method.splits option.splits pyval.splits if_splits)
  with False show ?thesis by blast
qed

text \<open>Which replayed writes leave no audit row: a renumbering of no channels, and an update of a channel
  that only changes the order of its streams. Every other write that is journaled leaves at least one.\<close>

theorem writes_without_audit_row:
  assumes "journal_write plan remap w (shadow, next_temp) = returns (rows, state')"
  shows "rows = [] \<longleftrightarrow>
     (pw_method w = AssignChannelNumbers \<and> (\<exists>start. pw_args w = [PList [], start])) \<or>
     only_reorders_streams plan remap w shadow"
proof (cases "is_create (pw_method w)")
  case True
  with assms have "rows \<noteq> []"
    by (auto simp: journal_write_def journal_create_def Let_def split: list.splits pyval.splits)
  with True show ?thesis by (auto simp: only_reorders_streams_def)
next
  case False
  show ?thesis
  proof (cases "pw_method w")
    case AssignChannelNumbers
    with assms obtain ids start shadow' where ids: "pw_args w = [PList ids, start]"
      "journal_assign remap start 0 ids shadow = returns (rows, shadow')"
      by (auto simp: journal_write_def split: list.splits pyval.splits)
    from assign_rows [OF ids(2)] AssignChannelNumbers ids(1) show ?thesis by (auto simp: only_reorders_streams_def)
  next
    case UpdateProfileChannel
    with assms have "rows \<noteq> []" by (auto simp: journal_write_def split: list.splits pyval.splits)
    with UpdateProfileChannel show ?thesis by (simp add: only_reorders_streams_def)
  next
    case UpdateChannelM
    with assms obtain raw rest shadow' where r: "pw_args w = PInt raw # rest"
      "journal_entity plan remap UpdateChannelM raw (case rest of [] \<Rightarrow> None | v # _ \<Rightarrow> Some v) shadow = returns (rows, shadow')"
      by (auto simp: journal_write_def split: list.splits pyval.splits)
    have "(case rest of [] \<Rightarrow> None | v # _ \<Rightarrow> Some v) = Some p \<longleftrightarrow> (\<exists>more. rest = p # more)" for p
      by (auto split: list.splits)
    with journal_entity_rows [OF r(2)] r(1) UpdateChannelM show ?thesis by (auto simp: only_reorders_streams_def)
  next
    case DeleteChannelM
    with assms obtain raw payload shadow' where
      "journal_entity plan remap DeleteChannelM raw payload shadow = returns (rows, shadow')"
      by (auto simp: journal_write_def split: list.splits pyval.splits)
    from journal_entity_rows [OF this] DeleteChannelM show ?thesis by (simp add: only_reorders_streams_def)
  next
    case DeleteChannelGroup
    with assms obtain raw payload shadow' where
      "journal_entity plan remap DeleteChannelGroup raw payload shadow = returns (rows, shadow')"
      by (auto simp: journal_write_def split: list.splits pyval.splits)
    from journal_entity_rows [OF this] DeleteChannelGroup show ?thesis by (simp add: only_reorders_streams_def)
  qed (use False in simp_all)
qed

text \<open>The audit row of a deleted group can describe a channel: the snapshots are keyed by channel id, and
  the deletion of a group looks its id up there, so when a channel with the same number is in the read set
  the row carries that channel's name and fields.\<close>

theorem group_row_describes_a_channel:
  assumes "wp_writes plan = [\<lparr>pw_method = DeleteChannelGroup, pw_args = [PInt g]\<rparr>]"
    "map_of (wp_channel_preconditions plan) g = Some channel" "remap g = None"
  shows "journal_entries_for_plan plan remap =
     returns [\<lparr>je_action = JournalMethod DeleteChannelGroup, je_entity_id = g, je_name = dict_get channel ''name'',
               je_before = PDict channel, je_after = PNone\<rparr>]"
  using assms
  by (simp add: journal_entries_for_plan_def journal_write_def journal_entity_def entity_before_def resolve_temp_def Let_def)

section \<open>Audit rows of the planned run\<close>

lemma writes_without_audit_row_witness:
  "\<exists>state'. journal_write sample_plan Map.empty (wp_writes sample_plan ! 2) (wp_channel_preconditions sample_plan, - 1) = returns ([], state') \<and>
     only_reorders_streams sample_plan Map.empty (wp_writes sample_plan ! 2) (wp_channel_preconditions sample_plan)"
proof -
  have row: "journal_write sample_plan Map.empty (wp_writes sample_plan ! 2) (wp_channel_preconditions sample_plan, - 1) =
      returns ([], (dict_put 5 (dict_update (relevant_fields 5 live_channel [PInt 7, PInt 8]) [(''streams'', PList [PInt 8, PInt 7])])
        (wp_channel_preconditions sample_plan), - 1))"
    by (simp add: sample_plan_def journal_write_def journal_entity_def entity_before_def resolve_temp_def Let_def
        streams_field_def list_or_empty_def relevant_fields_def dict_get_def stream_rows_def insert_commute)
  with writes_without_audit_row [OF this] show ?thesis by (auto simp: sample_plan_def)
qed

lemma group_row_describes_a_channel_witness:
  "journal_entries_for_plan (sample_plan\<lparr>wp_writes := [\<lparr>pw_method = DeleteChannelGroup, pw_args = [PInt 5]\<rparr>]\<rparr>) Map.empty =
     returns [\<lparr>je_action = JournalMethod DeleteChannelGroup, je_entity_id = 5, je_name = PStr ''News'',
               je_before = PDict (relevant_fields 5 live_channel [PInt 7, PInt 8]), je_after = PNone\<rparr>]"
  using group_row_describes_a_channel [of "sample_plan\<lparr>wp_writes := [\<lparr>pw_method = DeleteChannelGroup, pw_args = [PInt 5]\<rparr>]\<rparr>" 5
      "relevant_fields 5 live_channel [PInt 7, PInt 8]" Map.empty]
  by (simp add: sample_plan_def) (simp add: relevant_fields_def live_channel_def dict_get_def)

end
