(* ===== verification/M3UChanges.thy ===== *)
theory M3UChanges
  imports Prelude
begin

text \<open>
  How a refresh of a playlist account is captured and compared, \<open>backend/tasks/m3u_refresh.py\<close>
  (\<open>get_streams_grouped\<close>, the collection loop of \<open>capture_m3u_changes\<close>) and
  \<open>backend/m3u_change_detector.py\<close>. The tables are lists in insertion order, times are integers, the JSON
  text of a snapshot is the value it encodes. Where the code walks over a \<open>set\<close>, whose order Python does
  not specify, the model walks in the order in which the elements were first inserted; the statements
  below do not depend on it.
\<close>

section \<open>Pulling the streams of an account\<close>

definition stream_pull_page_size :: nat where
  "stream_pull_page_size = 1000"

definition max_stream_names :: nat where
  "max_stream_names = 500"

record m3u_stream =
  ms_channel_group :: "int option"
  ms_name :: string

record grouped =
  gr_counts :: "(string \<times> int) list"
  gr_names :: "(string \<times> string list) list"

definition dict_get_or :: "'v \<Rightarrow> ('k \<times> 'v) list \<Rightarrow> 'k \<Rightarrow> 'v" where
  "dict_get_or v d k = (case map_of d k of Some w \<Rightarrow> w | None \<Rightarrow> v)"

text \<open>The group of a stream: \<open>group_lookup.get(stream.get("channel_group"))\<close>, skipped when falsy.\<close>

definition stream_group :: "(int \<rightharpoonup> string) \<Rightarrow> m3u_stream \<Rightarrow> string option" where
  "stream_group group_lookup s =
     (case ms_channel_group s of
        None \<Rightarrow> None
      | Some g \<Rightarrow> (case group_lookup g of None \<Rightarrow> None | Some name \<Rightarrow> if name = [] then None else Some name))"

definition group_stream :: "(int \<rightharpoonup> string) \<Rightarrow> string set \<Rightarrow> m3u_stream \<Rightarrow> grouped \<Rightarrow> grouped" where
  "group_stream group_lookup enabled s st =
     (case stream_group group_lookup s of
        None \<Rightarrow> st
      | Some name \<Rightarrow>
          (let st = st\<lparr>gr_counts := dict_put name (dict_get_or 0 (gr_counts st) name + 1) (gr_counts st)\<rparr> in
           if name \<notin> enabled then st
           else (let names = dict_get_or [] (gr_names st) name in
                 st\<lparr>gr_names := dict_put name
                      (if length names < max_stream_names then names @ [ms_name s] else names) (gr_names st)\<rparr>)))"

text \<open>A page of the listing: its results and the total the server reports. The loop ends when enough
  streams were fetched or a page is empty; whether that happens is up to the server.\<close>

type_synonym listing = "nat \<Rightarrow> m3u_stream list \<times> int"

partial_function (option) pull_pages ::
  "(int \<rightharpoonup> string) \<Rightarrow> string set \<Rightarrow> listing \<Rightarrow> nat \<Rightarrow> nat \<Rightarrow> grouped \<Rightarrow> grouped option" where
  "pull_pages group_lookup enabled get_streams page fetched st =
     (case get_streams page of (results, reported) \<Rightarrow>
        (let st' = fold (group_stream group_lookup enabled) results st;
             fetched' = fetched + length results in
         if reported \<le> int fetched' \<or> results = [] then Some st'
         else pull_pages group_lookup enabled get_streams (page + 1) fetched' st'))"

definition empty_grouped :: grouped where
  "empty_grouped = \<lparr>gr_counts = [], gr_names = []\<rparr>"

definition get_streams_grouped ::
  "(int \<rightharpoonup> string) \<Rightarrow> string set \<Rightarrow> listing \<Rightarrow> grouped option" where
  "get_streams_grouped group_lookup enabled get_streams =
     pull_pages group_lookup enabled get_streams 1 0 empty_grouped"

section \<open>The groups of an account\<close>

record account_group =
  ag_channel_group :: "int option"
  ag_enabled :: bool
  ag_is_stale :: bool

record group_state =
  gs_name :: string
  gs_stream_count :: int
  gs_enabled :: bool
  gs_is_stale :: bool
  gs_stream_names :: "string list option"

text \<open>\<open>group_id and group_id in group_lookup\<close>.\<close>

definition known_group :: "(int \<rightharpoonup> string) \<Rightarrow> account_group \<Rightarrow> string option" where
  "known_group group_lookup acg =
     (case ag_channel_group acg of None \<Rightarrow> None | Some g \<Rightarrow> if g = 0 then None else group_lookup g)"

definition enabled_group_names :: "(int \<rightharpoonup> string) \<Rightarrow> account_group list \<Rightarrow> string set" where
  "enabled_group_names group_lookup acgs =
     set (List.map_filter (\<lambda>acg. if ag_enabled acg then known_group group_lookup acg else None) acgs)"

definition current_group :: "(int \<rightharpoonup> string) \<Rightarrow> (string \<times> int) list \<Rightarrow> account_group \<Rightarrow> group_state option" where
  "current_group group_lookup counts acg =
     map_option (\<lambda>name. \<lparr>gs_name = name, gs_stream_count = dict_get_or 0 counts name, gs_enabled = ag_enabled acg,
                         gs_is_stale = ag_is_stale acg, gs_stream_names = None\<rparr>)
       (known_group group_lookup acg)"

definition current_groups :: "(int \<rightharpoonup> string) \<Rightarrow> (string \<times> int) list \<Rightarrow> account_group list \<Rightarrow> group_state list \<times> int" where
  "current_groups group_lookup counts acgs =
     (let gs = List.map_filter (current_group group_lookup counts) acgs in (gs, sum_list (map gs_stream_count gs)))"

section \<open>Snapshots\<close>

record m3u_snapshot =
  sn_id :: nat
  sn_account :: int
  sn_time :: int
  sn_total_streams :: int
  sn_updated_at :: "string option"
  sn_groups :: "group_state list"

datatype change_type = GroupAdded | GroupRemoved | StreamsAdded | StreamsRemoved

record change_log =
  cl_account :: int
  cl_time :: int
  cl_type :: change_type
  cl_group_name :: string
  cl_count :: int
  cl_enabled :: bool
  cl_stream_names :: "string list"
  cl_snapshot_id :: nat

record m3u_tables =
  tb_snapshots :: "m3u_snapshot list"
  tb_next_id :: nat
  tb_change_logs :: "change_log list"

text \<open>\<open>order_by(snapshot_time.desc()).first()\<close>.\<close>

definition newest :: "m3u_snapshot list \<Rightarrow> m3u_snapshot option" where
  "newest snapshots = scan_best (\<lambda>x y. sn_time y < sn_time x) snapshots None"

definition get_latest_snapshot :: "int \<Rightarrow> m3u_tables \<Rightarrow> m3u_snapshot option" where
  "get_latest_snapshot account db = newest (filter (\<lambda>s. sn_account s = account) (tb_snapshots db))"

definition get_previous_snapshot :: "int \<Rightarrow> nat \<Rightarrow> m3u_tables \<Rightarrow> m3u_snapshot option" where
  "get_previous_snapshot account before db =
     newest (filter (\<lambda>s. sn_account s = account \<and> sn_id s < before) (tb_snapshots db))"

type_synonym names_by_group = "(string \<times> string list) list option"

definition enrich_group :: "names_by_group \<Rightarrow> group_state \<Rightarrow> group_state" where
  "enrich_group names g =
     (case names of
        None \<Rightarrow> g
      | Some d \<Rightarrow> (case map_of d (gs_name g) of None \<Rightarrow> g | Some xs \<Rightarrow> g\<lparr>gs_stream_names := Some xs\<rparr>))"

definition create_snapshot ::
  "int \<Rightarrow> group_state list \<Rightarrow> int \<Rightarrow> string option \<Rightarrow> names_by_group \<Rightarrow> int \<Rightarrow> m3u_tables
     \<Rightarrow> m3u_snapshot \<times> m3u_tables" where
  "create_snapshot account groups total_streams updated_at names taken db =
     (let snapshot = \<lparr>sn_id = tb_next_id db, sn_account = account, sn_time = taken, sn_total_streams = total_streams,
                      sn_updated_at = updated_at, sn_groups = map (enrich_group names) groups\<rparr> in
      (snapshot, db\<lparr>tb_snapshots := tb_snapshots db @ [snapshot], tb_next_id := tb_next_id db + 1\<rparr>))"

section \<open>Changes\<close>

record group_change =
  gc_group_name :: string
  gc_stream_count :: int
  gc_enabled :: bool

record stream_change =
  sc_group_name :: string
  sc_stream_names :: "string list"
  sc_count :: int
  sc_enabled :: bool

record change_set =
  cs_account :: int
  cs_previous :: "nat option"
  cs_current :: nat
  cs_time :: int
  cs_groups_added :: "group_change list"
  cs_groups_removed :: "group_change list"
  cs_streams_added :: "stream_change list"
  cs_streams_removed :: "stream_change list"
  cs_total_before :: int
  cs_total_after :: int

definition has_changes :: "change_set \<Rightarrow> bool" where
  "has_changes cs \<longleftrightarrow> cs_groups_added cs \<noteq> [] \<or> cs_groups_removed cs \<noteq> [] \<or>
     cs_streams_added cs \<noteq> [] \<or> cs_streams_removed cs \<noteq> []"

definition total_changes :: "change_set \<Rightarrow> nat" where
  "total_changes cs = length (cs_groups_added cs) + length (cs_groups_removed cs) +
     length (cs_streams_added cs) + length (cs_streams_removed cs)"

definition stream_count_delta :: "change_set \<Rightarrow> int" where
  "stream_count_delta cs = cs_total_after cs - cs_total_before cs"

definition group_change_of :: "group_state \<Rightarrow> group_change" where
  "group_change_of g = \<lparr>gc_group_name = gs_name g, gc_stream_count = gs_stream_count g, gc_enabled = gs_enabled g\<rparr>"

definition names_of :: "names_by_group \<Rightarrow> string \<Rightarrow> string list" where
  "names_of names g = (case names of None \<Rightarrow> [] | Some d \<Rightarrow> dict_get_or [] d g)"

definition baseline_streams :: "names_by_group \<Rightarrow> group_state list \<Rightarrow> stream_change list" where
  "baseline_streams names groups =
     map (\<lambda>g. \<lparr>sc_group_name = gs_name g, sc_stream_names = names_of names (gs_name g),
               sc_count = gs_stream_count g, sc_enabled = gs_enabled g\<rparr>)
       (filter (\<lambda>g. 0 < gs_stream_count g) groups)"

text \<open>\<open>{g["name"]: g for g in groups}\<close>.\<close>

definition keyed :: "group_state list \<Rightarrow> (string \<times> group_state) list" where
  "keyed groups = fold (\<lambda>g. dict_put (gs_name g) g) groups []"

text \<open>The distinct elements in the order of their first occurrence, and \<open>Counter(xs) - Counter(ys)\<close> with
  its elements.\<close>

definition distinct_first :: "'a list \<Rightarrow> 'a list" where
  "distinct_first xs = rev (remdups (rev xs))"

definition counter_minus :: "'a list \<Rightarrow> 'a list \<Rightarrow> 'a list" where
  "counter_minus xs ys = concat (map (\<lambda>x. replicate (count_list xs x - count_list ys x) x) (distinct_first xs))"

definition names_added :: "string list \<Rightarrow> string list \<Rightarrow> string list" where
  "names_added prev now =
     (if prev \<noteq> [] \<and> now \<noteq> [] then filter (\<lambda>n. n \<notin> set prev) (distinct_first now)
      else if now \<noteq> [] then distinct_first now else [])"

text \<open>The changes of the streams of a group that is in both states.\<close>

definition stream_changes ::
  "group_state \<Rightarrow> group_state \<Rightarrow> string list \<Rightarrow> stream_change list \<times> stream_change list" where
  "stream_changes prev now curr_names =
     (let prev_count = gs_stream_count prev; curr_count = gs_stream_count now;
          prev_names = (case gs_stream_names prev of None \<Rightarrow> [] | Some xs \<Rightarrow> xs);
          change = (\<lambda>xs n. \<lparr>sc_group_name = gs_name now, sc_stream_names = xs, sc_count = n, sc_enabled = gs_enabled now\<rparr>) in
      if prev_count < curr_count then ([change (names_added prev_names curr_names) (curr_count - prev_count)], [])
      else if curr_count < prev_count then ([], [change (names_added curr_names prev_names) (prev_count - curr_count)])
      else if prev_names \<noteq> [] \<and> curr_names \<noteq> [] \<and>
              prev_count < int max_stream_names \<and> curr_count < int max_stream_names
      then (let added = counter_minus curr_names prev_names; removed = counter_minus prev_names curr_names in
            (if added \<noteq> [] then [change added (int (length added))] else [],
             if removed \<noteq> [] then [change removed (int (length removed))] else []))
      else ([], []))"

definition compare_groups ::
  "names_by_group \<Rightarrow> (string \<times> group_state) list \<Rightarrow> (string \<times> group_state) list
     \<Rightarrow> group_change list \<times> group_change list \<times> stream_change list \<times> stream_change list" where
  "compare_groups names prev now =
     (let common = List.map_filter (\<lambda>(k, g). map_option (\<lambda>p. (p, g)) (map_of prev k)) now;
          changes = map (\<lambda>(p, g). stream_changes p g (names_of names (gs_name g))) common in
      (map (group_change_of \<circ> snd) (filter (\<lambda>(k, g). map_of prev k = None) now),
       map (group_change_of \<circ> snd) (filter (\<lambda>(k, g). map_of now k = None) prev),
       concat (map fst changes), concat (map snd changes)))"

definition detect_changes ::
  "int \<Rightarrow> group_state list \<Rightarrow> int \<Rightarrow> names_by_group \<Rightarrow> string option \<Rightarrow> int \<times> int \<Rightarrow> m3u_tables
     \<Rightarrow> change_set \<times> m3u_tables" where
  "detect_changes account groups total_streams names updated_at clock db =
     (let previous = get_latest_snapshot account db;
          (snapshot, db') = create_snapshot account groups total_streams updated_at names (fst clock) db;
          base = \<lparr>cs_account = account, cs_previous = map_option sn_id previous, cs_current = sn_id snapshot,
                  cs_time = snd clock, cs_groups_added = [], cs_groups_removed = [], cs_streams_added = [],
                  cs_streams_removed = [], cs_total_before = 0, cs_total_after = total_streams\<rparr> in
      (case previous of
         None \<Rightarrow> (base\<lparr>cs_groups_added := map group_change_of groups,
                       cs_streams_added := baseline_streams names groups\<rparr>, db')
       | Some prev \<Rightarrow>
           (case compare_groups names (keyed (sn_groups prev)) (keyed groups) of
              (added, removed, streams_added, streams_removed) \<Rightarrow>
                (base\<lparr>cs_total_before := sn_total_streams prev, cs_groups_added := added, cs_groups_removed := removed,
                      cs_streams_added := streams_added, cs_streams_removed := streams_removed\<rparr>, db'))))"

section \<open>The change log\<close>

definition group_log :: "change_set \<Rightarrow> change_type \<Rightarrow> group_change \<Rightarrow> change_log" where
  "group_log cs t g =
     \<lparr>cl_account = cs_account cs, cl_time = cs_time cs, cl_type = t, cl_group_name = gc_group_name g,
      cl_count = gc_stream_count g, cl_enabled = gc_enabled g, cl_stream_names = [], cl_snapshot_id = cs_current cs\<rparr>"

definition stream_log :: "change_set \<Rightarrow> change_type \<Rightarrow> stream_change \<Rightarrow> change_log" where
  "stream_log cs t s =
     \<lparr>cl_account = cs_account cs, cl_time = cs_time cs, cl_type = t, cl_group_name = sc_group_name s,
      cl_count = sc_count s, cl_enabled = sc_enabled s, cl_stream_names = sc_stream_names s,
      cl_snapshot_id = cs_current cs\<rparr>"

definition persist_changes :: "change_set \<Rightarrow> m3u_tables \<Rightarrow> change_log list \<times> m3u_tables" where
  "persist_changes cs db =
     (if \<not> has_changes cs then ([], db)
      else (let logs = map (group_log cs GroupAdded) (cs_groups_added cs)
                       @ map (group_log cs GroupRemoved) (cs_groups_removed cs)
                       @ map (stream_log cs StreamsAdded) (cs_streams_added cs)
                       @ map (stream_log cs StreamsRemoved) (cs_streams_removed cs) in
            (logs, db\<lparr>tb_change_logs := tb_change_logs db @ logs\<rparr>)))"

text \<open>\<open>order_by(change_time.desc())\<close>, rows with equal times in insertion order.\<close>

definition get_changes_since :: "int \<Rightarrow> int option \<Rightarrow> m3u_tables \<Rightarrow> change_log list" where
  "get_changes_since since account db =
     sort_key (\<lambda>l. - cl_time l)
       (filter (\<lambda>l. since \<le> cl_time l \<and> (case account of None \<Rightarrow> True | Some a \<Rightarrow> cl_account l = a)) (tb_change_logs db))"

record change_summary =
  su_total_changes :: nat
  su_groups_added :: int
  su_groups_removed :: int
  su_streams_added :: int
  su_streams_removed :: int
  su_accounts :: "int set"

definition summarize :: "change_log \<Rightarrow> change_summary \<Rightarrow> change_summary" where
  "summarize l s =
     (let s = s\<lparr>su_accounts := insert (cl_account l) (su_accounts s)\<rparr> in
      (case cl_type l of
         GroupAdded \<Rightarrow> s\<lparr>su_groups_added := su_groups_added s + 1\<rparr>
       | GroupRemoved \<Rightarrow> s\<lparr>su_groups_removed := su_groups_removed s + 1\<rparr>
       | StreamsAdded \<Rightarrow> s\<lparr>su_streams_added := su_streams_added s + cl_count l\<rparr>
       | StreamsRemoved \<Rightarrow> s\<lparr>su_streams_removed := su_streams_removed s + cl_count l\<rparr>))"

definition get_change_summary :: "int \<Rightarrow> int option \<Rightarrow> m3u_tables \<Rightarrow> change_summary" where
  "get_change_summary since account db =
     (let changes = get_changes_since since account db in
      fold summarize changes
        \<lparr>su_total_changes = length changes, su_groups_added = 0, su_groups_removed = 0, su_streams_added = 0,
         su_streams_removed = 0, su_accounts = {}\<rparr>)"

section \<open>A captured refresh\<close>

text \<open>\<open>capture_m3u_changes\<close>, when the client answers: the change set is returned only when there is one.\<close>

record m3u_refresh =
  rf_account :: int
  rf_group_lookup :: "int \<rightharpoonup> string"
  rf_account_groups :: "account_group list"
  rf_updated_at :: "string option"
  rf_clock :: "int \<times> int"

definition capture_m3u_changes :: "m3u_refresh \<Rightarrow> listing \<Rightarrow> m3u_tables \<Rightarrow> (change_set option \<times> m3u_tables) option" where
  "capture_m3u_changes rf get_streams db =
     (case get_streams_grouped (rf_group_lookup rf) (enabled_group_names (rf_group_lookup rf) (rf_account_groups rf)) get_streams of
        None \<Rightarrow> None
      | Some st \<Rightarrow>
          (case current_groups (rf_group_lookup rf) (gr_counts st) (rf_account_groups rf) of (groups, total_streams) \<Rightarrow>
            (case detect_changes (rf_account rf) groups total_streams (Some (gr_names st)) (rf_updated_at rf) (rf_clock rf) db of
               (cs, db') \<Rightarrow>
                 Some (if has_changes cs then (Some cs, snd (persist_changes cs db')) else (None, db')))))"

section \<open>Counting and differences\<close>

lemma distinct_first_set [simp]: "set (distinct_first xs) = set xs" "distinct (distinct_first xs)"
  by (simp_all add: distinct_first_def)

lemma count_replicates:
  "distinct ds \<Longrightarrow> count (mset (concat (map (\<lambda>x. replicate (f x) x) ds))) z = (if z \<in> set ds then f z else 0)"
  by (induction ds) auto

lemma mset_counter_minus: "mset (counter_minus xs ys) = mset xs - mset ys"
proof (rule multiset_eqI)
  fix z
  have "count (mset (counter_minus xs ys)) z = (if z \<in> set xs then count_list xs z - count_list ys z else 0)"
    unfolding counter_minus_def by (subst count_replicates) simp_all
  then show "count (mset (counter_minus xs ys)) z = count (mset xs - mset ys) z"
    by (simp add: count_mset count_list_0_iff)
qed

lemma counter_minus_self [simp]: "counter_minus xs xs = []"
  using mset_counter_minus [of xs xs] by simp

lemma counter_balance:
  "int (length (counter_minus xs ys)) - int (length (counter_minus ys xs)) = int (length xs) - int (length ys)"
proof -
  have "mset ys + (mset xs - mset ys) = mset xs + (mset ys - mset xs)" by (rule multiset_eqI) simp
  then have "size (mset ys + (mset xs - mset ys)) = size (mset xs + (mset ys - mset xs))" by simp
  then have "length ys + length (counter_minus xs ys) = length xs + length (counter_minus ys xs)"
    unfolding size_union mset_counter_minus [symmetric] size_mset .
  then show ?thesis by linarith
qed

text \<open>Below the cap the captured names of a group are all of its streams.\<close>

definition complete_names :: "group_state \<Rightarrow> string list \<Rightarrow> bool" where
  "complete_names g names \<longleftrightarrow>
     (names \<noteq> [] \<and> gs_stream_count g < int max_stream_names \<longrightarrow> int (length names) = gs_stream_count g)"

definition stored_names :: "group_state \<Rightarrow> string list" where
  "stored_names g = (case gs_stream_names g of None \<Rightarrow> [] | Some xs \<Rightarrow> xs)"

definition counted :: "stream_change list \<Rightarrow> int" where
  "counted scs = sum_list (map sc_count scs)"

lemma counted_simps [simp]: "counted [] = 0" "counted (xs @ ys) = counted xs + counted ys"
  by (simp_all add: counted_def)

lemma stream_changes_balance:
  assumes "complete_names prev (stored_names prev)" "complete_names now names"
  shows "counted (fst (stream_changes prev now names)) - counted (snd (stream_changes prev now names)) =
         gs_stream_count now - gs_stream_count prev"
proof (cases "gs_stream_count prev = gs_stream_count now")
  case True
  show ?thesis
  proof (cases "stored_names prev \<noteq> [] \<and> names \<noteq> [] \<and> gs_stream_count prev < int max_stream_names")
    case sub: True
    have "int (length (counter_minus names (stored_names prev))) - int (length (counter_minus (stored_names prev) names)) = 0"
      unfolding counter_balance using assms sub True by (simp add: complete_names_def)
    with True sub show ?thesis
      by (auto simp: stream_changes_def Let_def counted_def stored_names_def split: option.splits)
  next
    case False
    with True have "stream_changes prev now names = ([], [])"
      by (auto simp: stream_changes_def Let_def stored_names_def split: option.splits)
    with True show ?thesis by simp
  qed
next
  case False
  then show ?thesis by (auto simp: stream_changes_def Let_def counted_def)
qed

section \<open>Comparing two states\<close>

lemma keyed_fold:
  "distinct (map fst d) \<Longrightarrow> \<forall>(k, g) \<in> set d. gs_name g = k \<Longrightarrow>
   distinct (map fst (fold (\<lambda>g. dict_put (gs_name g) g) gs d)) \<and>
   (\<forall>(k, g) \<in> set (fold (\<lambda>g. dict_put (gs_name g) g) gs d). gs_name g = k \<and> (g \<in> set gs \<or> (k, g) \<in> set d)) \<and>
   fst ` set (fold (\<lambda>g. dict_put (gs_name g) g) gs d) = gs_name ` set gs \<union> fst ` set d"
proof (induction gs arbitrary: d)
  case (Cons g gs)
  let ?d = "dict_put (gs_name g) g d"
  have d: "distinct (map fst ?d)" "\<forall>(k, g) \<in> set ?d. gs_name g = k"
    using Cons.prems set_dict_put [of "gs_name g" g d] by (auto simp: distinct_dict_put)
  from Cons.IH [OF d] show ?case using set_dict_put [of "gs_name g" g d] by (auto simp: dict_put_keys)
qed auto

lemma keyed_facts:
  "distinct (map fst (keyed gs))"
  "(k, g) \<in> set (keyed gs) \<Longrightarrow> gs_name g = k \<and> g \<in> set gs"
  "fst ` set (keyed gs) = gs_name ` set gs"
  using keyed_fold [of "[]" gs] by (auto simp: keyed_def)

lemma keyed_distinct:
  assumes "distinct (map gs_name gs)"
  shows "keyed gs = map (\<lambda>g. (gs_name g, g)) gs"
proof -
  have put: "k \<notin> fst ` set d \<Longrightarrow> dict_put k v d = d @ [(k, v)]" for k :: string and v :: group_state and d
    by (induction d) auto
  have "distinct (map gs_name gs) \<Longrightarrow> gs_name ` set gs \<inter> fst ` set d = {} \<Longrightarrow>
      fold (\<lambda>g. dict_put (gs_name g) g) gs d = d @ map (\<lambda>g. (gs_name g, g)) gs" for d
  proof (induction gs arbitrary: d)
    case (Cons g gs)
    from Cons.prems have "dict_put (gs_name g) g d = d @ [(gs_name g, g)]" by (intro put) auto
    with Cons show ?case by auto
  qed simp
  with assms show ?thesis by (simp add: keyed_def)
qed

text \<open>Summing over two keyed lists: what is only in one, and what is in both.\<close>

definition common_groups :: "(string \<times> group_state) list \<Rightarrow> (string \<times> group_state) list \<Rightarrow> (group_state \<times> group_state) list" where
  "common_groups prev now = List.map_filter (\<lambda>(k, g). map_option (\<lambda>p. (p, g)) (map_of prev k)) now"

lemma common_groups_sum:
  fixes f :: "group_state \<Rightarrow> int"
  shows "sum_list (map (f \<circ> snd) now) =
     sum_list (map (f \<circ> snd) (filter (\<lambda>(k, g). map_of prev k = None) now)) + sum_list (map (f \<circ> snd) (common_groups prev now))"
  by (induction now) (auto simp: common_groups_def List.map_filter_def)

lemma common_groups_keys:
  "map (f \<circ> fst) (common_groups prev now) =
     map (\<lambda>k. f (the (map_of prev k))) (filter (\<lambda>k. map_of prev k \<noteq> None) (map fst now))"
  by (induction now) (auto simp: common_groups_def List.map_filter_def)

lemma common_groups_prev_sum:
  fixes f :: "group_state \<Rightarrow> int"
  assumes "distinct (map fst prev)" "distinct (map fst now)"
  shows "sum_list (map (f \<circ> snd) prev) =
     sum_list (map (f \<circ> snd) (filter (\<lambda>(k, g). map_of now k = None) prev)) + sum_list (map (f \<circ> fst) (common_groups prev now))"
proof -
  let ?h = "\<lambda>k. f (the (map_of prev k))"
  have split: "sum_list (map (f \<circ> snd) prev) = sum_list (map (f \<circ> snd) (filter (\<lambda>(k, g). map_of now k = None) prev))
      + sum_list (map (f \<circ> snd) (filter (\<lambda>(k, g). map_of now k \<noteq> None) prev))"
    by (induction prev) auto
  have "map (f \<circ> snd) (filter (\<lambda>(k, g). map_of now k \<noteq> None) prev) =
      map ?h (filter (\<lambda>k. map_of now k \<noteq> None) (map fst prev))"
    unfolding filter_map map_map using assms(1)
    by (intro map_cong filter_cong) (auto simp: o_def split_beta map_of_is_SomeI)
  also have "sum_list \<dots> = sum ?h {k \<in> fst ` set prev. map_of now k \<noteq> None}"
    using assms(1) by (subst sum_list_distinct_conv_sum_set) (auto intro: sum.cong)
  also have "{k \<in> fst ` set prev. map_of now k \<noteq> None} = {k \<in> fst ` set now. map_of prev k \<noteq> None}"
    by (auto simp: map_of_eq_None_iff) 
  also have "sum ?h \<dots> = sum_list (map (f \<circ> fst) (common_groups prev now))"
    unfolding common_groups_keys using assms(2) by (subst sum_list_distinct_conv_sum_set) (auto intro: sum.cong)
  finally have common: "sum_list (map (f \<circ> snd) (filter (\<lambda>(k, g). map_of now k \<noteq> None) prev)) =
      sum_list (map (f \<circ> fst) (common_groups prev now))" .
  show ?thesis unfolding split common ..
qed

lemma common_groups_mem:
  "(p, g) \<in> set (common_groups prev now) \<Longrightarrow> \<exists>k. (k, g) \<in> set now \<and> map_of prev k = Some p"
  by (auto simp: common_groups_def List.map_filter_def split: prod.splits) blast

definition group_counted :: "group_change list \<Rightarrow> int" where
  "group_counted gcs = sum_list (map gc_stream_count gcs)"

lemma compare_groups_eq:
  "compare_groups names prev now =
     (map (group_change_of \<circ> snd) (filter (\<lambda>(k, g). map_of prev k = None) now),
      map (group_change_of \<circ> snd) (filter (\<lambda>(k, g). map_of now k = None) prev),
      concat (map (\<lambda>(p, g). fst (stream_changes p g (names_of names (gs_name g)))) (common_groups prev now)),
      concat (map (\<lambda>(p, g). snd (stream_changes p g (names_of names (gs_name g)))) (common_groups prev now)))"
  by (simp add: compare_groups_def Let_def common_groups_def comp_def split_def)

lemma compare_groups_balance:
  assumes "distinct (map fst prev)" "distinct (map fst now)"
    and complete: "\<And>k p. (k, p) \<in> set prev \<Longrightarrow> complete_names p (stored_names p)"
      "\<And>k g. (k, g) \<in> set now \<Longrightarrow> complete_names g (names_of names (gs_name g))"
    and cmp: "compare_groups names prev now = (ga, gr, sa, sr)"
  shows "sum_list (map (gs_stream_count \<circ> snd) now) - sum_list (map (gs_stream_count \<circ> snd) prev) =
         group_counted ga - group_counted gr + counted sa - counted sr"
proof -
  have each: "counted (concat (map (\<lambda>(p, g). fst (stream_changes p g (names_of names (gs_name g)))) cs)) -
      counted (concat (map (\<lambda>(p, g). snd (stream_changes p g (names_of names (gs_name g)))) cs)) =
      sum_list (map (gs_stream_count \<circ> snd) cs) - sum_list (map (gs_stream_count \<circ> fst) cs)"
    if "\<forall>(p, g) \<in> set cs. complete_names p (stored_names p) \<and> complete_names g (names_of names (gs_name g))" for cs
    using that
  proof (induction cs)
    case (Cons c cs)
    obtain p g where "c = (p, g)" by (cases c)
    with Cons stream_changes_balance [of p g "names_of names (gs_name g)"] show ?case by simp
  qed simp
  have "\<forall>(p, g) \<in> set (common_groups prev now). complete_names p (stored_names p) \<and> complete_names g (names_of names (gs_name g))"
    using complete common_groups_mem map_of_SomeD by fast
  from each [OF this] have "counted sa - counted sr = sum_list (map (gs_stream_count \<circ> snd) (common_groups prev now))
      - sum_list (map (gs_stream_count \<circ> fst) (common_groups prev now))"
    using cmp by (simp add: compare_groups_eq)
  moreover have "group_counted ga = sum_list (map (gs_stream_count \<circ> snd) (filter (\<lambda>(k, g). map_of prev k = None) now))"
    "group_counted gr = sum_list (map (gs_stream_count \<circ> snd) (filter (\<lambda>(k, g). map_of now k = None) prev))"
    using cmp by (auto simp: compare_groups_eq group_counted_def group_change_of_def comp_def)
  ultimately show ?thesis
    using common_groups_sum [of gs_stream_count now prev] common_groups_prev_sum [OF assms(1,2), of gs_stream_count] by linarith
qed

section \<open>What a pull captures\<close>

definition streams_in :: "(int \<rightharpoonup> string) \<Rightarrow> string \<Rightarrow> m3u_stream list \<Rightarrow> m3u_stream list" where
  "streams_in lookup name streams = filter (\<lambda>s. stream_group lookup s = Some name) streams"

lemma dict_get_or_put [simp]: "dict_get_or v (dict_put k w d) k' = (if k' = k then w else dict_get_or v d k')"
  by (simp add: dict_get_or_def)

lemma grouped_streams:
  fixes lookup :: "int \<rightharpoonup> string" and enabled :: "string set"
  defines "st \<equiv> \<lambda>streams. fold (group_stream lookup enabled) streams empty_grouped"
  shows "dict_get_or 0 (gr_counts (st streams)) name = int (length (streams_in lookup name streams))"
    and "map_of (gr_names (st streams)) name =
           (if name \<in> enabled \<and> streams_in lookup name streams \<noteq> []
            then Some (take max_stream_names (map ms_name (streams_in lookup name streams))) else None)"
proof (induction streams rule: rev_induct)
  case Nil
  { case 1 show ?case by (simp add: st_def empty_grouped_def dict_get_or_def streams_in_def) }
  { case 2 show ?case by (simp add: st_def empty_grouped_def streams_in_def) }
next
  case (snoc s streams)
  have step: "st (streams @ [s]) = group_stream lookup enabled s (st streams)" by (simp add: st_def)
  have more: "streams_in lookup name (streams @ [s]) =
      (if stream_group lookup s = Some name then streams_in lookup name streams @ [s] else streams_in lookup name streams)" for name
    by (simp add: streams_in_def)
  { case 1 show ?case using snoc.IH(1)
      by (cases "stream_group lookup s") (auto simp: step more group_stream_def Let_def) }
  { case 2
    have old: "dict_get_or [] (gr_names (st streams)) name = take max_stream_names (map ms_name (streams_in lookup name streams))"
      if "name \<in> enabled" using snoc.IH(2) that by (auto simp: dict_get_or_def)
    show ?case
    proof (cases "stream_group lookup s = Some name \<and> name \<in> enabled")
      case True
      then have "map_of (gr_names (st (streams @ [s]))) name =
          Some (take max_stream_names (map ms_name (streams_in lookup name streams @ [s])))"
        using old by (auto simp: step group_stream_def Let_def)
      with True more show ?thesis by simp
    next
      case False
      then have "map_of (gr_names (st (streams @ [s]))) name = map_of (gr_names (st streams)) name"
        by (cases "stream_group lookup s") (auto simp: step group_stream_def Let_def)
      with False snoc.IH(2) more show ?thesis by auto
    qed }
qed

text \<open>A server that pages through a fixed list of streams and reports its length.\<close>

definition listing_of :: "m3u_stream list \<Rightarrow> listing" where
  "listing_of streams page =
     (take stream_pull_page_size (drop ((page - 1) * stream_pull_page_size) streams), int (length streams))"

lemma pull_pages_all:
  "fetched = page * stream_pull_page_size \<Longrightarrow> fetched \<le> length streams \<Longrightarrow>
   pull_pages lookup enabled (listing_of streams) (Suc page) fetched st =
     Some (fold (group_stream lookup enabled) (drop fetched streams) st)"
proof (induction "length streams - fetched" arbitrary: page fetched st rule: less_induct)
  case less
  let ?rest = "drop fetched streams" and ?n = stream_pull_page_size
  have page: "listing_of streams (Suc page) = (take ?n ?rest, int (length streams))"
    using less.prems(1) by (simp add: listing_of_def)
  show ?case
  proof (cases "length ?rest \<le> ?n")
    case True
    then have "take ?n ?rest = ?rest" by simp
    then show ?thesis using less.prems(2) by (simp add: pull_pages.simps [of lookup enabled "listing_of streams"] page Let_def)
  next
    case False
    then have len: "length (take ?n ?rest) = ?n" "take ?n ?rest \<noteq> []" by (auto simp: stream_pull_page_size_def)
    have less_all: "\<not> int (length streams) \<le> int fetched + int ?n" using False less.prems(2) by simp
    have "pull_pages lookup enabled (listing_of streams) (Suc page) fetched st =
        pull_pages lookup enabled (listing_of streams) (Suc (Suc page)) (fetched + ?n)
          (fold (group_stream lookup enabled) (take ?n ?rest) st)"
      using len less_all by (subst pull_pages.simps) (simp add: page Let_def del: length_take)
    also have "\<dots> = Some (fold (group_stream lookup enabled) (drop (fetched + ?n) streams)
        (fold (group_stream lookup enabled) (take ?n ?rest) st))"
      using less.prems False by (intro less.hyps) (auto simp: stream_pull_page_size_def)
    also have "\<dots> = Some (fold (group_stream lookup enabled) (take ?n ?rest @ drop ?n ?rest) st)"
      by (simp add: add.commute)
    finally show ?thesis unfolding append_take_drop_id .
  qed
qed

lemma pull_returns:
  "get_streams_grouped lookup enabled (listing_of streams) =
     Some (fold (group_stream lookup enabled) streams empty_grouped)"
  using pull_pages_all [of 0 0 streams lookup enabled empty_grouped] by (simp add: get_streams_grouped_def)

text \<open>C36. The paged pull ends and captures everything: against a server that pages through the streams of an
  account, every known group is counted with all of its streams, and every enabled group's names are its
  streams' names in order, cut at the cap of 500.\<close>

theorem pull_captures_every_stream:
  "\<exists>st. get_streams_grouped lookup enabled (listing_of streams) = Some st \<and>
     (\<forall>name. dict_get_or 0 (gr_counts st) name = int (length (streams_in lookup name streams)) \<and>
        map_of (gr_names st) name =
          (if name \<in> enabled \<and> streams_in lookup name streams \<noteq> []
           then Some (take max_stream_names (map ms_name (streams_in lookup name streams))) else None))"
  using pull_returns grouped_streams by blast

section \<open>Histories of refreshes\<close>

definition no_tables :: m3u_tables where
  "no_tables = \<lparr>tb_snapshots = [], tb_next_id = 1, tb_change_logs = []\<rparr>"

text \<open>The tables after any number of captured refreshes, of any accounts, in which no two groups of an
  account have the same name.\<close>

inductive m3u_history :: "m3u_tables \<Rightarrow> bool" where
  start: "m3u_history no_tables"
| refresh: "m3u_history db \<Longrightarrow>
     distinct (List.map_filter (known_group (rf_group_lookup rf)) (rf_account_groups rf)) \<Longrightarrow>
     capture_m3u_changes rf (listing_of streams) db = Some (r, db') \<Longrightarrow> m3u_history db'"

definition sound_snapshot :: "m3u_snapshot \<Rightarrow> bool" where
  "sound_snapshot s \<longleftrightarrow>
     distinct (map gs_name (sn_groups s)) \<and> sn_total_streams s = sum_list (map gs_stream_count (sn_groups s)) \<and>
     (\<forall>g \<in> set (sn_groups s). complete_names g (stored_names g))"

definition captured :: "m3u_refresh \<Rightarrow> m3u_stream list \<Rightarrow> grouped" where
  "captured rf streams =
     fold (group_stream (rf_group_lookup rf) (enabled_group_names (rf_group_lookup rf) (rf_account_groups rf))) streams empty_grouped"

definition captured_groups :: "m3u_refresh \<Rightarrow> m3u_stream list \<Rightarrow> group_state list" where
  "captured_groups rf streams =
     List.map_filter (current_group (rf_group_lookup rf) (gr_counts (captured rf streams))) (rf_account_groups rf)"

definition detected :: "m3u_refresh \<Rightarrow> m3u_stream list \<Rightarrow> m3u_tables \<Rightarrow> change_set \<times> m3u_tables" where
  "detected rf streams db =
     detect_changes (rf_account rf) (captured_groups rf streams) (sum_list (map gs_stream_count (captured_groups rf streams)))
       (Some (gr_names (captured rf streams))) (rf_updated_at rf) (rf_clock rf) db"

lemma capture_detects:
  "capture_m3u_changes rf (listing_of streams) db =
     Some (if has_changes (fst (detected rf streams db))
           then (Some (fst (detected rf streams db)), snd (persist_changes (fst (detected rf streams db)) (snd (detected rf streams db))))
           else (None, snd (detected rf streams db)))"
  by (simp add: capture_m3u_changes_def pull_returns detected_def captured_def captured_groups_def current_groups_def Let_def
      split: prod.split)

lemma captured_group_names:
  "map gs_name (captured_groups rf streams) = List.map_filter (known_group (rf_group_lookup rf)) (rf_account_groups rf)"
proof -
  have "map gs_name (List.map_filter (current_group lookup counts) acgs) = List.map_filter (known_group lookup) acgs" for lookup counts acgs
    by (induction acgs) (auto simp: List.map_filter_def current_group_def)
  then show ?thesis by (simp add: captured_groups_def)
qed

lemma captured_group_facts:
  assumes "g \<in> set (captured_groups rf streams)"
  shows "gs_stream_names g = None" and "complete_names g (names_of (Some (gr_names (captured rf streams))) (gs_name g))"
proof -
  from assms obtain acg where "current_group (rf_group_lookup rf) (gr_counts (captured rf streams)) acg = Some g"
    by (auto simp: captured_groups_def List.map_filter_def)
  then have g: "gs_stream_count g = dict_get_or 0 (gr_counts (captured rf streams)) (gs_name g)" "gs_stream_names g = None"
    by (auto simp: current_group_def)
  then show "gs_stream_names g = None" by simp
  show "complete_names g (names_of (Some (gr_names (captured rf streams))) (gs_name g))"
    using g(1) unfolding complete_names_def names_of_def dict_get_or_def [of "[]"] captured_def grouped_streams
    by (auto simp: grouped_streams split: if_splits)
qed

lemma enriched [simp]:
  "gs_name (enrich_group names g) = gs_name g" "gs_stream_count (enrich_group names g) = gs_stream_count g"
  by (auto simp: enrich_group_def split: option.splits)

lemma stored_enriched: "gs_stream_names g = None \<Longrightarrow> stored_names (enrich_group names g) = names_of names (gs_name g)"
  by (auto simp: stored_names_def enrich_group_def names_of_def dict_get_or_def split: option.splits)

lemma complete_enriched: "complete_names (enrich_group names g) xs = complete_names g xs"
  by (simp add: complete_names_def)

text \<open>What a detection adds to the tables.\<close>

lemma detect_tables:
  "snd (detect_changes account groups total_streams names updated_at clock db) =
     snd (create_snapshot account groups total_streams updated_at names (fst clock) db)"
  by (simp add: detect_changes_def Let_def split: option.split prod.split)

lemma detected_snapshots:
  "tb_snapshots (snd (detected rf streams db)) =
     tb_snapshots db @ [\<lparr>sn_id = tb_next_id db, sn_account = rf_account rf, sn_time = fst (rf_clock rf),
       sn_total_streams = sum_list (map gs_stream_count (captured_groups rf streams)), sn_updated_at = rf_updated_at rf,
       sn_groups = map (enrich_group (Some (gr_names (captured rf streams)))) (captured_groups rf streams)\<rparr>]"
  by (simp add: detected_def detect_tables create_snapshot_def Let_def)

lemma persisted_snapshots: "tb_snapshots (snd (persist_changes cs db)) = tb_snapshots db"
  by (simp add: persist_changes_def Let_def)

lemma history_sound: "m3u_history db \<Longrightarrow> \<forall>s \<in> set (tb_snapshots db). sound_snapshot s"
proof (induction rule: m3u_history.induct)
  case start
  then show ?case by (simp add: no_tables_def)
next
  case (refresh db rf streams r db')
  let ?new = "last (tb_snapshots (snd (detected rf streams db)))"
  have "distinct (map gs_name (captured_groups rf streams))" using refresh.hyps(2) by (simp add: captured_group_names)
  then have "sound_snapshot ?new"
    by (simp add: detected_snapshots sound_snapshot_def comp_def complete_enriched stored_enriched captured_group_facts)
  moreover have "tb_snapshots db' = tb_snapshots db @ [?new]"
    using refresh.hyps(3) by (auto simp: capture_detects detected_snapshots persisted_snapshots split: if_splits)
  ultimately show ?case using refresh.IH by auto
qed

lemma newest_Some:
  assumes "newest ss = Some s"
  shows "s \<in> set ss" "x \<in> set ss \<Longrightarrow> sn_time x \<le> sn_time s"
proof -
  have "newest ss = scan_best (lower_key (\<lambda>s. - sn_time s)) ss None"
    by (simp add: newest_def lower_key_def [abs_def])
  with assms have m: "scan_best (lower_key (\<lambda>s. - sn_time s)) ss None = Some s" by simp
  show "s \<in> set ss" by (rule low.scan_best_Some [OF m])
  show "x \<in> set ss \<Longrightarrow> sn_time x \<le> sn_time s"
    using low.scan_best_Some(2) [OF m, of x] by (simp add: lower_key_def)
qed

lemma newest_None: "newest ss = None \<longleftrightarrow> ss = []"
proof -
  have "newest ss = scan_best (lower_key (\<lambda>s. - sn_time s)) ss None"
    by (simp add: newest_def lower_key_def [abs_def])
  then show ?thesis using low.scan_best_None_iff by metis
qed

lemma newest_appended:
  assumes "\<forall>x \<in> set ss. sn_time x < sn_time s"
  shows "newest (ss @ [s]) = Some s"
proof -
  obtain m where m: "newest (ss @ [s]) = Some m" using newest_None [of "ss @ [s]"] by auto
  from newest_Some [OF m] assms have "m = s" by force
  with m show ?thesis by simp
qed

text \<open>C35. The reported changes account for every stream. Over any history of captured refreshes, from the
  second refresh of an account on, the change of its total number of streams is the streams of the groups
  reported added, less those of the groups reported removed, plus the streams reported added to groups and
  less those reported removed from groups, renames within a group included.\<close>

theorem reported_changes_balance:
  assumes "m3u_history db" "distinct (List.map_filter (known_group (rf_group_lookup rf)) (rf_account_groups rf))"
    "get_latest_snapshot (rf_account rf) db = Some prev"
    "capture_m3u_changes rf (listing_of streams) db = Some (Some cs, db')"
  shows "stream_count_delta cs = group_counted (cs_groups_added cs) - group_counted (cs_groups_removed cs)
           + counted (cs_streams_added cs) - counted (cs_streams_removed cs)"
proof -
  let ?groups = "captured_groups rf streams" and ?names = "Some (gr_names (captured rf streams))"
  have cs: "cs = fst (detected rf streams db)" using assms(4) by (auto simp: capture_detects split: if_splits)
  have "sound_snapshot prev"
    using history_sound [OF assms(1)] newest_Some(1) [OF assms(3) [unfolded get_latest_snapshot_def]] by auto
  then have prev: "distinct (map gs_name (sn_groups prev))" "sn_total_streams prev = sum_list (map gs_stream_count (sn_groups prev))"
    "\<forall>g \<in> set (sn_groups prev). complete_names g (stored_names g)" by (simp_all add: sound_snapshot_def)
  have now: "distinct (map gs_name ?groups)" using assms(2) by (simp add: captured_group_names)
  obtain ga gr sa sr where cmp: "compare_groups ?names (keyed (sn_groups prev)) (keyed ?groups) = (ga, gr, sa, sr)"
    by (cases "compare_groups ?names (keyed (sn_groups prev)) (keyed ?groups)")
  have "sum_list (map (gs_stream_count \<circ> snd) (keyed ?groups)) - sum_list (map (gs_stream_count \<circ> snd) (keyed (sn_groups prev))) =
      group_counted ga - group_counted gr + counted sa - counted sr"
    by (rule compare_groups_balance [OF keyed_facts(1) keyed_facts(1) _ _ cmp])
      (use prev(3) keyed_facts(2) captured_group_facts(2) in blast)+
  then show ?thesis
    using cmp assms(3) prev(2)
    by (simp add: cs detected_def detect_changes_def create_snapshot_def Let_def stream_count_delta_def
        keyed_distinct [OF prev(1)] keyed_distinct [OF now] comp_def)
qed

section \<open>Refreshing twice\<close>

lemma dict_put_map: "dict_put k (f v) (map (\<lambda>(k, v). (k, f v)) d) = map (\<lambda>(k, v). (k, f v)) (dict_put k v d)"
  by (induction d) auto

lemma keyed_enriched: "keyed (map (enrich_group names) gs) = map (\<lambda>(k, g). (k, enrich_group names g)) (keyed gs)"
proof -
  have "fold (\<lambda>g. dict_put (gs_name g) g) (map (enrich_group names) gs) (map (\<lambda>(k, g). (k, enrich_group names g)) d) =
      map (\<lambda>(k, g). (k, enrich_group names g)) (fold (\<lambda>g. dict_put (gs_name g) g) gs d)" for d
    by (induction gs arbitrary: d) (simp_all add: dict_put_map)
  from this [of "[]"] show ?thesis by (simp add: keyed_def)
qed

lemma same_group_no_change:
  assumes "gs_stream_names g = None"
  shows "stream_changes (enrich_group names g) g (names_of names (gs_name g)) = ([], [])"
  using stored_enriched [OF assms, of names] by (simp add: stream_changes_def Let_def stored_names_def)

lemma compare_same:
  assumes "\<forall>g \<in> set groups. gs_stream_names g = None"
  shows "compare_groups names (keyed (map (enrich_group names) groups)) (keyed groups) = ([], [], [], [])"
proof -
  let ?now = "keyed groups" and ?e = "enrich_group names"
  have look: "map_of (map (\<lambda>(k, g). (k, ?e g)) d) k = map_option ?e (map_of d k)" for d :: "(string \<times> group_state) list" and k
    by (induction d) auto
  have none: "map_of ?now k = None \<longleftrightarrow> k \<notin> fst ` set ?now" for k by (simp add: map_of_eq_None_iff)
  have "stream_changes p g (names_of names (gs_name g)) = ([], [])" if "(p, g) \<in> set (common_groups (map (\<lambda>(k, g). (k, ?e g)) ?now) ?now)" for p g
  proof -
    from common_groups_mem [OF that] obtain k where k: "(k, g) \<in> set ?now" "map_option ?e (map_of ?now k) = Some p"
      by (auto simp: look)
    moreover have "map_of ?now k = Some g" using k(1) keyed_facts(1) by (simp add: map_of_is_SomeI)
    ultimately have "p = ?e g" "g \<in> set groups" using keyed_facts(2) by auto
    with assms same_group_no_change show ?thesis by simp
  qed
  then have "\<forall>c \<in> set (common_groups (map (\<lambda>(k, g). (k, ?e g)) ?now) ?now).
      (case c of (p, g) \<Rightarrow> fst (stream_changes p g (names_of names (gs_name g)))) = [] \<and>
      (case c of (p, g) \<Rightarrow> snd (stream_changes p g (names_of names (gs_name g)))) = []" by auto
  moreover have "filter (\<lambda>(k, g). map_of (map (\<lambda>(k, g). (k, ?e g)) ?now) k = None) ?now = []"
    by (force simp: filter_empty_conv look none)
  moreover have "filter (\<lambda>(k, g). map_of ?now k = None) (map (\<lambda>(k, g). (k, ?e g)) ?now) = []"
    by (force simp: filter_empty_conv none)
  ultimately show ?thesis unfolding keyed_enriched compare_groups_eq by (simp add: concat_eq_Nil_conv)
qed

text \<open>A refresh that brings nothing new reports nothing. When the same account is captured twice with the
  same groups and streams, the second capture ends without a change set and writes no log rows, whatever
  names, duplicates and caps are involved.\<close>

theorem unchanged_refresh_is_silent:
  assumes "\<forall>s \<in> set (tb_snapshots db). sn_account s = rf_account rf \<longrightarrow> sn_time s < fst (rf_clock rf)"
    "capture_m3u_changes rf (listing_of streams) db = Some (r, db')"
  shows "\<exists>db''. capture_m3u_changes (rf\<lparr>rf_clock := clock\<rparr>) (listing_of streams) db' = Some (None, db'') \<and>
           tb_change_logs db'' = tb_change_logs db'"
proof -
  let ?rf = "rf\<lparr>rf_clock := clock\<rparr>" and ?groups = "captured_groups rf streams" and ?names = "Some (gr_names (captured rf streams))"
  let ?snapshot = "last (tb_snapshots (snd (detected rf streams db)))"
  have same: "captured ?rf streams = captured rf streams" "captured_groups ?rf streams = ?groups"
    by (simp_all add: captured_def captured_groups_def)
  have db': "tb_snapshots db' = tb_snapshots db @ [?snapshot]" "sn_account ?snapshot = rf_account rf"
    "sn_groups ?snapshot = map (enrich_group ?names) ?groups" "sn_time ?snapshot = fst (rf_clock rf)"
    using assms(2) by (auto simp: capture_detects detected_snapshots persisted_snapshots split: if_splits)
  have latest: "get_latest_snapshot (rf_account rf) db' = Some ?snapshot"
    using assms(1) db' by (auto simp: get_latest_snapshot_def intro!: newest_appended)
  have "compare_groups ?names (keyed (sn_groups ?snapshot)) (keyed ?groups) = ([], [], [], [])"
    unfolding db'(3) by (rule compare_same) (simp add: captured_group_facts)
  then have "\<not> has_changes (fst (detected ?rf streams db'))"
    by (simp add: detected_def detect_changes_def same latest create_snapshot_def Let_def has_changes_def)
  moreover have "tb_change_logs (snd (detected ?rf streams db')) = tb_change_logs db'"
    by (simp add: detected_def detect_tables create_snapshot_def Let_def)
  ultimately show ?thesis by (simp add: capture_detects)
qed

section \<open>Renames\<close>

text \<open>C37. What is reported of a group that keeps its number of streams. Below the cap and with names captured
  in both states, the names reported added and removed are the multiset differences of the two lists, so
  that taking the one from the old list and adding the other gives the new list, with duplicates counted;
  the reported counts are the numbers of these names, and nothing is reported when the lists agree as
  multisets. At the cap, or when one of the states has no names, such as a group enabled in between, nothing
  is reported.\<close>

theorem renames_are_exact:
  fixes names :: "string list"
  assumes "gs_stream_count prev = gs_stream_count now"
  defines "added \<equiv> concat (map sc_stream_names (fst (stream_changes prev now names)))"
    and "removed \<equiv> concat (map sc_stream_names (snd (stream_changes prev now names)))"
  shows "(if gs_stream_count now < int max_stream_names \<and> stored_names prev \<noteq> [] \<and> names \<noteq> []
          then mset added = mset names - mset (stored_names prev) \<and>
               mset removed = mset (stored_names prev) - mset names \<and>
               mset (stored_names prev) - mset removed + mset added = mset names \<and>
               (stream_changes prev now names = ([], []) \<longleftrightarrow> mset names = mset (stored_names prev))
          else stream_changes prev now names = ([], [])) \<and>
         sum_list (map sc_count (fst (stream_changes prev now names))) = int (length added) \<and>
         sum_list (map sc_count (snd (stream_changes prev now names))) = int (length removed)"
proof (cases "gs_stream_count now < int max_stream_names \<and> stored_names prev \<noteq> [] \<and> names \<noteq> []")
  case True
  let ?a = "counter_minus names (stored_names prev)" and ?r = "counter_minus (stored_names prev) names"
  have sc: "added = ?a" "removed = ?r" "stream_changes prev now names = ([], []) \<longleftrightarrow> ?a = [] \<and> ?r = []"
    "sum_list (map sc_count (fst (stream_changes prev now names))) = int (length added)"
    "sum_list (map sc_count (snd (stream_changes prev now names))) = int (length removed)"
    using assms(1) True by (auto simp: added_def removed_def stream_changes_def Let_def stored_names_def split: option.splits)
  have ar: "mset added = mset names - mset (stored_names prev)" "mset removed = mset (stored_names prev) - mset names"
    by (simp_all add: sc(1,2) mset_counter_minus)
  moreover have "mset (stored_names prev) - mset removed + mset added = mset names"
    unfolding ar by (rule multiset_eqI) simp
  moreover have "?a = [] \<longleftrightarrow> mset names \<subseteq># mset (stored_names prev)" "?r = [] \<longleftrightarrow> mset (stored_names prev) \<subseteq># mset names"
    using mset_counter_minus [of names "stored_names prev"] mset_counter_minus [of "stored_names prev" names]
    by (metis Diff_eq_empty_iff_mset mset_zero_iff)+
  ultimately show ?thesis using True sc(3-5) by auto
next
  case False
  then have "stream_changes prev now names = ([], [])"
    using assms(1) by (auto simp: stream_changes_def Let_def stored_names_def split: option.splits)
  then show ?thesis unfolding if_not_P [OF False] by (simp add: added_def removed_def)
qed

section \<open>New groups\<close>

lemma stream_change_group: "s \<in> set (fst (stream_changes p g names)) \<Longrightarrow> sc_group_name s = gs_name g"
  by (auto simp: stream_changes_def Let_def split: if_splits)

text \<open>The streams of a new group get rows of their own only at the first snapshot of an account. There,
  every group with streams is reported with its streams; from the second snapshot on, rows about added
  streams exist only for groups that the previous snapshot already had, so the summary of added streams
  leaves out the streams of groups that appeared later.\<close>

theorem stream_rows_of_new_groups:
  assumes "detect_changes account groups total_streams names updated_at clock db = (cs, db')"
  shows "(case get_latest_snapshot account db of
            None \<Rightarrow> map (\<lambda>s. (sc_group_name s, sc_count s)) (cs_streams_added cs) =
                    map (\<lambda>g. (gs_name g, gs_stream_count g)) (filter (\<lambda>g. 0 < gs_stream_count g) groups)
          | Some prev \<Rightarrow> sc_group_name ` set (cs_streams_added cs) \<subseteq> gs_name ` set (sn_groups prev))"
proof (cases "get_latest_snapshot account db")
  case None
  with assms show ?thesis by (auto simp: detect_changes_def create_snapshot_def Let_def baseline_streams_def)
next
  case (Some prev)
  obtain ga gr sa sr where cmp: "compare_groups names (keyed (sn_groups prev)) (keyed groups) = (ga, gr, sa, sr)"
    by (cases "compare_groups names (keyed (sn_groups prev)) (keyed groups)")
  have "sc_group_name s \<in> gs_name ` set (sn_groups prev)" if s: "s \<in> set sa" for s
  proof -
    from cmp s obtain p g where pg: "(p, g) \<in> set (common_groups (keyed (sn_groups prev)) (keyed groups))"
      "s \<in> set (fst (stream_changes p g (names_of names (gs_name g))))" by (auto simp: compare_groups_eq)
    from common_groups_mem [OF pg(1)] obtain k where "(k, g) \<in> set (keyed groups)" "map_of (keyed (sn_groups prev)) k = Some p" by blast
    then have "gs_name g = k" "k \<in> fst ` set (keyed (sn_groups prev))"
      using keyed_facts(2) by (auto dest: map_of_SomeD intro: rev_image_eqI)
    with stream_change_group [OF pg(2)] show ?thesis by (simp add: keyed_facts(3))
  qed
  with assms Some cmp show ?thesis by (auto simp: detect_changes_def create_snapshot_def Let_def)
qed

section \<open>Two refreshes\<close>

definition sample_refresh :: m3u_refresh where
  "sample_refresh = \<lparr>rf_account = 1, rf_group_lookup = [7 \<mapsto> ''News''],
     rf_account_groups = [\<lparr>ag_channel_group = Some 7, ag_enabled = True, ag_is_stale = False\<rparr>],
     rf_updated_at = None, rf_clock = (10, 10)\<rparr>"

definition sample_streams :: "string list \<Rightarrow> m3u_stream list" where
  "sample_streams names = map (\<lambda>n. \<lparr>ms_channel_group = Some 7, ms_name = n\<rparr>) names"

definition sample_tables :: m3u_tables where
  "sample_tables = snd (the (capture_m3u_changes sample_refresh (listing_of (sample_streams [''A'', ''A''])) no_tables))"

lemma sample_captured:
  "captured sample_refresh (sample_streams [n, m]) = \<lparr>gr_counts = [(''News'', 2)], gr_names = [(''News'', [n, m])]\<rparr>"
  "captured_groups sample_refresh (sample_streams [n, m]) =
     [\<lparr>gs_name = ''News'', gs_stream_count = 2, gs_enabled = True, gs_is_stale = False, gs_stream_names = None\<rparr>]"
proof -
  show c: "captured sample_refresh (sample_streams [n, m]) = \<lparr>gr_counts = [(''News'', 2)], gr_names = [(''News'', [n, m])]\<rparr>"
    by (simp add: captured_def sample_refresh_def sample_streams_def group_stream_def stream_group_def empty_grouped_def
        enabled_group_names_def known_group_def List.map_filter_def dict_get_or_def max_stream_names_def Let_def)
  show "captured_groups sample_refresh (sample_streams [n, m]) =
     [\<lparr>gs_name = ''News'', gs_stream_count = 2, gs_enabled = True, gs_is_stale = False, gs_stream_names = None\<rparr>]"
    unfolding captured_groups_def c
    by (simp add: sample_refresh_def current_group_def known_group_def List.map_filter_def dict_get_or_def)
qed

lemma sample_first: "capture_m3u_changes sample_refresh (listing_of (sample_streams [''A'', ''A''])) no_tables =
    Some (Some (fst (detected sample_refresh (sample_streams [''A'', ''A'']) no_tables)), sample_tables)"
proof -
  have "has_changes (fst (detected sample_refresh (sample_streams [''A'', ''A'']) no_tables))"
    by (simp add: detected_def sample_captured detect_changes_def get_latest_snapshot_def no_tables_def newest_def
        create_snapshot_def Let_def has_changes_def)
  then show ?thesis by (simp add: sample_tables_def capture_detects)
qed

lemma sample_snapshots:
  "tb_snapshots sample_tables =
     [\<lparr>sn_id = 1, sn_account = 1, sn_time = 10, sn_total_streams = 2, sn_updated_at = None,
       sn_groups = [\<lparr>gs_name = ''News'', gs_stream_count = 2, gs_enabled = True, gs_is_stale = False,
                     gs_stream_names = Some [''A'', ''A'']\<rparr>]\<rparr>]"
proof -
  have "tb_snapshots sample_tables = tb_snapshots (snd (detected sample_refresh (sample_streams [''A'', ''A'']) no_tables))"
    by (simp add: sample_tables_def capture_detects persisted_snapshots)
  then show ?thesis
    unfolding detected_snapshots sample_captured by (simp add: no_tables_def sample_refresh_def enrich_group_def)
qed

lemma sample_distinct: "distinct (List.map_filter (known_group (rf_group_lookup sample_refresh)) (rf_account_groups sample_refresh))"
  by (simp add: sample_refresh_def known_group_def List.map_filter_def)

lemma sample_history: "m3u_history sample_tables"
  by (rule m3u_history.refresh [OF m3u_history.start sample_distinct sample_first])

definition sample_change :: change_set where
  "sample_change = fst (detected sample_refresh (sample_streams [''A'', ''B'']) sample_tables)"

lemma sample_latest: "get_latest_snapshot 1 sample_tables = Some (hd (tb_snapshots sample_tables))"
  by (simp add: get_latest_snapshot_def sample_snapshots newest_def)

lemma sample_change_streams:
  "map sc_stream_names (cs_streams_added sample_change) = [[''B'']]"
  "map sc_stream_names (cs_streams_removed sample_change) = [[''A'']]"
  unfolding sample_change_def detected_def sample_captured
  by (simp_all add: detect_changes_def create_snapshot_def sample_refresh_def sample_latest sample_snapshots keyed_def
      compare_groups_eq common_groups_def List.map_filter_def stream_changes_def names_of_def dict_get_or_def
      max_stream_names_def counter_minus_def distinct_first_def Let_def)

lemma sample_second: "\<exists>db'. capture_m3u_changes sample_refresh (listing_of (sample_streams [''A'', ''B''])) sample_tables =
    Some (Some sample_change, db')"
proof -
  have "cs_streams_added sample_change \<noteq> []" using sample_change_streams by auto
  then show ?thesis by (auto simp: capture_detects sample_change_def has_changes_def)
qed

lemma reported_changes_balance_witness:
  "stream_count_delta sample_change = group_counted (cs_groups_added sample_change) - group_counted (cs_groups_removed sample_change)
     + counted (cs_streams_added sample_change) - counted (cs_streams_removed sample_change)"
proof -
  have "get_latest_snapshot (rf_account sample_refresh) sample_tables = Some (hd (tb_snapshots sample_tables))"
    using sample_latest by (simp add: sample_refresh_def)
  with reported_changes_balance [OF sample_history sample_distinct] sample_second show ?thesis by blast
qed

lemma unchanged_refresh_is_silent_witness:
  "\<exists>db''. capture_m3u_changes (sample_refresh\<lparr>rf_clock := (20, 20)\<rparr>) (listing_of (sample_streams [''A'', ''A''])) sample_tables = Some (None, db'') \<and>
     tb_change_logs db'' = tb_change_logs sample_tables"
  by (rule unchanged_refresh_is_silent [OF _ sample_first]) (simp add: no_tables_def)

lemma renames_are_exact_witness:
  "mset (concat (map sc_stream_names (fst (stream_changes (hd (sn_groups (hd (tb_snapshots sample_tables))))
     (hd (captured_groups sample_refresh (sample_streams [''A'', ''B'']))) [''A'', ''B''])))) = {#''B''#}"
proof -
  have "stored_names (hd (sn_groups (hd (tb_snapshots sample_tables)))) = [''A'', ''A'']"
    by (simp add: sample_snapshots stored_names_def)
  with renames_are_exact [of "hd (sn_groups (hd (tb_snapshots sample_tables)))"
      "hd (captured_groups sample_refresh (sample_streams [''A'', ''B'']))" "[''A'', ''B'']"]
  show ?thesis by (simp add: sample_snapshots sample_captured max_stream_names_def)
qed

lemma stream_rows_of_new_groups_witness:
  "sc_group_name ` set (cs_streams_added sample_change) \<subseteq> {''News''}"
proof -
  have "detected sample_refresh (sample_streams [''A'', ''B'']) sample_tables =
      (sample_change, snd (detected sample_refresh (sample_streams [''A'', ''B'']) sample_tables))"
    by (simp add: sample_change_def)
  from stream_rows_of_new_groups [OF this [unfolded detected_def]] sample_latest show ?thesis
    by (simp add: sample_snapshots) (simp add: sample_refresh_def sample_latest sample_snapshots)
qed

end
