(* ===== verification/Staleness.thy ===== *)
theory Staleness
  imports M3UChanges
begin

text \<open>
  The staleness signal of event names, \<open>backend/services/event_sync_staleness.py\<close>: was a stream name
  already in the latest snapshot of its account before today's midnight? The conversion of local midnight
  to UTC is the argument \<open>before\<close>.
\<close>

section \<open>The lookup\<close>

definition snapshot_names :: "m3u_snapshot \<Rightarrow> (string \<times> string set) list" where
  "snapshot_names snapshot =
     fold (\<lambda>g d. case gs_stream_names g of
                   None \<Rightarrow> d
                 | Some names \<Rightarrow> if gs_name g = [] then d else dict_put (gs_name g) (set (filter (\<lambda>n. n \<noteq> []) names)) d)
       (sn_groups snapshot) []"

definition latest_before :: "int \<Rightarrow> int \<Rightarrow> m3u_tables \<Rightarrow> m3u_snapshot option" where
  "latest_before before account db = newest (filter (\<lambda>s. sn_account s = account \<and> sn_time s < before) (tb_snapshots db))"

definition previous_day_names :: "int list \<Rightarrow> int \<Rightarrow> m3u_tables \<Rightarrow> int \<rightharpoonup> (string \<times> string set) list" where
  "previous_day_names accounts before db =
     fold (\<lambda>a lookup.
             (case latest_before before a db of
                None \<Rightarrow> lookup
              | Some snapshot \<Rightarrow>
                  if snapshot_names snapshot = [] then lookup else lookup(a \<mapsto> snapshot_names snapshot)))
       accounts Map.empty"

definition name_seen_before_today ::
  "(int \<rightharpoonup> (string \<times> string set) list) \<Rightarrow> int option \<Rightarrow> string option \<Rightarrow> string \<Rightarrow> bool option" where
  "name_seen_before_today lookup provider grp name =
     (case (provider, grp) of
        (Some p, Some g) \<Rightarrow>
          if g = [] then None
          else (case lookup p of
                  None \<Rightarrow> None
                | Some groups \<Rightarrow>
                    (case map_of groups g of
                       None \<Rightarrow> None
                     | Some names \<Rightarrow>
                         if name \<in> names then Some True
                         else if max_stream_names \<le> card names then None
                         else Some False))
      | _ \<Rightarrow> None)"

section \<open>What the lookup holds\<close>

lemma previous_day_names_at:
  "previous_day_names accounts before db a =
     (if a \<in> set accounts
      then (case latest_before before a db of
              None \<Rightarrow> None
            | Some s \<Rightarrow> if snapshot_names s = [] then None else Some (snapshot_names s))
      else None)"
proof -
  let ?found = "\<lambda>a. case latest_before before a db of None \<Rightarrow> None | Some s \<Rightarrow> if snapshot_names s = [] then None else Some (snapshot_names s)"
  have "fold (\<lambda>a lookup. case latest_before before a db of
                None \<Rightarrow> lookup
              | Some s \<Rightarrow> if snapshot_names s = [] then lookup else lookup(a \<mapsto> snapshot_names s)) accounts m a =
      (if a \<in> set accounts \<and> ?found a \<noteq> None then ?found a else m a)" for m
    by (induction accounts arbitrary: m) (auto split: option.splits)
  then show ?thesis by (simp add: previous_day_names_def split: option.splits)
qed

lemma snapshot_names_mem:
  "(g, names) \<in> set (snapshot_names s) \<Longrightarrow>
   \<exists>gr \<in> set (sn_groups s). gs_name gr = g \<and> gs_stream_names gr \<noteq> None \<and> names = set (filter (\<lambda>n. n \<noteq> []) (stored_names gr))"
proof -
  have "(g, names) \<in> set (fold (\<lambda>g d. case gs_stream_names g of
                   None \<Rightarrow> d
                 | Some names \<Rightarrow> if gs_name g = [] then d else dict_put (gs_name g) (set (filter (\<lambda>n. n \<noteq> []) names)) d) gs d) \<Longrightarrow>
      (\<exists>gr \<in> set gs. gs_name gr = g \<and> gs_stream_names gr \<noteq> None \<and> names = set (filter (\<lambda>n. n \<noteq> []) (stored_names gr))) \<or> (g, names) \<in> set d"
    for gs d
  proof (induction gs arbitrary: d)
    case (Cons x gs)
    let ?d = "case gs_stream_names x of None \<Rightarrow> d
      | Some names \<Rightarrow> if gs_name x = [] then d else dict_put (gs_name x) (set (filter (\<lambda>n. n \<noteq> []) names)) d"
    have "(g, names) \<in> set ?d \<Longrightarrow> (gs_name x = g \<and> gs_stream_names x \<noteq> None \<and> names = set (filter (\<lambda>n. n \<noteq> []) (stored_names x))) \<or> (g, names) \<in> set d"
      using set_dict_put [of "gs_name x" "set (filter (\<lambda>n. n \<noteq> []) (stored_names x))" d]
      by (auto simp: stored_names_def split: option.splits if_splits)
    with Cons.IH [of ?d] Cons.prems show ?case by auto
  qed simp
  from this [of "sn_groups s" "[]"] show "(g, names) \<in> set (snapshot_names s) \<Longrightarrow>
    \<exists>gr \<in> set (sn_groups s). gs_name gr = g \<and> gs_stream_names gr \<noteq> None \<and> names = set (filter (\<lambda>n. n \<noteq> []) (stored_names gr))"
    by (simp add: snapshot_names_def)
qed

text \<open>A positive answer is definitive, and a negative one is about complete captures when names are
  distinct. If the answer is yes, the latest snapshot of the account before midnight lists the name in that
  group. If the answer is no, that snapshot captured the group without the name; and where the captured
  names are distinct and not empty, the capture was below the cap, so the name was not there at all.\<close>

theorem seen_before_today_is_definitive:
  assumes "name_seen_before_today (previous_day_names accounts before db) (Some a) (Some g) name = Some answer" "name \<noteq> []"
  shows "\<exists>s gr. latest_before before a db = Some s \<and> gr \<in> set (sn_groups s) \<and> gs_name gr = g \<and>
           (answer \<longleftrightarrow> name \<in> set (stored_names gr)) \<and>
           (\<not> answer \<and> distinct (stored_names gr) \<and> [] \<notin> set (stored_names gr) \<longrightarrow> length (stored_names gr) < max_stream_names)"
proof -
  from assms(1) obtain groups names where l: "previous_day_names accounts before db a = Some groups" "map_of groups g = Some names"
    "answer \<longleftrightarrow> name \<in> names" "answer \<or> card names < max_stream_names"
    by (auto simp: name_seen_before_today_def split: if_splits option.splits)
  from l(1) obtain s where s: "latest_before before a db = Some s" "groups = snapshot_names s"
    by (auto simp: previous_day_names_at split: if_splits option.splits)
  from snapshot_names_mem [OF map_of_SomeD [OF l(2) [unfolded s(2)]]] obtain gr where
    gr: "gr \<in> set (sn_groups s)" "gs_name gr = g" "names = set (filter (\<lambda>n. n \<noteq> []) (stored_names gr))" by blast
  have "card names = length (stored_names gr)" if "distinct (stored_names gr)" "[] \<notin> set (stored_names gr)"
  proof -
    have "filter (\<lambda>n. n \<noteq> []) (stored_names gr) = stored_names gr" using that(2) by (auto simp: filter_id_conv)
    with gr(3) that(1) show ?thesis by (simp add: distinct_card)
  qed
  with s gr l assms(2) show ?thesis by (intro exI [of _ s] exI [of _ gr]) auto
qed

text \<open>With repeated names the cap is not noticed. The size that is compared with the cap is that of the
  set of names: an account whose group holds 500 streams of one name and then another one is captured up to
  the cap, and the other name, which was there before midnight, is answered as not seen.\<close>

theorem repeated_names_hide_the_cap:
  assumes rf: "rf_group_lookup rf = [gid \<mapsto> grp]" "rf_account_groups rf = [\<lparr>ag_channel_group = Some gid, ag_enabled = True, ag_is_stale = stale\<rparr>]"
    and ids: "gid \<noteq> 0" "grp \<noteq> []" and names: "old \<noteq> new" "old \<noteq> []"
    and taken: "fst (rf_clock rf) < before"
    and capture: "capture_m3u_changes rf (listing_of streams) no_tables = Some (r, db)"
    and streams: "streams = replicate max_stream_names \<lparr>ms_channel_group = Some gid, ms_name = old\<rparr> @ [\<lparr>ms_channel_group = Some gid, ms_name = new\<rparr>]"
  shows "new \<in> set (map ms_name (streams_in (rf_group_lookup rf) grp streams)) \<and>
         name_seen_before_today (previous_day_names [rf_account rf] before db) (Some (rf_account rf)) (Some grp) new = Some False"
proof -
  let ?names = "gr_names (captured rf streams)"
  have all: "streams_in (rf_group_lookup rf) grp streams = streams"
    using ids by (simp add: streams_in_def streams rf stream_group_def)
  have en: "enabled_group_names (rf_group_lookup rf) (rf_account_groups rf) = {grp}"
    using ids by (simp add: rf enabled_group_names_def known_group_def List.map_filter_def)
  have "map_of ?names grp = Some (take max_stream_names (map ms_name streams))"
    using grouped_streams(2) [of "rf_group_lookup rf" "{grp}" streams grp] all by (simp add: captured_def en streams)
  also have "take max_stream_names (map ms_name streams) = replicate max_stream_names old" by (simp add: streams)
  finally have cap: "map_of ?names grp = Some (replicate max_stream_names old)" .
  have "captured_groups rf streams \<noteq> [] \<and> (\<forall>g \<in> set (captured_groups rf streams). gs_name g = grp) \<and> length (captured_groups rf streams) = 1"
    using ids by (simp add: captured_groups_def rf current_group_def known_group_def List.map_filter_def)
  then obtain g where g: "captured_groups rf streams = [g]" "gs_name g = grp"
    by (cases "captured_groups rf streams") auto
  have snaps: "tb_snapshots db = tb_snapshots (snd (detected rf streams no_tables))"
    using capture by (auto simp: capture_detects persisted_snapshots split: if_splits)
  have one: "set (filter (\<lambda>n. n \<noteq> []) (replicate max_stream_names old)) = {old}" using names(2) by (simp add: max_stream_names_def)
  have "latest_before before (rf_account rf) db = Some (last (tb_snapshots db))"
    unfolding latest_before_def snaps detected_snapshots using taken by (simp add: no_tables_def newest_def)
  moreover have "snapshot_names (last (tb_snapshots db)) = [(grp, {old})]"
    unfolding snaps detected_snapshots using g cap ids(2) one by (simp add: snapshot_names_def enrich_group_def)
  ultimately have "previous_day_names [rf_account rf] before db (rf_account rf) = Some [(grp, {old})]"
    by (simp add: previous_day_names_at)
  then show ?thesis using ids(2) names(1) all by (simp add: name_seen_before_today_def max_stream_names_def streams)
qed

section \<open>Examples\<close>

lemma seen_before_today_is_definitive_witness:
  "\<exists>s gr. latest_before 100 1 sample_tables = Some s \<and> gr \<in> set (sn_groups s) \<and> gs_name gr = ''News'' \<and> ''A'' \<in> set (stored_names gr)"
proof -
  have "latest_before 100 1 sample_tables = Some (hd (tb_snapshots sample_tables))"
    by (simp add: latest_before_def sample_snapshots newest_def)
  then have "name_seen_before_today (previous_day_names [1] 100 sample_tables) (Some 1) (Some ''News'') ''A'' = Some True"
    by (simp add: name_seen_before_today_def previous_day_names_at sample_snapshots snapshot_names_def)
  from seen_before_today_is_definitive [OF this] show ?thesis by auto
qed

definition crowded_streams :: "m3u_stream list" where
  "crowded_streams = replicate max_stream_names \<lparr>ms_channel_group = Some 7, ms_name = ''A''\<rparr> @ [\<lparr>ms_channel_group = Some 7, ms_name = ''B''\<rparr>]"

lemma repeated_names_hide_the_cap_witness:
  "name_seen_before_today
     (previous_day_names [1] 100 (snd (the (capture_m3u_changes sample_refresh (listing_of crowded_streams) no_tables)))) (Some 1) (Some ''News'') ''B''
     = Some False"
proof -
  obtain r db where c: "capture_m3u_changes sample_refresh (listing_of crowded_streams) no_tables = Some (r, db)"
    by (metis capture_detects surj_pair)
  have "name_seen_before_today (previous_day_names [rf_account sample_refresh] 100 db) (Some (rf_account sample_refresh)) (Some ''News'') ''B'' = Some False"
    by (rule conjunct2 [OF repeated_names_hide_the_cap [where stale = False, OF _ _ _ _ _ _ _ c crowded_streams_def]]) (simp_all add: sample_refresh_def)
  then show ?thesis by (simp add: c) (simp add: sample_refresh_def)
qed

end
