(* ===== verification/NumberSearch.thy ===== *)
theory NumberSearch
  imports ChannelNumber
begin

text \<open>
  The search of the channel pipeline for a free channel number (\<open>channel_pipeline_executor.py\<close>:
  \<open>_channel_number_spec_ticks\<close>, \<open>_next_free_number_from_ticks\<close>, \<open>_get_next_channel_number\<close>), with the parts of
  \<open>int()\<close>, \<open>float()\<close> and the range patterns it uses. The walk up the tenths grid is a loop without a bound; it is
  shown to end on the first free number the specification of a rule allows.
\<close>

section \<open>Numbers as text\<close>

text \<open>Digits with single underscores between them, as \<open>int()\<close> and \<open>float()\<close> take them.\<close>

fun digit_part :: "string \<Rightarrow> bool" where
  "digit_part [] = False"
| "digit_part [c] = py_is_digit c"
| "digit_part (c # d # s) = (py_is_digit c \<and> (if d = CHR ''_'' then digit_part s else digit_part (d # s)))"

definition digits_of :: "string \<Rightarrow> nat" where
  "digits_of s = digits_value (filter py_is_digit s)"

definition split_sign :: "string \<Rightarrow> bool \<times> string" where
  "split_sign s = (case s of
       [] \<Rightarrow> (False, s)
     | c # t \<Rightarrow> if c = CHR ''-'' then (True, t) else if c = CHR ''+'' then (False, t) else (False, s))"

definition signed :: "bool \<Rightarrow> 'a \<Rightarrow> 'a::uminus" where
  "signed negative x = (if negative then - x else x)"

text \<open>\<open>int(text)\<close>; more than 4300 digits are refused by the interpreter.\<close>

definition py_int_text :: "string \<Rightarrow> int option" where
  "py_int_text s = (case split_sign (py_strip s) of (negative, t) \<Rightarrow>
     if digit_part t \<and> length (filter py_is_digit t) \<le> 4300
     then Some (signed negative (int (digits_of t))) else None)"

text \<open>\<open>float(text)\<close>.\<close>

definition exponent_text :: "string \<Rightarrow> int option" where
  "exponent_text s = (case s of
       [] \<Rightarrow> Some 0
     | _ # x \<Rightarrow> (case split_sign x of (negative, ds) \<Rightarrow>
         if digit_part ds then Some (signed negative (int (digits_of ds))) else None))"

definition double_of :: "rat \<Rightarrow> pyfloat" where
  "double_of x = (let y = fl x in if y \<ge> 2 ^ 1024 then Inf else if y \<le> - (2 ^ 1024) then NegInf else Fin y)"

definition py_float_text :: "string \<Rightarrow> pyfloat option" where
  "py_float_text s = (case split_sign (py_strip s) of (negative, t) \<Rightarrow>
     (let u = py_lower t; mantissa = takeWhile (\<lambda>c. c \<noteq> CHR ''e'') u;
          ip = takeWhile (\<lambda>c. c \<noteq> CHR ''.'') mantissa; fp = drop 1 (dropWhile (\<lambda>c. c \<noteq> CHR ''.'') mantissa) in
      if u = ''inf'' \<or> u = ''infinity'' then Some (if negative then NegInf else Inf)
      else if u = ''nan'' then Some NaN
      else if (ip = [] \<or> digit_part ip) \<and> (fp = [] \<or> digit_part fp) \<and> (ip \<noteq> [] \<or> fp \<noteq> [])
      then map_option (\<lambda>e. double_of (signed negative
             (of_nat (digits_of (ip @ fp)) * 10 powi (e - int (length (filter py_is_digit fp))))))
             (exponent_text (dropWhile (\<lambda>c. c \<noteq> CHR ''e'') u))
      else None))"

section \<open>Ranges as text\<close>

text \<open>The two sides of a range, each read by \<open>token\<close>, with white space around them.\<close>

definition range_match :: "(string \<Rightarrow> (string \<times> string) option) \<Rightarrow> string \<Rightarrow> (string \<times> string) option" where
  "range_match token s =
     (case token (py_lstrip s) of
        None \<Rightarrow> None
      | Some (low, rest) \<Rightarrow>
          (case py_lstrip rest of
             [] \<Rightarrow> None
           | c # rest' \<Rightarrow>
               if c \<noteq> CHR ''-'' then None
               else (case token (py_lstrip rest') of
                       None \<Rightarrow> None
                     | Some (high, rest'') \<Rightarrow> if py_lstrip rest'' = [] then Some (low, high) else None)))"

definition take_all :: "(char \<Rightarrow> bool) \<Rightarrow> string \<Rightarrow> (string \<times> string) option" where
  "take_all P s = (if takeWhile P s = [] then None else Some (takeWhile P s, dropWhile P s))"

definition take_whole :: "string \<Rightarrow> (string \<times> string) option" where
  "take_whole s = take_all py_is_digit s"

definition take_decimal :: "string \<Rightarrow> (string \<times> string) option" where
  "take_decimal s =
     (case take_whole s of
        None \<Rightarrow> None
      | Some (ip, rest) \<Rightarrow>
          (if take 1 rest = ''.'' \<and> takeWhile py_is_digit (drop 1 rest) \<noteq> []
           then Some (ip @ ''.'' @ takeWhile py_is_digit (drop 1 rest), dropWhile py_is_digit (drop 1 rest))
           else Some (ip, rest)))"

definition take_loose :: "string \<Rightarrow> (string \<times> string) option" where
  "take_loose s = take_all (\<lambda>c. py_is_digit c \<or> c = CHR ''.'') (snd (split_sign s))"

section \<open>The search for a free number\<close>

fun channel_number_spec_ticks :: "pyval \<Rightarrow> (int \<times> int) option" where
  "channel_number_spec_ticks spec =
     (case (case spec of
              PInt n \<Rightarrow> Some spec
            | PFloat f \<Rightarrow> Some spec
            | PStr s \<Rightarrow> (case parse_channel_number_text spec False of
                           Inr (Some f) \<Rightarrow> Some (PFloat f)
                         | _ \<Rightarrow> None)
            | _ \<Rightarrow> None) of
        None \<Rightarrow> None
      | Some number \<Rightarrow>
          if \<not> is_valid_channel_number number then None
          else (case channel_number_ticks number of
                  Inl _ \<Rightarrow> None
                | Inr start \<Rightarrow> Some (start, if start mod ticks_per_unit \<noteq> 0 then 1 else ticks_per_unit)))"

declare channel_number_spec_ticks.simps [simp del]

definition is_channel_number_used :: "int set \<Rightarrow> pyval \<Rightarrow> bool" where
  "is_channel_number_used used number =
     (case channel_number_ticks number of Inr t \<Rightarrow> t \<in> used | Inl _ \<Rightarrow> False)"

definition mark_channel_number_used :: "pyval \<Rightarrow> int set \<Rightarrow> int set" where
  "mark_channel_number_used number used =
     (case channel_number_ticks number of Inr t \<Rightarrow> insert t used | Inl _ \<Rightarrow> used)"

datatype search_error = GridBroken | NumberError number_error | TooManyDigits

text \<open>The walk up the grid is a loop without a bound; \<open>None\<close> is a walk that does not end.\<close>

partial_function (option) next_free_number_from_ticks ::
  "int set \<Rightarrow> int \<Rightarrow> int \<Rightarrow> (search_error, pyval) result option" where
  "next_free_number_from_ticks used tick step =
     (case channel_number_from_ticks tick of
        Inl e \<Rightarrow> Some (raises (NumberError e))
      | Inr number \<Rightarrow>
          if channel_number_ticks number \<noteq> Inr tick
          then (if tick mod ticks_per_unit = 0 then Some (raises GridBroken)
                else next_free_number_from_ticks used (tick + (ticks_per_unit - tick mod ticks_per_unit)) ticks_per_unit)
          else if \<not> is_channel_number_used used number then Some (returns number)
          else next_free_number_from_ticks used (tick + step) step)"

definition automatic_number :: "int set \<Rightarrow> (search_error, pyval) result option" where
  "automatic_number used = next_free_number_from_ticks used ticks_per_unit ticks_per_unit"

definition range_number :: "int set \<Rightarrow> string \<times> string \<Rightarrow> (search_error, pyval) result option" where
  "range_number used bounds =
     (case (py_int_text (fst bounds), py_int_text (snd bounds)) of
        (Some low, Some high) \<Rightarrow>
          (case find (\<lambda>n. n * ticks_per_unit \<notin> used) [low..high] of
             Some n \<Rightarrow> Some (returns (PInt n))
           | None \<Rightarrow> next_free_number_from_ticks used ((high + 1) * ticks_per_unit) ticks_per_unit)
      | _ \<Rightarrow> Some (raises TooManyDigits))"

definition get_next_channel_number :: "int set \<Rightarrow> pyval \<Rightarrow> (search_error, pyval) result option" where
  "get_next_channel_number used spec =
     (case channel_number_spec_ticks spec of
        Some (start, step) \<Rightarrow> next_free_number_from_ticks used start step
      | None \<Rightarrow>
          (case spec of
             PStr s \<Rightarrow>
               (if py_strip s = ''auto'' then automatic_number used
                else (case range_match take_whole (py_strip s) of
                        Some bounds \<Rightarrow> range_number used bounds
                      | None \<Rightarrow> automatic_number used))
           | _ \<Rightarrow> automatic_number used))"


section \<open>Numbers on the grid are in contract\<close>

lemma fl_integer:
  assumes "2 ^ 52 \<le> x"
  shows "\<exists>k. fl x = of_int k"
proof -
  have "binexp (2 ^ 52) = 52" by (rule binexp_eqI) simp_all
  then have "52 \<le> binexp x" using binexp_mono [of "2 ^ 52" x] assms by simp
  then have "fl x = of_int (round_half_even (x / ulp x) * 2 ^ nat (binexp x - 52))"
    using assms by (simp add: fl_def ulp_def ulp_exp_def power_int_def)
  then show ?thesis by blast
qed

lemma fl_of_int_integer: "0 \<le> n \<Longrightarrow> \<exists>k. fl (of_int n) = of_int k"
proof (cases "n \<le> 2 ^ 53")
  case False
  then have "(of_int (2 ^ 52) :: rat) \<le> of_int n" unfolding of_int_le_iff by simp
  then show ?thesis by (intro fl_integer) simp
qed (use fl_of_int [of n] in auto)

lemma fl_idem:
  assumes "1 \<le> x"
  shows "fl (fl x) = fl x"
proof -
  have "binexp 1 = 0" by (rule binexp_eqI) simp_all
  then have e: "0 \<le> binexp x" using binexp_mono [of 1 x] assms by simp
  let ?m = "round_half_even (x / ulp x)"
  have u: "ulp x = 2 powi (binexp x - 52)" using e assms by (simp add: ulp_def ulp_exp_def)
  have fl: "fl x = of_int ?m * 2 powi (binexp x - 52)" using assms by (simp add: fl_def u)
  have "of_int ?m * 2 powi (binexp x - 52) \<le> (2 ^ 53 :: rat) * 2 powi (binexp x - 52)"
    using fl_pos_binade(1) [of x] assms fl by (simp add: power_int_add power_int_diff)
  then have "(of_int ?m :: rat) \<le> of_int (2 ^ 53)" by simp
  moreover have "\<not> (2::rat) powi (binexp x - 52) \<le> 0" by (simp add: not_le)
  then have "(of_int 0 :: rat) \<le> of_int ?m" using fl_nonneg [of x] assms fl by (auto simp: zero_le_mult_iff)
  ultimately have "\<bar>?m\<bar> \<le> 2 ^ 53" unfolding of_int_le_iff by simp
  with fl e show ?thesis by (intro fl_exact [of _ ?m "binexp x - 52"]) simp_all
qed

text \<open>A number whose scaled value is an integer double is on the grid, at any magnitude.\<close>

lemma valid_float_scaled:
  assumes "0 \<le> x" "fl (x * 10) = of_int k" "1 \<le> x * 10 \<or> k = 0"
  shows "valid_float x"
proof -
  have "fl (of_int k) = (of_int k :: rat)" using assms fl_idem [of "x * 10"] by auto
  with assms tolerance_bounds(1) show ?thesis by (simp add: valid_float_def ticks_per_unit_def)
qed

lemma valid_int:
  assumes "0 \<le> n" "n < 2 ^ 1023"
  shows "is_valid_channel_number (PInt n)"
proof -
  have "(of_int n :: rat) < of_int (2 ^ 1023)" using assms(2) by (simp only: of_int_less_iff)
  then have n: "(of_int n :: rat) \<le> 2 ^ 1023" by simp
  have "fl (of_int n) < (2 :: rat) ^ 1024"
  proof (cases "n = 0")
    case False
    with assms have pos: "(0::rat) < of_int n" by simp
    have "binexp ((2::rat) ^ 1023) = 1023" by (rule binexp_eqI) simp_all
    then have "fl ((2::rat) ^ 1023) = 2 ^ 1023" using fl_exact [of "2 ^ 1023" 1 1023] by simp
    with fl_mono_pos [OF pos n] show ?thesis by simp
  qed simp
  then have f: "float_of_int n = Some (fl (of_int n))" using assms(1) by (simp add: float_of_int_def)
  have "valid_float (fl (of_int n))"
  proof (cases "n \<le> 2 ^ 53")
    case True
    obtain k where k: "fl (of_int (n * 10) :: rat) = of_int k" using fl_of_int_integer [of "n * 10"] assms by auto
    have "1 \<le> (of_int n :: rat) * 10 \<or> k = 0"
    proof (cases "n = 0")
      case False
      with assms(1) have "(of_int 1 :: rat) \<le> of_int n" unfolding of_int_le_iff by simp
      then show ?thesis by simp
    qed (use k in simp)
    then have "valid_float (of_int n)" using assms(1) k by (intro valid_float_scaled [of _ k]) simp_all
    with True assms(1) show ?thesis by (simp add: fl_of_int)
  next
    case False
    then have "(of_int (2 ^ 53) :: rat) \<le> of_int n" unfolding of_int_le_iff by simp
    then have "fl (of_int (2 ^ 53)) \<le> fl (of_int n :: rat)" by (intro fl_mono_pos) simp_all
    then show ?thesis using fl_of_int [of "2 ^ 53"] assms(1) by (simp add: valid_float_def exact_integer_floor_def)
  qed
  with f show ?thesis by simp
qed

lemma valid_tenth:
  assumes "0 \<le> k" "channel_number_ticks (PFloat (Fin (fl (of_int k / 10)))) = Inr k"
  shows "is_valid_channel_number (PFloat (Fin (fl (of_int k / 10))))"
proof (cases "k < 10 * 2 ^ 49")
  case True
  then show ?thesis using assms(1) by (auto intro!: valid_float_on_grid [OF _ scale_back])
next
  case False
  then have "(of_int (10 * 2 ^ 49) :: rat) \<le> of_int k" by (simp only: of_int_le_iff)
  then have q: "(2::rat) ^ 49 \<le> of_int k / 10" by simp
  have "fl ((2::rat) ^ 49) = 2 ^ 49" using fl_of_int [of "2 ^ 49"] by simp
  then have "2 ^ 49 \<le> fl (of_int k / 10)" using fl_mono_pos [OF _ q] by simp
  then have s: "2 ^ 52 \<le> fl (of_int k / 10) * 10" by simp
  then obtain j where "fl (fl (of_int k / 10) * 10) = of_int j" using fl_integer by blast
  then have "valid_float (fl (of_int k / 10))" using s assms(1) by (intro valid_float_scaled) simp_all
  then show ?thesis by simp
qed

section \<open>The walk\<close>

definition free_from :: "int set \<Rightarrow> int \<Rightarrow> int \<Rightarrow> pyval \<Rightarrow> bool" where
  "free_from used start t v \<longleftrightarrow>
     start \<le> t \<and> t \<notin> used \<and> channel_number_ticks v = Inr t \<and> channel_number_from_ticks t = Inr v"

lemma walk_whole:
  assumes "finite used" "tick mod 10 = 0"
  shows "\<exists>t. t mod 10 = 0 \<and> free_from used tick t (PInt (t div 10)) \<and>
    (\<forall>s. tick \<le> s \<and> s < t \<and> s mod 10 = 0 \<longrightarrow> s \<in> used) \<and>
    next_free_number_from_ticks used tick 10 = Some (Inr (PInt (t div 10)))"
  using assms(2)
proof (induction "card {s \<in> used. tick \<le> s}" arbitrary: tick rule: less_induct)
  case less
  have n: "channel_number_from_ticks tick = Inr (PInt (tick div 10))" "tick div 10 * 10 = tick"
    using less.prems by (auto simp: channel_number_from_ticks_def ticks_per_unit_def)
  show ?case
  proof (cases "tick \<in> used")
    case False
    with n less.prems show ?thesis
      by (intro exI [of _ tick])
        (auto simp: free_from_def next_free_number_from_ticks.simps [of used tick] is_channel_number_used_def ticks_per_unit_def)
  next
    case True
    have "tick \<in> {s \<in> used. tick \<le> s}" "tick \<notin> {s \<in> used. tick + 10 \<le> s}" using True by auto
    then have "{s \<in> used. tick + 10 \<le> s} \<subset> {s \<in> used. tick \<le> s}" by force
    then have fewer: "card {s \<in> used. tick + 10 \<le> s} < card {s \<in> used. tick \<le> s}"
      using assms(1) by (intro psubset_card_mono) auto
    have "(tick + 10) mod 10 = 0" using less.prems by simp
    from less.hyps [OF fewer this] obtain t where t: "t mod 10 = 0" "free_from used (tick + 10) t (PInt (t div 10))"
      "\<forall>s. tick + 10 \<le> s \<and> s < t \<and> s mod 10 = 0 \<longrightarrow> s \<in> used"
      "next_free_number_from_ticks used (tick + 10) 10 = Some (Inr (PInt (t div 10)))" by (elim exE conjE)
    have "next_free_number_from_ticks used tick 10 = Some (Inr (PInt (t div 10)))"
      using n True t(4) by (simp add: next_free_number_from_ticks.simps [of used tick] is_channel_number_used_def ticks_per_unit_def)
    moreover have "s \<in> used" if s: "tick \<le> s" "s < t" "s mod 10 = 0" for s
    proof (cases "s = tick")
      case False
      then have "tick + 10 \<le> s" using s(1,3) less.prems by presburger
      then show ?thesis using t(3) s(2,3) by simp
    qed (use True in simp)
    ultimately show ?thesis using t(1,2) by (auto simp: free_from_def intro!: exI [of _ t])
  qed
qed


text \<open>Where a tenth has no double of its own.\<close>

lemma tenth_ticks:
  assumes "\<bar>k\<bar> < 10 * 2 ^ 49"
  shows "channel_number_ticks (PFloat (Fin (fl (of_int k / 10)))) = Inr k"
  using tick_double_range [OF assms] scale_back [OF assms]
  by (simp add: exact_integer_floor_def ticks_per_unit_def del: abs_le_iff)

lemma tenth_from_ticks:
  assumes "0 \<le> tick" "tick mod 10 \<noteq> 0" "tick \<le> 10 * 2 ^ 53 + 1"
  shows "channel_number_from_ticks tick = Inr (PFloat (Fin (fl (of_int tick / 10))))"
    "tick = 10 * 2 ^ 53 + 1 \<Longrightarrow> channel_number_ticks (PFloat (Fin (fl (of_int tick / 10)))) \<noteq> Inr tick"
proof -
  have "(of_int tick :: rat) \<le> of_int (10 * 2 ^ 54)" unfolding of_int_le_iff using assms(3) by simp
  then have le: "(of_int tick / 10 :: rat) \<le> 2 ^ 54" by simp
  have pos: "(0::rat) < of_int tick / 10" using assms(1,2) by (cases "tick = 0") simp_all
  have "fl ((2::rat) ^ 54) = 2 ^ 54" using fl_exact [of "2 ^ 54" 1 54] by simp
  then have "fl (of_int tick / 10) \<le> (2::rat) ^ 54" using fl_mono_pos [OF pos le] by simp
  also have "\<dots> < 2 ^ 1024" by (rule power_strict_increasing) simp_all
  finally show "channel_number_from_ticks tick = Inr (PFloat (Fin (fl (of_int tick / 10))))"
    using assms(1,2) by (simp add: channel_number_from_ticks_def ticks_per_unit_def)
  show "channel_number_ticks (PFloat (Fin (fl (of_int tick / 10)))) \<noteq> Inr tick" if top: "tick = 10 * 2 ^ 53 + 1"
  proof -
    have "(2::rat) ^ 53 \<le> of_int tick / 10" by (simp add: top)
    then have "fl (2 ^ 53) \<le> fl (of_int tick / 10 :: rat)" by (intro fl_mono_pos) simp_all
    then have "(2::rat) ^ 53 \<le> fl (of_int tick / 10)" using fl_of_int [of "2 ^ 53"] by simp
    then have "channel_number_ticks (PFloat (Fin (fl (of_int tick / 10)))) = Inr (\<lfloor>fl (of_int tick / 10)\<rfloor> * 10)"
      by (simp add: exact_integer_floor_def ticks_per_unit_def)
    then show ?thesis using assms(2) mod_mult_self2_is_0 [of "\<lfloor>fl (of_int tick / 10 :: rat)\<rfloor>" 10] by (metis Inr_inject)
  qed
qed

text \<open>The walk does not run away: it stops next to where it started or next to an occupied number.\<close>

definition near :: "int set \<Rightarrow> int \<Rightarrow> int \<Rightarrow> bool" where
  "near used tick t \<longleftrightarrow> t \<le> tick + 10 \<or> (\<exists>u \<in> used. t \<le> u + 20)"

lemma near_whole:
  fixes t :: int
  assumes "tick mod 10 = 0" "t mod 10 = 0" "tick \<le> t" "\<forall>s. tick \<le> s \<and> s < t \<and> s mod 10 = 0 \<longrightarrow> s \<in> used"
  shows "t = tick \<or> t - 10 \<in> used"
proof (cases "t = tick")
  case False
  then have "tick \<le> t - 10" "(t - 10) mod 10 = 0" using assms(1-3) by presburger+
  then show ?thesis using assms(4) by simp
qed simp

text \<open>The walk by tenths: it ends, on a free number, and below \<open>2 ^ 49\<close> it passes over no free tenth.\<close>

lemma walk_tenths:
  assumes "finite used" "0 \<le> tick" "tick \<le> 10 * 2 ^ 53 + 1"
  shows "\<exists>t v. free_from used tick t v \<and> near used tick t \<and> (\<forall>s. tick \<le> s \<and> s < t \<and> s < 10 * 2 ^ 49 \<longrightarrow> s \<in> used) \<and>
    next_free_number_from_ticks used tick 1 = Some (Inr v)"
  using assms(2,3)
proof (induction "card {s \<in> used. tick \<le> s}" arbitrary: tick rule: less_induct)
  case less
  obtain v where v: "channel_number_from_ticks tick = Inr v"
    using tenth_from_ticks(1) [of tick] less.prems
    by (cases "tick mod 10 = 0") (auto simp: channel_number_from_ticks_def ticks_per_unit_def)
  note walk = next_free_number_from_ticks.simps [of used tick] is_channel_number_used_def ticks_per_unit_def
  show ?case
  proof (cases "channel_number_ticks v = Inr tick")
    case False
    let ?up = "tick + (10 - tick mod 10)"
    have m: "tick mod 10 \<noteq> 0" using False v by (auto simp: channel_number_from_ticks_def ticks_per_unit_def)
    then have late: "10 * 2 ^ 49 \<le> tick"
      using False v tenth_ticks [of tick] tenth_from_ticks(1) [of tick] less.prems by fastforce
    have "?up mod 10 = 0" by presburger
    from walk_whole [OF assms(1) this] obtain t where t: "free_from used ?up t (PInt (t div 10))"
      "next_free_number_from_ticks used ?up 10 = Some (Inr (PInt (t div 10)))"
      "t mod 10 = 0" "\<forall>s. ?up \<le> s \<and> s < t \<and> s mod 10 = 0 \<longrightarrow> s \<in> used" by (elim exE conjE)
    have "?up \<le> t" using t(1) by (simp add: free_from_def)
    from near_whole [OF \<open>?up mod 10 = 0\<close> t(3) this t(4)] have near: "near used tick t"
      using pos_mod_sign [of 10 tick] by (auto simp: near_def intro: bexI [of _ "t - 10"])
    have "next_free_number_from_ticks used tick 1 = Some (Inr (PInt (t div 10)))"
      using False v m t(2) by (simp add: walk)
    moreover have "tick \<le> ?up" using pos_mod_bound [of 10 tick] by simp
    ultimately show ?thesis using t(1) late near by (intro exI [of _ t] exI) (auto simp: free_from_def)
  next
    case roundtrip: True
    show ?thesis
    proof (cases "tick \<in> used")
      case False
      with v roundtrip show ?thesis by (intro exI [of _ tick] exI [of _ v]) (auto simp: walk free_from_def near_def)
    next
      case True
      have "tick \<in> {s \<in> used. tick \<le> s}" "tick \<notin> {s \<in> used. tick + 1 \<le> s}" using True by auto
      then have "{s \<in> used. tick + 1 \<le> s} \<subset> {s \<in> used. tick \<le> s}" by force
      then have "card {s \<in> used. tick + 1 \<le> s} < card {s \<in> used. tick \<le> s}"
        using assms(1) by (intro psubset_card_mono) auto
      moreover have "tick \<noteq> 10 * 2 ^ 53 + 1"
      proof
        assume top: "tick = 10 * 2 ^ 53 + 1"
        then have "tick mod 10 \<noteq> 0" by simp
        with less.prems top roundtrip v tenth_from_ticks [of tick] show False
          by (simp del: channel_number_ticks.simps)
      qed
      with less.prems have "0 \<le> tick + 1" "tick + 1 \<le> 10 * 2 ^ 53 + 1" by simp_all
      ultimately obtain t w where t: "free_from used (tick + 1) t w" "near used (tick + 1) t"
        "\<forall>s. tick + 1 \<le> s \<and> s < t \<and> s < 10 * 2 ^ 49 \<longrightarrow> s \<in> used"
        "next_free_number_from_ticks used (tick + 1) 1 = Some (Inr w)" using less.hyps by blast
      have "next_free_number_from_ticks used tick 1 = Some (Inr w)" using v roundtrip True t(4) by (simp add: walk)
      moreover have "near used tick t" using t(2) True by (force simp: near_def)
      moreover have "s \<in> used" if s: "tick \<le> s" "s < t" "s < 10 * 2 ^ 49" for s
        using s t(3) True by (cases "s = tick") auto
      ultimately show ?thesis using t(1) by (intro exI [of _ t] exI [of _ w]) (auto simp: free_from_def)
    qed
  qed
qed


section \<open>Where a specification starts\<close>

lemma fl_of_int_neg: "n < 0 \<Longrightarrow> fl (of_int n) < (0::rat)"
proof -
  assume "n < 0"
  then have "(of_int 1 :: rat) \<le> of_int (- n)" unfolding of_int_le_iff by simp
  then have "fl 1 \<le> fl (of_int (- n) :: rat)" by (intro fl_mono_pos) simp_all
  then show ?thesis by (simp add: fl_minus)
qed

lemma ticks_of_valid:
  assumes "is_valid_channel_number number" "channel_number_ticks number = Inr start"
  shows "0 \<le> start" "start mod 10 \<noteq> 0 \<Longrightarrow> start \<le> 10 * 2 ^ 53"
proof -
  consider (int) n where "number = PInt n" | (float) v where "number = PFloat (Fin v)"
    using assms(1) by (cases number rule: is_valid_channel_number.cases) auto
  then have "0 \<le> start \<and> (start mod 10 \<noteq> 0 \<longrightarrow> start \<le> 10 * 2 ^ 53)"
  proof cases
    case int
    have "0 \<le> n"
    proof (rule ccontr)
      assume "\<not> 0 \<le> n"
      with assms(1) int fl_of_int_neg [of n] show False
        by (auto simp: float_of_int_def valid_float_def Let_def split: option.splits if_splits)
    qed
    with assms(2) int show ?thesis by (auto simp: ticks_per_unit_def)
  next
    case float
    then have v: "0 \<le> v" using assms(1) by (auto simp: valid_float_def split: if_splits)
    show ?thesis
    proof (cases "exact_integer_floor \<le> v")
      case True
      with v assms(2) float show ?thesis by (auto simp: ticks_per_unit_def)
    next
      case False
      then have s: "start = round_half_even (fl (v * 10))" using v assms(2) float by (simp add: ticks_per_unit_def)
      have "round_half_even (of_int 0) \<le> start" unfolding s using v by (intro round_half_even_mono) simp
      moreover have "start \<le> 10 * 2 ^ 53"
      proof (cases "v = 0")
        case False
        have "fl (v * 10) \<le> fl (10 * 2 ^ 53)"
          using v False \<open>\<not> exact_integer_floor \<le> v\<close> by (intro fl_mono_pos) (simp_all add: exact_integer_floor_def)
        also have "\<dots> = of_int (10 * 2 ^ 53)" using fl_exact [of "10 * 2 ^ 53" 10 53] by simp
        finally have "start \<le> round_half_even (of_int (10 * 2 ^ 53))" unfolding s by (intro round_half_even_mono)
        then show ?thesis by (simp only: round_half_even_int)
      qed (use s round_half_even_int [of 0] in simp)
      ultimately show ?thesis by (simp only: round_half_even_int) simp
    qed
  qed
  then show "0 \<le> start" "start mod 10 \<noteq> 0 \<Longrightarrow> start \<le> 10 * 2 ^ 53" by auto
qed

lemma literal_ticks:
  assumes "channel_number_spec_ticks spec = Some (start, step)"
  shows "0 \<le> start" "start mod 10 = 0 \<and> step = 10 \<or> step = 1 \<and> start \<le> 10 * 2 ^ 53 + 1"
proof -
  from assms obtain number where n: "is_valid_channel_number number" "channel_number_ticks number = Inr start"
    "step = (if start mod ticks_per_unit \<noteq> 0 then 1 else ticks_per_unit)"
    by (auto simp: channel_number_spec_ticks.simps split: option.splits if_splits sum.splits)
  with ticks_of_valid [OF n(1,2)] show "0 \<le> start" "start mod 10 = 0 \<and> step = 10 \<or> step = 1 \<and> start \<le> 10 * 2 ^ 53 + 1"
    by (auto simp: ticks_per_unit_def)
qed


text \<open>The tick a specification asks for and the distance between the numbers it may get: a literal asks
  for itself, a range for its lower end (for the number above it when it is empty), everything else for 1.\<close>

definition search_start :: "pyval \<Rightarrow> int \<times> int" where
  "search_start spec =
     (case channel_number_spec_ticks spec of
        Some start \<Rightarrow> start
      | None \<Rightarrow>
          (case spec of
             PStr s \<Rightarrow>
               (case (if py_strip s = ''auto'' then None else range_match take_whole (py_strip s)) of
                  Some (low, high) \<Rightarrow> (min (the (py_int_text low)) (the (py_int_text high) + 1) * 10, 10)
                | None \<Rightarrow> (10, 10))
           | _ \<Rightarrow> (10, 10)))"

text \<open>The first free number from \<open>start\<close> in steps of \<open>step\<close>; tenths are told apart below \<open>2 ^ 49\<close> only.\<close>

definition first_free :: "int set \<Rightarrow> int \<times> int \<Rightarrow> int \<Rightarrow> bool" where
  "first_free used from t \<longleftrightarrow> fst from \<le> t \<and> t \<notin> used \<and>
     (\<forall>s. fst from \<le> s \<and> s < t \<and> (s - fst from) mod snd from = 0 \<and> (snd from = 1 \<longrightarrow> s < 10 * 2 ^ 49) \<longrightarrow> s \<in> used)"

lemma walk_first_free:
  assumes "finite used" "0 \<le> start" "start mod 10 = 0 \<and> step = 10 \<or> step = 1 \<and> start \<le> 10 * 2 ^ 53 + 1"
  shows "\<exists>t v. next_free_number_from_ticks used start step = Some (Inr v) \<and> channel_number_ticks v = Inr t \<and>
    channel_number_from_ticks t = Inr v \<and> first_free used (start, step) t \<and> near used start t"
proof (cases "step = 1")
  case True
  with assms walk_tenths [of used start] show ?thesis by (auto simp: free_from_def first_free_def)
next
  case False
  with assms have m: "start mod 10 = 0" "step = 10" by auto
  from walk_whole [OF assms(1) m(1)] obtain t where t: "t mod 10 = 0" "free_from used start t (PInt (t div 10))"
    "\<forall>s. start \<le> s \<and> s < t \<and> s mod 10 = 0 \<longrightarrow> s \<in> used"
    "next_free_number_from_ticks used start 10 = Some (Inr (PInt (t div 10)))" by (elim exE conjE)
  have "s \<in> used" if "start \<le> s" "s < t" "(s - start) mod 10 = 0" for s
  proof -
    have "s mod 10 = 0" using that(3) m(1) by presburger
    with that t(3) show ?thesis by simp
  qed
  moreover have "start \<le> t" using t(2) by (simp add: free_from_def)
  then have "near used start t" using near_whole [OF m(1) t(1) _ t(3)] by (auto simp: near_def intro: bexI [of _ "t - 10"])
  ultimately show ?thesis using t m by (intro exI [of _ t] exI [of _ "PInt (t div 10)"])
      (auto simp: free_from_def first_free_def)
qed

lemma take_whole_digits:
  "take_whole s = Some (a, r) \<Longrightarrow> a \<noteq> [] \<and> (\<forall>c \<in> set a. py_is_digit c) \<and> length a + length r = length s"
  by (auto simp: take_whole_def take_all_def split: if_splits dest: set_takeWhileD)
    (metis length_append takeWhile_dropWhile_id)

lemma length_py_lstrip: "length (py_lstrip s) \<le> length s"
  by (simp add: py_lstrip_def length_dropWhile_le)

lemma range_digits:
  assumes "range_match take_whole s = Some (a, b)"
  shows "a \<noteq> []" "\<forall>c \<in> set a. py_is_digit c" "length a \<le> length s"
    "b \<noteq> []" "\<forall>c \<in> set b. py_is_digit c" "length b \<le> length s"
proof -
  from assms obtain r c r' r'' where r: "take_whole (py_lstrip s) = Some (a, r)" "py_lstrip r = c # r'"
    "take_whole (py_lstrip r') = Some (b, r'')"
    by (auto simp: range_match_def split: option.splits list.splits if_splits)
  note d = take_whole_digits [OF r(1)] take_whole_digits [OF r(3)]
  then show "a \<noteq> []" "\<forall>c \<in> set a. py_is_digit c" "b \<noteq> []" "\<forall>c \<in> set b. py_is_digit c" by auto
  show "length a \<le> length s" using d(1) length_py_lstrip [of s] by linarith
  have "length r' < length r" using r(2) length_py_lstrip [of r] by simp
  then show "length b \<le> length s" using d length_py_lstrip [of s] length_py_lstrip [of r'] by linarith
qed

lemma digit_part_digits: "s \<noteq> [] \<Longrightarrow> \<forall>c \<in> set s. py_is_digit c \<Longrightarrow> digit_part s"
  by (induction s rule: digit_part.induct) (auto simp: py_is_digit_def Let_def)

lemma digits_value_less: "\<forall>c \<in> set s. py_is_digit c \<Longrightarrow> digits_value s < 10 ^ length s"
proof (induction s rule: rev_induct)
  case (snoc d s)
  then have "of_char d \<le> (57::nat)" by (auto simp: py_is_digit_def Let_def)
  then have "of_char d - 48 < (10::nat)" by linarith
  with snoc show ?case by simp
qed simp

lemma py_int_digits:
  assumes "s \<noteq> []" "\<forall>c \<in> set s. py_is_digit c" "length s \<le> 4300"
  shows "py_int_text s = Some (int (digits_value s))"
proof -
  have "py_strip s = s" using assms(2) digit_not_space by (intro py_strip_no_space) blast
  moreover obtain c t where "s = c # t" using assms(1) by (cases s) auto
  moreover have "py_is_digit c" using assms(2) \<open>s = c # t\<close> by simp
  then have "c \<noteq> CHR ''-''" "c \<noteq> CHR ''+''" by (auto simp: py_is_digit_def Let_def)
  moreover have "filter py_is_digit s = s" using assms(2) by simp
  ultimately show ?thesis using assms digit_part_digits [of s]
    by (simp add: py_int_text_def split_sign_def signed_def digits_of_def)
qed


lemma find_upto:
  fixes low high :: int
  shows "case find P [low..high] of
     Some n \<Rightarrow> low \<le> n \<and> n \<le> high \<and> P n \<and> (\<forall>m. low \<le> m \<and> m < n \<longrightarrow> \<not> P m)
   | None \<Rightarrow> \<forall>m. low \<le> m \<and> m \<le> high \<longrightarrow> \<not> P m"
proof (induction low high rule: upto.induct)
  case (1 low high)
  show ?case
  proof (cases "low \<le> high \<and> \<not> P low")
    case True
    then have "find P [low..high] = find P [low + 1..high]" by (simp add: upto_rec1)
    moreover have up: "low + 1 \<le> m" if "low \<le> m" "P m" for m using that True by (cases "m = low") auto
    ultimately show ?thesis
    proof (cases "find P [low + 1..high]")
      case None
      with 1 True have "\<not> P m" if "low + 1 \<le> m" "m \<le> high" for m using that by simp
      with None up \<open>find P [low..high] = _\<close> show ?thesis by auto
    next
      case (Some n)
      with 1 True have n: "low + 1 \<le> n" "n \<le> high" "P n" "\<And>m. low + 1 \<le> m \<Longrightarrow> m < n \<Longrightarrow> \<not> P m" by auto
      with Some up \<open>find P [low..high] = _\<close> show ?thesis by auto
    qed
  next
    case False
    then show ?thesis by (cases "low \<le> high") (auto simp: upto_rec1)
  qed
qed

lemma range_first_free:
  assumes "finite used" "0 \<le> low" "0 \<le> high" "py_int_text a = Some low" "py_int_text b = Some high"
  shows "\<exists>t v. range_number used (a, b) = Some (Inr v) \<and> channel_number_ticks v = Inr t \<and>
    channel_number_from_ticks t = Inr v \<and> first_free used (min low (high + 1) * 10, 10) t \<and>
    (near used (min low (high + 1) * 10) t \<or> t \<le> high * 10 + 20)"
proof (cases "find (\<lambda>n. n * ticks_per_unit \<notin> used) [low..high]")
  case (Some n)
  with find_upto [where P = "\<lambda>n. n * ticks_per_unit \<notin> used" and low = low and high = high]
  have n: "low \<le> n" "n \<le> high" "n * 10 \<notin> used" "\<And>m. low \<le> m \<Longrightarrow> m < n \<Longrightarrow> m * 10 \<in> used"
    by (auto simp: ticks_per_unit_def)
  have "s \<in> used" if s: "low * 10 \<le> s" "s < n * 10" "(s - low * 10) mod 10 = 0" for s
  proof -
    have "s = (s div 10) * 10" using s(3) by presburger
    moreover from this s(1,2) have "low \<le> s div 10" "s div 10 < n" by linarith+
    ultimately show ?thesis using n(4) by metis
  qed
  with n Some assms(4,5) show ?thesis
    by (intro exI [of _ "n * 10"] exI [of _ "PInt n"])
      (auto simp: range_number_def ticks_per_unit_def channel_number_from_ticks_def first_free_def)
next
  case None
  with find_upto [where P = "\<lambda>n. n * ticks_per_unit \<notin> used" and low = low and high = high]
  have n: "\<And>m. low \<le> m \<Longrightarrow> m \<le> high \<Longrightarrow> m * 10 \<in> used" by (auto simp: ticks_per_unit_def)
  let ?from = "min low (high + 1)"
  from walk_first_free [OF assms(1), of "(high + 1) * 10" 10] assms(3)
  obtain t v where t: "next_free_number_from_ticks used ((high + 1) * 10) 10 = Some (Inr v)"
    "channel_number_ticks v = Inr t" "channel_number_from_ticks t = Inr v"
    "first_free used ((high + 1) * 10, 10) t" "near used ((high + 1) * 10) t" by auto
  have "s \<in> used" if s: "?from * 10 \<le> s" "s < t" "(s - ?from * 10) mod 10 = 0" for s
  proof -
    have "s = (s div 10) * 10" using s(3) by presburger
    then obtain q where q: "s = q * 10" by blast
    show ?thesis
    proof (cases "q \<le> high")
      case True
      then have "low \<le> q" using q s(1) by (simp add: min_def split: if_splits)
      with True n q show ?thesis by simp
    next
      case False
      then have "(high + 1) * 10 \<le> s" "(s - (high + 1) * 10) mod 10 = 0"
        using q by (simp_all flip: left_diff_distrib)
      with s(2) t(4) show ?thesis by (auto simp: first_free_def)
    qed
  qed
  moreover have "(high + 1) * 10 \<le> t" "t \<notin> used" using t(4) by (auto simp: first_free_def)
  then have "?from * 10 \<le> t" "t \<notin> used" by (simp_all add: min_def)
  moreover have "near used (?from * 10) t \<or> t \<le> high * 10 + 20" using t(5) by (auto simp: near_def)
  ultimately show ?thesis using t(1-3) None assms(4,5)
    by (intro exI [of _ t] exI [of _ v]) (auto simp: range_number_def ticks_per_unit_def first_free_def)
qed


text \<open>The range of the contract: below \<open>2 ^ 1022\<close>, and text of at most 300 characters.\<close>

definition spec_in_reach :: "pyval \<Rightarrow> bool" where
  "spec_in_reach spec \<longleftrightarrow> fst (search_start spec) \<le> 10 * 2 ^ 1022 \<and> (\<forall>s. spec = PStr s \<longrightarrow> length s \<le> 300)"

lemma grid_number_valid:
  assumes "channel_number_from_ticks t = Inr v" "channel_number_ticks v = Inr t" "0 \<le> t" "t < 10 * 2 ^ 1023"
  shows "is_valid_channel_number v"
proof (cases "t mod 10 = 0")
  case True
  with assms(1) have "v = PInt (t div 10)" by (simp add: channel_number_from_ticks_def ticks_per_unit_def)
  moreover have "t div 10 < 2 ^ 1023" using assms(4) by simp
  ultimately show ?thesis using assms(3) valid_int by simp
next
  case False
  with assms(1) have "v = PFloat (Fin (fl (of_int t / 10)))"
    by (auto simp: channel_number_from_ticks_def ticks_per_unit_def Let_def split: if_splits)
  with assms(2,3) valid_tenth [of t] show ?thesis by simp
qed


lemma length_py_strip: "length (py_strip s) \<le> length s"
  using length_py_lstrip [of s] length_py_lstrip [of "rev (py_lstrip s)"] by (simp add: py_strip_def)

lemma ten_powers: "(10::int) ^ 300 < 2 ^ 1000"
  by simp

lemma range_bounds:
  assumes "range_match take_whole (py_strip s) = Some (a, b)" "length s \<le> 300"
  obtains low high where "py_int_text a = Some low" "py_int_text b = Some high"
    "0 \<le> low" "low < 2 ^ 1000" "0 \<le> high" "high < 2 ^ 1000"
proof -
  note d = range_digits [OF assms(1)] length_py_strip [of s]
  have small: "int (digits_value c) < 2 ^ 1000" if c: "\<forall>d \<in> set c. py_is_digit d" "length c \<le> 300" for c
  proof -
    have "digits_value c < 10 ^ length c" by (rule digits_value_less [OF c(1)])
    also have "\<dots> \<le> 10 ^ 300" by (rule power_increasing [OF c(2)]) simp
    finally have "int (digits_value c) < int (10 ^ 300)" unfolding of_nat_less_iff .
    then have "int (digits_value c) < 10 ^ 300" unfolding of_nat_power of_nat_numeral .
    then show ?thesis using ten_powers by (rule less_trans)
  qed
  have "length a \<le> 300" "length b \<le> 300" using d assms(2) by linarith+
  with d have p: "py_int_text a = Some (int (digits_value a))" "py_int_text b = Some (int (digits_value b))"
    by (simp_all add: py_int_digits)
  show ?thesis
    by (rule that [OF p of_nat_0_le_iff small [OF d(2) \<open>length a \<le> 300\<close>] of_nat_0_le_iff
          small [OF d(5) \<open>length b \<le> 300\<close>]])
qed

lemma automatic_first_free:
  "finite used \<Longrightarrow> \<exists>t v. automatic_number used = Some (Inr v) \<and> channel_number_ticks v = Inr t \<and>
    channel_number_from_ticks t = Inr v \<and> first_free used (10, 10) t \<and> near used 10 t"
  using walk_first_free [of used 10 10] by (simp add: automatic_number_def ticks_per_unit_def)

lemma next_number_first_free:
  assumes "finite used" "spec_in_reach spec"
  shows "\<exists>t v. get_next_channel_number used spec = Some (Inr v) \<and> channel_number_ticks v = Inr t \<and>
    channel_number_from_ticks t = Inr v \<and> first_free used (search_start spec) t \<and> 0 \<le> t \<and>
    (near used (fst (search_start spec)) t \<or> t \<le> 10 * 2 ^ 1000 + 10)"
proof (cases "channel_number_spec_ticks spec")
  case (Some start)
  obtain s st where "start = (s, st)" by (cases start)
  note lit = literal_ticks [OF Some [unfolded this]] Some [unfolded this]
  from walk_first_free [OF assms(1) lit(1,2)] lit show ?thesis
    by (auto simp: get_next_channel_number_def search_start_def first_free_def)
next
  case None
  obtain t v where auto: "automatic_number used = Some (Inr v)" "channel_number_ticks v = Inr t"
    "channel_number_from_ticks t = Inr v" "first_free used (10, 10) t" "near used 10 t"
    using automatic_first_free [OF assms(1)] by blast
  then have "10 \<le> t" by (simp add: first_free_def)
  show ?thesis
  proof (cases "\<exists>s a b. spec = PStr s \<and> py_strip s \<noteq> ''auto'' \<and> range_match take_whole (py_strip s) = Some (a, b)")
    case False
    then have "get_next_channel_number used spec = automatic_number used" "search_start spec = (10, 10)"
      using None by (auto simp: get_next_channel_number_def search_start_def split: pyval.splits option.splits)
    with auto \<open>10 \<le> t\<close> show ?thesis by (intro exI [of _ t] exI [of _ v]) simp
  next
    case True
    then obtain s a b where r: "spec = PStr s" "py_strip s \<noteq> ''auto''" "range_match take_whole (py_strip s) = Some (a, b)"
      by blast
    obtain low high where lh: "py_int_text a = Some low" "py_int_text b = Some high"
      "0 \<le> low" "low < 2 ^ 1000" "0 \<le> high" "high < 2 ^ 1000"
      using range_bounds [OF r(3)] assms(2) r(1) by (auto simp: spec_in_reach_def)
    have "get_next_channel_number used spec = range_number used (a, b)"
      "search_start spec = (min low (high + 1) * 10, 10)"
      using None r lh by (simp_all add: get_next_channel_number_def search_start_def)
    moreover obtain u w where u: "range_number used (a, b) = Some (Inr w)" "channel_number_ticks w = Inr u"
      "channel_number_from_ticks u = Inr w" "first_free used (min low (high + 1) * 10, 10) u"
      "near used (min low (high + 1) * 10) u \<or> u \<le> high * 10 + 20"
      using range_first_free [OF assms(1) lh(3,5,1,2)] by blast
    moreover have "0 \<le> min low (high + 1) * 10" using lh(3,5) by simp
    then have "0 \<le> u" using u(4) unfolding first_free_def fst_conv by linarith
    moreover have "near used (min low (high + 1) * 10) u \<or> u \<le> 10 * 2 ^ 1000 + 10" using u(5) lh(6) by auto
    ultimately show ?thesis by (intro exI [of _ u] exI [of _ w]) simp
  qed
qed

text \<open>C29. A rule gets the first free number its specification allows. Whatever the specification, and
  whatever numbers are taken, the search ends and returns a number in contract that no channel occupies:
  for a literal the first free one from the literal on, in whole numbers or in tenths as the literal is
  written, for a range the first free whole number from its lower end, spilling over the upper end, and
  for everything else the first free whole number from 1. (Tenths are told apart below \<open>2 ^ 49\<close>; taken
  numbers and literals are below \<open>2 ^ 1022\<close>, text has at most 300 characters.)\<close>

theorem next_number_is_the_first_free:
  assumes "finite used" "\<forall>u \<in> used. u \<le> 10 * 2 ^ 1022" "spec_in_reach spec"
  shows "\<exists>t v. get_next_channel_number used spec = Some (Inr v) \<and> is_valid_channel_number v \<and>
           channel_number_ticks v = Inr t \<and> first_free used (search_start spec) t"
proof -
  obtain t v where t: "get_next_channel_number used spec = Some (Inr v)" "channel_number_ticks v = Inr t"
    "channel_number_from_ticks t = Inr v" "first_free used (search_start spec) t" "0 \<le> t"
    "near used (fst (search_start spec)) t \<or> t \<le> 10 * 2 ^ 1000 + 10"
    using next_number_first_free [OF assms(1,3)] by blast
  have "fst (search_start spec) \<le> 10 * 2 ^ 1022" using assms(3) by (simp add: spec_in_reach_def)
  then have "t \<le> 10 * 2 ^ 1022 + 20" using t(6) assms(2) by (fastforce simp: near_def)
  then have "t < 10 * 2 ^ 1023" by simp
  with grid_number_valid [OF t(3,2,5)] t show ?thesis by blast
qed


section \<open>Examples\<close>

lemma whole_literal: "0 \<le> n \<Longrightarrow> n < 2 ^ 49 \<Longrightarrow> channel_number_spec_ticks (PInt n) = Some (n * 10, 10)"
  using valid_whole_number [of n]
  by (simp add: channel_number_spec_ticks.simps ticks_per_unit_def del: is_valid_channel_number.simps)

lemma whole_literal_in_reach: "0 \<le> n \<Longrightarrow> n < 2 ^ 49 \<Longrightarrow> spec_in_reach (PInt n)"
  by (simp add: spec_in_reach_def search_start_def whole_literal)

lemma next_number_is_the_first_free_witness:
  "\<exists>t v. get_next_channel_number {10, 20} (PInt 1) = Some (Inr v) \<and> is_valid_channel_number v \<and>
     channel_number_ticks v = Inr t \<and> first_free {10, 20} (search_start (PInt 1)) t"
  by (rule next_number_is_the_first_free) (simp_all add: whole_literal_in_reach)

end
