(* ===== verification/NumberRules.thy ===== *)
theory NumberRules
  imports NumberSearch
begin

text \<open>
  The number specification a pipeline rule may store (\<open>validate_channel_number_spec\<close> of
  \<open>channel_pipeline_schema.py\<close>), the executor actions that assign numbers (\<open>_execute_set_channel_number\<close> and the
  numbering of \<open>_execute_create_channel\<close> in \<open>channel_pipeline_executor.py\<close>) and the start of the renumbering pass
  (\<open>_get_rule_starting_number\<close> of \<open>channel_pipeline_engine.py\<close>).
\<close>

section \<open>What a rule may store\<close>

datatype spec_error = NotAChannelNumber | WriteItDifferently

fun validate_channel_number_spec :: "pyval \<Rightarrow> spec_error list" where
  "validate_channel_number_spec (PInt n) = (if is_valid_channel_number (PInt n) then [] else [NotAChannelNumber])"
| "validate_channel_number_spec (PFloat f) = (if is_valid_channel_number (PFloat f) then [] else [NotAChannelNumber])"
| "validate_channel_number_spec (PStr s) =
     (let text = py_strip s in
      if text = ''auto'' \<or> range_match take_whole text \<noteq> None then []
      else if range_match take_decimal text \<noteq> None then [WriteItDifferently]
      else (case py_float_text text of
              None \<Rightarrow> []
            | Some number \<Rightarrow>
                if channel_number_text text
                then (if is_valid_channel_number (PFloat number) then [] else [NotAChannelNumber])
                else if \<not> is_valid_channel_number (PFloat number) then [NotAChannelNumber]
                else [WriteItDifferently]))"
| "validate_channel_number_spec _ = []"

fun looks_like_a_number_spec :: "pyval \<Rightarrow> bool" where
  "looks_like_a_number_spec (PInt n) = True"
| "looks_like_a_number_spec (PFloat f) = True"
| "looks_like_a_number_spec (PStr s) = (range_match take_loose s \<noteq> None \<or> py_float_text s \<noteq> None)"
| "looks_like_a_number_spec _ = False"


section \<open>Assigning numbers\<close>

text \<open>The numbering part of an \<open>ActionExecutor\<close>: the occupied ticks, the number of each channel in
  \<open>_channel_by_id\<close> (\<open>PNone\<close> for none), and the numbers assigned in this run.\<close>

record numbering =
  nb_used :: "int set"
  nb_number_of :: "int \<rightharpoonup> pyval"
  nb_assigned :: "int \<rightharpoonup> pyval"

definition new_numbering :: "(int \<times> pyval) list \<Rightarrow> numbering" where
  "new_numbering existing =
     \<lparr>nb_used = fold (\<lambda>(_, number). if number = PNone then id else mark_channel_number_used number) existing {},
      nb_number_of = map_of (rev existing), nb_assigned = Map.empty\<rparr>"

datatype numbering_outcome =
    NoChannel | AlreadyNumbered pyval | WouldSet pyval | NumberSet pyval | UpdateFailed | SearchRaised search_error
  | WouldCreate int pyval | Created int pyval | CreateFailed

text \<open>\<open>set_channel_number\<close>. \<open>updated\<close> says whether Dispatcharr takes the update; the outcome is \<open>None\<close>
  when the search does not end.\<close>

definition execute_set_channel_number ::
  "bool \<Rightarrow> bool \<Rightarrow> int option \<Rightarrow> pyval \<Rightarrow> numbering \<Rightarrow> (numbering_outcome \<times> numbering) option" where
  "execute_set_channel_number dry_run updated current spec st =
     (if current = None \<or> current = Some 0 then Some (NoChannel, st)
      else (let c = the current in
        case nb_assigned st c of
          Some number \<Rightarrow> Some (AlreadyNumbered number, st)
        | None \<Rightarrow>
            (case get_next_channel_number (nb_used st) spec of
               None \<Rightarrow> None
             | Some (Inl e) \<Rightarrow> Some (SearchRaised e, st)
             | Some (Inr number) \<Rightarrow>
                 if dry_run
                 then Some (WouldSet number,
                   st\<lparr>nb_assigned := (nb_assigned st)(c \<mapsto> number),
                      nb_number_of := (if nb_number_of st c = None then nb_number_of st
                                       else (nb_number_of st)(c \<mapsto> number))\<rparr>)
                 else if \<not> updated then Some (UpdateFailed, st)
                 else Some (NumberSet number,
                   st\<lparr>nb_number_of := (if nb_number_of st c = None then nb_number_of st
                                       else (nb_number_of st)(c \<mapsto> number)),
                      nb_used := mark_channel_number_used number (nb_used st),
                      nb_assigned := (nb_assigned st)(c \<mapsto> number)\<rparr>))))"

text \<open>The numbering of \<open>create_channel\<close>, once the executor has decided to create a channel. In a
  dry run the channel gets the simulated id \<open>dry_id\<close>; otherwise \<open>create\<close> is Dispatcharr's answer to a request
  with the number, the id and the number of the new channel, or \<open>None\<close> when it fails.\<close>

definition create_channel_numbering ::
  "bool \<Rightarrow> int \<Rightarrow> (pyval \<Rightarrow> (int \<times> pyval) option) \<Rightarrow> pyval \<Rightarrow> numbering \<Rightarrow> (numbering_outcome \<times> numbering) option" where
  "create_channel_numbering dry_run dry_id create spec st =
     (case get_next_channel_number (nb_used st) spec of
        None \<Rightarrow> None
      | Some (Inl e) \<Rightarrow> Some (SearchRaised e, st)
      | Some (Inr number) \<Rightarrow>
          if dry_run
          then Some (WouldCreate dry_id number,
            st\<lparr>nb_number_of := (nb_number_of st)(dry_id \<mapsto> number),
               nb_used := mark_channel_number_used number (nb_used st)\<rparr>)
          else (case create number of
                  None \<Rightarrow> Some (CreateFailed, st)
                | Some (i, stored) \<Rightarrow> Some (Created i number,
                    st\<lparr>nb_number_of := (nb_number_of st)(i \<mapsto> stored),
                       nb_used := mark_channel_number_used number (nb_used st),
                       nb_assigned := (nb_assigned st)(i \<mapsto> number)\<rparr>)))"

text \<open>The start of the renumbering pass, from the actions of a rule.\<close>

fun get_rule_starting_number :: "(string \<times> pyval) list list \<Rightarrow> int option" where
  "get_rule_starting_number [] = None"
| "get_rule_starting_number (action # actions) =
     (if dict_get action ''type'' \<noteq> PStr ''create_channel'' then get_rule_starting_number actions
      else (case map_of action ''channel_number'' of
              None \<Rightarrow> None
            | Some (PBool b) \<Rightarrow> None
            | Some (PInt n) \<Rightarrow> Some n
            | Some (PFloat (Fin v)) \<Rightarrow> (if v = of_int \<lfloor>v\<rfloor> then Some \<lfloor>v\<rfloor> else None)
            | Some (PFloat f) \<Rightarrow> None
            | Some (PStr s) \<Rightarrow>
                (if s = ''auto'' then None
                 else if CHR ''-'' \<in> set s then py_int_text (takeWhile (\<lambda>c. c \<noteq> CHR ''-'') s)
                 else py_int_text s)
            | _ \<Rightarrow> get_rule_starting_number actions))"

section \<open>What a rule may store is what the executor honours\<close>

lemma lower_digit: "py_is_digit c \<or> c = CHR ''.'' \<Longrightarrow> py_lower_char c = c"
  by (auto simp: py_lower_char_def py_is_digit_def Let_def)

lemma takeWhile_until: "\<forall>c \<in> set xs. P c \<Longrightarrow> \<not> P d \<Longrightarrow> takeWhile P (xs @ d # ys) = xs \<and> dropWhile P (xs @ d # ys) = d # ys"
  by (induction xs) auto

lemma plain_text_split:
  assumes "channel_number_text s"
  obtains (whole) "s \<noteq> []" "\<forall>c \<in> set s. py_is_digit c"
    | (tenths) ip fp where "s = ip @ CHR ''.'' # fp" "ip \<noteq> []" "fp \<noteq> []" "\<forall>c \<in> set (ip @ fp). py_is_digit c"
proof -
  let ?ip = "takeWhile py_is_digit s" and ?rest = "dropWhile py_is_digit s"
  have s: "?ip @ ?rest = s" by (rule takeWhile_dropWhile_id)
  have ip: "?ip \<noteq> []" "\<forall>c \<in> set ?ip. py_is_digit c"
    using assms by (auto simp: channel_number_text_def Let_def dest: set_takeWhileD)
  show ?thesis
  proof (cases "?rest")
    case Nil
    with s ip whole show ?thesis by (metis append_Nil2)
  next
    case (Cons c fp)
    with assms have "c = CHR ''.''" "fp \<noteq> []" "\<forall>d \<in> set fp. py_is_digit d"
      by (simp_all add: channel_number_text_def Let_def)
    with tenths [of ?ip fp] s Cons ip show ?thesis by auto
  qed
qed

lemma plain_chars:
  assumes "channel_number_text s"
  shows "\<forall>c \<in> set s. py_is_digit c \<or> c = CHR ''.''" "py_strip s = s" "py_lower s = s" "split_sign s = (False, s)"
    "s \<noteq> ''inf''" "s \<noteq> ''infinity''" "s \<noteq> ''nan''" "CHR ''e'' \<notin> set s" "CHR ''-'' \<notin> set s"
proof -
  show chars: "\<forall>c \<in> set s. py_is_digit c \<or> c = CHR ''.''"
    using assms by (cases rule: plain_text_split) auto
  have "\<forall>c \<in> set s. \<not> py_is_space c" using chars digit_not_space by (auto simp: py_is_space_def)
  then show "py_strip s = s" by (rule py_strip_no_space)
  show "py_lower s = s" unfolding py_lower_def by (rule map_idI) (use chars lower_digit in blast)
  obtain c t where c: "s = c # t" "py_is_digit c" using assms
    by (cases rule: plain_text_split) (auto simp: neq_Nil_conv)
  then show "split_sign s = (False, s)" "s \<noteq> ''inf''" "s \<noteq> ''infinity''" "s \<noteq> ''nan''"
    by (auto simp: split_sign_def py_is_digit_def)
  show "CHR ''e'' \<notin> set s" "CHR ''-'' \<notin> set s" using chars by (auto simp: py_is_digit_def)
qed

lemma double_of_decimal:
  "double_of (of_nat n * 10 powi (0 - int k)) = (let x = fl (of_nat n / 10 ^ k) in if x < 2 ^ 1024 then Fin x else Inf)"
proof -
  have e: "(of_nat n * 10 powi (0 - int k) :: rat) = of_nat n / 10 ^ k" by (simp add: power_int_minus field_simps)
  have "\<not> fl (of_nat n / 10 ^ k) \<le> - ((2::rat) ^ 1024)"
    using fl_nonneg [of "of_nat n / 10 ^ k"] by (simp add: not_le) (rule less_le_trans [of _ 0], simp_all)
  then show ?thesis unfolding e by (auto simp: double_of_def Let_def)
qed

lemma plain_float_text:
  assumes "channel_number_text s"
  shows "py_float_text s = Some (float_of_text s)"
proof -
  note c = plain_chars [OF assms]
  have noe: "takeWhile (\<lambda>c. c \<noteq> CHR ''e'') s = s" "dropWhile (\<lambda>c. c \<noteq> CHR ''e'') s = []"
    using c(8) by (auto simp: takeWhile_eq_all_conv dropWhile_eq_Nil_conv)
  from assms show ?thesis
  proof (cases rule: plain_text_split)
    case whole
    then have d: "digit_part s" "filter py_is_digit s = s" by (simp_all add: digit_part_digits)
    have "\<forall>x \<in> set s. x \<noteq> CHR ''.''" using whole(2) by (auto simp: py_is_digit_def)
    then have tw: "takeWhile (\<lambda>c. c \<noteq> CHR ''.'') s = s" "dropWhile (\<lambda>c. c \<noteq> CHR ''.'') s = []"
      "takeWhile py_is_digit s = s" "dropWhile py_is_digit s = []"
      using whole(2) by (auto simp: takeWhile_eq_all_conv dropWhile_eq_Nil_conv)
    show ?thesis
      unfolding py_float_text_def c(2-4) prod.case Let_def noe tw float_of_text_def exponent_text_def list.case
      using c(5-7) d whole(1) double_of_decimal [of "digits_value s" 0] by (simp add: signed_def digits_of_def)
  next
    case (tenths ip fp)
    have dot: "\<not> py_is_digit CHR ''.''" by (simp add: py_is_digit_def)
    have nodot: "\<forall>x \<in> set ip. x \<noteq> CHR ''.''" using tenths(4) dot by auto
    have tw: "takeWhile (\<lambda>c. c \<noteq> CHR ''.'') s = ip" "dropWhile (\<lambda>c. c \<noteq> CHR ''.'') s = CHR ''.'' # fp"
      unfolding tenths(1) using takeWhile_until [OF nodot] by auto
    have td: "takeWhile py_is_digit s = ip" "dropWhile py_is_digit s = CHR ''.'' # fp"
      unfolding tenths(1) using takeWhile_until [of ip py_is_digit "CHR ''.''" fp] tenths(4) dot by auto
    have d: "digit_part ip" "digit_part fp" "filter py_is_digit ip = ip" "filter py_is_digit fp = fp"
      using tenths by (simp_all add: digit_part_digits)
    show ?thesis
      unfolding py_float_text_def c(2-4) prod.case Let_def noe tw td float_of_text_def exponent_text_def list.case
      using c(5-7) d tenths(2,3) double_of_decimal [of "digits_value (ip @ fp)" "length fp"]
      by (simp add: signed_def digits_of_def)
  qed
qed


lemma no_dash_no_range:
  assumes "CHR ''-'' \<notin> set s" "\<And>s a r. token s = Some (a, r) \<Longrightarrow> set r \<subseteq> set s"
  shows "range_match token s = None"
proof (rule ccontr)
  assume "range_match token s \<noteq> None"
  then obtain a r t where r: "token (py_lstrip s) = Some (a, r)" "py_lstrip r = CHR ''-'' # t"
    by (auto simp: range_match_def split: option.splits list.splits if_splits)
  have sub: "set (py_lstrip s) \<subseteq> set s" for s by (auto simp: py_lstrip_def dest: set_dropWhileD)
  have "CHR ''-'' \<in> set r" using sub [of r] r(2) by simp
  with assms(2) [OF r(1)] sub [of s] assms(1) show False by blast
qed

lemma take_whole_rest: "take_whole s = Some (a, r) \<Longrightarrow> set r \<subseteq> set s"
  by (auto simp: take_whole_def take_all_def split: if_splits dest: set_dropWhileD)

lemma take_decimal_rest: "take_decimal s = Some (a, r) \<Longrightarrow> set r \<subseteq> set s"
  using take_whole_rest [of s]
  by (auto simp: take_decimal_def split: option.splits if_splits dest!: set_dropWhileD in_set_dropD)

lemma literal_text:
  "channel_number_spec_ticks (PStr s) \<noteq> None \<longleftrightarrow>
     channel_number_text (py_strip s) \<and> is_valid_channel_number (PFloat (float_of_text (py_strip s)))"
proof -
  have "py_strip s \<noteq> []" if "channel_number_text (py_strip s)" using that by (auto simp: channel_number_text_def)
  moreover have "\<exists>t. channel_number_ticks (PFloat f) = Inr t" if "is_valid_channel_number (PFloat f)" for f
    using that by (cases f) auto
  ultimately show ?thesis
    by (auto simp: channel_number_spec_ticks.simps validate_channel_number_def Let_def split: sum.splits; fastforce)
qed

lemma literal_number:
  "is_number spec \<Longrightarrow> channel_number_spec_ticks spec \<noteq> None \<longleftrightarrow> is_valid_channel_number spec"
proof -
  assume n: "is_number spec"
  have "\<exists>t. channel_number_ticks spec = Inr t" if "is_valid_channel_number spec"
    using that by (cases spec rule: is_valid_channel_number.cases) auto
  with n show ?thesis
    by (cases spec) (auto simp: channel_number_spec_ticks.simps split: sum.splits simp del: is_valid_channel_number.simps channel_number_ticks.simps)
qed

text \<open>A specification that reads as a number: a number, text that \<open>float()\<close> takes, or a range of
  unsigned decimals.\<close>

definition reads_as_number :: "pyval \<Rightarrow> bool" where
  "reads_as_number spec \<longleftrightarrow> is_number spec \<or>
     (\<exists>s. spec = PStr s \<and> (py_float_text (py_strip s) \<noteq> None \<or> range_match take_decimal (py_strip s) \<noteq> None))"

definition honoured :: "pyval \<Rightarrow> bool" where
  "honoured spec \<longleftrightarrow> channel_number_spec_ticks spec \<noteq> None \<or>
     (\<exists>s. spec = PStr s \<and> (py_strip s = ''auto'' \<or> range_match take_whole (py_strip s) \<noteq> None))"

lemma accepted_specs:
  "validate_channel_number_spec spec = [] \<longleftrightarrow> honoured spec \<or> \<not> reads_as_number spec"
proof (cases "\<exists>s. spec = PStr s")
  case True
  then obtain s where s: "spec = PStr s" by blast
  let ?t = "py_strip s"
  show ?thesis
  proof (cases "channel_number_text ?t")
    case True
    note c = plain_chars [OF True]
    have "range_match take_whole ?t = None" "range_match take_decimal ?t = None"
      using no_dash_no_range [OF c(9)] take_whole_rest take_decimal_rest by blast+
    moreover have "?t \<noteq> ''auto''" using c(1) by (auto simp: py_is_digit_def)
    ultimately show ?thesis
      using True plain_float_text [OF True] literal_text [of s] by (auto simp: s honoured_def reads_as_number_def)
  next
    case False
    then show ?thesis using literal_text [of s]
      by (auto simp: s honoured_def reads_as_number_def Let_def split: option.splits)
  qed
next
  case False
  then show ?thesis using literal_number [of spec]
    by (cases spec) (auto simp: honoured_def reads_as_number_def simp del: is_valid_channel_number.simps)
qed

text \<open>C31. What a rule may store is what the executor honours. Validation refuses a specification
  exactly when it reads as a number or a range and the executor would not honour it as written: it is
  neither a number in contract, plain decimal text in contract, a range of whole numbers, nor
  \<open>auto\<close>.\<close>

theorem stored_specs_are_honoured:
  "validate_channel_number_spec spec \<noteq> [] \<longleftrightarrow> reads_as_number spec \<and> \<not> honoured spec"
  using accepted_specs [of spec] by blast


section \<open>No number is assigned twice\<close>

lemma next_free_sound:
  assumes "next_free_number_from_ticks used tick step = Some r"
  shows "case r of Inr v \<Rightarrow> \<exists>t. channel_number_ticks v = Inr t \<and> t \<notin> used | Inl _ \<Rightarrow> True"
  using assms
proof (induction rule: next_free_number_from_ticks.raw_induct [rotated, consumes 1, case_names step])
  case (step search used tick n r)
  from step(1) have "\<exists>t. channel_number_ticks v = Inr t \<and> t \<notin> u" if "search u a b = Some (Inr v)" for u a b v
    using that by fastforce
  with step(2) show ?case
    by (auto simp: is_channel_number_used_def split: sum.splits if_splits)
qed

lemma next_number_sound:
  assumes "get_next_channel_number used spec = Some (Inr v)"
  shows "\<exists>t. channel_number_ticks v = Inr t \<and> t \<notin> used"
proof -
  note sound = next_free_sound [of used _ _ "Inr v", simplified]
  have "\<exists>t. channel_number_ticks v = Inr t \<and> t \<notin> used" if r: "range_number used b = Some (Inr v)" for b
    using r find_upto [where P = "\<lambda>n. n * ticks_per_unit \<notin> used"]
    by (auto simp: range_number_def split: option.splits dest: sound) (metis (no_types, lifting) option.simps(5))
  with assms sound show ?thesis
    by (auto simp: get_next_channel_number_def automatic_number_def split: option.splits pyval.splits if_splits)
qed

inductive numbered_run :: "(int \<times> pyval) list \<Rightarrow> numbering \<Rightarrow> bool" for existing where
  start: "numbered_run existing (new_numbering existing)"
| set_number: "numbered_run existing st \<Longrightarrow>
    execute_set_channel_number False updated current spec st = Some (r, st') \<Longrightarrow> numbered_run existing st'"
| create: "numbered_run existing st \<Longrightarrow>
    (\<And>n i m. create n = Some (i, m) \<Longrightarrow> channel_number_ticks m = channel_number_ticks n) \<Longrightarrow>
    create_channel_numbering False dry_id create spec st = Some (r, st') \<Longrightarrow> numbered_run existing st'"

text \<open>The state after channel \<open>c\<close> has been given the free number \<open>v\<close>, stored as \<open>m\<close>.\<close>

definition numbered_state :: "numbering \<Rightarrow> bool" where
  "numbered_state st \<longleftrightarrow>
     (\<forall>c v t. nb_number_of st c = Some v \<longrightarrow> channel_number_ticks v = Inr t \<longrightarrow> t \<in> nb_used st) \<and>
     (\<forall>c v. nb_assigned st c = Some v \<longrightarrow> (\<exists>t \<in> nb_used st. channel_number_ticks v = Inr t)) \<and>
     (\<forall>c d v w. nb_assigned st c = Some v \<longrightarrow> nb_number_of st d = Some w \<longrightarrow> c \<noteq> d \<longrightarrow>
        channel_number_ticks v \<noteq> channel_number_ticks w) \<and>
     (\<forall>c d v w. nb_assigned st c = Some v \<longrightarrow> nb_assigned st d = Some w \<longrightarrow> c \<noteq> d \<longrightarrow>
        channel_number_ticks v \<noteq> channel_number_ticks w)"

lemma used_fold:
  "nb_used (new_numbering ex) = {t. \<exists>c v. (c, v) \<in> set ex \<and> channel_number_ticks v = Inr t}"
proof -
  have "fold (\<lambda>(_, number). if number = PNone then id else mark_channel_number_used number) ex used =
      used \<union> {t. \<exists>c v. (c, v) \<in> set ex \<and> channel_number_ticks v = Inr t}" for used
  proof (induction ex arbitrary: used)
    case (Cons p ex)
    obtain c v where "p = (c, v)" by (cases p)
    then show ?case using Cons
      by (cases "channel_number_ticks v") (auto simp: mark_channel_number_used_def)
  qed simp
  then show ?thesis by (simp add: new_numbering_def)
qed

lemma numbered_assign:
  assumes "numbered_state st" "channel_number_ticks v = Inr t" "t \<notin> nb_used st"
    "numbers = nb_number_of st \<or> (\<exists>m. numbers = (nb_number_of st)(c \<mapsto> m) \<and> channel_number_ticks m = Inr t)"
  shows "numbered_state (st\<lparr>nb_number_of := numbers, nb_used := mark_channel_number_used v (nb_used st),
    nb_assigned := (nb_assigned st)(c \<mapsto> v)\<rparr>)"
proof -
  have "mark_channel_number_used v (nb_used st) = insert t (nb_used st)"
    using assms(2) by (simp add: mark_channel_number_used_def)
  with assms show ?thesis
    unfolding numbered_state_def by (elim disjE exE conjE) (simp_all; force)+
qed


lemma set_number_effect:
  assumes "execute_set_channel_number False updated current spec st = Some (r, st')"
  shows "st' = st \<or> (\<exists>c v. get_next_channel_number (nb_used st) spec = Some (Inr v) \<and>
    st' = st\<lparr>nb_number_of := (if nb_number_of st c = None then nb_number_of st else (nb_number_of st)(c \<mapsto> v)),
      nb_used := mark_channel_number_used v (nb_used st), nb_assigned := (nb_assigned st)(c \<mapsto> v)\<rparr>)"
proof (cases "current = None \<or> current = Some 0 \<or> nb_assigned st (the current) \<noteq> None \<or> \<not> updated")
  case True
  with assms show ?thesis
    by (auto simp: execute_set_channel_number_def Let_def split: option.splits sum.splits if_split_asm)
next
  case False
  then obtain c where c: "current = Some c" "c \<noteq> 0" "nb_assigned st c = None" "updated" by (cases current) auto
  show ?thesis
  proof (cases "\<exists>v. get_next_channel_number (nb_used st) spec = Some (Inr v)")
    case True
    with assms c show ?thesis by (intro disjI2 exI [of _ c]) (auto simp: execute_set_channel_number_def)
  next
    case False
    with assms c show ?thesis by (auto simp: execute_set_channel_number_def split: option.splits sum.splits)
  qed
qed

lemma run_numbered: "numbered_run existing st \<Longrightarrow> numbered_state st"
proof (induction rule: numbered_run.induct)
  case start
  have "(c, v) \<in> set existing" if "nb_number_of (new_numbering existing) c = Some v" for c v
    using that by (auto simp: new_numbering_def dest: map_of_SomeD)
  then show ?case unfolding numbered_state_def used_fold by (auto simp: new_numbering_def)
next
  case (set_number st updated current spec r st')
  then show ?case
  proof (cases "st' = st")
    case False
    with set_number_effect [OF set_number.hyps(2)] obtain c v where v: "get_next_channel_number (nb_used st) spec = Some (Inr v)"
      "st' = st\<lparr>nb_number_of := (if nb_number_of st c = None then nb_number_of st else (nb_number_of st)(c \<mapsto> v)),
        nb_used := mark_channel_number_used v (nb_used st), nb_assigned := (nb_assigned st)(c \<mapsto> v)\<rparr>"
      by blast
    obtain t where "channel_number_ticks v = Inr t" "t \<notin> nb_used st" using next_number_sound [OF v(1)] by blast
    then show ?thesis unfolding v(2) by (intro numbered_assign [OF set_number.IH]) auto
  qed simp
next
  case (create st create dry_id spec r st')
  then show ?case
  proof (cases "st' = st")
    case False
    with create.hyps(3) obtain v i m where v: "get_next_channel_number (nb_used st) spec = Some (Inr v)"
      "create v = Some (i, m)"
      "st' = st\<lparr>nb_number_of := (nb_number_of st)(i \<mapsto> m),
        nb_used := mark_channel_number_used v (nb_used st), nb_assigned := (nb_assigned st)(i \<mapsto> v)\<rparr>"
      by (auto simp: create_channel_numbering_def split: option.splits sum.splits)
    obtain t where "channel_number_ticks v = Inr t" "t \<notin> nb_used st" using next_number_sound [OF v(1)] by blast
    with create.hyps(2) [OF v(2)] show ?thesis unfolding v(3) by (intro numbered_assign [OF create.IH]) auto
  qed simp
qed

text \<open>C30. No number is assigned twice. In every state that a run reaches through \<open>set_channel_number\<close> and
  \<open>create_channel\<close>, with any specifications and with updates and creations that fail, a channel that was
  numbered in this run sits on a slot of its own: no other channel was assigned that slot, and no other
  channel the executor knows of holds it.\<close>

theorem assigned_numbers_are_exclusive:
  assumes "numbered_run existing st" "nb_assigned st c = Some v" "c \<noteq> d"
    "nb_assigned st d = Some w \<or> nb_number_of st d = Some w"
  shows "\<exists>t. channel_number_ticks v = Inr t \<and> channel_number_ticks w \<noteq> Inr t"
  using run_numbered [OF assms(1)] assms(2-4) unfolding numbered_state_def by metis

section \<open>A preview and the run it previews\<close>

text \<open>A preview hands out the same number again. When two channels get a number by the same
  specification, the run gives them two different slots, but the preview announces the same number for
  both, because a previewed number is not recorded as taken.\<close>

theorem preview_repeats_a_number:
  assumes "finite (nb_used st)" "spec_in_reach spec" "c \<noteq> 0" "d \<noteq> 0" "c \<noteq> d"
    "nb_assigned st c = None" "nb_assigned st d = None"
  shows "\<exists>v w st1 st2 st3 st4 t u.
    execute_set_channel_number True True (Some c) spec st = Some (WouldSet v, st1) \<and>
    execute_set_channel_number True True (Some d) spec st1 = Some (WouldSet v, st2) \<and>
    execute_set_channel_number False True (Some c) spec st = Some (NumberSet v, st3) \<and>
    execute_set_channel_number False True (Some d) spec st3 = Some (NumberSet w, st4) \<and>
    channel_number_ticks v = Inr t \<and> channel_number_ticks w = Inr u \<and> t \<noteq> u"
proof -
  obtain v t where v: "get_next_channel_number (nb_used st) spec = Some (Inr v)" "channel_number_ticks v = Inr t"
    using next_number_first_free [OF assms(1,2)] by blast
  have "finite (insert t (nb_used st))" using assms(1) by simp
  from next_number_first_free [OF this assms(2)] obtain w u where
    w: "get_next_channel_number (insert t (nb_used st)) spec = Some (Inr w)" "channel_number_ticks w = Inr u"
      "u \<notin> insert t (nb_used st)" by (auto simp: first_free_def)
  show ?thesis
    using v w assms(3-7) by (intro exI [of _ v] exI [of _ w])
      (simp add: execute_set_channel_number_def mark_channel_number_used_def Let_def)
qed

text \<open>A channel that was just created keeps its number in a run: a following \<open>set_channel_number\<close> is
  skipped. The preview of the same two actions announces a second number.\<close>

lemma preview_renumbers_a_created_channel:
  assumes "get_next_channel_number (nb_used st) spec = Some (Inr v)" "create v = Some (i, m)" "i \<noteq> 0"
    "get_next_channel_number (mark_channel_number_used v (nb_used st)) spec' = Some (Inr w)"
    "dry_id \<noteq> 0" "nb_assigned st dry_id = None"
  shows "\<exists>st1 st2. create_channel_numbering True dry_id create spec st = Some (WouldCreate dry_id v, st1) \<and>
           execute_set_channel_number True True (Some dry_id) spec' st1 = Some (WouldSet w, st2)"
    "\<exists>st1. create_channel_numbering False dry_id create spec st = Some (Created i v, st1) \<and>
           execute_set_channel_number False True (Some i) spec' st1 = Some (AlreadyNumbered v, st1)"
  using assms by (simp_all add: create_channel_numbering_def execute_set_channel_number_def Let_def)


section \<open>Examples\<close>

lemma stored_text_examples:
  "validate_channel_number_spec (PStr ''-1-5'') = []" "looks_like_a_number_spec (PStr ''-1-5'')"
  "get_next_channel_number used (PStr ''-1-5'') = automatic_number used"
  "get_rule_starting_number [[(''type'', PStr ''create_channel''), (''channel_number'', PStr ''800.0'')]] = None"
  "get_rule_starting_number [[(''type'', PStr ''create_channel''), (''channel_number'', PStr ''500 - 999'')]] = Some 500"
  by code_simp+

definition sample_numbering :: numbering where
  "sample_numbering = new_numbering [(2, PInt 7)]"

definition sample_numbered :: numbering where
  "sample_numbered = sample_numbering\<lparr>nb_used := {10, 70}, nb_assigned := [1 \<mapsto> PInt 1]\<rparr>"

lemma sample_used: "nb_used sample_numbering = {70}" "nb_number_of sample_numbering = [2 \<mapsto> PInt 7]"
    "nb_assigned sample_numbering = Map.empty"
  by (simp_all add: sample_numbering_def new_numbering_def mark_channel_number_used_def ticks_per_unit_def)

lemma sample_assignment_run: "numbered_run [(2, PInt 7)] sample_numbered"
proof (rule numbered_run.set_number)
  show "numbered_run [(2, PInt 7)] sample_numbering" unfolding sample_numbering_def by (rule numbered_run.start)
  have "get_next_channel_number {70} (PInt 1) = Some (Inr (PInt 1))"
    using whole_literal [of 1]
    by (simp add: get_next_channel_number_def next_free_number_from_ticks.simps channel_number_from_ticks_def
        ticks_per_unit_def is_channel_number_used_def)
  then show "execute_set_channel_number False True (Some 1) (PInt 1) sample_numbering = Some (NumberSet (PInt 1), sample_numbered)"
    by (simp add: execute_set_channel_number_def sample_used sample_numbered_def mark_channel_number_used_def ticks_per_unit_def
        insert_commute)
qed

lemma assigned_numbers_are_exclusive_witness:
  "numbered_run [(2, PInt 7)] sample_numbered \<and> nb_assigned sample_numbered 1 = Some (PInt 1) \<and>
   (\<exists>t. channel_number_ticks (PInt 1) = Inr t \<and> channel_number_ticks (PInt 7) \<noteq> Inr t)"
  using assigned_numbers_are_exclusive [OF sample_assignment_run, of 1 "PInt 1" 2 "PInt 7"] sample_assignment_run
  by (simp add: sample_numbered_def sample_used)

lemma preview_repeats_a_number_witness:
  "\<exists>v w st1 st2 st3 st4 t u.
    execute_set_channel_number True True (Some 1) (PInt 7) sample_numbering = Some (WouldSet v, st1) \<and>
    execute_set_channel_number True True (Some 2) (PInt 7) st1 = Some (WouldSet v, st2) \<and>
    execute_set_channel_number False True (Some 1) (PInt 7) sample_numbering = Some (NumberSet v, st3) \<and>
    execute_set_channel_number False True (Some 2) (PInt 7) st3 = Some (NumberSet w, st4) \<and>
    channel_number_ticks v = Inr t \<and> channel_number_ticks w = Inr u \<and> t \<noteq> u"
  by (rule preview_repeats_a_number) (simp_all add: sample_used whole_literal_in_reach)

end
