(* ===== verification/Schedule.thy ===== *)
theory Schedule
  imports NumberSearch
begin

text \<open>
  \<open>schedule_calculator.py\<close>: the next run of a scheduled task. A local wall time is a calendar date with the
  microseconds since midnight; wall times of one time zone are compared and moved by whole days without
  regard to the zone, as aware \<open>datetime\<close> values of Python are. The conversion to UTC, which needs the time-zone
  database, is an argument. The calendar is the proleptic Gregorian one without its end in the year 9999.
\<close>

section \<open>The calendar\<close>

record local_time =
  lt_year :: int
  lt_month :: int
  lt_day :: int
  lt_micros :: int

definition is_leap :: "int \<Rightarrow> bool" where
  "is_leap y \<longleftrightarrow> y mod 4 = 0 \<and> (y mod 100 \<noteq> 0 \<or> y mod 400 = 0)"

definition days_in_month :: "int \<Rightarrow> int \<Rightarrow> int" where
  "days_in_month y m = (if m = 2 then (if is_leap y then 29 else 28) else if m \<in> {4, 6, 9, 11} then 30 else 31)"

definition days_before_year :: "int \<Rightarrow> int" where
  "days_before_year y = (let p = y - 1 in p * 365 + p div 4 - p div 100 + p div 400)"

definition days_before_month :: "int \<Rightarrow> int \<Rightarrow> int" where
  "days_before_month y m = sum_list (map (days_in_month y) [1..m - 1])"

definition toordinal :: "local_time \<Rightarrow> int" where
  "toordinal t = days_before_year (lt_year t) + days_before_month (lt_year t) (lt_month t) + lt_day t"

definition next_month :: "int \<times> int \<Rightarrow> int \<times> int" where
  "next_month ym = (case ym of (y, m) \<Rightarrow> if m + 1 > 12 then (y + 1, 1) else (y, m + 1))"

definition next_day :: "local_time \<Rightarrow> local_time" where
  "next_day t =
     (if lt_day t < days_in_month (lt_year t) (lt_month t) then t\<lparr>lt_day := lt_day t + 1\<rparr>
      else (case next_month (lt_year t, lt_month t) of (y, m) \<Rightarrow> t\<lparr>lt_year := y, lt_month := m, lt_day := 1\<rparr>))"

text \<open>\<open>t + timedelta(days=n)\<close> for the non-negative \<open>n\<close> the module uses.\<close>

definition add_days :: "int \<Rightarrow> local_time \<Rightarrow> local_time" where
  "add_days n t = (next_day ^^ nat n) t"

definition day_micros :: int where
  "day_micros = 86400 * 10 ^ 6"

text \<open>The position of a wall time on the time line of its zone; the order of \<open>datetime\<close> values.\<close>

definition wall :: "local_time \<Rightarrow> int" where
  "wall t = toordinal t * day_micros + lt_micros t"

text \<open>\<open>t.weekday()\<close>, Monday is 0, and \<open>t.isocalendar()[1]\<close>.\<close>

definition py_weekday :: "local_time \<Rightarrow> int" where
  "py_weekday t = (toordinal t + 6) mod 7"

definition week1_monday :: "int \<Rightarrow> int" where
  "week1_monday y =
     (let first = days_before_year y + 1; weekday = (first + 6) mod 7; monday = first - weekday in
      if weekday > 3 then monday + 7 else monday)"

definition iso_week :: "local_time \<Rightarrow> int" where
  "iso_week t =
     (let today = toordinal t; week = (today - week1_monday (lt_year t)) div 7 in
      if week < 0 then (today - week1_monday (lt_year t - 1)) div 7 + 1
      else if week \<ge> 52 \<and> today \<ge> week1_monday (lt_year t + 1) then 1
      else week + 1)"

section \<open>The next run\<close>

datatype schedule_error = ScheduleValueError

text \<open>\<open>hour, minute = map(int, schedule_time.split(":"))\<close>; \<open>None\<close> is the \<open>ValueError\<close> the callers catch.\<close>

definition parse_time :: "string \<Rightarrow> (int \<times> int) option" where
  "parse_time s =
     (let hour = takeWhile (\<lambda>c. c \<noteq> CHR '':'') s; rest = dropWhile (\<lambda>c. c \<noteq> CHR '':'') s in
      if rest = [] \<or> CHR '':'' \<in> set (drop 1 rest) then None
      else (case (py_int_text hour, py_int_text (drop 1 rest)) of
              (Some h, Some m) \<Rightarrow> Some (h, m)
            | _ \<Rightarrow> None))"

text \<open>\<open>now.replace(hour=..., minute=..., second=0, microsecond=0)\<close> raises for a time that does not exist.\<close>

definition replace_time :: "local_time \<Rightarrow> int \<times> int \<Rightarrow> (schedule_error, local_time) result" where
  "replace_time t hm = (case hm of (h, m) \<Rightarrow>
     if 0 \<le> h \<and> h < 24 \<and> 0 \<le> m \<and> m < 60 then returns (t\<lparr>lt_micros := (h * 60 + m) * 60 * 10 ^ 6\<rparr>)
     else raises ScheduleValueError)"

definition replace_date :: "local_time \<Rightarrow> int \<Rightarrow> int \<Rightarrow> int \<Rightarrow> (schedule_error, local_time) result" where
  "replace_date t y m d =
     (if 1 \<le> d \<and> d \<le> days_in_month y m then returns (t\<lparr>lt_year := y, lt_month := m, lt_day := d\<rparr>)
      else raises ScheduleValueError)"

definition calculate_interval_next_run :: "int option \<Rightarrow> int option \<Rightarrow> int \<Rightarrow> int option" where
  "calculate_interval_next_run interval_seconds last_run now_utc =
     (case interval_seconds of
        None \<Rightarrow> None
      | Some n \<Rightarrow>
          if n \<le> 0 then None
          else (case last_run of
                  None \<Rightarrow> Some (now_utc + n * 10 ^ 6)
                | Some prior \<Rightarrow>
                    (let next_run = prior + n * 10 ^ 6 in
                     Some (if next_run \<le> now_utc then now_utc + n * 10 ^ 6 else next_run))))"

text \<open>The time of day of a schedule: nothing without one, nothing for malformed text.\<close>

definition scheduled_time :: "string option \<Rightarrow> (int \<times> int) option" where
  "scheduled_time schedule_time =
     (case schedule_time of None \<Rightarrow> None | Some s \<Rightarrow> if s = [] then None else parse_time s)"

definition calculate_daily_next_run ::
  "string option \<Rightarrow> local_time \<Rightarrow> (schedule_error, local_time option) result" where
  "calculate_daily_next_run schedule_time now =
     (case scheduled_time schedule_time of
        None \<Rightarrow> returns None
      | Some hm \<Rightarrow>
          bind_result (replace_time now hm) (\<lambda>target.
            returns (Some (if wall target \<le> wall now then add_days 1 target else target))))"

text \<open>The loop over the listed days: days of the week count from Sunday.\<close>

definition sunday_weekday :: "local_time \<Rightarrow> int" where
  "sunday_weekday t = (py_weekday t + 1) mod 7"

definition day_target :: "local_time \<Rightarrow> local_time \<Rightarrow> int \<Rightarrow> local_time option" where
  "day_target now target day =
     (let days_ahead = (day - sunday_weekday now) mod 7; t = add_days days_ahead target in
      if days_ahead = 0 \<and> wall t \<le> wall now then None else Some t)"

definition best_day :: "local_time \<Rightarrow> local_time \<Rightarrow> int list \<Rightarrow> local_time option" where
  "best_day now target days = scan_best (lower_key wall) (List.map_filter (day_target now target) (sort days)) None"

definition calculate_weekly_next_run ::
  "string option \<Rightarrow> local_time \<Rightarrow> int list \<Rightarrow> (schedule_error, local_time option) result" where
  "calculate_weekly_next_run schedule_time now days =
     (case (if days = [] then None else scheduled_time schedule_time) of
        None \<Rightarrow> returns None
      | Some hm \<Rightarrow>
          bind_result (replace_time now hm) (\<lambda>target.
            returns (case best_day now target days of
              Some t \<Rightarrow> Some t
            | None \<Rightarrow>
                (let days_ahead = (Min (set days) - sunday_weekday now) mod 7 in
                 Some (add_days (if days_ahead = 0 then 7 else days_ahead) target)))))"

definition calculate_biweekly_next_run ::
  "string option \<Rightarrow> local_time \<Rightarrow> int list \<Rightarrow> int option \<Rightarrow> (schedule_error, local_time option) result" where
  "calculate_biweekly_next_run schedule_time now days week_parity =
     (case (if days = [] then None else scheduled_time schedule_time) of
        None \<Rightarrow> returns None
      | Some hm \<Rightarrow>
          (let current_parity = iso_week now mod 2;
               parity = (case week_parity of None \<Rightarrow> current_parity | Some p \<Rightarrow> p);
               our_week = (current_parity = parity) in
           bind_result (replace_time now hm) (\<lambda>target.
             returns (case (if our_week then best_day now target days else None) of
               Some t \<Rightarrow> Some t
             | None \<Rightarrow>
                 (let days_to_next_week = (if our_week then 7 - sunday_weekday now + 7 else 7 - sunday_weekday now) in
                  Some (add_days (days_to_next_week + Min (set days)) target))))))"

definition get_actual_day :: "int \<Rightarrow> int \<Rightarrow> int \<Rightarrow> int" where
  "get_actual_day day_of_month y m =
     (if day_of_month = - 1 then days_in_month y m else min day_of_month (days_in_month y m))"

definition month_target ::
  "local_time \<Rightarrow> int \<times> int \<Rightarrow> int \<Rightarrow> int \<times> int \<Rightarrow> (schedule_error, local_time) result" where
  "month_target now hm day_of_month ym =
     (case ym of (y, m) \<Rightarrow>
        bind_result (replace_date now y m (get_actual_day day_of_month y m)) (\<lambda>t. replace_time t hm))"

definition calculate_monthly_next_run ::
  "string option \<Rightarrow> local_time \<Rightarrow> int option \<Rightarrow> (schedule_error, local_time option) result" where
  "calculate_monthly_next_run schedule_time now day_of_month =
     (case day_of_month of
        None \<Rightarrow> returns None
      | Some wanted \<Rightarrow>
          (case scheduled_time schedule_time of
             None \<Rightarrow> returns None
           | Some hm \<Rightarrow>
               (let ym = (lt_year now, lt_month now);
                    (ym', this) = (case month_target now hm wanted ym of
                                     Inr t \<Rightarrow> (ym, returns t)
                                   | Inl _ \<Rightarrow> (next_month ym, month_target now hm wanted (next_month ym))) in
                bind_result this (\<lambda>t.
                  if wall t \<le> wall now
                  then bind_result (month_target now hm wanted (next_month ym')) (\<lambda>t. returns (Some t))
                  else returns (Some t)))))"

datatype schedule =
    Interval "int option" | Daily "string option" | Weekly "string option" "int list"
  | Biweekly "string option" "int list" "int option" | Monthly "string option" "int option" | UnknownSchedule string

definition calculate_next_run ::
  "(local_time \<Rightarrow> int) \<Rightarrow> schedule \<Rightarrow> int option \<Rightarrow> int \<Rightarrow> local_time \<Rightarrow> (schedule_error, int option) result" where
  "calculate_next_run to_utc sch last_run now_utc now =
     (let convert = (\<lambda>r. bind_result r (\<lambda>t. returns (map_option to_utc t))) in
      case sch of
        Interval n \<Rightarrow> returns (calculate_interval_next_run n last_run now_utc)
      | Daily s \<Rightarrow> convert (calculate_daily_next_run s now)
      | Weekly s days \<Rightarrow> convert (calculate_weekly_next_run s now days)
      | Biweekly s days parity \<Rightarrow> convert (calculate_biweekly_next_run s now days parity)
      | Monthly s day \<Rightarrow> convert (calculate_monthly_next_run s now day)
      | UnknownSchedule _ \<Rightarrow> returns None)"

definition get_seconds_until :: "int option \<Rightarrow> int \<Rightarrow> int option" where
  "get_seconds_until next_run now_utc =
     map_option (\<lambda>t. max 0 (if t < now_utc then - ((now_utc - t) div 10 ^ 6) else (t - now_utc) div 10 ^ 6)) next_run"

section \<open>The calendar is consistent\<close>

definition valid_local :: "local_time \<Rightarrow> bool" where
  "valid_local t \<longleftrightarrow> 1 \<le> lt_month t \<and> lt_month t \<le> 12 \<and> 1 \<le> lt_day t \<and>
     lt_day t \<le> days_in_month (lt_year t) (lt_month t) \<and> 0 \<le> lt_micros t \<and> lt_micros t < day_micros"

lemma days_in_month_bounds: "28 \<le> days_in_month y m" "days_in_month y m \<le> 31"
  by (simp_all add: days_in_month_def)

lemma div_step:
  fixes y k :: int
  assumes "0 < k"
  shows "y div k = (y - 1) div k + (if y mod k = 0 then 1 else 0)"
proof -
  define q r where "q = y div k" and "r = y mod k"
  have y: "y = k * q + r" "0 \<le> r" "r < k" using assms by (simp_all add: q_def r_def)
  show ?thesis
  proof (cases "r = 0")
    case True
    have "(y - 1) div k = q - 1" by (rule int_div_pos_eq [of _ _ _ "k - 1"]) (use y True assms in \<open>auto simp: algebra_simps\<close>)
    with True show ?thesis by (simp add: q_def r_def)
  next
    case False
    have "(y - 1) div k = q" by (rule int_div_pos_eq [of _ _ _ "r - 1"]) (use y False in auto)
    with False show ?thesis by (simp add: q_def r_def)
  qed
qed

lemma leap_sum:
  fixes y a b c :: int
  assumes "C \<Longrightarrow> B" "B \<Longrightarrow> A"
  shows "y * 365 + (a + (if A then 1 else 0)) - (b + (if B then 1 else 0)) + (c + (if C then 1 else 0)) =
    (y - 1) * 365 + a - b + c + (if A \<and> (\<not> B \<or> C) then 366 else 365)"
  using assms by auto

lemma days_before_next_year: "days_before_year (y + 1) = days_before_year y + (if is_leap y then 366 else 365)"
proof -
  have "y mod 100 = 0" if "y mod 400 = 0" using that dvd_trans [of 100 400 y] by (simp flip: dvd_eq_mod_eq_0)
  moreover have "y mod 4 = 0" if "y mod 100 = 0" using that dvd_trans [of 4 100 y] by (simp flip: dvd_eq_mod_eq_0)
  ultimately have "y * 365 + y div 4 - y div 100 + y div 400 =
      (y - 1) * 365 + (y - 1) div 4 - (y - 1) div 100 + (y - 1) div 400 +
      (if y mod 4 = 0 \<and> (y mod 100 \<noteq> 0 \<or> y mod 400 = 0) then 366 else 365)"
    unfolding div_step [OF zero_less_numeral, of y] by (rule leap_sum)
  then show ?thesis by (simp only: days_before_year_def Let_def add_diff_cancel_right' is_leap_def)
qed

lemma days_before_next_month: "1 \<le> m \<Longrightarrow> days_before_month y (m + 1) = days_before_month y m + days_in_month y m"
  by (simp add: days_before_month_def upto_rec2)

lemma days_in_year: "days_before_month y 12 + days_in_month y 12 = (if is_leap y then 366 else 365)"
  by (simp add: days_before_month_def upto.simps days_in_month_def)

text \<open>The day before the first of a month; the next month starts after the days of this one.\<close>

definition month_start :: "int \<times> int \<Rightarrow> int" where
  "month_start ym = days_before_year (fst ym) + days_before_month (fst ym) (snd ym)"

lemma next_month_start:
  assumes "1 \<le> m" "m \<le> 12"
  shows "month_start (next_month (y, m)) = month_start (y, m) + days_in_month y m"
proof (cases "m = 12")
  case True
  then show ?thesis using days_in_year [of y] days_before_next_year [of y]
    by (simp add: month_start_def next_month_def) (simp add: days_before_month_def)
next
  case False
  with assms show ?thesis by (simp add: month_start_def next_month_def days_before_next_month)
qed

lemma next_month_valid: "1 \<le> m \<Longrightarrow> m \<le> 12 \<Longrightarrow> 1 \<le> snd (next_month (y, m)) \<and> snd (next_month (y, m)) \<le> 12"
  by (simp add: next_month_def)

lemma toordinal_eq: "toordinal t = month_start (lt_year t, lt_month t) + lt_day t"
  by (simp add: toordinal_def month_start_def)

lemma next_day_facts:
  assumes "valid_local t"
  shows "toordinal (next_day t) = toordinal t + 1" "valid_local (next_day t)" "lt_micros (next_day t) = lt_micros t"
proof -
  obtain y m where ym: "next_month (lt_year t, lt_month t) = (y, m)" by fastforce
  have m: "1 \<le> lt_month t" "lt_month t \<le> 12" "lt_day t \<le> days_in_month (lt_year t) (lt_month t)"
    using assms by (simp_all add: valid_local_def)
  from next_month_start [OF m(1,2), of "lt_year t"] next_month_valid [OF m(1,2), of "lt_year t"] ym
  have n: "month_start (y, m) = month_start (lt_year t, lt_month t) + days_in_month (lt_year t) (lt_month t)"
    "1 \<le> m" "m \<le> 12" by simp_all
  then show "toordinal (next_day t) = toordinal t + 1" using m by (simp add: next_day_def ym toordinal_eq)
  show "valid_local (next_day t)" "lt_micros (next_day t) = lt_micros t"
    using assms n days_in_month_bounds(1) [of y m] by (auto simp: next_day_def ym valid_local_def)
qed

lemma add_days_facts:
  assumes "valid_local t"
  shows "toordinal (add_days n t) = toordinal t + max n 0" "valid_local (add_days n t)"
    "lt_micros (add_days n t) = lt_micros t"
proof -
  have "toordinal ((next_day ^^ k) t) = toordinal t + int k \<and> valid_local ((next_day ^^ k) t) \<and>
      lt_micros ((next_day ^^ k) t) = lt_micros t" for k
    using assms by (induction k) (auto simp: next_day_facts)
  from this [of "nat n"] show "toordinal (add_days n t) = toordinal t + max n 0" "valid_local (add_days n t)"
    "lt_micros (add_days n t) = lt_micros t" by (auto simp: add_days_def)
qed

lemma replace_time_facts:
  assumes "replace_time t hm = Inr target" "valid_local t"
  shows "valid_local target" "toordinal target = toordinal t" "lt_year target = lt_year t" "lt_month target = lt_month t"
    "0 \<le> lt_micros target" "lt_micros target < day_micros"
    "lt_micros target = (fst hm * 60 + snd hm) * 60 * 10 ^ 6"
proof -
  obtain h m where hm: "hm = (h, m)" by (cases hm)
  with assms(1) have t: "target = t\<lparr>lt_micros := (h * 60 + m) * 60 * 10 ^ 6\<rparr>" "0 \<le> h" "h < 24" "0 \<le> m" "m < 60"
    by (auto simp: replace_time_def split: if_splits)
  then show "valid_local target" "toordinal target = toordinal t" "lt_year target = lt_year t" "lt_month target = lt_month t"
    "0 \<le> lt_micros target" "lt_micros target < day_micros" "lt_micros target = (fst hm * 60 + snd hm) * 60 * 10 ^ 6"
    using assms(2) hm by (auto simp: valid_local_def toordinal_def day_micros_def)
qed

lemma sunday_weekday_eq: "sunday_weekday t = toordinal t mod 7"
  unfolding sunday_weekday_def py_weekday_def by presburger

lemma wall_less: "0 \<le> a \<Longrightarrow> a < day_micros \<Longrightarrow> 0 \<le> b \<Longrightarrow> b < day_micros \<Longrightarrow>
    m * day_micros + a < n * day_micros + b \<longleftrightarrow> m < n \<or> m = n \<and> a < b" for m n :: int
proof -
  assume ab: "0 \<le> a" "a < day_micros" "0 \<le> b" "b < day_micros"
  have "m * day_micros + a < n * day_micros + b" if "m < n"
  proof -
    have "(m + 1) * day_micros \<le> n * day_micros" using that ab by (intro mult_right_mono) simp_all
    with ab show ?thesis by (simp add: left_diff_distrib distrib_right)
  qed
  moreover have "\<not> m * day_micros + a < n * day_micros + b" if "n < m"
  proof -
    have "(n + 1) * day_micros \<le> m * day_micros" using that ab by (intro mult_right_mono) simp_all
    with ab show ?thesis by (simp add: distrib_right)
  qed
  ultimately show ?thesis by (cases m n rule: linorder_cases) auto
qed


section \<open>The next occurrence\<close>

text \<open>\<open>r\<close> is the first wall time after \<open>now\<close> that falls on a day of \<open>on\<close> at the given time of day.\<close>

definition next_occurrence :: "(int \<Rightarrow> bool) \<Rightarrow> int \<Rightarrow> local_time \<Rightarrow> local_time \<Rightarrow> bool" where
  "next_occurrence on micros now r \<longleftrightarrow>
     valid_local r \<and> on (toordinal r) \<and> lt_micros r = micros \<and> wall now < wall r \<and>
     (\<forall>n. on n \<longrightarrow> wall now < n * day_micros + micros \<longrightarrow> wall r \<le> n * day_micros + micros)"

definition on_days :: "int list \<Rightarrow> int \<Rightarrow> bool" where
  "on_days days n \<longleftrightarrow> n mod 7 \<in> (\<lambda>d. d mod 7) ` set days"

definition time_micros :: "int \<times> int \<Rightarrow> int" where
  "time_micros hm = (fst hm * 60 + snd hm) * 60 * 10 ^ 6"

lemma wall_add_days:
  assumes "replace_time now hm = Inr target" "valid_local now"
  shows "wall (add_days k target) = (toordinal now + max k 0) * day_micros + time_micros hm"
    "0 \<le> time_micros hm" "time_micros hm < day_micros"
  using replace_time_facts [OF assms] add_days_facts [of target k] by (simp_all add: wall_def time_micros_def)

lemma add_days_zero [simp]: "add_days 0 t = t"
  by (simp add: add_days_def)

lemma wall_now_less:
  assumes "valid_local now" "0 \<le> b" "b < day_micros"
  shows "wall now < n * day_micros + b \<longleftrightarrow> toordinal now < n \<or> toordinal now = n \<and> lt_micros now < b"
  using wall_less [of "lt_micros now" b] assms by (simp add: wall_def valid_local_def)

lemma wall_le: "m \<le> n \<Longrightarrow> m * day_micros + b \<le> n * day_micros + b"
  by (simp add: day_micros_def)

lemma occurrence_at:
  assumes "replace_time now hm = Inr target" "valid_local now" "0 \<le> k" "on (toordinal now + k)"
    "0 < k \<or> lt_micros now < time_micros hm"
    "\<And>n. on n \<Longrightarrow> toordinal now < n \<or> toordinal now = n \<and> lt_micros now < time_micros hm \<Longrightarrow> toordinal now + k \<le> n"
  shows "next_occurrence on (time_micros hm) now (add_days k target)"
proof -
  note w = wall_add_days [OF assms(1,2)]
  note f = replace_time_facts [OF assms(1,2)] add_days_facts [OF replace_time_facts(1) [OF assms(1,2)], of k]
  have "wall (add_days k target) \<le> n * day_micros + time_micros hm" if "on n" "wall now < n * day_micros + time_micros hm" for n
    using assms(3,6) that wall_now_less [OF assms(2) w(2,3)] wall_le [of "toordinal now + k" n] by (simp add: w(1))
  moreover have "wall now < wall (add_days k target)"
    unfolding w(1) wall_now_less [OF assms(2) w(2,3)] using assms(3,5) by auto
  moreover have "lt_micros (add_days k target) = time_micros hm" using f by (simp add: time_micros_def)
  ultimately show ?thesis using f assms(3,4) by (simp add: next_occurrence_def)
qed

lemma day_target_iff:
  assumes "replace_time now hm = Inr target" "valid_local now"
  shows "day_target now target d = Some t \<longleftrightarrow>
    t = add_days ((d - toordinal now) mod 7) target \<and> ((d - toordinal now) mod 7 \<noteq> 0 \<or> lt_micros now < time_micros hm)"
proof -
  have k: "(d - sunday_weekday now) mod 7 = (d - toordinal now) mod 7"
    by (simp add: sunday_weekday_eq mod_diff_right_eq)
  have "wall target \<le> wall now \<longleftrightarrow> \<not> lt_micros now < time_micros hm"
    using wall_now_less [OF assms(2) wall_add_days(2,3) [OF assms], of "toordinal now"] wall_add_days(1) [OF assms, of 0]
    by auto
  then show ?thesis by (auto simp: day_target_def k Let_def)
qed

text \<open>The days from today to a day that falls on weekday \<open>d\<close>.\<close>

lemma days_to:
  fixes n d today :: int
  assumes "n mod 7 = d mod 7" "today \<le> n"
  shows "today + (d - today) mod 7 \<le> n" "(d - today) mod 7 = 0 \<Longrightarrow> n \<noteq> today \<Longrightarrow> today + 7 \<le> n"
proof -
  have e: "(n - today) mod 7 = (d - today) mod 7" using assms(1) by (metis mod_diff_left_eq)
  then have "(d - today) mod 7 \<le> n - today" using assms(2) by (metis diff_ge_0_iff_ge zmod_le_nonneg_dividend)
  then show "today + (d - today) mod 7 \<le> n" by simp
  show "today + 7 \<le> n" if "(d - today) mod 7 = 0" "n \<noteq> today"
  proof -
    have "7 dvd n - today" using e that(1) by (simp add: dvd_eq_mod_eq_0)
    then show ?thesis using that(2) assms(2) zdvd_imp_le [of 7 "n - today"] by simp
  qed
qed

lemma day_after: "(today + (d - today) mod 7) mod 7 = d mod 7" for d today :: int
  by (simp add: mod_add_right_eq)

lemma best_day_next:
  assumes "replace_time now hm = Inr target" "valid_local now" "best_day now target days = Some t"
  shows "next_occurrence (on_days days) (time_micros hm) now t"
    "\<exists>d \<in> set days. t = add_days ((d - toordinal now) mod 7) target"
proof -
  let ?o = "toordinal now"
  note best = low.scan_best_Some [OF assms(3) [unfolded best_day_def]]
  have cand: "x \<in> set (List.map_filter (day_target now target) (sort days)) \<longleftrightarrow>
      (\<exists>d \<in> set days. day_target now target d = Some x)" for x by (force simp: map_filter_def)
  from best(1) obtain d where d: "d \<in> set days" "t = add_days ((d - ?o) mod 7) target"
    "(d - ?o) mod 7 \<noteq> 0 \<or> lt_micros now < time_micros hm"
    unfolding cand day_target_iff [OF assms(1,2)] by blast
  then show "\<exists>d \<in> set days. t = add_days ((d - ?o) mod 7) target" by blast
  have least: "(d - ?o) mod 7 \<le> (e - ?o) mod 7"
    if e: "e \<in> set days" "(e - ?o) mod 7 \<noteq> 0 \<or> lt_micros now < time_micros hm" for e
  proof -
    have "add_days ((e - ?o) mod 7) target \<in> set (List.map_filter (day_target now target) (sort days))"
      unfolding cand day_target_iff [OF assms(1,2)] using e by blast
    from best(2) [OF this] have "wall t \<le> wall (add_days ((e - ?o) mod 7) target)" by (simp add: lower_key_def not_less)
    then have "(?o + (d - ?o) mod 7) * day_micros \<le> (?o + (e - ?o) mod 7) * day_micros"
      unfolding d(2) wall_add_days(1) [OF assms(1,2)] by simp
    then show ?thesis by (simp add: day_micros_def)
  qed
  show "next_occurrence (on_days days) (time_micros hm) now t"
    unfolding d(2)
  proof (rule occurrence_at [OF assms(1,2)])
    show "on_days days (?o + (d - ?o) mod 7)" using d(1) by (auto simp: on_days_def day_after)
    show "0 < (d - ?o) mod 7 \<or> lt_micros now < time_micros hm" using d(3) pos_mod_sign [of 7 "d - ?o"] by linarith
    fix n
    assume "on_days days n" and later: "?o < n \<or> ?o = n \<and> lt_micros now < time_micros hm"
    then obtain e where e: "e \<in> set days" "n mod 7 = e mod 7" by (auto simp: on_days_def)
    show "?o + (d - ?o) mod 7 \<le> n"
    proof (cases "(e - ?o) mod 7 \<noteq> 0 \<or> lt_micros now < time_micros hm")
      case True
      then show ?thesis using least [OF e(1)] days_to(1) [OF e(2), of ?o] later by linarith
    next
      case False
      then show ?thesis using days_to(2) [OF e(2), of ?o] later pos_mod_bound [of 7 "d - ?o"] by linarith
    qed
  qed simp
qed

lemma best_day_None:
  assumes "replace_time now hm = Inr target" "valid_local now"
  shows "best_day now target days = None \<longleftrightarrow>
    (\<forall>d \<in> set days. (d - toordinal now) mod 7 = 0 \<and> \<not> lt_micros now < time_micros hm)"
proof -
  have "best_day now target days = None \<longleftrightarrow> (\<forall>d \<in> set days. day_target now target d = None)"
    unfolding best_day_def low.scan_best_None_iff by (auto simp: map_filter_def filter_empty_conv)
  moreover have "day_target now target d = None \<longleftrightarrow> (d - toordinal now) mod 7 = 0 \<and> \<not> lt_micros now < time_micros hm" for d
    using day_target_iff [OF assms, of d] by (metis not_None_eq)
  ultimately show ?thesis by simp
qed

lemma weekly_occurs:
  assumes "replace_time now hm = Inr target" "valid_local now" "scheduled_time schedule_time = Some hm" "days \<noteq> []"
  shows "\<exists>r. calculate_weekly_next_run schedule_time now days = Inr (Some r) \<and>
    next_occurrence (on_days days) (time_micros hm) now r"
proof (cases "best_day now target days")
  case (Some t)
  with best_day_next(1) [OF assms(1,2) Some] assms show ?thesis by (simp add: calculate_weekly_next_run_def)
next
  case None
  let ?o = "toordinal now"
  from None have all: "\<forall>d \<in> set days. (d - ?o) mod 7 = 0 \<and> \<not> lt_micros now < time_micros hm"
    using best_day_None [OF assms(1,2)] by blast
  moreover have min: "Min (set days) \<in> set days" using assms(4) by simp
  ultimately have first: "(Min (set days) - ?o) mod 7 = 0" by blast
  have "next_occurrence (on_days days) (time_micros hm) now (add_days 7 target)"
  proof (rule occurrence_at [OF assms(1,2)])
    have "(?o + 7) mod 7 = Min (set days) mod 7" using first by presburger
    then show "on_days days (?o + 7)" using min by (auto simp: on_days_def)
    fix n
    assume n: "on_days days n" "?o < n \<or> ?o = n \<and> lt_micros now < time_micros hm"
    then obtain e where e: "e \<in> set days" "n mod 7 = e mod 7" by (auto simp: on_days_def)
    with all n days_to(2) [OF e(2), of ?o] show "?o + 7 \<le> n" by auto
  qed simp_all
  moreover have "(Min (set days) - sunday_weekday now) mod 7 = 0"
    using first by (simp add: sunday_weekday_eq mod_diff_right_eq)
  ultimately show ?thesis using None assms by (simp add: calculate_weekly_next_run_def)
qed

lemma daily_occurs:
  assumes "replace_time now hm = Inr target" "valid_local now" "scheduled_time schedule_time = Some hm"
  shows "\<exists>r. calculate_daily_next_run schedule_time now = Inr (Some r) \<and>
    next_occurrence (\<lambda>_. True) (time_micros hm) now r"
proof -
  let ?k = "if lt_micros now < time_micros hm then 0 else 1"
  have "wall target \<le> wall now \<longleftrightarrow> \<not> lt_micros now < time_micros hm"
    using wall_now_less [OF assms(2) wall_add_days(2,3) [OF assms(1,2)], of "toordinal now"] wall_add_days(1) [OF assms(1,2), of 0]
    by auto
  moreover have "next_occurrence (\<lambda>_. True) (time_micros hm) now (add_days ?k target)"
    by (rule occurrence_at [OF assms(1,2)]) auto
  ultimately show ?thesis using assms by (auto simp: calculate_daily_next_run_def)
qed

definition time_exists :: "int \<times> int \<Rightarrow> bool" where
  "time_exists hm \<longleftrightarrow> 0 \<le> fst hm \<and> fst hm < 24 \<and> 0 \<le> snd hm \<and> snd hm < 60"

lemma replace_time_exists: "time_exists hm \<Longrightarrow> \<exists>target. replace_time now hm = Inr target"
  by (cases hm) (simp add: replace_time_def time_exists_def)

text \<open>C32. A daily schedule names the next time the clock shows its time, and a weekly schedule the first
  such time on one of its days: nothing that fits lies between now and the answer, whatever the order of
  the listed days, and the answer is never in the past.\<close>

theorem weekly_run_is_the_next_occurrence:
  assumes "valid_local now" "scheduled_time schedule_time = Some hm" "time_exists hm" "days \<noteq> []"
  shows "(\<exists>r. calculate_weekly_next_run schedule_time now days = Inr (Some r) \<and>
              next_occurrence (on_days days) (time_micros hm) now r) \<and>
         (\<exists>r. calculate_daily_next_run schedule_time now = Inr (Some r) \<and>
              next_occurrence (\<lambda>_. True) (time_micros hm) now r)"
  using replace_time_exists [OF assms(3), of now] weekly_occurs daily_occurs assms by blast

section \<open>Every other week\<close>






definition our_week :: "local_time \<Rightarrow> int option \<Rightarrow> bool" where
  "our_week now week_parity \<longleftrightarrow> (case week_parity of None \<Rightarrow> True | Some p \<Rightarrow> iso_week now mod 2 = p)"



section \<open>Once a month\<close>

text \<open>Months by number.\<close>

definition month_at :: "int \<Rightarrow> int \<times> int" where
  "month_at i = (i div 12, i mod 12 + 1)"

definition month_index :: "int \<times> int \<Rightarrow> int" where
  "month_index ym = fst ym * 12 + snd ym - 1"

lemma month_at_index: "1 \<le> m \<Longrightarrow> m \<le> 12 \<Longrightarrow> month_at (month_index (y, m)) = (y, m)"
proof -
  assume m: "1 \<le> m" "m \<le> 12"
  have "(y * 12 + m - 1) div 12 = y" by (rule int_div_pos_eq [of _ _ _ "m - 1"]) (use m in auto)
  moreover have "(y * 12 + m - 1) mod 12 = m - 1" by (rule int_mod_pos_eq [of _ _ y]) (use m in auto)
  ultimately show ?thesis by (simp add: month_at_def month_index_def)
qed

lemma month_at_range: "1 \<le> snd (month_at i)" "snd (month_at i) \<le> 12"
  using pos_mod_bound [of 12 i] by (simp_all add: month_at_def)

lemma next_month_index: "1 \<le> m \<Longrightarrow> m \<le> 12 \<Longrightarrow> month_index (next_month (y, m)) = month_index (y, m) + 1"
  by (auto simp: next_month_def month_index_def)

lemma month_start_step:
  "month_start (month_at (i + 1)) = month_start (month_at i) + days_in_month (fst (month_at i)) (snd (month_at i))"
proof -
  obtain y m where ym: "month_at i = (y, m)" by (cases "month_at i")
  with month_at_range [of i] have m: "1 \<le> m" "m \<le> 12" by simp_all
  have "month_index (month_at i) = i" using mult_div_mod_eq [of 12 i] by (simp add: month_at_def month_index_def)
  then have "month_index (next_month (y, m)) = i + 1" using next_month_index [OF m, of y] ym by simp
  moreover have "month_at (month_index (next_month (y, m))) = next_month (y, m)"
    using month_at_index [of "snd (next_month (y, m))" "fst (next_month (y, m))"] next_month_valid [OF m, of y] by simp
  ultimately show ?thesis using next_month_start [OF m, of y] ym by simp
qed

lemma month_start_mono: "i < j \<Longrightarrow> month_start (month_at (i + 1)) \<le> month_start (month_at j)"
proof -
  assume "i < j"
  have "month_start (month_at (i + 1)) \<le> month_start (month_at (i + 1 + int k))" for k
  proof (induction k)
    case (Suc k)
    have "i + 1 + int (Suc k) = (i + 1 + int k) + 1" by simp
    then show ?case using Suc month_start_step [of "i + 1 + int k"] days_in_month_bounds(1)
        [of "fst (month_at (i + 1 + int k))" "snd (month_at (i + 1 + int k))"] by simp
  qed simp
  from this [of "nat (j - i - 1)"] \<open>i < j\<close> show ?thesis by simp
qed


definition monthly_day :: "int \<Rightarrow> int \<times> int \<Rightarrow> int" where
  "monthly_day wanted ym = month_start ym + get_actual_day wanted (fst ym) (snd ym)"

definition on_month_day :: "int \<Rightarrow> int \<Rightarrow> bool" where
  "on_month_day wanted n \<longleftrightarrow> (\<exists>i. n = monthly_day wanted (month_at i))"

lemma actual_day_bounds:
  "1 \<le> wanted \<or> wanted = - 1 \<Longrightarrow> 1 \<le> get_actual_day wanted y m \<and> get_actual_day wanted y m \<le> days_in_month y m"
  using days_in_month_bounds(1) [of y m] by (auto simp: get_actual_day_def)

lemma monthly_day_range:
  assumes "1 \<le> wanted \<or> wanted = - 1"
  shows "month_start (month_at i) < monthly_day wanted (month_at i)"
    "monthly_day wanted (month_at i) \<le> month_start (month_at (i + 1))"
  using actual_day_bounds [OF assms, of "fst (month_at i)" "snd (month_at i)"] month_start_step [of i]
  by (simp_all add: monthly_day_def)

lemma monthly_day_mono: "1 \<le> wanted \<or> wanted = - 1 \<Longrightarrow> i < j \<Longrightarrow>
    monthly_day wanted (month_at i) < monthly_day wanted (month_at j)"
  using monthly_day_range(2) [of wanted i] month_start_mono [of i j] monthly_day_range(1) [of wanted j] by linarith

lemma month_target_facts:
  assumes "valid_local now" "time_exists hm" "1 \<le> wanted \<or> wanted = - 1" "1 \<le> m" "m \<le> 12"
  obtains t where "month_target now hm wanted (y, m) = Inr t" "valid_local t" "lt_micros t = time_micros hm"
    "toordinal t = monthly_day wanted (y, m)"
proof -
  note d = actual_day_bounds [OF assms(3), of y m]
  let ?t = "now\<lparr>lt_year := y, lt_month := m, lt_day := get_actual_day wanted y m\<rparr>"
  have t: "replace_date now y m (get_actual_day wanted y m) = Inr ?t" using d by (simp add: replace_date_def)
  obtain target where r: "replace_time ?t hm = Inr target" using replace_time_exists [OF assms(2)] by blast
  have "valid_local ?t" using assms(1,4,5) d by (simp add: valid_local_def)
  note f = replace_time_facts [OF r this]
  show ?thesis
    by (rule that [of target])
      (use t r f in \<open>simp_all add: month_target_def time_micros_def toordinal_eq [of ?t] monthly_day_def\<close>)
qed

text \<open>The first occurrence is in the month of \<open>now\<close> or in the one after it.\<close>

lemma monthly_next:
  fixes i k :: int
  assumes "valid_local now" "1 \<le> wanted \<or> wanted = - 1" "month_start (month_at i) < toordinal now"
    and r: "valid_local r" "lt_micros r = micros" "toordinal r = monthly_day wanted (month_at k)" "wall now < wall r"
    and k: "k = i \<or> k = i + 1 \<and> \<not> wall now < monthly_day wanted (month_at i) * day_micros + micros"
  shows "next_occurrence (on_month_day wanted) micros now r"
proof -
  have T: "0 \<le> micros" "micros < day_micros" using r(1,2) by (simp_all add: valid_local_def)
  have "wall r \<le> monthly_day wanted (month_at j) * day_micros + micros"
    if j: "wall now < monthly_day wanted (month_at j) * day_micros + micros" for j
  proof -
    have "i \<le> j"
    proof (rule ccontr)
      assume "\<not> i \<le> j"
      then have "monthly_day wanted (month_at j) < toordinal now"
        using monthly_day_range(2) [OF assms(2), of j] month_start_mono [of j i] assms(3) by linarith
      with j wall_now_less [OF assms(1) T, of "monthly_day wanted (month_at j)"] show False by auto
    qed
    moreover have "k = i + 1 \<Longrightarrow> i \<noteq> j" using j k by auto
    ultimately have "k = j \<or> k < j" using k by linarith
    then have "toordinal r \<le> monthly_day wanted (month_at j)" using monthly_day_mono [OF assms(2), of k j] r(3) by auto
    then show ?thesis using wall_le r(2) by (simp add: wall_def)
  qed
  with r show ?thesis by (auto simp: next_occurrence_def on_month_day_def)
qed

text \<open>A monthly schedule names the first time after now that falls on its day of a month at its time,
  where a month that is too short has its last day instead, and the day \<open>-1\<close> is the last day of every
  month: no month is skipped and none is served twice.\<close>

theorem monthly_run_is_the_next_occurrence:
  assumes "valid_local now" "scheduled_time schedule_time = Some hm" "time_exists hm" "1 \<le> wanted \<or> wanted = - 1"
  shows "\<exists>r. calculate_monthly_next_run schedule_time now (Some wanted) = Inr (Some r) \<and>
    next_occurrence (on_month_day wanted) (time_micros hm) now r"
proof -
  let ?ym = "(lt_year now, lt_month now)" and ?o = "toordinal now"
  have m: "1 \<le> lt_month now" "lt_month now \<le> 12" using assms(1) by (simp_all add: valid_local_def)
  define i where "i = month_index ?ym"
  have i: "month_at i = ?ym" "month_at (i + 1) = next_month ?ym"
    using month_at_index [OF m] month_at_index [of "snd (next_month ?ym)" "fst (next_month ?ym)"]
      next_month_valid [OF m, of "lt_year now"] next_month_index [OF m] by (simp_all add: i_def)
  obtain t where t: "month_target now hm wanted ?ym = Inr t" "valid_local t" "lt_micros t = time_micros hm"
    "toordinal t = monthly_day wanted (month_at i)"
    using month_target_facts [OF assms(1,3,4) m, of "lt_year now"] i(1) by metis
  obtain u where u: "month_target now hm wanted (next_month ?ym) = Inr u" "valid_local u" "lt_micros u = time_micros hm"
    "toordinal u = monthly_day wanted (month_at (i + 1))"
    using month_target_facts [OF assms(1,3,4), of "snd (next_month ?ym)" "fst (next_month ?ym)"]
      next_month_valid [OF m, of "lt_year now"] i(2) by (metis prod.collapse)
  have now: "month_start (month_at i) < ?o" "?o \<le> month_start (month_at (i + 1))"
    using assms(1) month_start_step [of i] by (simp_all add: i(1) toordinal_eq valid_local_def)
  note first = monthly_next [OF assms(1,4) now(1)]
  have wall: "wall t = monthly_day wanted (month_at i) * day_micros + time_micros hm" using t by (simp add: wall_def)
  show ?thesis
  proof (cases "wall t \<le> wall now")
    case True
    have "?o < toordinal u" using now(2) monthly_day_range(1) [OF assms(4), of "i + 1"] u(4) by simp
    then have "wall now < wall u"
      using wall_now_less [OF assms(1), of "lt_micros u" "toordinal u"] u(2) by (simp add: wall_def [of u] valid_local_def)
    with first [OF u(2-4)] True wall have "next_occurrence (on_month_day wanted) (time_micros hm) now u" by simp
    with True assms(2) t(1) u(1) show ?thesis by (simp add: calculate_monthly_next_run_def Let_def)
  next
    case False
    with first [OF t(2-4)] have "next_occurrence (on_month_day wanted) (time_micros hm) now t" by simp
    with False assms(2) t(1) show ?thesis by (simp add: calculate_monthly_next_run_def Let_def)
  qed
qed

text \<open>A day that no month has is an error.\<close>

lemma monthly_bad_day:
  assumes "valid_local now" "scheduled_time schedule_time = Some hm" "wanted = 0 \<or> wanted < - 1"
  shows "calculate_monthly_next_run schedule_time now (Some wanted) = raises ScheduleValueError"
proof -
  have "\<not> 1 \<le> get_actual_day wanted y m" for y m
    using assms(3) days_in_month_bounds(1) [of y m] by (auto simp: get_actual_day_def)
  then have "month_target now hm wanted ym = raises ScheduleValueError" for ym
    by (cases ym) (auto simp: month_target_def replace_date_def)
  with assms(2) show ?thesis by (simp add: calculate_monthly_next_run_def Let_def)
qed

text \<open>An interval schedule runs in the future, and at most one interval from now unless the last run is.\<close>

lemma interval_run_is_near:
  assumes "calculate_interval_next_run (Some n) last_run now_utc = Some t" "\<forall>prior. last_run = Some prior \<longrightarrow> prior \<le> now_utc"
  shows "now_utc < t" "t \<le> now_utc + n * 10 ^ 6"
  using assms by (auto simp: calculate_interval_next_run_def Let_def split: if_splits option.splits)

section \<open>Examples\<close>

definition sample_now :: local_time where
  "sample_now = \<lparr>lt_year = 2026, lt_month = 1, lt_day = 31, lt_micros = 0\<rparr>"

lemma sample_now_valid: "valid_local sample_now"
  by (simp add: sample_now_def valid_local_def days_in_month_def day_micros_def)

lemma sample_time: "scheduled_time (Some ''03:30'') = Some (3, 30)" "time_exists (3, 30)"
  by code_simp+


lemma weekly_run_is_the_next_occurrence_witness:
  "(\<exists>r. calculate_weekly_next_run (Some ''03:30'') sample_now [1, 3] = Inr (Some r) \<and>
        next_occurrence (on_days [1, 3]) (time_micros (3, 30)) sample_now r) \<and>
   (\<exists>r. calculate_daily_next_run (Some ''03:30'') sample_now = Inr (Some r) \<and>
        next_occurrence (\<lambda>_. True) (time_micros (3, 30)) sample_now r)"
  by (rule weekly_run_is_the_next_occurrence [OF sample_now_valid sample_time]) simp

lemma monthly_run_is_the_next_occurrence_witness:
  "\<exists>r. calculate_monthly_next_run (Some ''03:30'') sample_now (Some 30) = Inr (Some r) \<and>
     next_occurrence (on_month_day 30) (time_micros (3, 30)) sample_now r"
  by (rule monthly_run_is_the_next_occurrence [OF sample_now_valid sample_time]) simp


end
