(* ===== verification/GuideTemplate.thy ===== *)
theory GuideTemplate
  imports Patterns
begin

text \<open>
  \<open>template_engine.py\<close>: the titles and descriptions of generated guide entries. A template is text with
  placeholders, chains of transforms and nested conditionals; it is rendered in one pass over the text.
  The groups are the matched texts, as \<open>str\<close>; the regular-expression library and the case tables of the
  interpreter (\<open>upper\<close> and \<open>title\<close>, which can leave Latin-1) are arguments. Error values carry no message text.
\<close>

section \<open>Text\<close>

record case_tables =
  ct_upper :: "string \<Rightarrow> string"
  ct_title :: "string \<Rightarrow> string"

text \<open>\<open>s.replace(src, dst)\<close>, \<open>s.split(sep)\<close>, \<open>s.split(sep, 1)\<close> where \<open>sep\<close> occurs, \<open>s.strip(chars)\<close>.\<close>

function replace_all :: "string \<Rightarrow> string \<Rightarrow> string \<Rightarrow> string" where
  "replace_all src dst [] = []"
| "replace_all src dst (c # s) =
     (if py_startswith (c # s) src then dst @ replace_all src dst (drop (length src - 1) s)
      else c # replace_all src dst s)"
  by pat_completeness auto
termination by (relation "measure (\<lambda>(_, _, s). length s)") auto

definition py_replace :: "string \<Rightarrow> string \<Rightarrow> string \<Rightarrow> string" where
  "py_replace src dst s = (if src = [] then dst @ concat (map (\<lambda>c. c # dst) s) else replace_all src dst s)"

fun py_split :: "char \<Rightarrow> string \<Rightarrow> string list" where
  "py_split sep [] = [[]]"
| "py_split sep (c # s) = (if c = sep then [] # py_split sep s else (case py_split sep s of [] \<Rightarrow> [[c]] | p # ps \<Rightarrow> (c # p) # ps))"

definition split_once :: "char \<Rightarrow> string \<Rightarrow> string \<times> string" where
  "split_once sep s = (takeWhile (\<lambda>c. c \<noteq> sep) s, drop 1 (dropWhile (\<lambda>c. c \<noteq> sep) s))"

definition strip_chars :: "string \<Rightarrow> string \<Rightarrow> string" where
  "strip_chars chars s = rev (dropWhile (\<lambda>c. c \<in> set chars) (rev (dropWhile (\<lambda>c. c \<in> set chars) s)))"

definition py_endswith :: "string \<Rightarrow> string \<Rightarrow> bool" where
  "py_endswith s suf \<longleftrightarrow> length suf \<le> length s \<and> drop (length s - length suf) s = suf"

section \<open>Transforms\<close>

definition legacy_normalize :: "string \<Rightarrow> string" where
  "legacy_normalize s =
     filter (\<lambda>c. py_is_digit c \<or> (let n = (of_char c :: nat) in 97 \<le> n \<and> n \<le> 122)) (py_lower s)"

datatype transform = Uppercase | Lowercase | Titlecase | Trim | Strip | Replace | Normalize

definition transform_of :: "string \<Rightarrow> transform option" where
  "transform_of s = map_of
     [(''uppercase'', Uppercase), (''lowercase'', Lowercase), (''titlecase'', Titlecase), (''trim'', Trim),
      (''strip'', Strip), (''replace'', Replace), (''normalize'', Normalize)] s"

definition apply_transform :: "case_tables \<Rightarrow> transform \<Rightarrow> string \<Rightarrow> string option \<Rightarrow> string" where
  "apply_transform ct f v arg =
     (case f of
        Uppercase \<Rightarrow> ct_upper ct v
      | Lowercase \<Rightarrow> py_lower v
      | Titlecase \<Rightarrow> ct_title ct v
      | Trim \<Rightarrow> py_strip v
      | Strip \<Rightarrow> (case arg of None \<Rightarrow> py_strip v | Some a \<Rightarrow> if a = [] then py_strip v else strip_chars a v)
      | Replace \<Rightarrow>
          (case arg of
             None \<Rightarrow> v
           | Some a \<Rightarrow>
               (case (if CHR '':'' \<in> set a then split_once CHR '':'' a else (a, [])) of (src, dst) \<Rightarrow> py_replace src dst v))
      | Normalize \<Rightarrow> legacy_normalize v)"

section \<open>Rendering\<close>

definition max_template_len :: nat where
  "max_template_len = 4096"

definition max_input_len :: nat where
  "max_input_len = 1024"

definition truncate_value :: "string \<Rightarrow> string" where
  "truncate_value v = (if length v > max_input_len then take max_input_len v else v)"

datatype template_error = TemplateTooLong | UnclosedBrace | UnmatchedEndif | MissingEndif | UnknownTransform string

record pipe_step =
  ps_transform :: string
  ps_arg :: "string option"
  ps_input :: string
  ps_output :: string
  ps_legacy :: bool

datatype condition_kind = Equality | Regex | Truthy

datatype trace =
    Literal string
  | Placeholder string string string "pipe_step list" string
  | Conditional string condition_kind bool string "trace list"

type_synonym groups = "string \<rightharpoonup> string"

definition group_value :: "groups \<Rightarrow> string \<Rightarrow> string" where
  "group_value groups name = (case groups name of Some v \<Rightarrow> v | None \<Rightarrow> [])"

fun run_pipes :: "case_tables \<Rightarrow> string list \<Rightarrow> string \<Rightarrow> (template_error, string \<times> pipe_step list) result" where
  "run_pipes ct [] v = returns (v, [])"
| "run_pipes ct (p # ps) v =
     (let spec = py_strip p in
      if spec = [] then run_pipes ct ps v
      else (case (if CHR '':'' \<in> set spec then map_prod id Some (split_once CHR '':'' spec) else (spec, None)) of
        (name, arg) \<Rightarrow>
          (case transform_of name of
             None \<Rightarrow> raises (UnknownTransform name)
           | Some f \<Rightarrow>
               (let out = apply_transform ct f v arg in
                bind_result (run_pipes ct ps out) (\<lambda>(w, steps).
                  returns (w, \<lparr>ps_transform = name, ps_arg = arg, ps_input = v, ps_output = out, ps_legacy = False\<rparr> # steps))))))"

definition render_placeholder ::
  "case_tables \<Rightarrow> groups \<Rightarrow> string \<Rightarrow> (template_error, string \<times> trace) result" where
  "render_placeholder ct groups body =
     (let parts = py_split CHR ''|'' body; name = py_strip (hd parts); pipes = tl parts;
          raw = CHR ''{'' # body @ ''}'' in
      if py_endswith name ''_normalize'' \<and> groups name = None
      then (let base = take (length name - length ''_normalize'') name; initial = group_value groups base;
                final = legacy_normalize initial in
            returns (final, Placeholder raw base initial
              [\<lparr>ps_transform = ''normalize'', ps_arg = None, ps_input = initial, ps_output = final, ps_legacy = True\<rparr>] final))
      else (let initial = group_value groups name in
            bind_result (run_pipes ct pipes initial) (\<lambda>(v, steps).
              (let final = truncate_value v in returns (final, Placeholder raw name initial steps final)))))"

text \<open>The answer of a conditional, with the kind of test and the value it looked at.\<close>

definition evaluate_if :: "rx_library \<Rightarrow> groups \<Rightarrow> string \<Rightarrow> bool \<times> condition_kind \<times> string" where
  "evaluate_if lib groups cond =
     (if CHR ''='' \<in> set cond \<and> CHR ''~'' \<notin> set (fst (split_once CHR ''='' cond))
      then (case split_once CHR ''='' cond of (name, expected) \<Rightarrow>
              (let v = group_value groups name in (v = expected, Equality, v)))
      else if CHR ''~'' \<in> set cond
      then (case split_once CHR ''~'' cond of (name, pat) \<Rightarrow>
              (let v = group_value groups name in
               (case safe_compile lib pat of
                  Inl _ \<Rightarrow> (False, Regex, v)
                | Inr compiled \<Rightarrow> (safe_search_compiled lib compiled v False, Regex, v))))
      else (let v = group_value groups cond in (v \<noteq> [], Truthy, v)))"

text \<open>Where the next directive is: no brace at all, a brace that is never closed, or the text before the
  brace, the directive and the rest.\<close>

datatype scan = NoBrace | Unclosed | Directive string string string

definition scan_directive :: "string \<Rightarrow> scan" where
  "scan_directive s =
     (let lit = takeWhile (\<lambda>c. c \<noteq> CHR ''{'') s; inside = dropWhile (\<lambda>c. c \<noteq> CHR ''{'') s in
      if inside = [] then NoBrace
      else (let rest = dropWhile (\<lambda>c. c \<noteq> CHR ''}'') (tl inside) in
            if rest = [] then Unclosed
            else Directive lit (takeWhile (\<lambda>c. c \<noteq> CHR ''}'') (tl inside)) (tl rest)))"

definition braced :: "string \<Rightarrow> string" where
  "braced d = CHR ''{'' # d @ ''}''"

lemma scan_directive_split: "scan_directive s = Directive lit d rest \<Longrightarrow> s = lit @ braced d @ rest"
proof -
  assume a: "scan_directive s = Directive lit d rest"
  let ?inside = "dropWhile (\<lambda>c. c \<noteq> CHR ''{'') s" and ?rest = "dropWhile (\<lambda>c. c \<noteq> CHR ''}'') (tl (dropWhile (\<lambda>c. c \<noteq> CHR ''{'') s))"
  have n: "?inside \<noteq> []" "?rest \<noteq> []" and l: "lit = takeWhile (\<lambda>c. c \<noteq> CHR ''{'') s"
    "d = takeWhile (\<lambda>c. c \<noteq> CHR ''}'') (tl ?inside)" "rest = tl ?rest"
    using a by (auto simp: scan_directive_def Let_def split: if_splits)
  have "?inside = CHR ''{'' # tl ?inside" "?rest = CHR ''}'' # rest"
    using n hd_dropWhile [of "\<lambda>c. c \<noteq> CHR ''{''" s] hd_dropWhile [of "\<lambda>c. c \<noteq> CHR ''}''" "tl ?inside"] l(3)
    by (metis list.collapse)+
  moreover have "s = lit @ ?inside" "tl ?inside = d @ ?rest" by (simp_all add: l)
  ultimately show ?thesis by (simp add: braced_def)
qed

definition prepend :: "string \<Rightarrow> (string \<times> string) option \<Rightarrow> (string \<times> string) option" where
  "prepend pre r = map_option (\<lambda>(body, after). (pre @ body, after)) r"

lemma prepend_simps [simp]: "prepend pre None = None" "prepend pre (Some (b, a)) = Some (pre @ b, a)" "prepend [] r = r"
    "prepend p (prepend q r) = prepend (p @ q) r"
  by (cases r; auto simp: prepend_def)+

lemma prepend_Some: "prepend pre r = Some (b, a) \<longleftrightarrow> (\<exists>c. r = Some (c, a) \<and> b = pre @ c)"
  by (cases r) auto

text \<open>The body up to the matching \<open>{/if}\<close>, and what follows it.\<close>

function find_matching_endif :: "nat \<Rightarrow> string \<Rightarrow> (string \<times> string) option" where
  "find_matching_endif depth s =
     (case scan_directive s of
        Directive lit d rest \<Rightarrow>
          (if d = ''/if'' \<and> depth = 1 then Some (lit, rest)
           else prepend (lit @ braced d)
                  (find_matching_endif
                     (if py_startswith d ''if:'' then depth + 1 else if d = ''/if'' then depth - 1 else depth) rest))
      | _ \<Rightarrow> None)"
  by pat_completeness auto
termination
  by (relation "measure (\<lambda>(_, s). length s)") (auto dest!: scan_directive_split simp: braced_def)

declare find_matching_endif.simps [simp del]

lemma find_matching_endif_split:
  "find_matching_endif depth s = Some (body, after) \<Longrightarrow> \<exists>pre. s = body @ pre @ after \<and> pre \<noteq> []"
proof (induction depth s arbitrary: body rule: find_matching_endif.induct)
  case (1 depth s)
  from 1(2) obtain lit d rest where sc: "scan_directive s = Directive lit d rest"
    by (auto simp: find_matching_endif.simps [of depth s] split: scan.splits)
  note s = scan_directive_split [OF sc]
  show ?case
  proof (cases "d = ''/if'' \<and> depth = 1")
    case True
    with sc have "find_matching_endif depth s = Some (lit, rest)" by (subst find_matching_endif.simps) simp
    with 1(2) have "body = lit" "after = rest" by simp_all
    then show ?thesis using s by (intro exI [of _ "braced d"]) (simp add: braced_def)
  next
    case False
    with 1(2) sc obtain b where "body = lit @ braced d @ b" "find_matching_endif
        (if py_startswith d ''if:'' then depth + 1 else if d = ''/if'' then depth - 1 else depth) rest = Some (b, after)"
      by (auto simp: find_matching_endif.simps [of depth s] prepend_Some)
    with 1(1) [OF sc False] s show ?thesis by auto
  qed
qed

function render_segment ::
  "case_tables \<Rightarrow> rx_library \<Rightarrow> groups \<Rightarrow> bool \<Rightarrow> string \<Rightarrow> (template_error, string \<times> trace list) result" where
  "render_segment ct lib groups traced s =
     (if s = [] then returns ([], [])
      else (case scan_directive s of
        NoBrace \<Rightarrow> returns (s, if traced then [Literal s] else [])
      | Unclosed \<Rightarrow> raises UnclosedBrace
      | Directive lit d rest \<Rightarrow>
          (let before = (if traced \<and> lit \<noteq> [] then [Literal lit] else []) in
           if py_startswith d ''if:''
           then (case find_matching_endif 1 rest of
                   None \<Rightarrow> raises MissingEndif
                 | Some (body, after) \<Rightarrow>
                     (case evaluate_if lib groups (drop 3 d) of (taken, kind, v) \<Rightarrow>
                        bind_result (if taken then render_segment ct lib groups traced body else returns ([], []))
                          (\<lambda>(inner, body_trace). bind_result (render_segment ct lib groups traced after)
                             (\<lambda>(tail, tail_trace).
                                returns (lit @ inner @ tail,
                                  before @ (if traced then [Conditional (drop 3 d) kind taken v body_trace] else []) @ tail_trace)))))
           else if d = ''/if'' then raises UnmatchedEndif
           else bind_result (render_placeholder ct groups d)
                  (\<lambda>(out, entry). bind_result (render_segment ct lib groups traced rest)
                     (\<lambda>(tail, tail_trace). returns (lit @ out @ tail, before @ (if traced then [entry] else []) @ tail_trace))))))"
  by pat_completeness auto
termination
  by (relation "measure (\<lambda>(_, _, _, _, s). length s)")
    (auto dest!: scan_directive_split find_matching_endif_split simp: braced_def)

declare render_segment.simps [simp del]

definition bounded_groups :: "groups \<Rightarrow> groups" where
  "bounded_groups groups = (\<lambda>k. map_option truncate_value (groups k))"

definition render :: "case_tables \<Rightarrow> rx_library \<Rightarrow> groups \<Rightarrow> string option \<Rightarrow> (template_error, string) result" where
  "render ct lib groups template =
     (case template of
        None \<Rightarrow> returns []
      | Some s \<Rightarrow>
          if length s > max_template_len then raises TemplateTooLong
          else bind_result (render_segment ct lib (bounded_groups groups) False s) (\<lambda>(out, _). returns out))"

definition render_with_trace ::
  "case_tables \<Rightarrow> rx_library \<Rightarrow> groups \<Rightarrow> string option \<Rightarrow> (template_error, string \<times> trace list) result" where
  "render_with_trace ct lib groups template =
     (case template of
        None \<Rightarrow> returns ([], [])
      | Some s \<Rightarrow>
          if length s > max_template_len then raises TemplateTooLong
          else render_segment ct lib (bounded_groups groups) True s)"


section \<open>Induction over a template\<close>

lemma segment_induct [case_names empty plain unclosed no_endif endif conditional placeholder]:
  assumes "P []"
    and "\<And>s. s \<noteq> [] \<Longrightarrow> scan_directive s = NoBrace \<Longrightarrow> P s"
    and "\<And>s. s \<noteq> [] \<Longrightarrow> scan_directive s = Unclosed \<Longrightarrow> P s"
    and "\<And>s lit d rest. scan_directive s = Directive lit d rest \<Longrightarrow> py_startswith d ''if:'' \<Longrightarrow>
      find_matching_endif 1 rest = None \<Longrightarrow> P s"
    and "\<And>s lit rest. scan_directive s = Directive lit ''/if'' rest \<Longrightarrow> P s"
    and "\<And>s lit d rest body after. scan_directive s = Directive lit d rest \<Longrightarrow> py_startswith d ''if:'' \<Longrightarrow>
      find_matching_endif 1 rest = Some (body, after) \<Longrightarrow> P body \<Longrightarrow> P after \<Longrightarrow> P s"
    and "\<And>s lit d rest. scan_directive s = Directive lit d rest \<Longrightarrow> \<not> py_startswith d ''if:'' \<Longrightarrow> d \<noteq> ''/if'' \<Longrightarrow>
      P rest \<Longrightarrow> P s"
  shows "P s"
proof (induction s rule: length_induct)
  case (1 s)
  show ?case
  proof (cases "s = []")
    case False
    show ?thesis
    proof (cases "scan_directive s")
      case (Directive lit d rest)
      have rest: "length rest < length s" using scan_directive_split [OF Directive] by (simp add: braced_def)
      show ?thesis
      proof (cases "py_startswith d ''if:''")
        case True
        show ?thesis
        proof (cases "find_matching_endif 1 rest")
          case (Some p)
          obtain body after where p: "p = (body, after)" by (cases p)
          have "length body < length s" "length after < length s"
            using find_matching_endif_split [OF Some [unfolded p]] rest by auto
          with 1 assms(6) [OF Directive True Some [unfolded p]] show ?thesis by blast
        qed (use assms(4) Directive True in blast)
      qed (use assms(5,7) Directive rest 1 in blast)
    qed (use assms(2,3) False in blast)+
  qed (use assms(1) in simp)
qed

lemma scan_not_empty: "scan_directive s = Directive lit d rest \<Longrightarrow> s \<noteq> []"
  by (auto simp: scan_directive_def)

lemma endif_not_if: "\<not> py_startswith ''/if'' ''if:''"
  by (simp add: py_startswith_def)

lemma render_segment_simps:
  "render_segment ct lib groups traced [] = returns ([], [])"
  "s \<noteq> [] \<Longrightarrow> scan_directive s = NoBrace \<Longrightarrow> render_segment ct lib groups traced s = returns (s, if traced then [Literal s] else [])"
  "s \<noteq> [] \<Longrightarrow> scan_directive s = Unclosed \<Longrightarrow> render_segment ct lib groups traced s = raises UnclosedBrace"
  "scan_directive s = Directive lit d rest \<Longrightarrow> py_startswith d ''if:'' \<Longrightarrow> find_matching_endif 1 rest = None \<Longrightarrow>
     render_segment ct lib groups traced s = raises MissingEndif"
  "scan_directive s = Directive lit ''/if'' rest \<Longrightarrow> render_segment ct lib groups traced s = raises UnmatchedEndif"
  using scan_not_empty endif_not_if by (auto simp: render_segment.simps [of _ _ _ _ s] render_segment.simps [of _ _ _ _ "[]"] Let_def)

lemma render_segment_if:
  assumes "scan_directive s = Directive lit d rest" "py_startswith d ''if:''" "find_matching_endif 1 rest = Some (body, after)"
    "evaluate_if lib groups (drop 3 d) = (taken, kind, v)"
  shows "render_segment ct lib groups traced s =
    bind_result (if taken then render_segment ct lib groups traced body else returns ([], []))
      (\<lambda>(inner, body_trace). bind_result (render_segment ct lib groups traced after)
         (\<lambda>(tail, tail_trace). returns (lit @ inner @ tail, (if traced \<and> lit \<noteq> [] then [Literal lit] else []) @
            (if traced then [Conditional (drop 3 d) kind taken v body_trace] else []) @ tail_trace)))"
  using assms scan_not_empty [OF assms(1)] by (subst render_segment.simps) (simp add: Let_def)

lemma render_segment_placeholder:
  assumes "scan_directive s = Directive lit d rest" "\<not> py_startswith d ''if:''" "d \<noteq> ''/if''"
  shows "render_segment ct lib groups traced s =
    bind_result (render_placeholder ct groups d)
      (\<lambda>(out, entry). bind_result (render_segment ct lib groups traced rest)
         (\<lambda>(tail, tail_trace). returns (lit @ out @ tail, (if traced \<and> lit \<noteq> [] then [Literal lit] else []) @
            (if traced then [entry] else []) @ tail_trace)))"
  using assms scan_not_empty [OF assms(1)] by (subst render_segment.simps) (simp add: Let_def)

section \<open>The trace tells what was rendered\<close>

fun trace_text :: "trace \<Rightarrow> string" where
  "trace_text (Literal s) = s"
| "trace_text (Placeholder raw name initial steps final) = final"
| "trace_text (Conditional cond kind taken v body) = concat (map trace_text body)"

lemma placeholder_trace:
  assumes "render_placeholder ct groups d = Inr (out, entry)"
  shows "trace_text entry = out"
proof -
  have "trace_text entry = out" if "bind_result r (\<lambda>(v, steps). let final = truncate_value v in
      returns (final, Placeholder raw name initial steps final)) = (Inr (out, entry) :: (template_error, _) result)" for r raw name initial
    using that by (cases r) (auto simp: Let_def)
  with assms show ?thesis unfolding render_placeholder_def Let_def by (auto split: if_split_asm)
qed

lemma segment_trace:
  "map_sum id fst (render_segment ct lib groups False s) = map_sum id fst (render_segment ct lib groups True s) \<and>
   (\<forall>out tr. render_segment ct lib groups True s = Inr (out, tr) \<longrightarrow> concat (map trace_text tr) = out)"
proof (induction s rule: segment_induct)
  case (conditional s lit d rest body after)
  obtain taken kind v where e: "evaluate_if lib groups (drop 3 d) = (taken, kind, v)"
    by (cases "evaluate_if lib groups (drop 3 d)")
  note r = render_segment_if [OF conditional(1-3) e]
  show ?case
    using conditional(4,5)
    by (cases "render_segment ct lib groups True body"; cases "render_segment ct lib groups False body";
        cases "render_segment ct lib groups True after"; cases "render_segment ct lib groups False after")
      (auto simp: r split: if_splits)
next
  case (placeholder s lit d rest)
  note r = render_segment_placeholder [OF placeholder(1-3)]
  show ?case
    using placeholder(4) placeholder_trace
    by (cases "render_placeholder ct groups d"; cases "render_segment ct lib groups True rest";
        cases "render_segment ct lib groups False rest") (auto simp: r)
qed (simp_all add: render_segment_simps)


text \<open>A trace shows what the rendering does. For every template and all groups, rendering with a
  trace gives the same text or raises the same error as rendering without one, and the trace
  spells that text: the literal pieces, the final values of the placeholders and the bodies of the
  conditionals that were taken, in order.\<close>

theorem trace_spells_the_output:
  "render ct lib groups template = map_sum id fst (render_with_trace ct lib groups template) \<and>
   (case render_with_trace ct lib groups template of
      Inr (out, tr) \<Rightarrow> concat (map trace_text tr) = out
    | Inl _ \<Rightarrow> True)"
proof (cases template)
  case (Some s)
  let ?r = "\<lambda>traced. render_segment ct lib (bounded_groups groups) traced s"
  have "bind_result (?r False) (\<lambda>(out, _). returns out) = map_sum id fst (?r False)" by (cases "?r False") auto
  with Some segment_trace [of ct lib "bounded_groups groups" s] show ?thesis
    by (auto simp: render_def render_with_trace_def split: sum.splits)
qed (simp add: render_def render_with_trace_def)

section \<open>The output is bounded\<close>

lemma length_truncate: "length (truncate_value v) \<le> max_input_len"
  by (simp add: truncate_value_def)

lemma placeholder_bounded:
  assumes "render_placeholder ct groups d = Inr (out, entry)" "\<And>k v. groups k = Some v \<Longrightarrow> length v \<le> max_input_len"
  shows "length out \<le> max_input_len"
proof -
  have "length (group_value groups k) \<le> max_input_len" for k
    using assms(2) [of k] by (simp add: group_value_def split: option.splits)
  moreover have "length (legacy_normalize v) \<le> length v" for v
    using length_filter_le [of _ "py_lower v"] by (simp add: legacy_normalize_def py_lower_def)
  ultimately have "length (legacy_normalize (group_value groups k)) \<le> max_input_len" for k by (rule le_trans [rotated])
  moreover have "length out \<le> max_input_len" if "bind_result r (\<lambda>(v, steps). let final = truncate_value v in
      returns (final, Placeholder raw name initial steps final)) = (Inr (out, entry) :: (template_error, _) result)" for r raw name initial
    using that length_truncate by (cases r) (auto simp: Let_def)
  ultimately show ?thesis using assms(1) unfolding render_placeholder_def Let_def by (auto split: if_split_asm)
qed

lemma segment_bounded:
  assumes "\<And>k v. groups k = Some v \<Longrightarrow> length v \<le> max_input_len"
  shows "render_segment ct lib groups traced s = Inr (out, tr) \<Longrightarrow> length out \<le> max_input_len * length s"
proof (induction s arbitrary: out tr rule: segment_induct)
  case (plain s)
  then show ?case by (auto simp: render_segment_simps max_input_len_def)
next
  case (conditional s lit d rest body after)
  obtain taken kind v where e: "evaluate_if lib groups (drop 3 d) = (taken, kind, v)"
    by (cases "evaluate_if lib groups (drop 3 d)")
  obtain pre where "rest = body @ pre @ after" using find_matching_endif_split [OF conditional(3)] by blast
  then have s: "length lit + length body + length after \<le> length s" using scan_directive_split [OF conditional(1)] by simp
  obtain inner tail i_tr t_tr where o: "out = lit @ inner @ tail"
    "(if taken then render_segment ct lib groups traced body else returns ([], [])) = Inr (inner, i_tr)"
    "render_segment ct lib groups traced after = Inr (tail, t_tr)"
    using conditional(6) unfolding render_segment_if [OF conditional(1-3) e] bind_result_eq_Inr by auto
  have "length inner \<le> max_input_len * length body" "length tail \<le> max_input_len * length after"
    using o(2,3) conditional(4,5) by (auto split: if_splits)
  with o(1) s show ?case by (simp add: max_input_len_def)
next
  case (placeholder s lit d rest)
  have s: "length lit + 2 + length rest \<le> length s" using scan_directive_split [OF placeholder(1)] by (simp add: braced_def)
  obtain piece entry tail t_tr where o: "out = lit @ piece @ tail" "render_placeholder ct groups d = Inr (piece, entry)"
    "render_segment ct lib groups traced rest = Inr (tail, t_tr)"
    using placeholder(5) unfolding render_segment_placeholder [OF placeholder(1-3)] by auto
  have "length piece \<le> max_input_len" by (rule placeholder_bounded [OF o(2)]) (rule assms)
  then show ?case using o(1) placeholder(4) [OF o(3)] s by (simp add: max_input_len_def)
qed (simp_all add: render_segment_simps)

text \<open>C34. A rendered text is bounded whatever the groups hold: a template of \<open>n\<close> characters renders to at
  most \<open>1024 * n\<close> characters, and a template of more than 4096 characters is refused, so no output is
  longer than 4 MiB.\<close>

theorem rendered_text_is_bounded:
  assumes "render ct lib groups (Some template) = Inr out"
  shows "length out \<le> max_input_len * length template \<and> length out \<le> 2 ^ 22"
proof -
  from assms obtain tr where r: "render_segment ct lib (bounded_groups groups) False template = Inr (out, tr)"
    "length template \<le> max_template_len" by (auto simp: render_def split: if_splits)
  have "length out \<le> max_input_len * length template"
    by (rule segment_bounded [OF _ r(1)]) (auto simp: bounded_groups_def length_truncate)
  then show ?thesis using r(2) by (simp add: max_input_len_def max_template_len_def)
qed

section \<open>Templates as trees\<close>

datatype template_node = Text string | Field string | Cond string "template_node list"

fun show_node :: "template_node \<Rightarrow> string" where
  "show_node (Text s) = s"
| "show_node (Field d) = braced d"
| "show_node (Cond c ns) = braced (''if:'' @ c) @ concat (map show_node ns) @ braced ''/if''"

fun node_ok :: "template_node \<Rightarrow> bool" where
  "node_ok (Text s) = (CHR ''{'' \<notin> set s)"
| "node_ok (Field d) = (CHR ''}'' \<notin> set d \<and> \<not> py_startswith d ''if:'' \<and> d \<noteq> ''/if'')"
| "node_ok (Cond c ns) = (CHR ''}'' \<notin> set c \<and> (\<forall>n \<in> set ns. node_ok n))"

text \<open>What a tree means: the texts of its parts one after the other, up to the first error.\<close>

definition concat_results :: "('e, string) result list \<Rightarrow> ('e, string) result" where
  "concat_results rs = foldr (\<lambda>r rest. bind_result r (\<lambda>a. bind_result rest (\<lambda>b. returns (a @ b)))) rs (returns [])"

fun node_text :: "case_tables \<Rightarrow> rx_library \<Rightarrow> groups \<Rightarrow> template_node \<Rightarrow> (template_error, string) result" where
  "node_text ct lib groups (Text s) = returns s"
| "node_text ct lib groups (Field d) = map_sum id fst (render_placeholder ct groups d)"
| "node_text ct lib groups (Cond c ns) =
     (if fst (evaluate_if lib groups c) then concat_results (map (node_text ct lib groups) ns) else returns [])"

abbreviation show_nodes :: "template_node list \<Rightarrow> string" where
  "show_nodes ns \<equiv> concat (map show_node ns)"

lemma scan_braced:
  assumes "CHR ''{'' \<notin> set lit" "CHR ''}'' \<notin> set d"
  shows "scan_directive (lit @ braced d @ rest) = Directive lit d rest"
proof -
  have "\<forall>c \<in> set lit. c \<noteq> CHR ''{''" "\<forall>c \<in> set d. c \<noteq> CHR ''}''" using assms by auto
  then show ?thesis
    by (simp add: scan_directive_def braced_def Let_def takeWhile_append2 dropWhile_append2 takeWhile_append1)
qed

lemma scan_text:
  assumes "CHR ''{'' \<notin> set t"
  shows "scan_directive (t @ s) = (case scan_directive s of Directive lit d rest \<Rightarrow> Directive (t @ lit) d rest | r \<Rightarrow> r)"
proof -
  have "\<forall>c \<in> set t. c \<noteq> CHR ''{''" using assms by auto
  then have "takeWhile (\<lambda>c. c \<noteq> CHR ''{'') (t @ s) = t @ takeWhile (\<lambda>c. c \<noteq> CHR ''{'') s"
    "dropWhile (\<lambda>c. c \<noteq> CHR ''{'') (t @ s) = dropWhile (\<lambda>c. c \<noteq> CHR ''{'') s"
    by (simp_all add: takeWhile_append2 dropWhile_append2)
  then show ?thesis by (simp add: scan_directive_def Let_def del: dropWhile_eq_Nil_conv)
qed


text \<open>The text of a rendering, or its error.\<close>

definition segment_text :: "case_tables \<Rightarrow> rx_library \<Rightarrow> groups \<Rightarrow> string \<Rightarrow> (template_error, string) result" where
  "segment_text ct lib groups s = map_sum id fst (render_segment ct lib groups False s)"

lemma map_sum_bind: "map_sum id fst (bind_result r f) = bind_result r (\<lambda>a. map_sum id fst (f a))"
  by (cases r) auto

lemma bind_map_sum: "bind_result (map_sum id g r) f = bind_result r (\<lambda>a. f (g a))"
  by (cases r) auto

lemma segment_text_Nil [simp]: "segment_text ct lib groups [] = returns []"
  by (simp add: segment_text_def render_segment_simps)

lemma segment_text_field:
  assumes "CHR ''{'' \<notin> set lit" "CHR ''}'' \<notin> set d" "\<not> py_startswith d ''if:''" "d \<noteq> ''/if''"
  shows "segment_text ct lib groups (lit @ braced d @ s) =
    bind_result (map_sum id fst (render_placeholder ct groups d)) (\<lambda>a.
      bind_result (segment_text ct lib groups s) (\<lambda>b. returns (lit @ a @ b)))"
  unfolding segment_text_def render_segment_placeholder [OF scan_braced [OF assms(1,2)] assms(3,4)]
  by (simp add: map_sum_bind bind_map_sum split_beta)

lemma segment_text_text:
  assumes "CHR ''{'' \<notin> set t"
  shows "segment_text ct lib groups (t @ s) = bind_result (segment_text ct lib groups s) (\<lambda>b. returns (t @ b))"
proof (induction s rule: segment_induct)
  case empty
  have "scan_directive t = NoBrace" using scan_text [OF assms, of "[]"] by (simp add: scan_directive_def)
  then show ?case by (cases "t = []") (simp_all add: segment_text_def render_segment_simps)
next
  case (conditional s lit d rest body after)
  obtain taken kind v where e: "evaluate_if lib groups (drop 3 d) = (taken, kind, v)"
    by (cases "evaluate_if lib groups (drop 3 d)")
  have sc: "scan_directive (t @ s) = Directive (t @ lit) d rest" using scan_text [OF assms, of s] conditional(1) by simp
  show ?case
    unfolding segment_text_def render_segment_if [OF sc conditional(2,3) e] render_segment_if [OF conditional(1-3) e]
    by (simp add: map_sum_bind bind_map_sum split_beta bind_result_assoc)
next
  case (placeholder s lit d rest)
  have sc: "scan_directive (t @ s) = Directive (t @ lit) d rest" using scan_text [OF assms, of s] placeholder(1) by simp
  show ?case
    unfolding segment_text_def render_segment_placeholder [OF sc placeholder(2,3)] render_segment_placeholder [OF placeholder(1-3)]
    by (simp add: map_sum_bind bind_map_sum split_beta bind_result_assoc)
qed (use scan_text [OF assms] in \<open>simp_all add: segment_text_def render_segment_simps\<close>)

lemma find_text: "CHR ''{'' \<notin> set t \<Longrightarrow> find_matching_endif depth (t @ s) = prepend t (find_matching_endif depth s)"
  using scan_text [of t s] by (subst (1 2) find_matching_endif.simps) (auto split: scan.splits)

lemma find_braced: "CHR ''}'' \<notin> set d \<Longrightarrow> \<not> (d = ''/if'' \<and> depth = 1) \<Longrightarrow>
    find_matching_endif depth (braced d @ s) = prepend (braced d)
      (find_matching_endif (if py_startswith d ''if:'' then depth + 1 else if d = ''/if'' then depth - 1 else depth) s)"
  using scan_braced [of "[]" d s] by (subst find_matching_endif.simps) auto

lemma if_directive: "py_startswith (''if:'' @ c) ''if:''" "drop 3 (''if:'' @ c) = c"
  by (simp_all add: py_startswith_def)

lemma find_node:
  assumes "node_ok n" "1 \<le> depth"
  shows "find_matching_endif depth (show_node n @ s) = prepend (show_node n) (find_matching_endif depth s)"
  using assms
proof (induction n arbitrary: depth s)
  case (Text t)
  then show ?case by (simp add: find_text)
next
  case (Field d)
  then show ?case using find_braced [of d depth s] by auto
next
  case (Cond c ns)
  have nodes: "find_matching_endif k (show_nodes ms @ t) = prepend (show_nodes ms) (find_matching_endif k t)"
    if "set ms \<subseteq> set ns" "1 \<le> k" for ms k t
    using that
  proof (induction ms)
    case (Cons m ms)
    then show ?case using Cond.IH [of m] Cond.prems(1) by auto
  qed simp
  have close: "find_matching_endif (depth + 1) (braced ''/if'' @ s) = prepend (braced ''/if'') (find_matching_endif depth s)"
    using find_braced [of "''/if''" "depth + 1" s] Cond.prems(2) by (auto simp: py_startswith_def)
  have "find_matching_endif depth (show_node (Cond c ns) @ s) = prepend (braced (''if:'' @ c))
      (find_matching_endif (depth + 1) (show_nodes ns @ braced ''/if'' @ s))"
    using find_braced [of "''if:'' @ c" depth] Cond.prems(1) if_directive(1) [of c] by simp
  then show ?case unfolding nodes [OF subset_refl le_add2] close by simp
qed


lemma find_body:
  assumes "\<forall>n \<in> set ns. node_ok n"
  shows "find_matching_endif 1 (show_nodes ns @ braced ''/if'' @ s) = Some (show_nodes ns, s)"
proof -
  have "find_matching_endif 1 (show_nodes ns @ t) = prepend (show_nodes ns) (find_matching_endif 1 t)" for t
    using assms by (induction ns) (auto simp: find_node)
  moreover have "find_matching_endif 1 (braced ''/if'' @ s) = Some ([], s)"
    using scan_braced [of "[]" "''/if''" s] by (subst find_matching_endif.simps) simp
  ultimately show ?thesis by simp
qed

lemma concat_results_simps [simp]:
  "concat_results [] = returns []"
  "concat_results (r # rs) = bind_result r (\<lambda>a. bind_result (concat_results rs) (\<lambda>b. returns (a @ b)))"
  by (simp_all add: concat_results_def)

lemma bind_returns [simp]: "bind_result r returns = r"
  by (cases r) simp_all

lemma segment_text_nodes:
  assumes "\<And>n s. n \<in> set ns \<Longrightarrow> segment_text ct lib groups (show_node n @ s) =
    bind_result (node_text ct lib groups n) (\<lambda>a. bind_result (segment_text ct lib groups s) (\<lambda>b. returns (a @ b)))"
  shows "segment_text ct lib groups (show_nodes ns @ s) =
    bind_result (concat_results (map (node_text ct lib groups) ns))
      (\<lambda>a. bind_result (segment_text ct lib groups s) (\<lambda>b. returns (a @ b)))"
  using assms by (induction ns) (simp_all add: bind_result_assoc)

lemma segment_text_node:
  "node_ok n \<Longrightarrow> segment_text ct lib groups (show_node n @ s) =
    bind_result (node_text ct lib groups n) (\<lambda>a. bind_result (segment_text ct lib groups s) (\<lambda>b. returns (a @ b)))"
proof (induction n arbitrary: s)
  case (Text t)
  then show ?case by (simp add: segment_text_text)
next
  case (Field d)
  then show ?case using segment_text_field [of "[]" d] by simp
next
  case (Cond c ns)
  have sc: "scan_directive (show_node (Cond c ns) @ s) = Directive [] (''if:'' @ c) (show_nodes ns @ braced ''/if'' @ s)"
    using scan_braced [of "[]" "''if:'' @ c"] Cond.prems by simp
  have body: "find_matching_endif 1 (show_nodes ns @ braced ''/if'' @ s) = Some (show_nodes ns, s)"
    using Cond.prems by (intro find_body) simp
  obtain taken kind v where e: "evaluate_if lib groups (drop 3 (''if:'' @ c)) = (taken, kind, v)"
    by (cases "evaluate_if lib groups (drop 3 (''if:'' @ c))")
  have inner: "map_sum id fst (render_segment ct lib groups False (show_nodes ns)) = concat_results (map (node_text ct lib groups) ns)"
    using segment_text_nodes [of ns ct lib groups "[]"] Cond by (simp add: segment_text_def render_segment_simps)
  have "segment_text ct lib groups (show_node (Cond c ns) @ s) =
      bind_result (if taken then map_sum id fst (render_segment ct lib groups False (show_nodes ns)) else returns [])
        (\<lambda>a. bind_result (segment_text ct lib groups s) (\<lambda>b. returns (a @ b)))"
    unfolding segment_text_def render_segment_if [OF sc if_directive(1) body e]
    by (simp add: map_sum_bind bind_map_sum split_beta)
  then show ?case unfolding inner using e if_directive(2) [of c] by simp
qed

text \<open>C33. Rendering follows the nesting. A template that is written out from a tree of text, placeholders
  and conditionals, nested to any depth, renders to what the tree means: every \<open>{/if}\<close> closes the
  innermost open conditional, a conditional that does not hold contributes nothing (nor an
  error), and the first failing placeholder that is reached is the error of the whole template.\<close>

theorem rendering_follows_the_tree:
  assumes "\<forall>n \<in> set ns. node_ok n" "length (show_nodes ns) \<le> max_template_len"
  shows "render ct lib groups (Some (show_nodes ns)) = concat_results (map (node_text ct lib (bounded_groups groups)) ns)"
proof -
  have "segment_text ct lib (bounded_groups groups) (show_nodes ns) =
      concat_results (map (node_text ct lib (bounded_groups groups)) ns)"
    using segment_text_nodes [of ns ct lib "bounded_groups groups" "[]"] segment_text_node assms(1) by simp
  moreover have "bind_result r (\<lambda>(out, _). returns out) = map_sum id fst r" for r :: "(template_error, string \<times> trace list) result"
    by (cases r) auto
  ultimately show ?thesis using assms(2) by (simp add: render_def segment_text_def)
qed

text \<open>The legacy suffix ends a placeholder: transforms after it are neither applied nor checked.\<close>

lemma legacy_suffix_drops_pipes:
  assumes "py_strip (hd (py_split CHR ''|'' body)) = base @ ''_normalize''" "groups (base @ ''_normalize'') = None"
  shows "\<exists>entry. render_placeholder ct groups body = Inr (legacy_normalize (group_value groups base), entry)"
  using assms by (simp add: render_placeholder_def Let_def py_endswith_def)

section \<open>Examples\<close>

definition sample_tree :: "template_node list" where
  "sample_tree = [Text ''Live: '', Cond ''league=NFL'' [Field ''title|trim'', Cond ''away'' [Text '' at '', Field ''away'']], Text ''.'']"

lemma sample_tree_text: "show_nodes sample_tree = ''Live: {if:league=NFL}{title|trim}{if:away} at {away}{/if}{/if}.''"
  by (simp add: sample_tree_def braced_def)

lemma sample_tree_ok: "\<forall>n \<in> set sample_tree. node_ok n" "length (show_nodes sample_tree) \<le> max_template_len"
  by (simp_all add: sample_tree_def braced_def py_startswith_def max_template_len_def)

definition sample_groups :: groups where
  "sample_groups = [''league'' \<mapsto> ''NFL'', ''title'' \<mapsto> '' Bears '']"

definition sample_tables :: case_tables where
  "sample_tables = \<lparr>ct_upper = id, ct_title = id\<rparr>"

definition sample_library :: rx_library where
  "sample_library = \<lparr>rx_search = \<lambda>p t i. RxValue True, rx_compiles = \<lambda>p. True, rx_late = \<lambda>t. False\<rparr>"

lemma rendering_follows_the_tree_witness:
  "render sample_tables sample_library sample_groups (Some (show_nodes sample_tree)) =
     concat_results (map (node_text sample_tables sample_library (bounded_groups sample_groups)) sample_tree)"
  by (rule rendering_follows_the_tree [OF sample_tree_ok])

lemma sample_tree_rendered:
  "render sample_tables sample_library sample_groups (Some (show_nodes sample_tree)) = Inr ''Live: Bears.''"
  by code_simp

lemma rendered_text_is_bounded_witness:
  "length ''Bears'' \<le> max_input_len * length ''Bears'' \<and> length ''Bears'' \<le> (2::nat) ^ 22"
  by (rule rendered_text_is_bounded [of sample_tables sample_library sample_groups])
    (simp add: render_def max_template_len_def render_segment.simps scan_directive_def)

end
