(* ===== verification/ChannelCsv.thy ===== *)
theory ChannelCsv
  imports ChannelNumber Evaluator
begin

text \<open>
  Import and export of channels as CSV (\<open>csv_handler.py\<close>), with what it uses of Python's library: the
  reader of \<open>csv\<close> as the state machine it is, the quoting of its writer, \<open>DictReader\<close>, the lines of a
  \<open>StringIO\<close>, and scheme and host of \<open>urlparse\<close>. Arguments are \<open>text_of\<close>, the text of a list, of a dict and
  of a fractional number, and \<open>bracketed_ok\<close>, the library's check of an address in brackets. An error of a row
  is the check it failed; the reason an exported channel is read back unchanged is the last section.
\<close>

section \<open>The reader of \<open>csv\<close>\<close>

datatype csv_mode = START_RECORD | START_FIELD | IN_FIELD | IN_QUOTED_FIELD | QUOTE_IN_QUOTED_FIELD | EAT_CRNL

record csv_reader =
  mode :: csv_mode
  cell :: string
  cells :: "string list"

datatype csv_failure = CSVParseError string | CsvError

definition parse_reset :: csv_reader where
  "parse_reset = \<lparr>mode = START_RECORD, cell = [], cells = []\<rparr>"

definition field_limit :: int where
  "field_limit = 131072"

definition add_char :: "char \<Rightarrow> csv_mode \<Rightarrow> csv_reader \<Rightarrow> (csv_failure, csv_reader) result" where
  "add_char c m r =
     (if int (length (cell r)) \<ge> field_limit then raises CsvError else returns (r\<lparr>cell := cell r @ [c], mode := m\<rparr>))"

definition save_field :: "csv_mode \<Rightarrow> csv_reader \<Rightarrow> csv_reader" where
  "save_field m r = r\<lparr>cells := cells r @ [cell r], cell := [], mode := m\<rparr>"

definition is_newline :: "char \<Rightarrow> bool" where
  "is_newline c \<longleftrightarrow> c = CHR 0x0A \<or> c = CHR 0x0D"

definition comma :: char where
  "comma = CHR '',''"

definition quote :: char where
  "quote = CHR 0x22"

definition start_field :: "char \<Rightarrow> csv_reader \<Rightarrow> (csv_failure, csv_reader) result" where
  "start_field c r =
     (if is_newline c then returns (save_field EAT_CRNL r)
      else if c = quote then returns (r\<lparr>mode := IN_QUOTED_FIELD\<rparr>)
      else if c = comma then returns (save_field START_FIELD r)
      else add_char c IN_FIELD r)"

definition process_char :: "char \<Rightarrow> csv_reader \<Rightarrow> (csv_failure, csv_reader) result" where
  "process_char c r =
     (case mode r of
        START_RECORD \<Rightarrow> if is_newline c then returns (r\<lparr>mode := EAT_CRNL\<rparr>) else start_field c r
      | START_FIELD \<Rightarrow> start_field c r
      | IN_FIELD \<Rightarrow>
          if is_newline c then returns (save_field EAT_CRNL r)
          else if c = comma then returns (save_field START_FIELD r)
          else add_char c IN_FIELD r
      | IN_QUOTED_FIELD \<Rightarrow>
          if c = quote then returns (r\<lparr>mode := QUOTE_IN_QUOTED_FIELD\<rparr>) else add_char c IN_QUOTED_FIELD r
      | QUOTE_IN_QUOTED_FIELD \<Rightarrow>
          if c = quote then add_char c IN_QUOTED_FIELD r
          else if c = comma then returns (save_field START_FIELD r)
          else if is_newline c then returns (save_field EAT_CRNL r)
          else add_char c IN_FIELD r
      | EAT_CRNL \<Rightarrow> if is_newline c then returns r else raises CsvError)"

definition end_of_line :: "csv_reader \<Rightarrow> csv_reader" where
  "end_of_line r =
     (case mode r of
        START_RECORD \<Rightarrow> r
      | IN_QUOTED_FIELD \<Rightarrow> r
      | EAT_CRNL \<Rightarrow> r\<lparr>mode := START_RECORD\<rparr>
      | _ \<Rightarrow> save_field START_RECORD r)"

definition feed_line :: "string \<Rightarrow> csv_reader \<Rightarrow> (csv_failure, csv_reader) result" where
  "feed_line line r = bind_result (fold_result process_char line r) (\<lambda>r'. returns (end_of_line r'))"

text \<open>\<open>next(reader)\<close>: the next record, if any, and the lines after it.\<close>

fun next_record :: "csv_reader \<Rightarrow> string list \<Rightarrow> (csv_failure, string list option \<times> string list) result" where
  "next_record r [] =
     returns (if cell r \<noteq> [] \<or> mode r = IN_QUOTED_FIELD then Some (cells (save_field START_RECORD r)) else None, [])"
| "next_record r (line # lines) =
     bind_result (feed_line line r) (\<lambda>r'.
       if mode r' = START_RECORD then returns (Some (cells r'), lines) else next_record r' lines)"

text \<open>The records to the end.\<close>

fun records :: "csv_reader \<Rightarrow> string list \<Rightarrow> (csv_failure, string list list) result" where
  "records r [] =
     returns (if cell r \<noteq> [] \<or> mode r = IN_QUOTED_FIELD then [cells (save_field START_RECORD r)] else [])"
| "records r (line # lines) =
     bind_result (feed_line line r) (\<lambda>r'.
       if mode r' = START_RECORD then bind_result (records parse_reset lines) (\<lambda>rows. returns (cells r' # rows))
       else records r' lines)"

section \<open>\<open>DictReader\<close>\<close>

type_synonym csv_row = "(string \<times> string option) list"

text \<open>
  A record under its header: a later column of the same name replaces an earlier one, cells that are
  missing are \<open>None\<close>, cells beyond the header are kept under a key no column can have.
\<close>

definition dict_row :: "string list \<Rightarrow> string list \<Rightarrow> csv_row" where
  "dict_row fieldnames row =
     fold (\<lambda>(k, v). dict_put k v)
       (zip fieldnames (map Some row) @ map (\<lambda>k. (k, None)) (drop (length row) fieldnames)) []"

section \<open>Rows\<close>

definition ALL_COLUMNS :: "string list" where
  "ALL_COLUMNS =
     [''channel_number'', ''name'', ''group_name'', ''tvg_id'', ''gracenote_id'', ''logo_url'', ''stream_urls'']"

definition REQUIRED_COLUMNS :: "string list" where
  "REQUIRED_COLUMNS = [''name'']"

datatype row_problem = MissingName | BadChannelNumber number_error | BadLogoUrl

definition text_field :: "(string \<times> string) list \<Rightarrow> string \<Rightarrow> string" where
  "text_field row k = (case map_of row k of None \<Rightarrow> [] | Some v \<Rightarrow> v)"

text \<open>
  Scheme and host of an address as \<open>urlsplit\<close> finds them; \<open>None\<close> where it raises for a bracket that is not
  closed or not opened, or for what is in the brackets.
\<close>

definition is_ascii_alpha :: "char \<Rightarrow> bool" where
  "is_ascii_alpha c \<longleftrightarrow> (let n = of_char c :: nat in 65 \<le> n \<and> n \<le> 90 \<or> 97 \<le> n \<and> n \<le> 122)"

definition is_scheme_char :: "char \<Rightarrow> bool" where
  "is_scheme_char c \<longleftrightarrow> is_ascii_alpha c \<or> py_is_digit c \<or> c \<in> {CHR ''+'', CHR ''-'', CHR ''.''}"

definition clean_url :: "string \<Rightarrow> string" where
  "clean_url url =
     filter (\<lambda>c. c \<notin> {CHR 0x09, CHR 0x0A, CHR 0x0D}) (dropWhile (\<lambda>c. (of_char c :: nat) \<le> 32) url)"

definition split_scheme :: "string \<Rightarrow> string \<times> string" where
  "split_scheme url =
     (let prefix = takeWhile (\<lambda>c. c \<noteq> CHR '':'') url; rest = dropWhile (\<lambda>c. c \<noteq> CHR '':'') url in
      if rest \<noteq> [] \<and> prefix \<noteq> [] \<and> is_ascii_alpha (hd prefix) \<and> list_all is_scheme_char prefix
      then (py_lower prefix, tl rest) else ([], url))"

definition netloc_of :: "(string \<Rightarrow> bool) \<Rightarrow> string \<Rightarrow> string option" where
  "netloc_of bracketed_ok url =
     (if take 2 url \<noteq> ''//'' then Some []
      else
        let netloc = takeWhile (\<lambda>c. c \<notin> {CHR ''/'', CHR ''?'', CHR ''#''}) (drop 2 url);
            opened = CHR ''['' \<in> set netloc; closed = CHR '']'' \<in> set netloc in
        if opened \<noteq> closed then None
        else if opened \<and> \<not> bracketed_ok netloc then None
        else Some netloc)"

definition is_valid_url :: "(string \<Rightarrow> bool) \<Rightarrow> string \<Rightarrow> bool" where
  "is_valid_url bracketed_ok url =
     (let (scheme, rest) = split_scheme (clean_url url) in
      case netloc_of bracketed_ok rest of
        None \<Rightarrow> False
      | Some netloc \<Rightarrow> scheme \<in> {''http'', ''https''} \<and> netloc \<noteq> [])"

definition validate_channel_row :: "(string \<Rightarrow> bool) \<Rightarrow> (string \<times> string) list \<Rightarrow> row_problem list" where
  "validate_channel_row bracketed_ok row =
     (let name = py_strip (text_field row ''name'');
          number = py_strip (text_field row ''channel_number'');
          logo = py_strip (text_field row ''logo_url'') in
      (if name = [] then [MissingName] else [])
      @ (if number = [] then []
         else case parse_channel_number_text (PStr number) False of
                Inl e \<Rightarrow> [BadChannelNumber e] | Inr _ \<Rightarrow> [])
      @ (if logo \<noteq> [] \<and> \<not> is_valid_url bracketed_ok logo then [BadLogoUrl] else []))"

section \<open>Import\<close>

fun split_lines_from :: "string \<Rightarrow> string \<Rightarrow> string list" where
  "split_lines_from line [] = [line]"
| "split_lines_from line (c # cs) =
     (if c = CHR 0x0A then line # split_lines_from [] cs else split_lines_from (line @ [c]) cs)"

definition split_newlines :: "string \<Rightarrow> string list" where
  "split_newlines s = split_lines_from [] s"

fun join_lines :: "string list \<Rightarrow> string" where
  "join_lines [] = []"
| "join_lines [l] = l"
| "join_lines (l # ls) = l @ CHR 0x0A # join_lines ls"

definition kept_line :: "string \<Rightarrow> bool" where
  "kept_line line \<longleftrightarrow> py_strip line \<noteq> [] \<and> \<not> py_startswith (py_strip line) ''#''"

text \<open>The lines a \<open>StringIO\<close> yields keep their newline.\<close>

fun io_lines_from :: "string \<Rightarrow> string \<Rightarrow> string list" where
  "io_lines_from line [] = (if line = [] then [] else [line])"
| "io_lines_from line (c # cs) =
     (if c = CHR 0x0A then (line @ [c]) # io_lines_from [] cs else io_lines_from (line @ [c]) cs)"

definition io_lines :: "string \<Rightarrow> string list" where
  "io_lines s = io_lines_from [] s"

definition column_key :: "string \<Rightarrow> string" where
  "column_key col = py_strip (py_lower col)"

definition column_mapping :: "string list \<Rightarrow> (string \<times> string) list" where
  "column_mapping fieldnames = fold (\<lambda>col. dict_put (column_key col) col) fieldnames []"

definition normalized_value :: "(string \<times> string) list \<Rightarrow> csv_row \<Rightarrow> string \<Rightarrow> string" where
  "normalized_value mapping row col =
     (case map_of mapping (py_lower col) of
        None \<Rightarrow> []
      | Some original \<Rightarrow>
          if original = [] then []
          else (case map_of row original of
                  Some (Some v) \<Rightarrow> py_strip v | _ \<Rightarrow> []))"

definition normalized_row :: "(string \<times> string) list \<Rightarrow> csv_row \<Rightarrow> (string \<times> string) list" where
  "normalized_row mapping row = map (\<lambda>col. (col, normalized_value mapping row col)) ALL_COLUMNS"

fun import_rows ::
  "(string \<Rightarrow> bool) \<Rightarrow> nat \<Rightarrow> (string \<times> string) list list
     \<Rightarrow> (string \<times> string) list list \<times> (nat \<times> row_problem) list" where
  "import_rows bracketed_ok n [] = ([], [])"
| "import_rows bracketed_ok n (row # rows) =
     (let problems = validate_channel_row bracketed_ok row;
          (good, bad) = import_rows bracketed_ok (n + 1) rows in
      if problems \<noteq> [] then (good, map (Pair (n + 1)) problems @ bad) else (row # good, bad))"

definition parse_csv ::
  "(string \<Rightarrow> bool) \<Rightarrow> string
     \<Rightarrow> (csv_failure, (string \<times> string) list list \<times> (nat \<times> row_problem) list) result" where
  "parse_csv bracketed_ok content =
     (let lines = filter kept_line (split_newlines content) in
      if py_strip content = [] \<or> lines = [] then returns ([], [])
      else
        bind_result (next_record parse_reset (io_lines (join_lines lines))) (\<lambda>(header, rest).
          case header of
            None \<Rightarrow> returns ([], [])
          | Some fieldnames \<Rightarrow>
              case List.find (\<lambda>required. py_lower required \<notin> column_key ` set fieldnames) REQUIRED_COLUMNS of
                Some required \<Rightarrow> raises (CSVParseError required)
              | None \<Rightarrow>
                  bind_result (records parse_reset rest) (\<lambda>rows.
                    returns (import_rows bracketed_ok 1
                      (map (normalized_row (column_mapping fieldnames) \<circ> dict_row fieldnames)
                        (filter (\<lambda>row. row \<noteq> []) rows))))))"

section \<open>Export\<close>

definition export_value :: "(pyval \<Rightarrow> string) \<Rightarrow> pyval \<Rightarrow> (py_error, string) result" where
  "export_value text_of v =
     (case v of
        PNone \<Rightarrow> returns []
      | PBool b \<Rightarrow> returns (py_str_int (if b then 1 else 0))
      | PInt n \<Rightarrow> returns (py_str_int n)
      | PFloat f \<Rightarrow>
          (case f of
             Fin x \<Rightarrow> returns (if x = of_int \<lfloor>x\<rfloor> then py_str_int \<lfloor>x\<rfloor> else text_of v)
           | NaN \<Rightarrow> raises ValueError
           | _ \<Rightarrow> raises OverflowError)
      | PStr s \<Rightarrow> returns s
      | _ \<Rightarrow> returns (if truthy v then text_of v else []))"

definition needs_quotes :: "string \<Rightarrow> bool" where
  "needs_quotes s \<longleftrightarrow> list_ex (\<lambda>c. c = comma \<or> c = quote \<or> is_newline c) s"

definition write_field :: "string \<Rightarrow> string" where
  "write_field s =
     (if needs_quotes s then quote # concat (map (\<lambda>c. if c = quote then [quote, quote] else [c]) s) @ [quote] else s)"

fun write_cells :: "string list \<Rightarrow> string" where
  "write_cells [] = []"
| "write_cells [s] = write_field s"
| "write_cells (s # ss) = write_field s @ comma # write_cells ss"

text \<open>\<open>writerow\<close> on the seven columns; a row of one empty cell, which it would quote, does not occur.\<close>

definition write_row :: "string list \<Rightarrow> string" where
  "write_row ss = write_cells ss @ [CHR 0x0D, CHR 0x0A]"

definition export_row :: "(pyval \<Rightarrow> string) \<Rightarrow> (string \<times> pyval) list \<Rightarrow> (py_error, string list) result" where
  "export_row text_of channel = map_result (\<lambda>col. export_value text_of (dict_get channel col)) ALL_COLUMNS"

definition generate_csv :: "(pyval \<Rightarrow> string) \<Rightarrow> (string \<times> pyval) list list \<Rightarrow> (py_error, string) result" where
  "generate_csv text_of channels =
     bind_result (map_result (export_row text_of) channels) (\<lambda>rows.
       returns (concat (map write_row (ALL_COLUMNS # rows))))"

definition generate_template :: string where
  "generate_template = concat (map (\<lambda>l. l @ [CHR 0x0A])
     [''# Enhanced Channel Manager - Channel Import Template'',
      ''# Lines starting with # are comments and will be ignored'',
      ''#'',
      ''# Required field: name'',
      ''# Optional fields: channel_number, group_name, tvg_id, gracenote_id, logo_url, stream_urls'',
      ''#'',
      ''# stream_urls: semicolon-separated list of stream URLs to link to the channel'',
      ''#'',
      ''# Example rows (remove # to use):'',
      ''# 101,ESPN HD,Sports,ESPN.US,12345,https://example.com/espn-logo.png,http://stream1.example.com/espn.ts;http://stream2.example.com/espn.ts'',
      ''# 102,CNN,News,CNN.US,67890,https://example.com/cnn-logo.png,http://stream.example.com/cnn.ts'',
      ''# ,My Custom Channel,Custom,,,,'',
      ''#'',
      ''channel_number,name,group_name,tvg_id,gracenote_id,logo_url,stream_urls''])"

section \<open>What is written is read\<close>

lemmas reader_simps = process_char_def start_field_def add_char_def save_field_def is_newline_def comma_def quote_def

lemma plain_cell_read:
  assumes "\<not> needs_quotes s" "mode r = IN_FIELD" "int (length (cell r) + length s) \<le> field_limit"
  shows "fold_result process_char s r = returns (r\<lparr>cell := cell r @ s\<rparr>)"
  using assms
proof (induction s arbitrary: r)
  case (Cons c s)
  have "process_char c r = returns (r\<lparr>cell := cell r @ [c]\<rparr>)"
    using Cons.prems by (cases r) (auto simp: reader_simps needs_quotes_def)
  with Cons.IH [of "r\<lparr>cell := cell r @ [c]\<rparr>"] Cons.prems show ?case by (simp add: needs_quotes_def)
qed simp

definition doubled :: "string \<Rightarrow> string" where
  "doubled s = concat (map (\<lambda>c. if c = quote then [quote, quote] else [c]) s)"

lemma quoted_cell_read:
  assumes "mode r = IN_QUOTED_FIELD" "int (length (cell r) + length s) \<le> field_limit"
  shows "fold_result process_char (doubled s) r = returns (r\<lparr>cell := cell r @ s\<rparr>)"
  using assms
proof (induction s arbitrary: r)
  case (Cons c s)
  have "fold_result process_char (if c = quote then [quote, quote] else [c]) r = returns (r\<lparr>cell := cell r @ [c]\<rparr>)"
    using Cons.prems by (cases r) (auto simp: process_char_def add_char_def)
  with Cons.IH [of "r\<lparr>cell := cell r @ [c]\<rparr>"] Cons.prems show ?case
    by (simp add: doubled_def fold_result_append)
qed (simp add: doubled_def)

text \<open>The modes in which a cell has been read as it stands.\<close>

lemma cell_read:
  assumes "mode r \<in> {START_RECORD, START_FIELD}" "cell r = []" "int (length s) \<le> field_limit"
  shows "\<exists>m. fold_result process_char (write_field s) r = returns (r\<lparr>cell := s, mode := m\<rparr>) \<and>
    (m \<in> {START_FIELD, IN_FIELD, QUOTE_IN_QUOTED_FIELD} \<or> s = [] \<and> m = mode r)"
proof (cases "needs_quotes s")
  case True
  have "write_field s = quote # doubled s @ [quote]" using True by (simp add: write_field_def doubled_def)
  moreover have "process_char quote r = returns (r\<lparr>mode := IN_QUOTED_FIELD\<rparr>)"
    using assms(1) by (auto simp: reader_simps)
  moreover have "process_char quote (r\<lparr>mode := IN_QUOTED_FIELD, cell := s\<rparr>) = returns (r\<lparr>cell := s, mode := QUOTE_IN_QUOTED_FIELD\<rparr>)"
    by (simp add: process_char_def)
  ultimately show ?thesis
    using assms quoted_cell_read [of "r\<lparr>mode := IN_QUOTED_FIELD\<rparr>" s]
    by (intro exI [of _ QUOTE_IN_QUOTED_FIELD]) (simp add: fold_result_append)
next
  case plain: False
  show ?thesis
  proof (cases s)
    case Nil
    then show ?thesis using assms by (cases r) (auto simp: write_field_def needs_quotes_def)
  next
    case (Cons c s')
    have "process_char c r = returns (r\<lparr>cell := [c], mode := IN_FIELD\<rparr>)"
      using assms plain Cons by (cases r) (auto simp: reader_simps needs_quotes_def field_limit_def)
    with plain_cell_read [of s' "r\<lparr>cell := [c], mode := IN_FIELD\<rparr>"] assms plain Cons show ?thesis
      by (intro exI [of _ IN_FIELD]) (simp add: write_field_def needs_quotes_def)
  qed
qed

lemma cells_read:
  assumes "mode r = START_FIELD" "cell r = []" "ss \<noteq> []" "\<forall>s \<in> set ss. int (length s) \<le> field_limit"
  shows "\<exists>r'. fold_result process_char (write_cells ss) r = returns r' \<and> cells r' @ [cell r'] = cells r @ ss \<and>
    mode r' \<in> {START_FIELD, IN_FIELD, QUOTE_IN_QUOTED_FIELD}"
  using assms
proof (induction ss arbitrary: r rule: write_cells.induct)
  case (2 s)
  then show ?case using cell_read [of r s] by fastforce
next
  case (3 s s' ss)
  obtain m where m: "fold_result process_char (write_field s) r = returns (r\<lparr>cell := s, mode := m\<rparr>)"
      "m \<in> {START_FIELD, IN_FIELD, QUOTE_IN_QUOTED_FIELD}"
    using cell_read [of r s] 3 by auto
  have "process_char comma (r\<lparr>cell := s, mode := m\<rparr>) = returns (save_field START_FIELD (r\<lparr>cell := s\<rparr>))"
    using m(2) by (auto simp: reader_simps)
  moreover from 3(1) [of "save_field START_FIELD (r\<lparr>cell := s\<rparr>)"] 3(4,5) obtain r' where
      "fold_result process_char (write_cells (s' # ss)) (save_field START_FIELD (r\<lparr>cell := s\<rparr>)) = returns r'"
      "cells r' @ [cell r'] = cells r @ s # s' # ss" "mode r' \<in> {START_FIELD, IN_FIELD, QUOTE_IN_QUOTED_FIELD}"
    by (auto simp: save_field_def)
  ultimately show ?case using m(1) by (auto simp: fold_result_append)
qed simp

definition record_read :: "string list \<Rightarrow> csv_reader" where
  "record_read ss = \<lparr>mode = START_RECORD, cell = [], cells = ss\<rparr>"

text \<open>A written row of at least two cells is one record, with its newline and without.\<close>

lemma row_read:
  assumes "\<forall>s \<in> set (s # s' # ss). int (length s) \<le> field_limit" and nl: "nl = [] \<or> nl = [CHR 0x0A]"
  shows "feed_line (write_cells (s # s' # ss) @ CHR 0x0D # nl) parse_reset = returns (record_read (s # s' # ss))"
proof -
  obtain m where m: "fold_result process_char (write_field s) parse_reset = returns (parse_reset\<lparr>cell := s, mode := m\<rparr>)"
      "m \<in> {START_FIELD, IN_FIELD, QUOTE_IN_QUOTED_FIELD, START_RECORD}"
    using cell_read [of parse_reset s] assms by (auto simp: parse_reset_def)
  let ?r = "\<lparr>mode = START_FIELD, cell = [], cells = [s]\<rparr>"
  have "process_char comma (parse_reset\<lparr>cell := s, mode := m\<rparr>) = returns ?r"
    using m(2) by (auto simp: reader_simps parse_reset_def)
  moreover obtain r' where r': "fold_result process_char (write_cells (s' # ss)) ?r = returns r'"
      "cells r' @ [cell r'] = s # s' # ss" "mode r' \<in> {START_FIELD, IN_FIELD, QUOTE_IN_QUOTED_FIELD}"
    using cells_read [of ?r "s' # ss"] assms by auto
  moreover have "process_char (CHR 0x0D) r' = returns (save_field EAT_CRNL r')"
    using r'(3) by (auto simp: reader_simps)
  moreover have "fold_result process_char nl (save_field EAT_CRNL r') = returns (save_field EAT_CRNL r')"
    using nl by (auto simp: reader_simps)
  moreover have "end_of_line (save_field EAT_CRNL r') = record_read (s # s' # ss)"
    using r'(2) by (cases r') (simp add: end_of_line_def save_field_def record_read_def)
  ultimately show ?thesis using m(1) by (simp add: feed_line_def fold_result_append)
qed

section \<open>The lines of an export\<close>

lemma split_lines_from_line:
  "CHR 0x0A \<notin> set l \<Longrightarrow> split_lines_from acc (l @ CHR 0x0A # rest) = (acc @ l) # split_lines_from [] rest"
  by (induction l arbitrary: acc) auto

lemma split_newlines_rows:
  assumes "\<forall>l \<in> set ls. CHR 0x0A \<notin> set l"
  shows "split_newlines (concat (map (\<lambda>l. l @ [CHR 0x0A]) ls)) = ls @ [[]]"
  using assms unfolding split_newlines_def
  by (induction ls) (simp_all add: split_lines_from_line)

lemma io_lines_from_line:
  "CHR 0x0A \<notin> set l \<Longrightarrow> io_lines_from acc (l @ CHR 0x0A # rest) = (acc @ l @ [CHR 0x0A]) # io_lines_from [] rest"
  by (induction l arbitrary: acc) auto

lemma io_lines_last: "CHR 0x0A \<notin> set l \<Longrightarrow> io_lines_from acc l = (if acc @ l = [] then [] else [acc @ l])"
  by (induction l arbitrary: acc) auto

text \<open>The lines that come out of the joined text are the kept lines, with a newline but for the last.\<close>

lemma io_lines_join:
  assumes "\<forall>l \<in> set ls. CHR 0x0A \<notin> set l \<and> l \<noteq> []"
  shows "list_all2 (\<lambda>l line. \<exists>nl. (nl = [] \<or> nl = [CHR 0x0A]) \<and> line = l @ nl) ls (io_lines (join_lines ls))"
  using assms unfolding io_lines_def
proof (induction ls rule: join_lines.induct)
  case (2 l)
  then show ?case by (simp add: io_lines_last)
next
  case (3 l l' ls)
  then show ?case by (simp add: io_lines_from_line)
qed simp

lemma records_read:
  assumes "list_all2 (\<lambda>ss line. feed_line line parse_reset = returns (record_read ss)) rows lines"
  shows "records parse_reset lines = returns rows"
  using assms by (induction rule: list_all2_induct) (simp_all add: parse_reset_def record_read_def)

lemma write_field_newline: "CHR 0x0A \<notin> set s \<Longrightarrow> CHR 0x0A \<notin> set (write_field s)"
  by (auto simp: write_field_def quote_def)

lemma write_cells_newline: "\<forall>s \<in> set ss. CHR 0x0A \<notin> set s \<Longrightarrow> CHR 0x0A \<notin> set (write_cells ss)"
  by (induction ss rule: write_cells.induct) (auto simp: write_field_newline comma_def)

text \<open>A line that does not begin with a blank or \<open>#\<close> is kept.\<close>

lemma py_strip_starts:
  assumes "\<not> py_is_space c"
  shows "\<exists>cs'. py_strip (c # cs) = c # cs'"
proof -
  have "rev (dropWhile py_is_space (rev cs @ [c])) = c # rev (dropWhile py_is_space (rev cs))"
    if "dropWhile py_is_space (rev cs) \<noteq> []"
    using that by (simp add: dropWhile_append)
  moreover have "rev (dropWhile py_is_space (rev cs @ [c])) = [c]" if "dropWhile py_is_space (rev cs) = []"
    using that assms by (simp add: dropWhile_append)
  ultimately show ?thesis using assms by (cases "dropWhile py_is_space (rev cs) = []") (auto simp: py_strip_def py_lstrip_def)
qed

lemma kept_line_starts: "\<not> py_is_space c \<Longrightarrow> c \<noteq> CHR ''#'' \<Longrightarrow> kept_line (c # cs)"
  using py_strip_starts [of c cs] by (auto simp: kept_line_def py_startswith_def)

section \<open>Import after export\<close>

definition importable :: "(string \<Rightarrow> bool) \<Rightarrow> string list \<Rightarrow> bool" where
  "importable bracketed_ok ss \<longleftrightarrow>
     (\<forall>s \<in> set ss. py_strip s = s \<and> CHR 0x0A \<notin> set s \<and> int (length s) \<le> field_limit) \<and>
     validate_channel_row bracketed_ok (zip ALL_COLUMNS ss) = []"

lemma seven_cells:
  assumes "length ss = length ALL_COLUMNS"
  obtains a b c d e f g where "ss = [a, b, c, d, e, f, g]"
  using assms by (auto simp: ALL_COLUMNS_def length_Suc_conv eval_nat_numeral)

lemma number_cell_starts:
  assumes "importable bracketed_ok (a # ss)" "a \<noteq> []"
  shows "py_is_digit (hd a)"
proof -
  have "text_field (zip ALL_COLUMNS (a # ss)) ''channel_number'' = a" "py_strip a = a"
    using assms(1) by (simp_all add: text_field_def ALL_COLUMNS_def importable_def)
  then obtain v where "parse_channel_number_text (PStr a) False = Inr v"
    using assms by (auto simp: importable_def validate_channel_row_def Let_def split: if_splits sum.splits)
  then have "takeWhile py_is_digit a \<noteq> []"
    using \<open>py_strip a = a\<close> by (auto simp: Let_def channel_number_text_def split: if_splits)
  then show ?thesis using assms(2) by (cases a) (auto split: if_splits)
qed

lemma export_line_kept:
  assumes "importable bracketed_ok (a # s' # ss)"
  shows "kept_line (write_cells (a # s' # ss) @ rest)"
proof -
  have "\<not> py_is_space comma" "\<not> py_is_space quote" "comma \<noteq> CHR ''#''" "quote \<noteq> CHR ''#''" by code_simp+
  moreover have "\<not> py_is_space (hd a)" "hd a \<noteq> CHR ''#''" if "a \<noteq> []"
    using number_cell_starts [OF assms that] digit_not_space by (auto simp: py_is_digit_def)
  ultimately show ?thesis
    by (cases a) (auto simp: write_field_def needs_quotes_def intro!: kept_line_starts)
qed

lemma header_mapping: "column_mapping ALL_COLUMNS = zip ALL_COLUMNS ALL_COLUMNS"
  by code_simp

lemma normalized_export:
  assumes "length ss = length ALL_COLUMNS"
  shows "normalized_row (column_mapping ALL_COLUMNS) (dict_row ALL_COLUMNS ss) = zip ALL_COLUMNS (map py_strip ss)"
proof -
  have lower: "map py_lower ALL_COLUMNS = ALL_COLUMNS" by code_simp
  from assms obtain a b c d e f g where "ss = [a, b, c, d, e, f, g]" by (rule seven_cells)
  then show ?thesis
    using lower unfolding header_mapping
    by (simp add: normalized_row_def normalized_value_def dict_row_def ALL_COLUMNS_def)
qed

lemma import_valid_rows:
  "\<forall>row \<in> set rows. validate_channel_row bracketed_ok row = [] \<Longrightarrow> import_rows bracketed_ok n rows = (rows, [])"
  by (induction rows arbitrary: n) simp_all

lemma export_row_length: "export_row text_of channel = Inr ss \<Longrightarrow> length ss = length ALL_COLUMNS"
proof -
  have "map_result f xs = Inr ys \<Longrightarrow> length ys = length xs" for f :: "string \<Rightarrow> (py_error, string) result" and xs ys
    by (induction xs arbitrary: ys) auto
  then show "export_row text_of channel = Inr ss \<Longrightarrow> length ss = length ALL_COLUMNS" unfolding export_row_def .
qed

lemma map_result_all: "map_result f xs = Inr ys \<Longrightarrow> y \<in> set ys \<Longrightarrow> \<exists>x \<in> set xs. f x = Inr y"
  by (induction xs arbitrary: ys) auto

lemma py_strip_Nil_iff: "py_strip s = [] \<longleftrightarrow> (\<forall>c \<in> set s. py_is_space c)"
proof -
  have "(\<forall>c \<in> set (dropWhile py_is_space s). py_is_space c) = (\<forall>c \<in> set s. py_is_space c)"
    by (metis Un_iff set_append set_takeWhileD takeWhile_dropWhile_id)
  then show ?thesis by (simp add: py_strip_def py_lstrip_def)
qed

text \<open>What is read back from written rows under the written header.\<close>

lemma parse_written:
  assumes "\<forall>ss \<in> set rows. importable bracketed_ok ss \<and> length ss = length ALL_COLUMNS"
  shows "parse_csv bracketed_ok (concat (map write_row (ALL_COLUMNS # rows))) = returns (map (zip ALL_COLUMNS) rows, [])"
proof -
  let ?line = "\<lambda>ss. write_cells ss @ [CHR 0x0D]"
  let ?text = "concat (map write_row (ALL_COLUMNS # rows))"
  have shape: "\<exists>a s' rest. ss = a # s' # rest" if "ss \<in> set (ALL_COLUMNS # rows)" for ss
    using that assms by (auto simp: ALL_COLUMNS_def length_Suc_conv eval_nat_numeral)
  have head: "?line ALL_COLUMNS \<noteq> []" "kept_line (?line ALL_COLUMNS)" "CHR 0x0A \<notin> set (?line ALL_COLUMNS)"
      "\<forall>s \<in> set ALL_COLUMNS. int (length s) \<le> field_limit" by code_simp+
  have lines: "kept_line (?line ss) \<and> CHR 0x0A \<notin> set (?line ss) \<and> ?line ss \<noteq> [] \<and> (\<forall>s \<in> set ss. int (length s) \<le> field_limit)"
    if "ss \<in> set (ALL_COLUMNS # rows)" for ss
  proof (cases "ss = ALL_COLUMNS")
    case False
    with that assms have i: "importable bracketed_ok ss" by auto
    moreover from shape [OF that] obtain a s' rest where "ss = a # s' # rest" by blast
    ultimately show ?thesis using export_line_kept [of bracketed_ok a s' rest "[CHR 0x0D]"] write_cells_newline [of ss]
      by (auto simp: importable_def)
  qed (use head in simp)
  have whole: "?text = concat (map (\<lambda>l. l @ [CHR 0x0A]) (map ?line (ALL_COLUMNS # rows)))"
    by (simp add: write_row_def [abs_def] comp_def)
  then have split: "split_newlines ?text = map ?line (ALL_COLUMNS # rows) @ [[]]"
    using lines by (simp only: whole) (rule split_newlines_rows, auto)
  have kept: "filter kept_line (split_newlines ?text) = map ?line (ALL_COLUMNS # rows)"
  proof -
    have "filter kept_line (map ?line (ALL_COLUMNS # rows)) = map ?line (ALL_COLUMNS # rows)"
      using lines by (intro filter_True) auto
    moreover have "\<not> kept_line []" by (simp add: kept_line_def)
    ultimately show ?thesis unfolding split by (simp only: filter_append filter.simps if_False append_Nil2)
  qed
  let ?io = "io_lines (join_lines (map ?line (ALL_COLUMNS # rows)))"
  have "list_all2 (\<lambda>l line. \<exists>nl. (nl = [] \<or> nl = [CHR 0x0A]) \<and> line = l @ nl) (map ?line (ALL_COLUMNS # rows)) ?io"
    using lines by (intro io_lines_join) auto
  then have "list_all2 (\<lambda>ss line. feed_line line parse_reset = returns (record_read ss)) (ALL_COLUMNS # rows) ?io"
    unfolding list_all2_map1
  proof (rule list.rel_mono_strong)
    fix ss line
    assume "ss \<in> set (ALL_COLUMNS # rows)" and "\<exists>nl. (nl = [] \<or> nl = [CHR 0x0A]) \<and> line = ?line ss @ nl"
    with shape [of ss] lines [of ss] show "feed_line line parse_reset = returns (record_read ss)"
      by (auto simp del: write_cells.simps intro!: row_read)
  qed
  then obtain l ls where io: "?io = l # ls" "feed_line l parse_reset = returns (record_read ALL_COLUMNS)"
      and ls: "list_all2 (\<lambda>ss line. feed_line line parse_reset = returns (record_read ss)) rows ls"
    by (auto simp: list_all2_Cons1)
  have "\<exists>cs. ?text = CHR ''c'' # cs"
    by (simp add: write_row_def ALL_COLUMNS_def write_field_def needs_quotes_def comma_def quote_def is_newline_def)
  then obtain cs where cs: "?text = CHR ''c'' # cs" by blast
  have blank: "py_strip ?text \<noteq> []" unfolding cs by (simp add: py_strip_Nil_iff py_is_space_def)
  have required: "List.find (\<lambda>required. py_lower required \<notin> column_key ` set ALL_COLUMNS) REQUIRED_COLUMNS = None"
    by code_simp
  have cells: "filter (\<lambda>row. row \<noteq> []) rows = rows"
    using shape by (intro filter_True) auto
  have m: "map (normalized_row (column_mapping ALL_COLUMNS) \<circ> dict_row ALL_COLUMNS) rows = map (zip ALL_COLUMNS) rows"
    using assms normalized_export by (auto simp: importable_def map_idI)
  have i: "import_rows bracketed_ok n (map (zip ALL_COLUMNS) rows) = (map (zip ALL_COLUMNS) rows, [])" for n
    using assms by (intro import_valid_rows) (auto simp: importable_def)
  show ?thesis
    using io blank required cells records_read [OF ls] kept
    by (simp add: parse_csv_def Let_def record_read_def m i del: concat.simps)
qed

text \<open>
  C15. What is exported can be imported. The text written for a list of channels is read back as the very
  cells that were written, in order and without an error, whatever commas, quotes and carriage returns
  they contain: provided that no cell is padded with blanks, contains a line feed or exceeds the reader's
  limit, and that each channel has a name, a number within the contract or none, and a valid logo address or none.
\<close>

theorem exported_channels_are_imported:
  assumes "map_result (export_row text_of) channels = returns rows"
    and "\<forall>ss \<in> set rows. importable bracketed_ok ss"
  shows "\<exists>csv. generate_csv text_of channels = returns csv \<and>
    parse_csv bracketed_ok csv = returns (map (zip ALL_COLUMNS) rows, [])"
proof -
  have "\<forall>ss \<in> set rows. importable bracketed_ok ss \<and> length ss = length ALL_COLUMNS"
    using assms map_result_all [OF assms(1)] export_row_length by blast
  from parse_written [OF this] show ?thesis using assms(1) by (simp add: generate_csv_def)
qed

section \<open>What an import accepts\<close>

lemma import_rows_sound:
  "import_rows bracketed_ok n rows = (good, bad) \<Longrightarrow>
     good = filter (\<lambda>row. validate_channel_row bracketed_ok row = []) rows \<and>
     bad = concat (map (\<lambda>(i, row). map (Pair i) (validate_channel_row bracketed_ok row))
       (enumerate (n + 1) rows))"
proof (induction rows arbitrary: n good bad)
  case (Cons row rows)
  obtain g b where "import_rows bracketed_ok (n + 1) rows = (g, b)" by fastforce
  with Cons show ?case
    by (auto simp: Let_def split: if_splits)
qed simp

lemma next_record_None: "next_record r lines = returns (None, rest) \<Longrightarrow> rest = []"
  by (induction lines arbitrary: r) (auto split: if_splits)

lemma py_strip_idem [simp]: "py_strip (py_strip s) = py_strip s"
proof -
  have "py_lstrip (py_strip s) = py_strip s"
  proof (cases "dropWhile py_is_space s")
    case Nil
    then have "py_strip s = []" by (simp add: py_strip_Nil_iff dropWhile_eq_Nil_conv)
    then show ?thesis by (simp add: py_lstrip_def)
  next
    case (Cons c cs)
    then have c: "\<not> py_is_space c" by (metis hd_dropWhile list.distinct(1) list.sel(1))
    with Cons have "py_strip s = py_strip (c # cs)" by (simp add: py_strip_def py_lstrip_def)
    moreover from c obtain cs' where "py_strip (c # cs) = c # cs'" using py_strip_starts by blast
    ultimately show ?thesis using c by (simp add: py_lstrip_def)
  qed
  moreover have "dropWhile py_is_space (dropWhile py_is_space t) = dropWhile py_is_space t" for t
    by (induction t) auto
  ultimately show ?thesis by (metis py_lstrip_def py_strip_def rev_rev_ident)
qed

lemma split_lines_chars: "l \<in> set (split_lines_from acc s) \<Longrightarrow> set l \<subseteq> set acc \<union> set s"
  by (induction acc s rule: split_lines_from.induct) (auto split: if_splits)

lemma blank_content_keeps_nothing: "py_strip content = [] \<Longrightarrow> filter kept_line (split_newlines content) = []"
  using split_lines_chars [of _ "[]" content]
  by (fastforce simp: filter_empty_conv kept_line_def py_strip_Nil_iff split_newlines_def)

text \<open>
  What an import should make of a record: under each column the stripped cell at the last place of the
  header that names the column, whatever the case and the padding of the header, and nothing where there is
  no such place or the record ends before it.
\<close>

definition cell_under :: "string list \<Rightarrow> string list \<Rightarrow> string \<Rightarrow> string" where
  "cell_under header record' col =
     (let places = filter (\<lambda>i. py_strip (py_lower (header ! i)) = col) [0..<length header] in
      if places \<noteq> [] \<and> last places < length record' then py_strip (record' ! last places) else [])"

lemma map_of_fold_put: "map_of (fold (\<lambda>(k, v). dict_put k v) ps d) = map_of d ++ map_of (rev ps)"
  by (induction ps arbitrary: d) (auto simp: fun_eq_iff map_add_def split: option.splits)

lemma last_place:
  assumes "filter P [0..<n] \<noteq> []"
  shows "last (filter P [0..<n]) < n" "P (last (filter P [0..<n]))" "\<And>i. i < n \<Longrightarrow> P i \<Longrightarrow> i \<le> last (filter P [0..<n])"
proof -
  show "last (filter P [0..<n]) < n" "P (last (filter P [0..<n]))"
    using last_in_set [OF assms] by auto
  show "i \<le> last (filter P [0..<n])" if "i < n" "P i" for i
    using that
  proof (induction n)
    case (Suc n)
    then show ?case by (auto simp: less_Suc_eq dest: last_in_set)
  qed simp
qed

lemma last_placeI:
  assumes "j < n" "P j" "\<And>i. i < n \<Longrightarrow> P i \<Longrightarrow> i \<le> j"
  shows "filter P [0..<n] \<noteq> []" "last (filter P [0..<n]) = j"
proof -
  show some: "filter P [0..<n] \<noteq> []" using assms(1,2) by (auto simp: filter_empty_conv)
  show "last (filter P [0..<n]) = j"
    using last_place [OF some] assms by (metis le_antisym)
qed

lemma map_of_places:
  "map_of (rev (map (\<lambda>i. (f i, g i)) [0..<n])) x =
     (if filter (\<lambda>i. f i = x) [0..<n] = [] then None else Some (g (last (filter (\<lambda>i. f i = x) [0..<n]))))"
  by (induction n) auto

lemma mapped_column:
  "map_of (column_mapping header) col =
     (if filter (\<lambda>i. column_key (header ! i) = col) [0..<length header] = [] then None
      else Some (header ! last (filter (\<lambda>i. column_key (header ! i) = col) [0..<length header])))"
proof -
  have "map (\<lambda>i. (column_key (header ! i), header ! i)) [0..<length header] = map (\<lambda>c. (column_key c, c)) header"
    by (rule nth_equalityI) simp_all
  moreover have "column_mapping header = fold (\<lambda>(k, v). dict_put k v) (map (\<lambda>c. (column_key c, c)) header) []"
    by (simp add: column_mapping_def fold_map comp_def)
  ultimately show ?thesis
    using map_of_places [of "\<lambda>i. column_key (header ! i)" "\<lambda>i. header ! i" "length header" col]
    by (simp add: map_of_fold_put)
qed

lemma dict_row_at:
  assumes "j < length header" "\<And>i. i < length header \<Longrightarrow> header ! i = header ! j \<Longrightarrow> i \<le> j"
  shows "map_of (dict_row header record') (header ! j) = Some (if j < length record' then Some (record' ! j) else None)"
proof -
  let ?g = "\<lambda>i. if i < length record' then Some (record' ! i) else None"
  have "zip header (map Some record') @ map (\<lambda>k. (k, None)) (drop (length record') header)
      = map (\<lambda>i. (header ! i, ?g i)) [0..<length header]"
    by (rule nth_equalityI) (auto simp: nth_append)
  then have "map_of (dict_row header record') (header ! j) = map_of (rev (map (\<lambda>i. (header ! i, ?g i)) [0..<length header])) (header ! j)"
    by (simp add: dict_row_def map_of_fold_put)
  then show ?thesis
    unfolding map_of_places using last_placeI [OF assms(1), of "\<lambda>i. header ! i = header ! j"] assms(2) by simp
qed

lemma normalized_cell:
  assumes "py_lower col = col" "col \<noteq> []"
  shows "normalized_value (column_mapping header) (dict_row header record') col = cell_under header record' col"
proof -
  let ?places = "filter (\<lambda>i. column_key (header ! i) = col) [0..<length header]"
  show ?thesis
  proof (cases "?places = []")
    case True
    then show ?thesis
      unfolding normalized_value_def cell_under_def assms(1) mapped_column by (simp add: column_key_def)
  next
    case False
    note j = last_place [OF False]
    have "header ! last ?places \<noteq> []"
      using j(2) assms(2) by (auto simp: column_key_def py_lower_def py_strip_def py_lstrip_def)
    moreover have "map_of (dict_row header record') (header ! last ?places)
        = Some (if last ?places < length record' then Some (record' ! last ?places) else None)"
      using j by (intro dict_row_at) (metis, metis)
    ultimately show ?thesis
      unfolding normalized_value_def cell_under_def assms(1) mapped_column using False
      by (simp add: column_key_def)
  qed
qed

lemma normalized_cells:
  "normalized_row (column_mapping header) (dict_row header record')
     = map (\<lambda>col. (col, cell_under header record' col)) ALL_COLUMNS"
proof -
  have "\<forall>col \<in> set ALL_COLUMNS. py_lower col = col \<and> col \<noteq> []" by code_simp
  then show ?thesis by (simp add: normalized_row_def normalized_cell)
qed

text \<open>
  C16. An import takes every record once. When an import returns, the rows it works on are the records
  after the header that have a cell, one row for each in order, with the stripped cell of each of the seven
  columns under the name of the column; there are none without a header, and the header names the column
  \<open>name\<close>. The rows that pass validation are returned in order, and every problem of every other row is
  reported under its number, counting the header as 1.
\<close>

theorem import_accounts_for_every_record:
  assumes "parse_csv bracketed_ok content = returns (good, bad)"
  shows "\<exists>rows. good = filter (\<lambda>row. validate_channel_row bracketed_ok row = []) rows \<and>
    bad = concat (map (\<lambda>(i, row). map (Pair i) (validate_channel_row bracketed_ok row)) (enumerate 2 rows)) \<and>
    (if filter kept_line (split_newlines content) = [] then rows = []
     else \<exists>header rest. next_record parse_reset (io_lines (join_lines (filter kept_line (split_newlines content))))
            = returns (header, rest) \<and>
          (case header of
             None \<Rightarrow> rows = []
           | Some names \<Rightarrow>
               (\<exists>name \<in> set names. py_strip (py_lower name) = ''name'') \<and>
               (\<exists>records'. records parse_reset rest = returns records' \<and>
                  rows = map (\<lambda>r. map (\<lambda>col. (col, cell_under names r col))
                      [''channel_number'', ''name'', ''group_name'', ''tvg_id'', ''gracenote_id'', ''logo_url'', ''stream_urls''])
                    (filter (\<lambda>r. r \<noteq> []) records'))))"
proof -
  define lines where "lines = filter kept_line (split_newlines content)"
  show ?thesis
  proof (cases "lines = [] \<or> py_strip content = []")
    case True
    then have "good = [] \<and> bad = []" using assms by (auto simp: parse_csv_def lines_def Let_def)
    moreover have "lines = []" using True blank_content_keeps_nothing [of content] by (auto simp: lines_def)
    ultimately show ?thesis by (intro exI [of _ "[]"]) (simp add: lines_def)
  next
    case False
    then obtain header rest where h: "next_record parse_reset (io_lines (join_lines lines)) = returns (header, rest)"
      using assms by (auto simp: parse_csv_def lines_def Let_def)
    show ?thesis
    proof (cases header)
      case None
      with h have "good = [] \<and> bad = []"
        using assms False by (auto simp: parse_csv_def lines_def [symmetric] Let_def)
      with h None False show ?thesis by (intro exI [of _ "[]"]) (simp add: lines_def)
    next
      case (Some fieldnames)
      with h False assms obtain rs where rs: "records parse_reset rest = returns rs"
          "import_rows bracketed_ok 1 (map (\<lambda>r. normalized_row (column_mapping fieldnames) (dict_row fieldnames r))
             (filter (\<lambda>row. row \<noteq> []) rs)) = (good, bad)"
          "List.find (\<lambda>required. py_lower required \<notin> column_key ` set fieldnames) REQUIRED_COLUMNS = None"
        by (auto simp: parse_csv_def lines_def [symmetric] Let_def comp_def split: option.splits)
      have "\<exists>name \<in> set fieldnames. py_strip (py_lower name) = ''name''"
        using rs(3) by (auto simp: REQUIRED_COLUMNS_def column_key_def py_lower_def py_lower_char_def split: if_splits)
      moreover note import_rows_sound [OF rs(2) [unfolded normalized_cells ALL_COLUMNS_def]]
      ultimately show ?thesis
        using rs(1) h Some False unfolding lines_def [symmetric]
        by (intro exI [of _ "map (\<lambda>r. map (\<lambda>col. (col, cell_under fieldnames r col))
             [''channel_number'', ''name'', ''group_name'', ''tvg_id'', ''gracenote_id'', ''logo_url'', ''stream_urls''])
           (filter (\<lambda>r. r \<noteq> []) rs)"]) (simp add: numeral_2_eq_2)
    qed
  qed
qed

section \<open>Samples\<close>

definition sample_lineup :: "(string \<times> pyval) list list" where
  "sample_lineup =
     [[(''channel_number'', PInt 7), (''name'', PStr [CHR ''A'', CHR '','', CHR 0x22, CHR ''B'']),
       (''logo_url'', PStr ''http://x/l.png'')],
      [(''name'', PStr ''C''), (''stream_urls'', PStr ''u;v'')]]"

lemma sample_lineup_rows:
  "map_result (export_row (\<lambda>_. [])) sample_lineup =
     returns [[''7'', [CHR ''A'', CHR '','', CHR 0x22, CHR ''B''], [], [], [], ''http://x/l.png'', []],
       [[], ''C'', [], [], [], [], ''u;v'']]"
  "importable (\<lambda>_. True) [''7'', [CHR ''A'', CHR '','', CHR 0x22, CHR ''B''], [], [], [], ''http://x/l.png'', []]"
  "importable (\<lambda>_. True) [[], ''C'', [], [], [], [], ''u;v'']"
  by code_simp+

theorem exported_channels_are_imported_witness:
  "\<exists>csv. generate_csv (\<lambda>_. []) sample_lineup = returns csv \<and>
     parse_csv (\<lambda>_. True) csv =
       returns ([zip ALL_COLUMNS [''7'', [CHR ''A'', CHR '','', CHR 0x22, CHR ''B''], [], [], [], ''http://x/l.png'', []],
         zip ALL_COLUMNS [[], ''C'', [], [], [], [], ''u;v'']], [])"
  using exported_channels_are_imported [OF sample_lineup_rows(1), of "\<lambda>_. True"] sample_lineup_rows(2,3) by simp

text \<open>
  Comment lines are removed before cells are recognised: of a name of two lines of which the second
  begins with \<open>#\<close> the second is removed with its closing quote, and the name swallows every channel after it.
\<close>

definition two_line_name :: "(string \<times> pyval) list list" where
  "two_line_name =
     [[(''name'', PStr [CHR ''A'', CHR 0x0A, CHR ''#'', CHR ''B''])], [(''name'', PStr ''C'')]]"

lemma two_line_name_swallows_the_rest:
  "bind_result (generate_csv (\<lambda>_. []) two_line_name) (\<lambda>csv. case parse_csv (\<lambda>_. True) csv of
       Inl e \<Rightarrow> raises ValueError | Inr (good, bad) \<Rightarrow> returns (map (\<lambda>row. map_of row ''name'') good, bad)) =
     returns ([Some [CHR ''A'', CHR 0x0A, CHR '','', CHR ''C'', CHR '','', CHR '','', CHR '','', CHR '','', CHR '','']], [])"
  by code_simp

definition short_import :: string where
  "short_import = ''Name,Channel_Number'' @ CHR 0x0A # ''A,x'' @ CHR 0x0A # ''# B'' @ CHR 0x0A # ''C''"

lemma short_import_parsed:
  "parse_csv (\<lambda>_. True) short_import =
     returns ([zip ALL_COLUMNS [[], ''C'', [], [], [], [], []]], [(2, BadChannelNumber InvalidChannelNumberError)])"
  by code_simp

theorem import_accounts_for_every_record_witness:
  "\<exists>rows. [zip ALL_COLUMNS [[], ''C'', [], [], [], [], []]] =
       filter (\<lambda>row. validate_channel_row (\<lambda>_. True) row = []) rows \<and>
     [(2, BadChannelNumber InvalidChannelNumberError)] =
       concat (map (\<lambda>(i, row). map (Pair i) (validate_channel_row (\<lambda>_. True) row)) (enumerate 2 rows)) \<and>
     rows = [zip ALL_COLUMNS [''x'', ''A'', [], [], [], [], []], zip ALL_COLUMNS [[], ''C'', [], [], [], [], []]]"
proof -
  have lines: "filter kept_line (split_newlines short_import) = [''Name,Channel_Number'', ''A,x'', ''C'']" by code_simp
  have header: "next_record parse_reset (io_lines (join_lines [''Name,Channel_Number'', ''A,x'', ''C'']))
      = returns (Some [''Name'', ''Channel_Number''], [''A,x'' @ [CHR 0x0A], ''C''])" by code_simp
  have body: "records parse_reset [''A,x'' @ [CHR 0x0A], ''C''] = returns [[''A'', ''x''], [''C'']]" by code_simp
  have rows: "map (\<lambda>r. map (\<lambda>col. (col, cell_under [''Name'', ''Channel_Number''] r col))
        [''channel_number'', ''name'', ''group_name'', ''tvg_id'', ''gracenote_id'', ''logo_url'', ''stream_urls''])
      (filter (\<lambda>r. r \<noteq> []) [[''A'', ''x''], [''C'']])
    = [zip ALL_COLUMNS [''x'', ''A'', [], [], [], [], []], zip ALL_COLUMNS [[], ''C'', [], [], [], [], []]]"
    by code_simp
  let ?of = "\<lambda>names records'. map (\<lambda>r. map (\<lambda>col. (col, cell_under names r col))
        [''channel_number'', ''name'', ''group_name'', ''tvg_id'', ''gracenote_id'', ''logo_url'', ''stream_urls''])
      (filter (\<lambda>r. r \<noteq> []) records')"
  from import_accounts_for_every_record [OF short_import_parsed] obtain rows' where
    good: "[zip ALL_COLUMNS [[], ''C'', [], [], [], [], []]] =
       filter (\<lambda>row. validate_channel_row (\<lambda>_. True) row = []) rows'"
    and bad: "[(2, BadChannelNumber InvalidChannelNumberError)] =
       concat (map (\<lambda>(i, row). map (Pair i) (validate_channel_row (\<lambda>_. True) row)) (enumerate 2 rows'))"
    and from_records: "\<exists>h rest. next_record parse_reset (io_lines (join_lines [''Name,Channel_Number'', ''A,x'', ''C''])) = returns (h, rest) \<and>
      (case h of None \<Rightarrow> rows' = [] | Some names \<Rightarrow> (\<exists>name \<in> set names. py_strip (py_lower name) = ''name'') \<and>
         (\<exists>records'. records parse_reset rest = returns records' \<and> rows' = ?of names records'))"
    unfolding lines if_not_P [OF list.distinct(2)] by blast
  from from_records have "rows' = ?of [''Name'', ''Channel_Number''] [[''A'', ''x''], [''C'']]"
    unfolding header by (elim exE conjE) (clarsimp simp only: sum.inject prod.inject option.case body)
  with good bad rows show ?thesis by (intro exI [of _ rows']) (simp only: simp_thms)
qed

lemma template_imports_nothing: "parse_csv (\<lambda>_. True) generate_template = returns ([], [])"
  by code_simp

end
