(* ===== verification/RestoreContracts.thy ===== *)
theory RestoreContracts
  imports Evaluator
begin

text \<open>
  The contracts shared by the parts of a restore (\<open>dbas/restore_contracts.py\<close>): the entity
  types, the table that maps archived ids to destination ids, the durable ledger of created
  entities with its compensation order, and the report. The report keeps the fields the
  orchestrator and the group and profile importers read or write; timestamps and contract versions
  are left out. A report label is the expression it is printed from: the text of a value, of an id,
  or the placeholder. The ledger hands out its entries by reference (\<open>compensation_order\<close> returns
  the objects the rollback then marks), so an entry is named by its position in the ledger.
\<close>

section \<open>Entity types and the vocabulary of a report\<close>

datatype entity_type =
    M3U_ACCOUNT | EPG_SOURCE | CHANNEL_GROUP | CHANNEL_PROFILE | STREAM_PROFILE | CHANNEL | STREAM
  | USER_AGENT | SERVER_GROUP | DVR_RULE | UPCOMING_RECORDING | SETTINGS | ECM_SETTINGS | USER | LOGO

datatype skip_reason =
    ALREADY_EXISTS_IDENTICAL | ALREADY_EXISTS_NAME_MATCH | EXCLUDED_BY_OPERATOR
  | CURRENT_ADMIN_PRESERVED | UNSUPPORTED_IN_THIS_VERSION | SCHEDULE_ALREADY_PAST
  | SKIP_DEPENDENCY_UNRESOLVED | DEPENDENCY_DESELECTED

datatype failure_reason =
    VALIDATION_ERROR | DEPENDENCY_UNRESOLVED | UPSTREAM_API_ERROR | UPSTREAM_TIMEOUT | CONFLICT
  | PASSWORD_HASH_UNSUPPORTED | INTERNAL_ERROR

datatype restore_outcome =
    SUCCESS | COMPLETED_WITH_FAILURES | PARTIAL_FAILED_ROLLED_BACK | FAILED_ROLLBACK_INCOMPLETE

datatype label = LabelText pyval | LabelId pyval | LabelUnknown

record skip_detail =
  sd_reason :: skip_reason
  sd_label :: label
  sd_source_export_id :: "int option"

datatype failure_message = MessageText string | AmbiguousCollision label

record failure_detail =
  fd_reason :: failure_reason
  fd_label :: label
  fd_message :: failure_message
  fd_source_export_id :: "int option"

record category_report =
  cr_entity_type :: entity_type
  created :: int
  updated :: int
  skipped :: int
  failed :: int
  would_create :: int
  would_update :: int
  would_skip :: int
  skip_details :: "skip_detail list"
  failure_details :: "failure_detail list"
  predicted :: bool
  caveat :: "string option"

definition new_category :: "entity_type \<Rightarrow> category_report" where
  "new_category ty =
     \<lparr>cr_entity_type = ty, created = 0, updated = 0, skipped = 0, failed = 0, would_create = 0,
      would_update = 0, would_skip = 0, skip_details = [], failure_details = [], predicted = True,
      caveat = None\<rparr>"

text \<open>
  A problem of the pre-flight checks keeps the values its message is formatted from. The operator
  notes have one constructor per text the orchestrator appends.
\<close>

datatype preflight_problem =
    UNSUPPORTED_SCHEMA_VERSION
  | COUNT_OUT_OF_BOUNDS entity_type nat int
  | DUPLICATE_UNIQUE_NAME entity_type label string
  | UNRESOLVED_FK_REFERENCE label entity_type int

datatype restore_note =
    ApplyNotConfirmed
  | PreflightRefused preflight_problem
  | NonFatalRows int entity_type
  | FailedAtCategory entity_type
  | RollbackCompleted nat
  | RollbackIncomplete nat
  | SettingsNotRolledBack int
  | SettingsKeysMissing
  | DeferredApplied nat
  | DeferredError
  | RebindError
  | LowConfidenceMatch label label

record restore_report =
  is_dry_run :: bool
  outcome :: "restore_outcome option"
  categories :: "category_report list"
  logo_misses :: int
  entities_blocked_by_dependency :: int
  channels_needing_stream_reattach :: "int option"
  channels_with_no_playable_stream :: "int option"
  stream_reattach_details :: "label list"
  stream_urls_redacted :: "int option"
  stream_url_redaction_details :: "label list"
  epg_links_unrestored :: int
  account_convergence_unapplied :: int
  destination_unreadable :: "string option"
  report_notes :: "restore_note list"

section \<open>The report\<close>

text \<open>
  \<open>RestoreReport.category\<close> answers the first category of the type, appending a zeroed one when
  there is none; what its caller then does to the object it got is \<open>f\<close>.
\<close>

fun on_category :: "entity_type \<Rightarrow> (category_report \<Rightarrow> category_report) \<Rightarrow> category_report list
    \<Rightarrow> category_report list" where
  "on_category ty f [] = [f (new_category ty)]"
| "on_category ty f (c # cs) = (if cr_entity_type c = ty then f c # cs else c # on_category ty f cs)"

definition category :: "restore_report \<Rightarrow> entity_type \<Rightarrow> category_report" where
  "category r ty =
     (case List.find (\<lambda>c. cr_entity_type c = ty) (categories r) of
        Some c \<Rightarrow> c | None \<Rightarrow> new_category ty)"

definition change_category ::
  "entity_type \<Rightarrow> (category_report \<Rightarrow> category_report) \<Rightarrow> restore_report \<Rightarrow> restore_report" where
  "change_category ty f r = r\<lparr>categories := on_category ty f (categories r)\<rparr>"

text \<open>\<open>getattr(self, name, 0) or 0\<close> over the fields of \<open>DELIVERY_SHORTFALL_FIELDS\<close>, in its order.\<close>

definition shortfall_counts :: "restore_report \<Rightarrow> (string \<times> int) list" where
  "shortfall_counts r =
    [(''channels_with_no_playable_stream'', case_option 0 id (channels_with_no_playable_stream r)),
     (''stream_urls_redacted'', case_option 0 id (stream_urls_redacted r)),
     (''epg_links_unrestored'', epg_links_unrestored r),
     (''logo_misses'', logo_misses r),
     (''entities_blocked_by_dependency'', entities_blocked_by_dependency r),
     (''account_convergence_unapplied'', account_convergence_unapplied r)]"

definition delivery_shortfalls :: "restore_report \<Rightarrow> (string \<times> int) list" where
  "delivery_shortfalls r = filter (\<lambda>(name, count). count > 0) (shortfall_counts r)"

definition mark_stream_health_unpredicted :: "restore_report \<Rightarrow> restore_report" where
  "mark_stream_health_unpredicted r =
     (let r1 = (if stream_url_redaction_details r = [] then r\<lparr>stream_urls_redacted := None\<rparr> else r) in
      if stream_reattach_details r1 \<noteq> [] then r1
      else r1\<lparr>channels_needing_stream_reattach := None, channels_with_no_playable_stream := None\<rparr>)"

section \<open>The id-remap table\<close>

record id_remap_table =
  mappings :: "entity_type \<Rightarrow> int \<rightharpoonup> int"
  selected_categories :: "entity_type set option"

definition empty_remap :: id_remap_table where
  "empty_remap = \<lparr>mappings = (\<lambda>_ _. None), selected_categories = None\<rparr>"

definition record_run_scope :: "entity_type set \<Rightarrow> id_remap_table \<Rightarrow> id_remap_table" where
  "record_run_scope selected t = t\<lparr>selected_categories := Some selected\<rparr>"

definition category_deselected :: "id_remap_table \<Rightarrow> entity_type \<Rightarrow> bool" where
  "category_deselected t ty =
     (case selected_categories t of None \<Rightarrow> False | Some s \<Rightarrow> ty \<notin> s)"

definition remap_add :: "entity_type \<Rightarrow> int \<Rightarrow> int \<Rightarrow> id_remap_table \<Rightarrow> id_remap_table" where
  "remap_add ty src dst t = t\<lparr>mappings := (mappings t)(ty := (mappings t ty)(src \<mapsto> dst))\<rparr>"

definition remap_resolve :: "id_remap_table \<Rightarrow> entity_type \<Rightarrow> int \<Rightarrow> int option" where
  "remap_resolve t ty src = mappings t ty src"

lemma remap_resolve_add [simp]:
  "remap_resolve (remap_add ty src dst t) ty' src' =
     (if ty' = ty \<and> src' = src then Some dst else remap_resolve t ty' src')"
  by (simp add: remap_add_def remap_resolve_def)

lemma category_deselected_add [simp]:
  "category_deselected (remap_add ty src dst t) = category_deselected t"
  by (simp add: remap_add_def category_deselected_def fun_eq_iff)

text \<open>
  \<open>RestoreReport.record_dependency_unresolved\<close>: the skip is a faithful absence only when it is
  filed under the very category the operator left out.
\<close>

definition skip_counted ::
  "bool \<Rightarrow> skip_reason \<Rightarrow> label \<Rightarrow> int option \<Rightarrow> category_report \<Rightarrow> category_report" where
  "skip_counted dry reason lbl source c =
     (let c1 = (if dry then c\<lparr>would_skip := would_skip c + 1\<rparr> else c\<lparr>skipped := skipped c + 1\<rparr>) in
      c1\<lparr>skip_details := skip_details c1
           @ [\<lparr>sd_reason = reason, sd_label = lbl, sd_source_export_id = source\<rparr>]\<rparr>)"

definition faithful_absence :: "entity_type \<Rightarrow> entity_type \<Rightarrow> id_remap_table \<Rightarrow> bool" where
  "faithful_absence recorded_under dependency t \<longleftrightarrow>
     recorded_under = dependency \<and> category_deselected t dependency"

definition record_dependency_unresolved ::
  "entity_type \<Rightarrow> entity_type \<Rightarrow> label \<Rightarrow> id_remap_table \<Rightarrow> bool \<Rightarrow> int option \<Rightarrow> restore_report
     \<Rightarrow> restore_report" where
  "record_dependency_unresolved recorded_under dependency lbl t dry source r =
     (let faithful = faithful_absence recorded_under dependency t;
          reason = (if faithful then DEPENDENCY_DESELECTED else SKIP_DEPENDENCY_UNRESOLVED);
          r1 = change_category recorded_under (skip_counted dry reason lbl source) r in
      if faithful then r1
      else r1\<lparr>entities_blocked_by_dependency := entities_blocked_by_dependency r1 + 1\<rparr>)"

section \<open>The rollback ledger\<close>

record ledger_entry =
  sequence :: nat
  entry_type :: entity_type
  destination_id :: int
  entry_label :: label
  compensated :: bool

record rollback_ledger =
  restore_id :: string
  entries :: "ledger_entry list"

definition record_created ::
  "entity_type \<Rightarrow> int \<Rightarrow> label \<Rightarrow> rollback_ledger \<Rightarrow> rollback_ledger" where
  "record_created ty dst lbl l =
     l\<lparr>entries := entries l
         @ [\<lparr>sequence = length (entries l), entry_type = ty, destination_id = dst,
              entry_label = lbl, compensated = False\<rparr>]\<rparr>"

text \<open>\<open>sorted(pending, key=sequence, reverse=True)\<close> keeps the order of equal keys.\<close>

definition compensation_order :: "rollback_ledger \<Rightarrow> nat list" where
  "compensation_order l =
     sort_key (\<lambda>i. - int (sequence (entries l ! i)))
       (filter (\<lambda>i. \<not> compensated (entries l ! i)) [0..<length (entries l)])"

definition mark_compensated :: "nat \<Rightarrow> rollback_ledger \<Rightarrow> rollback_ledger" where
  "mark_compensated i l = l\<lparr>entries := (entries l)[i := (entries l ! i)\<lparr>compensated := True\<rparr>]\<rparr>"

text \<open>A ledger filled by \<open>record_created\<close> numbers its entries by position.\<close>

definition numbered_ledger :: "rollback_ledger \<Rightarrow> bool" where
  "numbered_ledger l \<longleftrightarrow> (\<forall>i < length (entries l). sequence (entries l ! i) = i)"

lemma numbered_record_created: "numbered_ledger l \<Longrightarrow> numbered_ledger (record_created ty dst lbl l)"
  by (auto simp: numbered_ledger_def record_created_def nth_append)

lemma numbered_mark_compensated: "numbered_ledger l \<Longrightarrow> numbered_ledger (mark_compensated i l)"
  by (cases "i < length (entries l)")
     (auto simp: numbered_ledger_def mark_compensated_def nth_list_update)

lemma set_compensation_order:
  "set (compensation_order l) = {i. i < length (entries l) \<and> \<not> compensated (entries l ! i)}"
  by (auto simp: compensation_order_def)

lemma distinct_compensation_order: "distinct (compensation_order l)"
  by (simp add: compensation_order_def)

text \<open>Reverse creation order: the newest entry is compensated first.\<close>

lemma sort_key_descending:
  "sorted_wrt (<) xs \<Longrightarrow> (\<And>x. x \<in> set xs \<Longrightarrow> f x = - int x) \<Longrightarrow> sort_key f xs = rev xs"
proof (rule sort_key_inj_key_eq)
  assume "sorted_wrt (<) xs" and f: "\<And>x. x \<in> set xs \<Longrightarrow> f x = - int x"
  show "mset xs = mset (rev xs)" by simp
  show "inj_on f (set xs)" using f by (auto simp: inj_on_def)
  have "sorted_wrt (\<lambda>x y. f y \<le> f x) xs"
    using \<open>sorted_wrt (<) xs\<close> f by (auto elim!: sorted_wrt_mono_rel [rotated])
  then show "sorted (map f (rev xs))" by (simp add: sorted_map sorted_wrt_rev)
qed

lemma compensation_order_numbered:
  assumes "numbered_ledger l"
  shows "compensation_order l =
    rev (filter (\<lambda>i. \<not> compensated (entries l ! i)) [0..<length (entries l)])"
  unfolding compensation_order_def
  using assms by (intro sort_key_descending) (auto simp: numbered_ledger_def sorted_wrt_filter)

end
