(* ===== verification/Preflight.thy ===== *)
theory Preflight
  imports RestoreContracts
begin

text \<open>
  The pre-flight validation of a restore plan (\<open>dbas/preflight.py\<close>) with the schema-version gate it
  calls (\<open>validate_restore_schema_version\<close> of \<open>routers/backup.py\<close>). \<open>int(...)\<close> of an archived id may raise, and nothing in the module
  catches it, so the checks that read ids return a result. The theorem at the end says that the
  checks refuse exactly the plans that break a declarative reading of the four rules.
\<close>

section \<open>The plan\<close>

record plan_category =
  pc_entity_type :: entity_type
  entities :: "(string \<times> pyval) list list"
  pc_selected :: bool

record import_plan =
  manifest :: pyval
  plan_categories :: "plan_category list"
  existing_remap :: id_remap_table

definition plan_category_of :: "import_plan \<Rightarrow> entity_type \<Rightarrow> plan_category option" where
  "plan_category_of p ty = List.find (\<lambda>c. pc_entity_type c = ty) (plan_categories p)"

definition selected_plan_categories :: "import_plan \<Rightarrow> plan_category list" where
  "selected_plan_categories p = filter pc_selected (plan_categories p)"

section \<open>The bounds and the rules\<close>

definition DEFAULT_MAX_ENTITIES_PER_CATEGORY :: int where
  "DEFAULT_MAX_ENTITIES_PER_CATEGORY = 100000"

definition NAME_UNIQUE_CATEGORIES :: "entity_type set" where
  "NAME_UNIQUE_CATEGORIES = {M3U_ACCOUNT, CHANNEL_GROUP, CHANNEL_PROFILE}"

definition CHANNEL_FK_FIELDS :: "(string \<times> entity_type) list" where
  "CHANNEL_FK_FIELDS =
     [(''channel_group_id'', CHANNEL_GROUP), (''stream_profile_id'', STREAM_PROFILE)]"

definition preflight_label :: "(string \<times> pyval) list \<Rightarrow> label" where
  "preflight_label entity =
     (case List.find truthy (map (dict_get entity) [''name'', ''username'', ''title'']) of
        Some v \<Rightarrow> LabelText v
      | None \<Rightarrow> (case dict_get entity ''id'' of PNone \<Rightarrow> LabelUnknown | v \<Rightarrow> LabelId v))"

section \<open>The schema-version gate\<close>

definition BACKUP_SCHEMA_VERSION :: int where
  "BACKUP_SCHEMA_VERSION = 1"

text \<open>\<open>True\<close> where the gate lets the artifact through, \<open>False\<close> where it raises.\<close>

definition validate_restore_schema_version :: "pyval \<Rightarrow> bool" where
  "validate_restore_schema_version m =
     (let version = (case m of PDict d \<Rightarrow> dict_get d ''schema_version'' | _ \<Rightarrow> PNone) in
      case version of PInt n \<Rightarrow> \<not> n > BACKUP_SCHEMA_VERSION | _ \<Rightarrow> False)"

definition validate_schema_version :: "import_plan \<Rightarrow> preflight_problem list" where
  "validate_schema_version p =
     (if validate_restore_schema_version (manifest p) then [] else [UNSUPPORTED_SCHEMA_VERSION])"

section \<open>Counts and names\<close>

definition validate_counts :: "int \<Rightarrow> import_plan \<Rightarrow> preflight_problem list" where
  "validate_counts max_per_category p =
     concat (map (\<lambda>c. let n = length (entities c) in
        if int n > max_per_category then [COUNT_OUT_OF_BOUNDS (pc_entity_type c) n max_per_category]
        else []) (selected_plan_categories p))"

text \<open>The key of a name: \<open>None\<close> where the name is not text or is blank.\<close>

fun unique_name_key :: "pyval \<Rightarrow> string option" where
  "unique_name_key (PStr s) = (let k = py_lower (py_strip s) in if k = [] then None else Some k)"
| "unique_name_key _ = None"

fun raw_text :: "pyval \<Rightarrow> string" where
  "raw_text (PStr s) = s"
| "raw_text _ = []"

fun duplicate_names :: "entity_type \<Rightarrow> string set \<Rightarrow> (string \<times> pyval) list list
    \<Rightarrow> preflight_problem list" where
  "duplicate_names ty seen [] = []"
| "duplicate_names ty seen (entity # es) =
     (let raw = dict_get entity ''name'' in
      case unique_name_key raw of
        None \<Rightarrow> duplicate_names ty seen es
      | Some k \<Rightarrow>
          (if k \<in> seen then [DUPLICATE_UNIQUE_NAME ty (preflight_label entity) (raw_text raw)] else [])
          @ duplicate_names ty (insert k seen) es)"

definition validate_unique_names :: "import_plan \<Rightarrow> preflight_problem list" where
  "validate_unique_names p =
     concat (map (\<lambda>c. if pc_entity_type c \<in> NAME_UNIQUE_CATEGORIES
                      then duplicate_names (pc_entity_type c) {} (entities c) else [])
       (selected_plan_categories p))"

section \<open>Foreign keys\<close>

fun archived_ids :: "(string \<times> pyval) list list \<Rightarrow> (py_error, int list) result" where
  "archived_ids [] = returns []"
| "archived_ids (entity # es) =
     (let ident = dict_get entity ''id'' in
      if ident = PNone then archived_ids es
      else bind_result (py_int ident) (\<lambda>n. bind_result (archived_ids es) (\<lambda>ns. returns (n # ns))))"

definition source_ids_in_plan :: "import_plan \<Rightarrow> entity_type \<Rightarrow> (py_error, int list) result" where
  "source_ids_in_plan p ty =
     (case plan_category_of p ty of
        None \<Rightarrow> returns []
      | Some c \<Rightarrow> if \<not> pc_selected c then returns [] else archived_ids (entities c))"

definition check_fk ::
  "import_plan \<Rightarrow> (string \<times> pyval) list \<Rightarrow> string \<times> entity_type
     \<Rightarrow> preflight_problem list \<Rightarrow> (py_error, preflight_problem list) result" where
  "check_fk p channel fk problems =
     (let ref = dict_get channel (fst fk) in
      if ref = PNone then returns problems
      else bind_result (py_int ref) (\<lambda>ref_id.
          bind_result (source_ids_in_plan p (snd fk)) (\<lambda>ids.
            let in_plan = (ref_id \<in> set ids);
                on_dest = (remap_resolve (existing_remap p) (snd fk) ref_id \<noteq> None) in
            returns (if \<not> in_plan \<and> \<not> on_dest
                     then problems @ [UNRESOLVED_FK_REFERENCE (preflight_label channel) (snd fk) ref_id]
                     else problems))))"

definition validate_fk_references :: "import_plan \<Rightarrow> (py_error, preflight_problem list) result" where
  "validate_fk_references p =
     (case plan_category_of p CHANNEL of
        None \<Rightarrow> returns []
      | Some c \<Rightarrow>
          if \<not> pc_selected c then returns []
          else fold_result (\<lambda>channel. fold_result (check_fk p channel) CHANNEL_FK_FIELDS) (entities c) [])"

definition run_preflight :: "int \<Rightarrow> import_plan \<Rightarrow> (py_error, preflight_problem list) result" where
  "run_preflight max_per_category p =
     bind_result (validate_fk_references p) (\<lambda>fk.
       returns (validate_schema_version p @ validate_counts max_per_category p
                @ validate_unique_names p @ fk))"

section \<open>What the checks accept\<close>

text \<open>The id a value stands for; \<open>readable_id\<close> holds of the values \<open>int\<close> accepts, and of none at all.\<close>

definition id_of :: "pyval \<Rightarrow> int option" where
  "id_of v = (if v = PNone then None else case py_int v of Inr n \<Rightarrow> Some n | Inl _ \<Rightarrow> None)"

definition readable_id :: "pyval \<Rightarrow> bool" where
  "readable_id v \<longleftrightarrow> v = PNone \<or> (\<exists>n. py_int v = Inr n)"

definition name_keys :: "plan_category \<Rightarrow> string list" where
  "name_keys c = List.map_filter (\<lambda>e. unique_name_key (dict_get e ''name'')) (entities c)"

definition will_be_created :: "import_plan \<Rightarrow> entity_type \<Rightarrow> int \<Rightarrow> bool" where
  "will_be_created p ty n \<longleftrightarrow>
     (\<exists>c. plan_category_of p ty = Some c \<and> pc_selected c \<and>
          (\<exists>e \<in> set (entities c). id_of (dict_get e ''id'') = Some n))"

definition channel_references_hold :: "import_plan \<Rightarrow> (string \<times> pyval) list \<Rightarrow> bool" where
  "channel_references_hold p channel \<longleftrightarrow>
     (\<forall>(field, ty) \<in> set CHANNEL_FK_FIELDS. \<forall>n. id_of (dict_get channel field) = Some n \<longrightarrow>
        will_be_created p ty n \<or> (\<exists>m. remap_resolve (existing_remap p) ty n = Some m))"

definition channels_to_restore :: "import_plan \<Rightarrow> (string \<times> pyval) list list" where
  "channels_to_restore p =
     (case plan_category_of p CHANNEL of
        Some c \<Rightarrow> if pc_selected c then entities c else [] | None \<Rightarrow> [])"

definition sound_plan :: "int \<Rightarrow> import_plan \<Rightarrow> bool" where
  "sound_plan max_per_category p \<longleftrightarrow>
     (\<exists>d n. manifest p = PDict d \<and> dict_get d ''schema_version'' = PInt n \<and> n \<le> BACKUP_SCHEMA_VERSION) \<and>
     (\<forall>c \<in> set (selected_plan_categories p). int (length (entities c)) \<le> max_per_category) \<and>
     (\<forall>c \<in> set (selected_plan_categories p).
        pc_entity_type c \<in> NAME_UNIQUE_CATEGORIES \<longrightarrow> distinct (name_keys c)) \<and>
     (\<forall>channel \<in> set (channels_to_restore p). channel_references_hold p channel)"

definition readable_plan :: "import_plan \<Rightarrow> bool" where
  "readable_plan p \<longleftrightarrow>
     (\<forall>c \<in> set (plan_categories p). \<forall>e \<in> set (entities c). readable_id (dict_get e ''id'')) \<and>
     (\<forall>channel \<in> set (channels_to_restore p). \<forall>(field, ty) \<in> set CHANNEL_FK_FIELDS.
        readable_id (dict_get channel field))"

lemma schema_gate_iff:
  "validate_restore_schema_version m \<longleftrightarrow>
     (\<exists>d n. m = PDict d \<and> dict_get d ''schema_version'' = PInt n \<and> n \<le> BACKUP_SCHEMA_VERSION)"
  by (auto simp: validate_restore_schema_version_def Let_def not_less split: pyval.splits)

lemma concat_map_empty: "concat (map f xs) = [] \<longleftrightarrow> (\<forall>x \<in> set xs. f x = [])"
  by (induction xs) auto

lemma validate_counts_empty:
  "validate_counts m p = [] \<longleftrightarrow>
     (\<forall>c \<in> set (selected_plan_categories p). int (length (entities c)) \<le> m)"
  unfolding validate_counts_def concat_map_empty by (simp add: Let_def not_less)

lemma duplicate_names_empty:
  "duplicate_names ty seen es = [] \<longleftrightarrow>
     (let ks = List.map_filter (\<lambda>e. unique_name_key (dict_get e ''name'')) es in
      distinct ks \<and> set ks \<inter> seen = {})"
  by (induction ty seen es rule: duplicate_names.induct)
     (auto simp: Let_def map_filter_simps split: option.splits)

lemma validate_unique_names_empty:
  "validate_unique_names p = [] \<longleftrightarrow>
     (\<forall>c \<in> set (selected_plan_categories p).
        pc_entity_type c \<in> NAME_UNIQUE_CATEGORIES \<longrightarrow> distinct (name_keys c))"
  unfolding validate_unique_names_def concat_map_empty
  by (simp add: duplicate_names_empty name_keys_def Let_def)

lemma plan_category_of_in: "plan_category_of p ty = Some c \<Longrightarrow> c \<in> set (plan_categories p)"
  by (auto simp: plan_category_of_def find_Some_iff)

lemma archived_ids_readable:
  assumes "\<forall>e \<in> set es. readable_id (dict_get e ''id'')"
  shows "\<exists>ns. archived_ids es = Inr ns \<and>
    set ns = {n. \<exists>e \<in> set es. id_of (dict_get e ''id'') = Some n}"
  using assms
proof (induction es)
  case (Cons e es)
  then obtain ns where ns: "archived_ids es = Inr ns"
      "set ns = {n. \<exists>e \<in> set es. id_of (dict_get e ''id'') = Some n}"
    by auto
  show ?case
  proof (cases "dict_get e ''id'' = PNone")
    case True
    then show ?thesis using ns by (auto simp: id_of_def)
  next
    case False
    then obtain n where n: "py_int (dict_get e ''id'') = Inr n"
      using Cons.prems by (auto simp: readable_id_def)
    have "archived_ids (e # es) = Inr (n # ns)"
      using False n ns(1) by (simp add: Let_def)
    moreover have "id_of (dict_get e ''id'') = Some n" using False n by (simp add: id_of_def)
    ultimately show ?thesis using ns(2) by auto
  qed
qed simp

lemma source_ids_readable:
  assumes "readable_plan p"
  shows "\<exists>ns. source_ids_in_plan p ty = Inr ns \<and> set ns = {n. will_be_created p ty n}"
proof (cases "plan_category_of p ty")
  case None
  then show ?thesis by (simp add: source_ids_in_plan_def will_be_created_def)
next
  case (Some c)
  have "\<forall>e \<in> set (entities c). readable_id (dict_get e ''id'')"
    using assms plan_category_of_in [OF Some] by (auto simp: readable_plan_def)
  from archived_ids_readable [OF this] show ?thesis
    using Some by (cases "pc_selected c") (auto simp: source_ids_in_plan_def will_be_created_def)
qed

lemma check_fk_readable:
  assumes "readable_plan p" "readable_id (dict_get channel (fst fk))"
  shows "\<exists>ps'. check_fk p channel fk ps = Inr ps' \<and>
    (ps' = [] \<longleftrightarrow> ps = [] \<and> (\<forall>n. id_of (dict_get channel (fst fk)) = Some n \<longrightarrow>
       will_be_created p (snd fk) n \<or> (\<exists>m. remap_resolve (existing_remap p) (snd fk) n = Some m)))"
proof (cases "dict_get channel (fst fk) = PNone")
  case True
  then show ?thesis by (simp add: check_fk_def id_of_def)
next
  case False
  then obtain n where n: "py_int (dict_get channel (fst fk)) = Inr n"
    using assms(2) by (auto simp: readable_id_def)
  obtain ns where ns: "source_ids_in_plan p (snd fk) = Inr ns"
      "set ns = {n. will_be_created p (snd fk) n}"
    using source_ids_readable [OF assms(1)] by blast
  have "check_fk p channel fk ps =
      Inr (if \<not> will_be_created p (snd fk) n \<and> remap_resolve (existing_remap p) (snd fk) n = None
           then ps @ [UNRESOLVED_FK_REFERENCE (preflight_label channel) (snd fk) n] else ps)"
    using False n ns unfolding check_fk_def Let_def by simp
  moreover have "id_of (dict_get channel (fst fk)) = Some n" using False n by (simp add: id_of_def)
  ultimately show ?thesis by auto
qed

text \<open>A loop whose every step returns, and appends nothing just where its condition holds.\<close>

lemma fold_result_collects:
  assumes "\<And>x ps. x \<in> set xs \<Longrightarrow> \<exists>ps'. f x ps = Inr ps' \<and> (ps' = [] \<longleftrightarrow> ps = [] \<and> Q x)"
  shows "\<exists>ps'. fold_result f xs ps = Inr ps' \<and> (ps' = [] \<longleftrightarrow> ps = [] \<and> (\<forall>x \<in> set xs. Q x))"
  using assms
proof (induction xs arbitrary: ps)
  case (Cons x xs)
  obtain ps1 where ps1: "f x ps = Inr ps1" "ps1 = [] \<longleftrightarrow> ps = [] \<and> Q x"
    using Cons.prems [of x ps] by auto
  have "\<exists>ps'. fold_result f xs ps1 = Inr ps' \<and> (ps' = [] \<longleftrightarrow> ps1 = [] \<and> (\<forall>x \<in> set xs. Q x))"
    by (rule Cons.IH, rule Cons.prems) simp
  with ps1 show ?case by auto
qed simp

lemma validate_fk_references_readable:
  assumes "readable_plan p"
  shows "\<exists>ps. validate_fk_references p = Inr ps \<and>
    (ps = [] \<longleftrightarrow> (\<forall>channel \<in> set (channels_to_restore p). channel_references_hold p channel))"
proof -
  have one: "\<exists>ps'. fold_result (check_fk p channel) CHANNEL_FK_FIELDS ps = Inr ps' \<and>
      (ps' = [] \<longleftrightarrow> ps = [] \<and> channel_references_hold p channel)"
    if "channel \<in> set (channels_to_restore p)" for channel ps
  proof -
    have "readable_id (dict_get channel (fst fk))" if "fk \<in> set CHANNEL_FK_FIELDS" for fk
      using assms \<open>channel \<in> _\<close> that by (fastforce simp: readable_plan_def case_prod_beta)
    from fold_result_collects [OF check_fk_readable [OF assms this]] show ?thesis
      by (simp add: channel_references_hold_def case_prod_beta)
  qed
  have "validate_fk_references p = fold_result
      (\<lambda>channel. fold_result (check_fk p channel) CHANNEL_FK_FIELDS) (channels_to_restore p) []"
    by (simp add: validate_fk_references_def channels_to_restore_def split: option.splits)
  with fold_result_collects [OF one, where xs = "channels_to_restore p" and ps = "[]"] show ?thesis
    by simp
qed

text \<open>
  C12. Pre-flight refuses exactly the unsound plans. On a plan whose archived ids are all readable as
  integers, \<open>run_preflight\<close> returns, and it reports no problem exactly when the manifest carries an
  integer schema version this build supports, every selected category is within the bound, no
  selected category of the name-unique kinds has two entities whose trimmed, lowercased names
  agree, and each channel to be restored refers only to groups and stream profiles that this
  restore creates or the destination already maps.
\<close>

theorem preflight_refuses_exactly_the_unsound_plans:
  assumes "readable_plan p"
  shows "\<exists>problems. run_preflight max_per_category p = Inr problems \<and>
    (problems = [] \<longleftrightarrow> sound_plan max_per_category p)"
proof -
  obtain fk where fk: "validate_fk_references p = Inr fk"
      "fk = [] \<longleftrightarrow> (\<forall>channel \<in> set (channels_to_restore p). channel_references_hold p channel)"
    using validate_fk_references_readable [OF assms] by blast
  have "run_preflight max_per_category p = Inr (validate_schema_version p
      @ validate_counts max_per_category p @ validate_unique_names p @ fk)"
    by (simp add: run_preflight_def fk(1))
  moreover have "(validate_schema_version p @ validate_counts max_per_category p
      @ validate_unique_names p @ fk = []) \<longleftrightarrow> sound_plan max_per_category p"
    unfolding sound_plan_def
    by (simp only: append_is_Nil_conv validate_schema_version_def schema_gate_iff
        validate_counts_empty validate_unique_names_empty fk(2)) auto
  ultimately show ?thesis by blast
qed

definition refused_plan :: import_plan where
  "refused_plan =
     \<lparr>manifest = PDict [(''schema_version'', PInt 1)],
      plan_categories =
        [\<lparr>pc_entity_type = CHANNEL_GROUP,
          entities = [[(''id'', PInt 7), (''name'', PStr ''News'')], [(''id'', PInt 8), (''name'', PStr '' news '')]],
          pc_selected = True\<rparr>,
         \<lparr>pc_entity_type = CHANNEL,
          entities = [[(''id'', PInt 1), (''name'', PStr ''One''), (''channel_group_id'', PInt 9)]],
          pc_selected = True\<rparr>],
      existing_remap = empty_remap\<rparr>"

theorem preflight_refuses_exactly_the_unsound_plans_witness:
  "readable_plan refused_plan \<and> \<not> sound_plan 100000 refused_plan \<and>
   run_preflight 100000 refused_plan =
     Inr [DUPLICATE_UNIQUE_NAME CHANNEL_GROUP (LabelText (PStr '' news '')) '' news '',
          UNRESOLVED_FK_REFERENCE (LabelText (PStr ''One'')) CHANNEL_GROUP 9]"
proof -
  have readable: "readable_plan refused_plan"
    by (auto simp: readable_plan_def refused_plan_def channels_to_restore_def plan_category_of_def
        CHANNEL_FK_FIELDS_def readable_id_def dict_get_def)
  have "run_preflight 100000 refused_plan =
     Inr [DUPLICATE_UNIQUE_NAME CHANNEL_GROUP (LabelText (PStr '' news '')) '' news '',
          UNRESOLVED_FK_REFERENCE (LabelText (PStr ''One'')) CHANNEL_GROUP 9]"
    by code_simp
  with preflight_refuses_exactly_the_unsound_plans [OF readable, of 100000] readable show ?thesis
    by auto
qed

end
