(* ===== verification/GroupsProfiles.thy ===== *)
theory GroupsProfiles
  imports Preflight
begin

text \<open>
  The importer of channel groups, server groups, channel profiles and stream profiles
  (\<open>dbas/importers/groups_profiles.py\<close>). The destination is reached through a \<open>client\<close>: the
  methods of \<open>DispatcharrClient\<close> that list, create and delete rows of an entity type, as functions
  on an arbitrary destination state, and the validation of an \<open>int | None\<close> field of a report
  model. Exceptions keep what the code inspects, the status of an \<open>HTTPStatusError\<close> and the text.
  An importer works on one state (destination, report, ledger, remap table) and stops where an
  exception escapes it, keeping what it did before.
\<close>

section \<open>The destination and its errors\<close>

datatype client_error = HTTPStatusError int string | OtherError string

fun error_text :: "client_error \<Rightarrow> string" where
  "error_text (HTTPStatusError code text) = text"
| "error_text (OtherError text) = text"

type_synonym row = "(string \<times> pyval) list"

record 'w client =
  list_rows :: "entity_type \<Rightarrow> 'w \<Rightarrow> (client_error, pyval) result \<times> 'w"
  create_row :: "entity_type \<Rightarrow> pyval \<Rightarrow> 'w \<Rightarrow> (client_error, pyval) result \<times> 'w"
  delete_row :: "entity_type \<Rightarrow> int \<Rightarrow> 'w \<Rightarrow> client_error option \<times> 'w"
  int_field :: "pyval \<Rightarrow> int option option"

record 'w import_state =
  world :: 'w
  report :: restore_report
  ledger :: rollback_ledger
  remap :: id_remap_table

text \<open>A loop over a list whose body may raise; \<open>None\<close> says that no exception escaped.\<close>

fun each_row :: "('a \<Rightarrow> 's \<Rightarrow> 's \<times> 'e option) \<Rightarrow> 'a list \<Rightarrow> 's \<Rightarrow> 's \<times> 'e option" where
  "each_row f [] s = (s, None)"
| "each_row f (x # xs) s =
     (case f x s of (s', None) \<Rightarrow> each_row f xs s' | (s', Some e) \<Rightarrow> (s', Some e))"

lemma each_row_invariant:
  assumes "I s" "\<And>x s. x \<in> set xs \<Longrightarrow> I s \<Longrightarrow> I (fst (f x s))"
  shows "I (fst (each_row f xs s))"
  using assms
proof (induction xs arbitrary: s)
  case (Cons x xs)
  obtain s' e where step: "f x s = (s', e)" by (cases "f x s")
  have "I s'" using Cons.prems(2) [of x s] Cons.prems(1) step by simp
  with Cons.IH [of s'] Cons.prems(2) step show ?case by (cases e) auto
qed simp

text \<open>
  The contract of a pass over rows: a preorder on states that every step respects. The pass then
  respects it, wherever it stops.
\<close>

locale row_pass =
  fixes step :: "'a \<Rightarrow> 's \<Rightarrow> 's \<times> 'e option"
    and keeps :: "'s \<Rightarrow> 's \<Rightarrow> bool"
  assumes keeps_refl: "keeps s s"
    and keeps_trans: "keeps s t \<Longrightarrow> keeps t u \<Longrightarrow> keeps s u"
    and step_keeps: "keeps s (fst (step x s))"
begin

lemma pass_keeps: "keeps s (fst (each_row step xs s))"
  by (rule each_row_invariant) (auto intro: keeps_refl keeps_trans step_keeps)

end

section \<open>Categories\<close>

record category_config =
  cfg_type :: entity_type
  cfg_by_name :: bool
  cfg_fk_fields :: "(string \<times> entity_type) list"
  cfg_match_reason :: skip_reason
  cfg_caveat :: "string option"

definition dict_config :: "entity_type \<Rightarrow> category_config" where
  "dict_config ty =
     \<lparr>cfg_type = ty, cfg_by_name = False, cfg_fk_fields = [],
      cfg_match_reason = ALREADY_EXISTS_IDENTICAL, cfg_caveat = None\<rparr>"

definition channel_groups_config :: category_config where
  "channel_groups_config =
     (dict_config CHANNEL_GROUP)\<lparr>cfg_by_name := True,
        cfg_match_reason := ALREADY_EXISTS_NAME_MATCH,
        cfg_caveat := Some (''Restoring an M3U account makes its provider groups appear before ''
          @ ''this category runs, so the apply may create far fewer groups than ''
          @ ''this preview shows and skip the rest. The end state is the same.'')\<rparr>"

definition server_groups_config :: category_config where
  "server_groups_config = dict_config SERVER_GROUP"

definition channel_profiles_config :: category_config where
  "channel_profiles_config = dict_config CHANNEL_PROFILE"

definition stream_profiles_config :: category_config where
  "stream_profiles_config =
     (dict_config STREAM_PROFILE)\<lparr>cfg_fk_fields := [(''user_agent'', USER_AGENT)]\<rparr>"

definition SOURCE_ID_KEYS :: "string list" where
  "SOURCE_ID_KEYS = [''id'', ''pk'']"

definition NON_CREATE_KEYS :: "string list" where
  "NON_CREATE_KEYS =
     [''channels'', ''channel_count'', ''channels_count'', ''channelprofilemembership_set'',
      ''channel_count_total'', ''created_at'', ''updated_at'']"

definition row_label :: "row \<Rightarrow> label" where
  "row_label r = (let name = dict_get r ''name'' in if truthy name then LabelText name else LabelUnknown)"

section \<open>Rows already on the destination\<close>

text \<open>\<open>for row in rows or []\<close> over what a listing answered.\<close>

fun iter_rows :: "pyval \<Rightarrow> (py_error, pyval list) result" where
  "iter_rows (PList xs) = returns xs"
| "iter_rows (PStr s) = returns (map (\<lambda>c. PStr [c]) s)"
| "iter_rows (PDict d) = returns (map (PStr \<circ> fst) d)"
| "iter_rows v = (if truthy v then raises TypeError else returns [])"

fun dict_rows :: "pyval list \<Rightarrow> row list" where
  "dict_rows [] = []"
| "dict_rows (PDict d # vs) = d # dict_rows vs"
| "dict_rows (_ # vs) = dict_rows vs"

definition norm_name :: "pyval \<Rightarrow> string option" where
  "norm_name = unique_name_key"

definition lower_id :: "row \<Rightarrow> row \<Rightarrow> (py_error, bool) result" where
  "lower_id new old =
     (let new_id = dict_get new ''id''; cur_id = dict_get old ''id'' in
      if new_id = PNone then returns False
      else if cur_id = PNone then returns True
      else bind_result (py_int new_id) (\<lambda>n. bind_result (py_int cur_id) (\<lambda>c. returns (n < c))))"

definition index_by_name :: "row \<Rightarrow> (string \<rightharpoonup> row) \<Rightarrow> (py_error, string \<rightharpoonup> row) result" where
  "index_by_name r index =
     (case norm_name (dict_get r ''name'') of
        None \<Rightarrow> returns index
      | Some key \<Rightarrow>
          (case index key of
             None \<Rightarrow> returns (index(key \<mapsto> r))
           | Some current \<Rightarrow>
               bind_result (lower_id r current) (\<lambda>lower.
                 returns (if lower then index(key \<mapsto> r) else index))))"

definition existing_by_name :: "row list \<Rightarrow> (py_error, string \<rightharpoonup> row) result" where
  "existing_by_name rows = fold_result index_by_name rows Map.empty"

text \<open>Two indexes leave out a key that two rows share; they differ in the key.\<close>

fun index_unique :: "(pyval \<Rightarrow> string option) \<Rightarrow> row list \<Rightarrow> (string \<rightharpoonup> row) \<times> string set
    \<Rightarrow> (string \<rightharpoonup> row) \<times> string set" where
  "index_unique key [] acc = acc"
| "index_unique key (r # rs) (index, ambiguous) =
     (case key (dict_get r ''name'') of
        None \<Rightarrow> index_unique key rs (index, ambiguous)
      | Some name \<Rightarrow>
          if name \<in> ambiguous then index_unique key rs (index, ambiguous)
          else if index name \<noteq> None then index_unique key rs (index(name := None), insert name ambiguous)
          else index_unique key rs (index(name \<mapsto> r), ambiguous))"

fun raw_name :: "pyval \<Rightarrow> string option" where
  "raw_name (PStr s) = Some s"
| "raw_name _ = None"

fun channel_group_write_name :: "pyval \<Rightarrow> string option" where
  "channel_group_write_name (PStr s) = (if py_strip s = [] then None else Some (py_strip s))"
| "channel_group_write_name _ = None"

definition existing_by_raw_name :: "row list \<Rightarrow> (string \<rightharpoonup> row)" where
  "existing_by_raw_name rows = fst (index_unique raw_name rows (Map.empty, {}))"

definition channel_groups_by_write_name :: "row list \<Rightarrow> (string \<rightharpoonup> row) \<times> string set" where
  "channel_groups_by_write_name rows = index_unique channel_group_write_name rows (Map.empty, {})"

record name_index =
  by_name :: "string \<rightharpoonup> row"
  by_raw_name :: "string \<rightharpoonup> row"
  by_write_name :: "string \<rightharpoonup> row"
  ambiguous_write_names :: "string set"

definition index_rows :: "category_config \<Rightarrow> pyval \<Rightarrow> (py_error, name_index) result" where
  "index_rows cfg listing =
     bind_result (iter_rows listing) (\<lambda>vs.
     bind_result (existing_by_name (dict_rows vs)) (\<lambda>names.
       let write = (if cfg_type cfg = CHANNEL_GROUP then channel_groups_by_write_name (dict_rows vs)
                    else (Map.empty, {})) in
       returns \<lparr>by_name = names, by_raw_name = existing_by_raw_name (dict_rows vs),
                by_write_name = fst write, ambiguous_write_names = snd write\<rparr>))"

text \<open>The row a name is taken to be: the written name, then the raw name, then the folded name.\<close>

definition find_existing :: "name_index \<Rightarrow> pyval \<Rightarrow> row option" where
  "find_existing ix raw =
     (let write_name = channel_group_write_name raw;
          ambiguous = (case write_name of Some n \<Rightarrow> n \<in> ambiguous_write_names ix | None \<Rightarrow> False);
          r1 = Option.bind write_name (by_write_name ix);
          r2 = (if r1 = None \<and> \<not> ambiguous then Option.bind (raw_name raw) (by_raw_name ix) else r1) in
      if r2 = None \<and> \<not> ambiguous then Option.bind (norm_name raw) (by_name ix) else r2)"

section \<open>Creating rows\<close>

definition failure_reason_for :: "client_error \<Rightarrow> failure_reason" where
  "failure_reason_for e =
     (let t = py_lower (error_text e) in
      if py_contains ''already exists'' t \<or> py_contains ''unique'' t \<or> py_contains ''conflict'' t
      then CONFLICT else UPSTREAM_API_ERROR)"

definition is_channel_group_name_create_race :: "category_config \<Rightarrow> client_error \<Rightarrow> bool" where
  "is_channel_group_name_create_race cfg e \<longleftrightarrow>
     (let t = py_lower (error_text e) in
      cfg_type cfg = CHANNEL_GROUP \<and> py_contains ''channel group creation failed: 400 -'' t \<and>
      py_contains [CHR 0x22, CHR ''n'', CHR ''a'', CHR ''m'', CHR ''e'', CHR 0x22] t \<and>
      py_contains ''channel group with this name already exists.'' t)"

fun entity_value :: "entity_type \<Rightarrow> string" where
  "entity_value M3U_ACCOUNT = ''m3u_account''"
| "entity_value EPG_SOURCE = ''epg_source''"
| "entity_value CHANNEL_GROUP = ''channel_group''"
| "entity_value CHANNEL_PROFILE = ''channel_profile''"
| "entity_value STREAM_PROFILE = ''stream_profile''"
| "entity_value CHANNEL = ''channel''"
| "entity_value STREAM = ''stream''"
| "entity_value USER_AGENT = ''user_agent''"
| "entity_value SERVER_GROUP = ''server_group''"
| "entity_value DVR_RULE = ''dvr_rule''"
| "entity_value UPCOMING_RECORDING = ''upcoming_recording''"
| "entity_value SETTINGS = ''settings''"
| "entity_value ECM_SETTINGS = ''ecm_settings''"
| "entity_value USER = ''user''"
| "entity_value LOGO = ''logo''"

definition noun_of :: "entity_type \<Rightarrow> string" where
  "noun_of ty = map (\<lambda>c. if c = CHR ''_'' then CHR '' '' else c) (entity_value ty)"

definition sanitize_failure :: "client_error \<Rightarrow> string \<Rightarrow> string" where
  "sanitize_failure e noun =
     (let t = py_strip (error_text e) in
      if t \<noteq> [] then t else ''Upstream rejected the '' @ noun @ '' creation request.'')"

text \<open>\<open>Inl\<close> names the namespace a foreign key could not be resolved in.\<close>

definition remap_fk ::
  "row \<Rightarrow> id_remap_table \<Rightarrow> string \<times> entity_type \<Rightarrow> entity_type + row
     \<Rightarrow> (py_error, entity_type + row) result" where
  "remap_fk archive t fk acc =
     (case acc of
        Inl ty \<Rightarrow> returns acc
      | Inr payload \<Rightarrow>
          let source = dict_get archive (fst fk) in
          if source = PNone then returns acc
          else bind_result (py_int source) (\<lambda>n.
            case remap_resolve t (snd fk) n of
              None \<Rightarrow> returns (Inl (snd fk))
            | Some dst \<Rightarrow> returns (Inr (dict_put (fst fk) (PInt dst) payload))))"

definition build_create_payload ::
  "row \<Rightarrow> category_config \<Rightarrow> id_remap_table \<Rightarrow> (py_error, entity_type + row) result" where
  "build_create_payload archive cfg t =
     fold_result (remap_fk archive t) (cfg_fk_fields cfg)
       (Inr (filter (\<lambda>(k, v). k \<notin> set (SOURCE_ID_KEYS @ NON_CREATE_KEYS)) archive))"

section \<open>Recording what happened to a row\<close>

definition on_report :: "(restore_report \<Rightarrow> restore_report) \<Rightarrow> 'w import_state \<Rightarrow> 'w import_state" where
  "on_report f st = st\<lparr>report := f (report st)\<rparr>"

definition on_cat ::
  "entity_type \<Rightarrow> (category_report \<Rightarrow> category_report) \<Rightarrow> 'w import_state \<Rightarrow> 'w import_state" where
  "on_cat ty f = on_report (change_category ty f)"

definition count_skip :: "bool \<Rightarrow> category_report \<Rightarrow> category_report" where
  "count_skip dry c =
     (if dry then c\<lparr>would_skip := would_skip c + 1\<rparr> else c\<lparr>skipped := skipped c + 1\<rparr>)"

text \<open>A detail row validates its source id after the counter has been raised.\<close>

definition skip_row ::
  "'w client \<Rightarrow> entity_type \<Rightarrow> skip_reason \<Rightarrow> label \<Rightarrow> pyval \<Rightarrow> bool \<Rightarrow> 'w import_state
     \<Rightarrow> 'w import_state \<times> py_error option" where
  "skip_row cl ty reason lbl source dry st =
     (case int_field cl source of
        Some src \<Rightarrow> (on_cat ty (skip_counted dry reason lbl src) st, None)
      | None \<Rightarrow> (on_cat ty (count_skip dry) st, Some ValueError))"

definition unresolved_row ::
  "'w client \<Rightarrow> entity_type \<Rightarrow> entity_type \<Rightarrow> label \<Rightarrow> pyval \<Rightarrow> bool \<Rightarrow> 'w import_state
     \<Rightarrow> 'w import_state \<times> py_error option" where
  "unresolved_row cl ty dependency lbl source dry st =
     (case int_field cl source of
        Some src \<Rightarrow>
          (on_report (record_dependency_unresolved ty dependency lbl (remap st) dry src) st, None)
      | None \<Rightarrow> (on_cat ty (count_skip dry) st, Some ValueError))"

definition fail_row ::
  "'w client \<Rightarrow> entity_type \<Rightarrow> client_error \<Rightarrow> label \<Rightarrow> pyval \<Rightarrow> 'w import_state
     \<Rightarrow> 'w import_state \<times> py_error option" where
  "fail_row cl ty e lbl source st =
     (let st1 = on_cat ty (\<lambda>c. c\<lparr>failed := failed c + 1\<rparr>) st in
      case int_field cl source of
        Some src \<Rightarrow>
          (on_cat ty (\<lambda>c. c\<lparr>failure_details := failure_details c
              @ [\<lparr>fd_reason = failure_reason_for e, fd_label = lbl,
                   fd_message = MessageText (sanitize_failure e (noun_of ty)), fd_source_export_id = src\<rparr>]\<rparr>) st1, None)
      | None \<Rightarrow> (st1, Some ValueError))"

text \<open>\<open>remap.add(type, int(source), int(dest))\<close> where both ids are there.\<close>

definition adopt_id ::
  "entity_type \<Rightarrow> pyval \<Rightarrow> pyval \<Rightarrow> 'w import_state \<Rightarrow> 'w import_state \<times> py_error option" where
  "adopt_id ty source dest st =
     (if source = PNone \<or> dest = PNone then (st, None)
      else case bind_result (py_int source) (\<lambda>s. bind_result (py_int dest) (\<lambda>d. returns (s, d))) of
             Inl e \<Rightarrow> (st, Some e)
           | Inr (s, d) \<Rightarrow> (st\<lparr>remap := remap_add ty s d (remap st)\<rparr>, None))"

definition adopt_row ::
  "'w client \<Rightarrow> category_config \<Rightarrow> bool \<Rightarrow> row \<Rightarrow> row \<Rightarrow> 'w import_state
     \<Rightarrow> 'w import_state \<times> py_error option" where
  "adopt_row cl cfg dry archive existing st =
     (case skip_row cl (cfg_type cfg) (cfg_match_reason cfg) (row_label archive)
             (dict_get archive ''id'') dry st of
        (st1, Some e) \<Rightarrow> (st1, Some e)
      | (st1, None) \<Rightarrow>
          adopt_id (cfg_type cfg) (dict_get archive ''id'') (dict_get existing ''id'') st1)"

text \<open>
  A created row: the count, the destination id, the remap entry, the ledger entry, in this order.
\<close>

definition created_row ::
  "entity_type \<Rightarrow> label \<Rightarrow> pyval \<Rightarrow> pyval \<Rightarrow> 'w import_state \<Rightarrow> 'w import_state \<times> py_error option" where
  "created_row ty lbl source reply st =
     (let dest = (case reply of PDict d \<Rightarrow> dict_get d ''id'' | _ \<Rightarrow> PNone);
          st1 = on_cat ty (\<lambda>c. c\<lparr>created := created c + 1\<rparr>) st in
      if dest = PNone then (st1, None)
      else case py_int dest of
             Inl e \<Rightarrow> (st1, Some e)
           | Inr d \<Rightarrow>
               (case adopt_id ty source (PInt d) st1 of
                  (st2, Some e) \<Rightarrow> (st2, Some e)
                | (st2, None) \<Rightarrow> (st2\<lparr>ledger := record_created ty d lbl (ledger st2)\<rparr>, None)))"

section \<open>The importer\<close>

text \<open>The recovery from a lost race: list again, and adopt the one row that has the name.\<close>

definition raced_rows :: "pyval \<Rightarrow> row list \<Rightarrow> row list" where
  "raced_rows name rows =
     filter (\<lambda>r. channel_group_write_name (dict_get r ''name'') = channel_group_write_name name) rows"

definition refused_row ::
  "'w client \<Rightarrow> category_config \<Rightarrow> row \<Rightarrow> row \<Rightarrow> client_error \<Rightarrow> name_index \<times> 'w import_state
     \<Rightarrow> (name_index \<times> 'w import_state) \<times> py_error option" where
  "refused_row cl cfg archive payload e s =
     (let ix = fst s; st = snd s; ty = cfg_type cfg;
          failing = (\<lambda>st. map_prod (Pair ix) id
            (fail_row cl ty e (row_label archive) (dict_get archive ''id'') st)) in
      if \<not> is_channel_group_name_create_race cfg e then failing st
      else
        let (listed, w) = list_rows cl ty (world st);
            st1 = st\<lparr>world := w\<rparr>;
            refreshed = (case listed of Inr v \<Rightarrow> v | Inl _ \<Rightarrow> PList []) in
        case iter_rows refreshed of
          Inl err \<Rightarrow> ((ix, st1), Some err)
        | Inr vs \<Rightarrow>
            (case raced_rows (dict_get payload ''name'') (dict_rows vs) of
               [raced] \<Rightarrow>
                 (case index_rows cfg refreshed of
                    Inl err \<Rightarrow> ((ix, st1), Some err)
                  | Inr ix1 \<Rightarrow> map_prod (Pair ix1) id (adopt_row cl cfg False archive raced st1))
             | _ \<Rightarrow> failing st1))"

definition import_row ::
  "'w client \<Rightarrow> category_config \<Rightarrow> bool \<Rightarrow> row \<Rightarrow> name_index \<times> 'w import_state
     \<Rightarrow> (name_index \<times> 'w import_state) \<times> py_error option" where
  "import_row cl cfg dry archive s =
     (let ix = fst s; st = snd s; ty = cfg_type cfg; lbl = row_label archive;
          source = dict_get archive ''id'' in
      case find_existing ix (dict_get archive ''name'') of
        Some existing \<Rightarrow> map_prod (Pair ix) id (adopt_row cl cfg dry archive existing st)
      | None \<Rightarrow>
          (case build_create_payload archive cfg (remap st) of
             Inl err \<Rightarrow> (s, Some err)
           | Inr (Inl dependency) \<Rightarrow>
               map_prod (Pair ix) id (unresolved_row cl ty dependency lbl source dry st)
           | Inr (Inr payload) \<Rightarrow>
               if dry then
                 map_prod (Pair ix) id
                   (adopt_id ty source source (on_cat ty (\<lambda>c. c\<lparr>would_create := would_create c + 1\<rparr>) st))
               else
                 let (reply, w) = create_row cl ty
                       (if cfg_by_name cfg then dict_get payload ''name'' else PDict payload) (world st);
                     st1 = st\<lparr>world := w\<rparr> in
                 case reply of
                   Inl e \<Rightarrow> refused_row cl cfg archive payload e (ix, st1)
                 | Inr v \<Rightarrow> map_prod (Pair ix) id (created_row ty lbl source v st1)))"

text \<open>A preview carries the caveat of its category.\<close>

definition note_caveat :: "category_config \<Rightarrow> bool \<Rightarrow> 'w import_state \<Rightarrow> 'w import_state" where
  "note_caveat cfg dry st =
     (if dry \<and> cfg_caveat cfg \<noteq> None then on_cat (cfg_type cfg) (\<lambda>c. c\<lparr>caveat := cfg_caveat cfg\<rparr>) st
      else st)"

definition import_category ::
  "'w client \<Rightarrow> category_config \<Rightarrow> row list \<Rightarrow> bool \<Rightarrow> bool \<Rightarrow> 'w import_state
     \<Rightarrow> 'w import_state \<times> py_error option" where
  "import_category cl cfg archive_rows selected dry st =
     (let ty = cfg_type cfg; st0 = on_cat ty id st in
      if \<not> selected then
        each_row (\<lambda>r. skip_row cl ty EXCLUDED_BY_OPERATOR (row_label r) (dict_get r ''id'') dry)
          archive_rows st0
      else
        let st1 = note_caveat cfg dry st0;
            (listed, w) = list_rows cl ty (world st1);
            st2 = st1\<lparr>world := w\<rparr>;
            existing = (case listed of Inr v \<Rightarrow> v | Inl _ \<Rightarrow> PList []) in
        case index_rows cfg existing of
          Inl err \<Rightarrow> (st2, Some err)
        | Inr ix \<Rightarrow> map_prod snd id (each_row (import_row cl cfg dry) archive_rows (ix, st2)))"

section \<open>What the bookkeeping leaves alone\<close>

lemma on_report_simps [simp]:
  "world (on_report f st) = world st" "ledger (on_report f st) = ledger st"
  "remap (on_report f st) = remap st" "report (on_report f st) = f (report st)"
  by (simp_all add: on_report_def)

lemma on_cat_simps [simp]:
  "world (on_cat ty f st) = world st" "ledger (on_cat ty f st) = ledger st"
  "remap (on_cat ty f st) = remap st" "report (on_cat ty f st) = change_category ty f (report st)"
  by (simp_all add: on_cat_def)

lemma change_category_simps [simp]:
  "is_dry_run (change_category ty f r) = is_dry_run r" "outcome (change_category ty f r) = outcome r"
  "report_notes (change_category ty f r) = report_notes r"
  by (simp_all add: change_category_def)

text \<open>What recording the fate of a row leaves alone.\<close>

definition bookkeeping :: "'w import_state \<Rightarrow> 'w import_state \<Rightarrow> bool" where
  "bookkeeping st st' \<longleftrightarrow> world st' = world st \<and> ledger st' = ledger st \<and>
     is_dry_run (report st') = is_dry_run (report st) \<and> outcome (report st') = outcome (report st)"

lemma bookkeeping_simps [simp]:
  "bookkeeping st (on_cat ty f st') = bookkeeping st st'"
  "bookkeeping st (st'\<lparr>remap := t\<rparr>) = bookkeeping st st'"
  by (simp_all add: bookkeeping_def)

lemma bookkeeping_refl [simp]: "bookkeeping st st"
  by (simp add: bookkeeping_def)

lemma bookkeeping_unresolved [simp]:
  "bookkeeping st (on_report (record_dependency_unresolved ty dep lbl t dry src) st') = bookkeeping st st'"
  by (simp add: bookkeeping_def record_dependency_unresolved_def Let_def)

lemma skip_row_bookkeeping: "bookkeeping st (fst (skip_row cl ty reason lbl source dry st))"
  by (simp add: skip_row_def split: option.splits)

lemma unresolved_row_bookkeeping: "bookkeeping st (fst (unresolved_row cl ty dep lbl source dry st))"
  by (simp add: unresolved_row_def split: option.splits)

lemma fail_row_bookkeeping: "bookkeeping st (fst (fail_row cl ty e lbl source st))"
  by (simp add: fail_row_def Let_def split: option.splits)

lemma adopt_id_bookkeeping: "bookkeeping st (fst (adopt_id ty source dest st'))"
  if "bookkeeping st st'"
  using that by (simp add: adopt_id_def split: sum.splits prod.splits)

lemma adopt_row_bookkeeping: "bookkeeping st (fst (adopt_row cl cfg dry archive existing st))"
proof -
  obtain st1 e where "skip_row cl (cfg_type cfg) (cfg_match_reason cfg) (row_label archive)
      (dict_get archive ''id'') dry st = (st1, e)" by fastforce
  with skip_row_bookkeeping [of st cl "cfg_type cfg" "cfg_match_reason cfg" "row_label archive"
      "dict_get archive ''id''" dry] adopt_id_bookkeeping [of st st1]
  show ?thesis by (auto simp: adopt_row_def split: option.splits)
qed

lemma dry_import_row_bookkeeping:
  "bookkeeping (snd s) (snd (fst (import_row cl cfg True archive s)))"
  by (auto simp: import_row_def Let_def adopt_row_bookkeeping unresolved_row_bookkeeping
      adopt_id_bookkeeping fst_map_prod split: option.splits sum.splits)

lemma bookkeeping_trans: "bookkeeping s t \<Longrightarrow> bookkeeping t u \<Longrightarrow> bookkeeping s u"
  by (simp add: bookkeeping_def)

interpretation preview_rows: row_pass "import_row cl cfg True" "\<lambda>s t. bookkeeping (snd s) (snd t)" for cl cfg
  by unfold_locales (auto intro: bookkeeping_trans dry_import_row_bookkeeping)

interpretation excluded_rows: row_pass
  "\<lambda>r. skip_row cl ty EXCLUDED_BY_OPERATOR (row_label r) (dict_get r ''id'') dry" bookkeeping for cl ty dry
  by unfold_locales (auto intro: bookkeeping_trans skip_row_bookkeeping)

text \<open>The two branches of the importer, with the listing and the indexes named.\<close>

lemma import_category_excluded:
  "import_category cl cfg rows False dry st =
     each_row (\<lambda>r. skip_row cl (cfg_type cfg) EXCLUDED_BY_OPERATOR (row_label r) (dict_get r ''id'') dry)
       rows (on_cat (cfg_type cfg) id st)"
  by (simp add: import_category_def Let_def)

lemma import_category_selected:
  assumes "st1 = note_caveat cfg dry (on_cat (cfg_type cfg) id st)"
    and "list_rows cl (cfg_type cfg) (world st1) = (listed, w)"
  shows "import_category cl cfg rows True dry st =
    (case index_rows cfg (case listed of Inr v \<Rightarrow> v | Inl _ \<Rightarrow> PList []) of
       Inl err \<Rightarrow> (st1\<lparr>world := w\<rparr>, Some err)
     | Inr ix \<Rightarrow> map_prod snd id (each_row (import_row cl cfg dry) rows (ix, st1\<lparr>world := w\<rparr>)))"
  using assms(2) unfolding assms(1) import_category_def Let_def by simp

lemma import_category_invariant:
  assumes "I st" and cat: "\<And>ty f st. I st \<Longrightarrow> I (on_cat ty f st)"
    and listing: "\<And>st ty. I st \<Longrightarrow> I (st\<lparr>world := snd (list_rows cl ty (world st))\<rparr>)"
    and skip: "\<And>r st. r \<in> set rows \<Longrightarrow> I st \<Longrightarrow>
      I (fst (skip_row cl (cfg_type cfg) EXCLUDED_BY_OPERATOR (row_label r) (dict_get r ''id'') dry st))"
    and row: "\<And>r ix st. r \<in> set rows \<Longrightarrow> I st \<Longrightarrow> I (snd (fst (import_row cl cfg dry r (ix, st))))"
  shows "I (fst (import_category cl cfg rows selected dry st))"
proof (cases selected)
  case False
  have "I (fst (import_category cl cfg rows False dry st))"
    unfolding import_category_excluded by (rule each_row_invariant) (auto intro: skip cat assms(1))
  then show ?thesis using False by simp
next
  case True
  define st1 where "st1 = note_caveat cfg dry (on_cat (cfg_type cfg) id st)"
  obtain listed w where l: "list_rows cl (cfg_type cfg) (world st1) = (listed, w)" by fastforce
  have "I st1" unfolding st1_def note_caveat_def using cat assms(1) by simp
  from listing [OF this, of "cfg_type cfg"] l have st2: "I (st1\<lparr>world := w\<rparr>)" by simp
  have "I (snd (fst (each_row (import_row cl cfg dry) rows (ix, st1\<lparr>world := w\<rparr>))))" for ix
    by (rule each_row_invariant [where I = "\<lambda>s. I (snd s)"]) (auto intro: row st2)
  with st2 True import_category_selected [OF st1_def l] show ?thesis by (simp split: sum.splits)
qed

text \<open>A preview changes the destination only by listing, and keeps the ledger.\<close>

lemma preview_bookkeeping:
  "\<exists>w \<in> {world st, snd (list_rows cl (cfg_type cfg) (world st))}.
     bookkeeping (st\<lparr>world := w\<rparr>) (fst (import_category cl cfg rows selected True st))"
proof (cases selected)
  case False
  have "bookkeeping st (fst (import_category cl cfg rows False True st))"
    using excluded_rows.pass_keeps [of "on_cat (cfg_type cfg) id st"]
    unfolding import_category_excluded by (simp add: bookkeeping_def)
  then show ?thesis using False by (simp add: bookkeeping_def)
next
  case True
  define st1 where "st1 = note_caveat cfg True (on_cat (cfg_type cfg) id st)"
  obtain listed w where l: "list_rows cl (cfg_type cfg) (world st1) = (listed, w)" by fastforce
  have st1: "bookkeeping st st1" by (simp add: st1_def note_caveat_def)
  have "bookkeeping (st1\<lparr>world := w\<rparr>) (fst (import_category cl cfg rows True True st))"
    using import_category_selected [OF st1_def l] preview_rows.pass_keeps [of "(_, st1\<lparr>world := w\<rparr>)"]
    by (auto split: sum.splits)
  with st1 l True show ?thesis by (auto simp: bookkeeping_def)
qed

end
