(* ===== verification/RestorePreview.thy ===== *)
theory RestorePreview
  imports GroupsProfiles
begin

text \<open>
  The preview of a category against its apply (\<open>dbas/importers/groups_profiles.py\<close>, the parity that
  \<open>dbas/restore_orchestrator.py\<close> asks of the two registries): run from the same state, a preview and
  an apply whose creates all succeed decide every row alike. The proof keeps the two runs in step, row
  by row.
\<close>

section \<open>Reading a category after a change\<close>

lemma find_on_category:
  assumes "\<And>c. cr_entity_type (f c) = cr_entity_type c"
  shows "List.find (\<lambda>c. cr_entity_type c = ty') (on_category ty f cs) =
    (if ty' = ty then Some (f (case List.find (\<lambda>c. cr_entity_type c = ty) cs of Some c \<Rightarrow> c | None \<Rightarrow> new_category ty))
     else List.find (\<lambda>c. cr_entity_type c = ty') cs)"
  by (induction cs) (auto simp: assms new_category_def)

lemma category_change:
  "(\<And>c. cr_entity_type (f c) = cr_entity_type c) \<Longrightarrow>
     category (change_category ty f r) ty' = (if ty' = ty then f (category r ty) else category r ty')"
  by (simp add: category_def change_category_def find_on_category)

lemma category_counts [simp]:
  "category (change_category ty (skip_counted dry reason lbl src) r) ty = skip_counted dry reason lbl src (category r ty)"
  "category (change_category ty (count_skip dry) r) ty = count_skip dry (category r ty)"
  "category (change_category ty (\<lambda>c. c\<lparr>created := created c + 1\<rparr>) r) ty
     = (category r ty)\<lparr>created := created (category r ty) + 1\<rparr>"
  "category (change_category ty (\<lambda>c. c\<lparr>would_create := would_create c + 1\<rparr>) r) ty
     = (category r ty)\<lparr>would_create := would_create (category r ty) + 1\<rparr>"
  "category (change_category ty id r) ty = category r ty"
  "category (change_category ty (\<lambda>c. c\<lparr>caveat := v\<rparr>) r) ty = (category r ty)\<lparr>caveat := v\<rparr>"
  by (simp_all add: category_change skip_counted_def count_skip_def Let_def)

section \<open>Two runs in step\<close>

definition same_counts :: "category_report \<Rightarrow> category_report \<Rightarrow> category_report \<Rightarrow> bool" where
  "same_counts b d a \<longleftrightarrow>
     would_create d - would_create b = created a - created b \<and>
     would_skip d - would_skip b = skipped a - skipped b \<and>
     failed d = failed b \<and> failed a = failed b \<and> skip_details d = skip_details a"

definition same_scope :: "id_remap_table \<Rightarrow> id_remap_table \<Rightarrow> bool" where
  "same_scope t t' \<longleftrightarrow>
     (\<forall>ty n. remap_resolve t ty n = None \<longleftrightarrow> remap_resolve t' ty n = None) \<and>
     category_deselected t = category_deselected t'"

definition in_step :: "entity_type \<Rightarrow> category_report \<Rightarrow> 'w import_state \<Rightarrow> 'w import_state \<Rightarrow> bool" where
  "in_step ty b sd sa \<longleftrightarrow>
     same_counts b (category (report sd) ty) (category (report sa) ty) \<and>
     entities_blocked_by_dependency (report sd) = entities_blocked_by_dependency (report sa) \<and>
     same_scope (remap sd) (remap sa)"

lemma same_counts_simps [simp]:
  "same_counts b (skip_counted True reason lbl src d) (skip_counted False reason lbl src a) = same_counts b d a"
  "same_counts b (count_skip True d) (count_skip False a) = same_counts b d a"
  "same_counts b (d\<lparr>would_create := would_create d + 1\<rparr>) (a\<lparr>created := created a + 1\<rparr>) = same_counts b d a"
  "same_counts b (d\<lparr>caveat := v\<rparr>) a = same_counts b d a"
  by (auto simp: same_counts_def skip_counted_def count_skip_def Let_def)

lemma same_scope_add [simp]:
  "same_scope t t' \<Longrightarrow> same_scope (remap_add ty n m t) (remap_add ty n m' t')"
  by (simp add: same_scope_def)

lemma category_blocked [simp]: "category (r\<lparr>entities_blocked_by_dependency := n\<rparr>) ty = category r ty"
  by (simp add: category_def)

lemma each_row_in_step:
  assumes "R s t" "\<And>x s t. x \<in> set xs \<Longrightarrow> R s t \<Longrightarrow> snd (f x s) = snd (g x t) \<and> R (fst (f x s)) (fst (g x t))"
  shows "snd (each_row f xs s) = snd (each_row g xs t) \<and> R (fst (each_row f xs s)) (fst (each_row g xs t))"
  using assms
proof (induction xs arbitrary: s t)
  case (Cons x xs)
  obtain s' e where f: "f x s = (s', e)" by fastforce
  obtain t' e' where g: "g x t = (t', e')" by fastforce
  have step: "e = e'" "R s' t'" using Cons.prems(2) [of x s t] Cons.prems(1) f g by auto
  have "snd (each_row f xs s') = snd (each_row g xs t') \<and> R (fst (each_row f xs s')) (fst (each_row g xs t'))"
    using Cons.IH [OF step(2)] Cons.prems(2) by auto
  with step f g show ?case by (cases e) auto
qed simp

lemma in_step_blocked [simp]:
  "entities_blocked_by_dependency (change_category ty f r) = entities_blocked_by_dependency r"
  by (simp add: change_category_def)

lemma skip_row_in_step:
  assumes "in_step ty b sd sa"
  shows "snd (skip_row cl ty reason lbl source True sd) = snd (skip_row cl ty reason lbl source False sa) \<and>
    in_step ty b (fst (skip_row cl ty reason lbl source True sd)) (fst (skip_row cl ty reason lbl source False sa))"
  using assms by (cases "int_field cl source") (simp_all add: skip_row_def in_step_def)

lemma unresolved_row_in_step:
  assumes "in_step ty b sd sa"
  shows "snd (unresolved_row cl ty dep lbl source True sd) = snd (unresolved_row cl ty dep lbl source False sa) \<and>
    in_step ty b (fst (unresolved_row cl ty dep lbl source True sd)) (fst (unresolved_row cl ty dep lbl source False sa))"
proof -
  have "faithful_absence ty dep (remap sd) = faithful_absence ty dep (remap sa)"
    using assms by (simp add: in_step_def same_scope_def faithful_absence_def)
  then show ?thesis using assms
    by (cases "int_field cl source")
       (simp_all add: unresolved_row_def in_step_def record_dependency_unresolved_def Let_def)
qed

lemma adopt_id_same:
  assumes "in_step ty b sd sa"
  shows "snd (adopt_id ty source dest sd) = snd (adopt_id ty source dest sa) \<and>
    in_step ty b (fst (adopt_id ty source dest sd)) (fst (adopt_id ty source dest sa))"
  using assms by (cases "py_int source"; cases "py_int dest") (simp_all add: adopt_id_def in_step_def)

lemma adopt_row_in_step:
  assumes "in_step (cfg_type cfg) b sd sa"
  shows "snd (adopt_row cl cfg True archive existing sd) = snd (adopt_row cl cfg False archive existing sa) \<and>
    in_step (cfg_type cfg) b (fst (adopt_row cl cfg True archive existing sd))
      (fst (adopt_row cl cfg False archive existing sa))"
proof -
  let ?skip = "skip_row cl (cfg_type cfg) (cfg_match_reason cfg) (row_label archive) (dict_get archive ''id'')"
  obtain sd1 e where sd1: "?skip True sd = (sd1, e)" by fastforce
  obtain sa1 e' where sa1: "?skip False sa = (sa1, e')" by fastforce
  have "e = e'" "in_step (cfg_type cfg) b sd1 sa1"
    using skip_row_in_step [OF assms, of cl "cfg_match_reason cfg" "row_label archive" "dict_get archive ''id''"]
      sd1 sa1 by auto
  with sd1 sa1 adopt_id_same [of "cfg_type cfg" b sd1 sa1] show ?thesis
    by (cases e') (auto simp: adopt_row_def)
qed

text \<open>Which rows can be created depends only on which ids resolve.\<close>

definition shape :: "(py_error, entity_type + row) result \<Rightarrow> (py_error, entity_type + unit) result" where
  "shape = map_sum id (map_sum id (\<lambda>_. ()))"

lemma shape_cases:
  "shape r = Inl e \<longleftrightarrow> r = Inl e" "shape r = Inr (Inl ty) \<longleftrightarrow> r = Inr (Inl ty)"
  "shape r = Inr (Inr u) \<longleftrightarrow> (\<exists>payload. r = Inr (Inr payload))"
  unfolding shape_def by (cases r rule: sum.exhaust; cases "projr r" rule: sum.exhaust; auto)+

lemma remap_fk_shape:
  assumes "same_scope t t'" "shape (Inr acc) = shape (Inr acc')"
  shows "shape (remap_fk archive t fk acc) = shape (remap_fk archive t' fk acc')"
proof -
  have "remap_resolve t (snd fk) n = None \<longleftrightarrow> remap_resolve t' (snd fk) n = None" for n
    using assms(1) by (simp add: same_scope_def)
  then show ?thesis using assms(2)
    by (cases "py_int (dict_get archive (fst fk))"; cases acc; cases acc')
       (auto simp: remap_fk_def shape_def Let_def split: option.splits, metis option.distinct(1))
qed

lemma build_create_payload_shape:
  assumes "same_scope t t'"
  shows "shape (build_create_payload archive cfg t) = shape (build_create_payload archive cfg t')"
proof -
  have "shape (fold_result (remap_fk archive t) fks acc) = shape (fold_result (remap_fk archive t') fks acc')"
    if "shape (Inr acc) = shape (Inr acc')" for fks acc acc'
    using that
  proof (induction fks arbitrary: acc acc')
    case (Cons fk fks)
    from remap_fk_shape [OF assms Cons.prems, of archive fk] Cons.IH show ?case
      by (cases "remap_fk archive t fk acc"; cases "remap_fk archive t' fk acc'")
         (auto simp: shape_def)
  qed simp
  then show ?thesis unfolding build_create_payload_def by blast
qed

section \<open>Parity\<close>

lemma note_caveat_world [simp]: "world (note_caveat cfg dry st) = world st"
  by (simp add: note_caveat_def)

text \<open>A destination that accepts every create of a type and answers with an integer id.\<close>

definition accepts_creates :: "'w client \<Rightarrow> entity_type \<Rightarrow> bool" where
  "accepts_creates cl ty \<longleftrightarrow>
     (\<forall>v w. \<exists>d n w'. create_row cl ty v w = (Inr (PDict d), w') \<and> dict_get d ''id'' = PInt n)"

lemma created_row_in_step:
  assumes "in_step ty b sd sa" "dict_get d ''id'' = PInt n"
  shows "snd (adopt_id ty source source (on_cat ty (\<lambda>c. c\<lparr>would_create := would_create c + 1\<rparr>) sd))
      = snd (created_row ty lbl source (PDict d) (sa\<lparr>world := w\<rparr>)) \<and>
    in_step ty b (fst (adopt_id ty source source (on_cat ty (\<lambda>c. c\<lparr>would_create := would_create c + 1\<rparr>) sd)))
      (fst (created_row ty lbl source (PDict d) (sa\<lparr>world := w\<rparr>)))"
  using assms by (cases "py_int source") (simp_all add: created_row_def adopt_id_def in_step_def Let_def)

lemma import_row_in_step:
  assumes "accepts_creates cl (cfg_type cfg)" "in_step (cfg_type cfg) b (snd s) (snd t)" "fst s = fst t"
  shows "snd (import_row cl cfg True archive s) = snd (import_row cl cfg False archive t) \<and>
    fst (fst (import_row cl cfg True archive s)) = fst (fst (import_row cl cfg False archive t)) \<and>
    in_step (cfg_type cfg) b (snd (fst (import_row cl cfg True archive s))) (snd (fst (import_row cl cfg False archive t)))"
proof -
  obtain ix sd where s: "s = (ix, sd)" by fastforce
  obtain sa where t: "t = (ix, sa)" using assms(3) s by (cases t) auto
  have st: "in_step (cfg_type cfg) b sd sa" using assms(2) s t by simp
  have shapes: "shape (build_create_payload archive cfg (remap sd)) = shape (build_create_payload archive cfg (remap sa))"
    using st by (intro build_create_payload_shape) (simp add: in_step_def)
  show ?thesis
  proof (cases "find_existing ix (dict_get archive ''name'')")
    case (Some existing)
    then show ?thesis using adopt_row_in_step [OF st] by (simp add: import_row_def s t)
  next
    case None
    show ?thesis
    proof (cases "build_create_payload archive cfg (remap sd)")
      case (Inl e)
      then have "build_create_payload archive cfg (remap sa) = Inl e"
        using shapes shape_cases(1) by metis
      then show ?thesis using None Inl st by (simp add: import_row_def s t)
    next
      case (Inr r)
      show ?thesis
      proof (cases r)
        case (Inl dep)
        then have "build_create_payload archive cfg (remap sa) = Inr (Inl dep)"
          using shapes Inr shape_cases(2) by metis
        then show ?thesis using None Inr Inl unresolved_row_in_step [OF st] by (simp add: import_row_def s t)
      next
        case payload: (Inr payload)
        then obtain payload' where "build_create_payload archive cfg (remap sa) = Inr (Inr payload')"
          using shapes Inr shape_cases(3) by metis
        moreover obtain d n w where "create_row cl (cfg_type cfg)
            (if cfg_by_name cfg then dict_get payload' ''name'' else PDict payload') (world sa) = (Inr (PDict d), w)"
            "dict_get d ''id'' = PInt n"
          using assms(1) unfolding accepts_creates_def by blast
        ultimately show ?thesis using None Inr payload created_row_in_step [OF st]
          by (simp add: import_row_def s t Let_def)
      qed
    qed
  qed
qed

text \<open>
  C11. A preview counts what the apply does. Started from the same state, on a destination that accepts
  the creates, the preview of a category and its apply end alike (returning, or with the same exception)
  and agree on the counts: what the preview says it would create and skip is what the apply creates and
  skips, with the same reasons and labels, nothing fails, the same number of entities is reported as
  blocked by a dependency, and an archived id resolves afterwards in one exactly when it does in the other.
\<close>

theorem preview_counts_what_apply_does:
  assumes "accepts_creates cl (cfg_type cfg)"
    and "import_category cl cfg rows selected True st = (sd, ed)"
    and "import_category cl cfg rows selected False st = (sa, ea)"
  shows "ed = ea \<and>
    (let b = category (report st) (cfg_type cfg); d = category (report sd) (cfg_type cfg);
         a = category (report sa) (cfg_type cfg) in
     would_create d - would_create b = created a - created b \<and>
     would_skip d - would_skip b = skipped a - skipped b \<and>
     failed d = failed b \<and> failed a = failed b \<and> skip_details d = skip_details a) \<and>
    entities_blocked_by_dependency (report sd) = entities_blocked_by_dependency (report sa) \<and>
    (\<forall>ty n. remap_resolve (remap sd) ty n = None \<longleftrightarrow> remap_resolve (remap sa) ty n = None)"
proof -
  let ?ty = "cfg_type cfg" and ?b = "category (report st) (cfg_type cfg)"
  have start: "in_step ?ty ?b (on_cat ?ty id st) (on_cat ?ty id st)"
    by (simp add: in_step_def same_counts_def same_scope_def)
  have "ed = ea \<and> in_step ?ty ?b sd sa"
  proof (cases selected)
    case False
    have "snd (import_category cl cfg rows False True st) = snd (import_category cl cfg rows False False st) \<and>
      in_step ?ty ?b (fst (import_category cl cfg rows False True st)) (fst (import_category cl cfg rows False False st))"
      unfolding import_category_excluded by (rule each_row_in_step [where R = "in_step ?ty ?b"]) (rule start, rule skip_row_in_step)
    then show ?thesis using assms(2,3) False by simp
  next
    case True
    let ?d = "note_caveat cfg True (on_cat ?ty id st)" and ?a = "note_caveat cfg False (on_cat ?ty id st)"
    obtain listed w where l: "list_rows cl ?ty (world ?d) = (listed, w)" "list_rows cl ?ty (world ?a) = (listed, w)"
      by (cases "list_rows cl ?ty (world st)") simp
    have st1: "in_step ?ty ?b (?d\<lparr>world := w\<rparr>) (?a\<lparr>world := w\<rparr>)"
      using start by (simp add: note_caveat_def in_step_def)
    let ?R = "\<lambda>s t. fst s = fst t \<and> in_step ?ty ?b (snd s) (snd t)"
    have loop: "snd (each_row (import_row cl cfg True) rows (ix, ?d\<lparr>world := w\<rparr>))
        = snd (each_row (import_row cl cfg False) rows (ix, ?a\<lparr>world := w\<rparr>)) \<and>
      ?R (fst (each_row (import_row cl cfg True) rows (ix, ?d\<lparr>world := w\<rparr>)))
        (fst (each_row (import_row cl cfg False) rows (ix, ?a\<lparr>world := w\<rparr>)))" for ix
      by (rule each_row_in_step [where R = ?R]) (use st1 import_row_in_step [OF assms(1)] in auto)
    have "import_category cl cfg rows True True st = (sd, ed)" "import_category cl cfg rows True False st = (sa, ea)"
      using assms(2,3) True by simp_all
    note runs = this [unfolded import_category_selected [OF refl l(1)] import_category_selected [OF refl l(2)]]
    show ?thesis
    proof (cases "index_rows cfg (case listed of Inr v \<Rightarrow> v | Inl _ \<Rightarrow> PList [])")
      case (Inl e)
      then show ?thesis using runs st1 by auto
    next
      case (Inr ix)
      then show ?thesis using runs loop [of ix]
        by (cases "each_row (import_row cl cfg True) rows (ix, ?d\<lparr>world := w\<rparr>)";
            cases "each_row (import_row cl cfg False) rows (ix, ?a\<lparr>world := w\<rparr>)") auto
    qed
  qed
  then show ?thesis by (simp add: in_step_def same_counts_def same_scope_def Let_def)
qed

text \<open>A destination as a table: the ids and names of each type, a fresh id above them all.\<close>

type_synonym table = "entity_type \<Rightarrow> (int \<times> pyval) list"

definition fresh_id :: "(int \<times> pyval) list \<Rightarrow> int" where
  "fresh_id rows = 1 + foldr (max \<circ> fst) rows 0"

definition table_row :: "int \<times> pyval \<Rightarrow> row" where
  "table_row r = [(''id'', PInt (fst r)), (''name'', snd r)]"

definition table_client :: "(pyval \<Rightarrow> bool) \<Rightarrow> table client" where
  "table_client refuses =
     \<lparr>list_rows = (\<lambda>ty w. (Inr (PList (map (PDict \<circ> table_row) (w ty))), w)),
      create_row = (\<lambda>ty v w.
        let r = (fresh_id (w ty), case v of PDict d \<Rightarrow> dict_get d ''name'' | _ \<Rightarrow> v) in
        if refuses (snd r) then (Inl (HTTPStatusError 400 ''bad request''), w)
        else (Inr (PDict (table_row r)), w(ty := w ty @ [r]))),
      delete_row = (\<lambda>ty n w.
        if n \<in> set (map fst (w ty)) then (None, w(ty := filter (\<lambda>r. fst r \<noteq> n) (w ty)))
        else (Some (HTTPStatusError 404 ''not found''), w)),
      int_field = (\<lambda>v. case v of PNone \<Rightarrow> Some None | PInt n \<Rightarrow> Some (Some n) | _ \<Rightarrow> None)\<rparr>"

definition new_report :: restore_report where
  "new_report =
     \<lparr>is_dry_run = False, outcome = None, categories = [], logo_misses = 0,
      entities_blocked_by_dependency = 0, channels_needing_stream_reattach = Some 0,
      channels_with_no_playable_stream = Some 0, stream_reattach_details = [],
      stream_urls_redacted = Some 0, stream_url_redaction_details = [], epg_links_unrestored = 0,
      account_convergence_unapplied = 0, destination_unreadable = None, report_notes = []\<rparr>"

definition table_state :: "table \<Rightarrow> table import_state" where
  "table_state w =
     \<lparr>world = w, report = new_report, ledger = \<lparr>restore_id = ''r1'', entries = []\<rparr>, remap = empty_remap\<rparr>"

definition sample_table :: table where
  "sample_table = (\<lambda>ty. if ty = CHANNEL_GROUP then [(1, PStr ''News'')] else [])"

definition sample_channel_groups :: "row list" where
  "sample_channel_groups = [[(''id'', PInt 7), (''name'', PStr '' news '')], [(''id'', PInt 8), (''name'', PStr ''Sport'')]]"

lemma table_accepts: "accepts_creates (table_client (\<lambda>_. False)) ty"
  by (simp add: accepts_creates_def table_client_def table_row_def dict_get_def Let_def)

theorem preview_counts_what_apply_does_witness:
  "let run = (\<lambda>dry. import_category (table_client (\<lambda>_. False)) channel_groups_config sample_channel_groups True dry
         (table_state sample_table));
       d = category (report (fst (run True))) CHANNEL_GROUP; a = category (report (fst (run False))) CHANNEL_GROUP in
   would_create d = created a \<and> would_skip d = skipped a \<and> created a = 1 \<and> skipped a = 1 \<and>
   accepts_creates (table_client (\<lambda>_. False)) CHANNEL_GROUP"
proof -
  let ?run = "\<lambda>dry. import_category (table_client (\<lambda>_. False)) channel_groups_config sample_channel_groups True dry
         (table_state sample_table)"
  have ty: "cfg_type channel_groups_config = CHANNEL_GROUP" by code_simp
  have "created (category (report (fst (?run False))) CHANNEL_GROUP) = 1"
    "skipped (category (report (fst (?run False))) CHANNEL_GROUP) = 1"
    "category (report (table_state sample_table)) CHANNEL_GROUP = new_category CHANNEL_GROUP"
    by code_simp+
  with preview_counts_what_apply_does [of "table_client (\<lambda>_. False)" channel_groups_config sample_channel_groups True
      "table_state sample_table" "fst (?run True)" "snd (?run True)" "fst (?run False)" "snd (?run False)"]
    table_accepts ty
  show ?thesis by (simp add: Let_def new_category_def)
qed

end
