(* ===== verification/RestoreRun.thy ===== *)
theory RestoreRun
  imports RestorePreview
begin

text \<open>
  The restore orchestrator (\<open>dbas/restore_orchestrator.py\<close>): the compensating rollback, the
  outcome of a run and \<open>run_restore\<close> as a whole. The ledger files are a map from restore ids to
  ledgers, written in one piece (\<open>os.replace\<close>). The importer steps, the deferred apply and the
  placeholder rebind are arguments, as the first two are in the code; the group and profile importers
  are the steps of \<open>groups_profiles_steps\<close>. Times, log lines and failing disk writes are left out.
\<close>

section \<open>Classifying a failed delete\<close>

definition py_isdigit :: "char \<Rightarrow> bool" where
  "py_isdigit c \<longleftrightarrow> py_is_digit c \<or> of_char c \<in> {178, 179, 185 :: nat}"

fun split_blanks_from :: "string \<Rightarrow> string \<Rightarrow> string list" where
  "split_blanks_from word [] = (if word = [] then [] else [word])"
| "split_blanks_from word (c # cs) =
     (if py_is_space c then (if word = [] then [] else [word]) @ split_blanks_from [] cs
      else split_blanks_from (word @ [c]) cs)"

definition split_blanks :: "string \<Rightarrow> string list" where
  "split_blanks s = split_blanks_from [] s"

text \<open>\<open>int\<close> refuses a superscript digit, which \<open>isdigit\<close> lets through.\<close>

fun status_token :: "string list \<Rightarrow> (py_error, int option) result" where
  "status_token [] = returns None"
| "status_token (t # ts) =
     (if list_all py_isdigit t \<and> length t = 3 then bind_result (int_of_text t) (\<lambda>n. returns (Some n))
      else status_token ts)"

fun status_code_of :: "client_error \<Rightarrow> (py_error, int option) result" where
  "status_code_of (HTTPStatusError code text) = returns (Some code)"
| "status_code_of (OtherError text) =
     status_token (split_blanks (map (\<lambda>c. if c = CHR '':'' \<or> c = CHR ''-'' then CHR '' '' else c) text))"

definition is_already_gone :: "client_error \<Rightarrow> (py_error, bool) result" where
  "is_already_gone e = bind_result (status_code_of e) (\<lambda>code. returns (code = Some 404))"

section \<open>Ledger files\<close>

type_synonym ledger_files = "string \<rightharpoonup> rollback_ledger"

definition persist_ledger :: "rollback_ledger \<Rightarrow> ledger_files \<Rightarrow> ledger_files" where
  "persist_ledger l files = files(restore_id l \<mapsto> l)"

definition delete_ledger :: "string \<Rightarrow> ledger_files \<Rightarrow> ledger_files" where
  "delete_ledger rid files = files(rid := None)"

section \<open>Rollback\<close>

definition has_compensator :: "entity_type \<Rightarrow> bool" where
  "has_compensator ty \<longleftrightarrow>
     ty \<in> {M3U_ACCOUNT, EPG_SOURCE, CHANNEL_GROUP, CHANNEL_PROFILE, STREAM_PROFILE, SERVER_GROUP,
           CHANNEL, STREAM, USER, USER_AGENT, DVR_RULE, UPCOMING_RECORDING, LOGO}"

text \<open>The destination, the ledger and its files; the entries undone and those left, by position.\<close>

record 'w rollback_state =
  rb_world :: 'w
  rb_ledger :: rollback_ledger
  rb_files :: ledger_files
  rb_compensated :: "nat list"
  rb_residue :: "nat list"

definition entry_undone :: "nat \<Rightarrow> 'w rollback_state \<Rightarrow> 'w rollback_state" where
  "entry_undone i st =
     (let l = mark_compensated i (rb_ledger st) in
      st\<lparr>rb_ledger := l, rb_compensated := rb_compensated st @ [i],
         rb_files := persist_ledger l (rb_files st)\<rparr>)"

definition entry_left :: "nat \<Rightarrow> 'w rollback_state \<Rightarrow> 'w rollback_state" where
  "entry_left i st = st\<lparr>rb_residue := rb_residue st @ [i]\<rparr>"

definition compensate_entry ::
  "'w client \<Rightarrow> nat \<Rightarrow> 'w rollback_state \<Rightarrow> 'w rollback_state \<times> py_error option" where
  "compensate_entry cl i st =
     (let entry = entries (rb_ledger st) ! i in
      if \<not> has_compensator (entry_type entry) then (entry_left i st, None)
      else
        let (reply, w) = delete_row cl (entry_type entry) (destination_id entry) (rb_world st);
            st1 = st\<lparr>rb_world := w\<rparr> in
        case reply of
          None \<Rightarrow> (entry_undone i st1, None)
        | Some e \<Rightarrow>
            (case is_already_gone e of
               Inl err \<Rightarrow> (st1, Some err)
             | Inr True \<Rightarrow> (entry_undone i st1, None)
             | Inr False \<Rightarrow> (entry_left i st1, None)))"

definition run_rollback ::
  "'w client \<Rightarrow> 'w rollback_state \<Rightarrow> 'w rollback_state \<times> py_error option" where
  "run_rollback cl st =
     each_row (compensate_entry cl) (compensation_order (rb_ledger st))
       (st\<lparr>rb_compensated := [], rb_residue := []\<rparr>)"

definition rollback_complete :: "'w rollback_state \<Rightarrow> bool" where
  "rollback_complete st \<longleftrightarrow> rb_residue st = []"

section \<open>The outcome\<close>

definition report_has_failures :: "restore_report \<Rightarrow> bool" where
  "report_has_failures r \<longleftrightarrow> list_ex (\<lambda>c. failed c > 0) (categories r)"

definition report_has_delivery_shortfall :: "restore_report \<Rightarrow> bool" where
  "report_has_delivery_shortfall r \<longleftrightarrow> \<not> is_dry_run r \<and> delivery_shortfalls r \<noteq> []"

definition outcome_for_unread_destination :: "restore_report \<Rightarrow> restore_outcome option" where
  "outcome_for_unread_destination r =
     (if is_dry_run r \<or> destination_unreadable r = None then None else Some FAILED_ROLLBACK_INCOMPLETE)"

text \<open>\<open>rollback\<close> is \<open>None\<close> where no rollback ran, else whether it was complete.\<close>

definition compute_outcome :: "restore_report \<Rightarrow> bool \<Rightarrow> bool option \<Rightarrow> restore_outcome" where
  "compute_outcome r failure_occurred rollback =
     (case outcome_for_unread_destination r of
        Some forced \<Rightarrow> forced
      | None \<Rightarrow>
          if \<not> (failure_occurred \<or> report_has_failures r) then
            (if report_has_delivery_shortfall r then COMPLETED_WITH_FAILURES else SUCCESS)
          else if \<not> failure_occurred then COMPLETED_WITH_FAILURES
          else if rollback = Some True then PARTIAL_FAILED_ROLLED_BACK
          else FAILED_ROLLBACK_INCOMPLETE)"

section \<open>A run\<close>

definition NON_FATAL_FAILURE_CATEGORIES :: "entity_type set" where
  "NON_FATAL_FAILURE_CATEGORIES = {USER, LOGO, UPCOMING_RECORDING}"

text \<open>
  What a run works on: the state its importers share, the ledger files and the settings to apply
  last. An importer step gets the plan and the run and answers the run with its deferred settings,
  or \<open>None\<close> where it raised. The services around the importers are the deferred apply, which
  answers the number of accounts it applied, and the rebind pass; \<open>None\<close> says that it raised.
\<close>

record 'w restore_run =
  shared :: "'w import_state"
  files :: ledger_files
  deferred :: "pyval list"

record 'w importer_step =
  step_type :: entity_type
  importer :: "(import_plan \<Rightarrow> 'w restore_run \<Rightarrow> 'w restore_run \<times> pyval list option) option"

record 'w services =
  destination :: "'w client"
  deferred_apply :: "pyval list \<Rightarrow> 'w import_state \<Rightarrow> 'w import_state \<times> nat option"
  rebind_placeholder_streams :: "row list \<Rightarrow> bool \<Rightarrow> 'w import_state \<Rightarrow> 'w import_state \<times> unit option"

definition on_shared :: "('w import_state \<Rightarrow> 'w import_state) \<Rightarrow> 'w restore_run \<Rightarrow> 'w restore_run" where
  "on_shared f run = run\<lparr>shared := f (shared run)\<rparr>"

definition add_note :: "restore_note \<Rightarrow> restore_report \<Rightarrow> restore_report" where
  "add_note n r = r\<lparr>report_notes := report_notes r @ [n]\<rparr>"

definition note_run :: "restore_note \<Rightarrow> 'w restore_run \<Rightarrow> 'w restore_run" where
  "note_run n = on_shared (on_report (add_note n))"

definition run_dry :: "'w restore_run \<Rightarrow> bool" where
  "run_dry run = is_dry_run (report (shared run))"

text \<open>\<open>if not report.is_dry_run: persist_ledger(ledger)\<close>.\<close>

definition persist_run :: "'w restore_run \<Rightarrow> 'w restore_run" where
  "persist_run run =
     (if run_dry run then run else run\<lparr>files := persist_ledger (ledger (shared run)) (files run)\<rparr>)"

text \<open>The ordered apply; the second component is the step that made it stop, if any.\<close>

fun apply_steps ::
  "import_plan \<Rightarrow> entity_type set \<Rightarrow> 'w importer_step list \<Rightarrow> 'w restore_run
     \<Rightarrow> 'w restore_run \<times> entity_type option" where
  "apply_steps p non_fatal [] run = (run, None)"
| "apply_steps p non_fatal (step # steps) run =
     (case importer step of
        None \<Rightarrow> apply_steps p non_fatal steps run
      | Some imp \<Rightarrow>
          (case imp p run of
             (run1, None) \<Rightarrow> (persist_run run1, Some (step_type step))
           | (run1, Some settings) \<Rightarrow>
               let run2 = persist_run (run1\<lparr>deferred := deferred run1 @ settings\<rparr>);
                   run3 = on_shared (on_cat (step_type step) id) run2;
                   cat_failed = failed (category (report (shared run3)) (step_type step)) in
               if cat_failed > 0 then
                 (if step_type step \<in> non_fatal
                  then apply_steps p non_fatal steps (note_run (NonFatalRows cat_failed (step_type step)) run3)
                  else (run3, Some (step_type step)))
               else apply_steps p non_fatal steps run3))"

definition settings_category :: "restore_report \<Rightarrow> category_report option" where
  "settings_category r = List.find (\<lambda>c. cr_entity_type c = SETTINGS) (categories r)"

definition settings_notes :: "restore_report \<Rightarrow> restore_report" where
  "settings_notes r =
     (case settings_category r of
        None \<Rightarrow> r
      | Some c \<Rightarrow>
          let r1 = (if updated c > 0 then add_note (SettingsNotRolledBack (updated c)) r else r) in
          if list_ex (\<lambda>d. fd_reason d = DEPENDENCY_UNRESOLVED) (failure_details c)
          then add_note SettingsKeysMissing r1 else r1)"

definition run_rollback_state :: "'w restore_run \<Rightarrow> 'w rollback_state" where
  "run_rollback_state run =
     \<lparr>rb_world = world (shared run), rb_ledger = ledger (shared run), rb_files = files run,
      rb_compensated = [], rb_residue = []\<rparr>"

definition take_rollback :: "'w rollback_state \<Rightarrow> 'w restore_run \<Rightarrow> 'w restore_run" where
  "take_rollback rb run =
     run\<lparr>shared := (shared run)\<lparr>world := rb_world rb, ledger := rb_ledger rb\<rparr>, files := rb_files rb\<rparr>"

definition rollback_phase ::
  "'w client \<Rightarrow> entity_type \<Rightarrow> 'w restore_run \<Rightarrow> ('w restore_run \<times> bool) \<times> py_error option" where
  "rollback_phase cl at_step run =
     (let run1 = note_run (FailedAtCategory at_step) run;
          (rb, err) = run_rollback cl (run_rollback_state run1);
          run2 = take_rollback rb run1 in
      case err of
        Some e \<Rightarrow> ((run2, False), Some e)
      | None \<Rightarrow>
          let run3 = note_run (if rollback_complete rb then RollbackCompleted (length (rb_compensated rb))
                               else RollbackIncomplete (length (rb_residue rb))) run2 in
          ((on_shared (on_report settings_notes) run3, rollback_complete rb), None))"

definition deferred_phase :: "'w services \<Rightarrow> 'w restore_run \<Rightarrow> 'w restore_run" where
  "deferred_phase sv run =
     (if deferred run = [] then run
      else
        let (st, applied) = deferred_apply sv (deferred run) (shared run);
            run1 = run\<lparr>shared := st\<rparr> in
        case applied of
          None \<Rightarrow> note_run DeferredError run1
        | Some n \<Rightarrow> if n > 0 then note_run (DeferredApplied n) run1 else run1)"

definition rebind_phase :: "'w services \<Rightarrow> import_plan \<Rightarrow> bool \<Rightarrow> 'w restore_run \<Rightarrow> 'w restore_run" where
  "rebind_phase sv p allow_fuzzy run =
     (let archive_channels = (case plan_category_of p CHANNEL of Some c \<Rightarrow> entities c | None \<Rightarrow> []) in
      if archive_channels = [] then run
      else
        let (st, done) = rebind_placeholder_streams sv archive_channels allow_fuzzy (shared run);
            run1 = run\<lparr>shared := st\<rparr> in
        case done of None \<Rightarrow> note_run RebindError run1 | Some _ \<Rightarrow> run1)"

definition confirm_guard :: "bool \<Rightarrow> 'w restore_run \<Rightarrow> 'w restore_run" where
  "confirm_guard confirm_apply run =
     (if \<not> confirm_apply \<and> \<not> run_dry run
      then note_run ApplyNotConfirmed (on_shared (on_report (\<lambda>r. r\<lparr>is_dry_run := True\<rparr>)) run)
      else run)"

definition set_outcome :: "restore_outcome option \<Rightarrow> 'w restore_run \<Rightarrow> 'w restore_run" where
  "set_outcome oc = on_shared (on_report (\<lambda>r. r\<lparr>outcome := oc\<rparr>))"

text \<open>A failed apply is rolled back, a clean one is completed; a preview does neither.\<close>

definition finish_apply ::
  "'w services \<Rightarrow> import_plan \<Rightarrow> bool \<Rightarrow> entity_type option \<Rightarrow> 'w restore_run
     \<Rightarrow> ('w restore_run \<times> bool option) \<times> py_error option" where
  "finish_apply sv p allow_fuzzy stopped run =
     (if run_dry run then ((on_shared (on_report mark_stream_health_unpredicted) run, None), None)
      else case stopped of
             Some at_step \<Rightarrow> map_prod (map_prod id Some) id (rollback_phase (destination sv) at_step run)
           | None \<Rightarrow>
               ((let run1 = deferred_phase sv run in
                 if run_dry run1 then on_shared (on_report mark_stream_health_unpredicted) run1
                 else rebind_phase sv p allow_fuzzy run1, None), None))"

text \<open>The outcome, and the end of the ledger file of a clean success.\<close>

definition finish_restore :: "bool \<Rightarrow> bool option \<Rightarrow> 'w restore_run \<Rightarrow> 'w restore_run" where
  "finish_restore failure_occurred rollback run =
     (let r = report (shared run);
          oc = (if is_dry_run r then None else Some (compute_outcome r failure_occurred rollback));
          run1 = set_outcome oc run in
      if oc = Some SUCCESS \<and> \<not> is_dry_run r
      then run1\<lparr>files := delete_ledger (restore_id (ledger (shared run1))) (files run1)\<rparr>
      else run1)"

definition scope_run :: "import_plan \<Rightarrow> 'w restore_run \<Rightarrow> 'w restore_run" where
  "scope_run p = on_shared (\<lambda>st. st\<lparr>remap := record_run_scope
     (set (map pc_entity_type (selected_plan_categories p))) (remap st)\<rparr>)"

text \<open>What follows a passed pre-flight.\<close>

definition apply_plan ::
  "'w services \<Rightarrow> import_plan \<Rightarrow> 'w importer_step list \<Rightarrow> bool \<Rightarrow> entity_type set \<Rightarrow> 'w restore_run
     \<Rightarrow> 'w restore_run \<times> py_error option" where
  "apply_plan sv p steps allow_fuzzy non_fatal run =
     (let (run2, stopped) = apply_steps p non_fatal steps (scope_run p run) in
      case finish_apply sv p allow_fuzzy stopped run2 of
        ((run3, rollback), Some err) \<Rightarrow> (run3, Some err)
      | ((run3, rollback), None) \<Rightarrow> (finish_restore (stopped \<noteq> None) rollback run3, None))"

definition run_restore ::
  "'w services \<Rightarrow> import_plan \<Rightarrow> 'w importer_step list \<Rightarrow> bool \<Rightarrow> int option \<Rightarrow> bool
     \<Rightarrow> entity_type set option \<Rightarrow> 'w restore_run \<Rightarrow> 'w restore_run \<times> py_error option" where
  "run_restore sv p steps confirm_apply max_entities allow_fuzzy non_fatal_categories run =
     (let run0 = confirm_guard confirm_apply run in
      case run_preflight (case_option DEFAULT_MAX_ENTITIES_PER_CATEGORY id max_entities) p of
        Inl err \<Rightarrow> (run0, Some err)
      | Inr problems \<Rightarrow>
          if problems \<noteq> [] then
            (set_outcome None (fold (note_run \<circ> PreflightRefused) problems run0), None)
          else apply_plan sv p steps allow_fuzzy
                 (case_option NON_FATAL_FAILURE_CATEGORIES id non_fatal_categories) run0)"

section \<open>The steps of the group and profile importers\<close>

definition plan_entities :: "import_plan \<Rightarrow> entity_type \<Rightarrow> row list" where
  "plan_entities p ty = (case plan_category_of p ty of Some c \<Rightarrow> entities c | None \<Rightarrow> [])"

definition plan_selected :: "import_plan \<Rightarrow> entity_type \<Rightarrow> bool" where
  "plan_selected p ty = (case plan_category_of p ty of Some c \<Rightarrow> pc_selected c | None \<Rightarrow> False)"

definition category_step :: "'w client \<Rightarrow> category_config \<Rightarrow> 'w importer_step" where
  "category_step cl cfg =
     \<lparr>step_type = cfg_type cfg,
      importer = Some (\<lambda>p run.
        let (st, err) = import_category cl cfg (plan_entities p (cfg_type cfg))
              (plan_selected p (cfg_type cfg)) (run_dry run) (shared run) in
        (run\<lparr>shared := st\<rparr>, if err = None then Some [] else None))\<rparr>"

definition groups_profiles_steps :: "'w client \<Rightarrow> 'w importer_step list" where
  "groups_profiles_steps cl =
     map (category_step cl)
       [server_groups_config, channel_groups_config, channel_profiles_config, stream_profiles_config]"

section \<open>An unconfirmed run writes nothing\<close>

lemma shared_simps [simp]:
  "shared (on_shared f run) = f (shared run)" "files (on_shared f run) = files run"
  "shared (note_run n run) = on_report (add_note n) (shared run)" "files (note_run n run) = files run"
  "shared (persist_run run) = shared run"
  by (simp_all add: on_shared_def note_run_def persist_run_def)

lemma run_rollback_state_note [simp]: "run_rollback_state (note_run n run) = run_rollback_state run"
  by (simp add: run_rollback_state_def)

text \<open>A view \<open>present\<close> of the destination that listing does not alter.\<close>

definition reads_only :: "'w client \<Rightarrow> ('w \<Rightarrow> entity_type \<Rightarrow> int \<Rightarrow> bool) \<Rightarrow> bool" where
  "reads_only cl present \<longleftrightarrow> (\<forall>ty w. present (snd (list_rows cl ty w)) = present w)"

definition quiet :: "('w \<Rightarrow> 'v) \<Rightarrow> 'w import_state \<Rightarrow> 'w import_state \<Rightarrow> bool" where
  "quiet present st st' \<longleftrightarrow> present (world st') = present (world st) \<and> ledger st' = ledger st \<and>
     is_dry_run (report st') = is_dry_run (report st) \<and> outcome (report st') = outcome (report st)"

lemma dry_import_category_quiet:
  assumes "reads_only cl present"
  shows "quiet present st (fst (import_category cl cfg rows selected True st))"
  using assms preview_bookkeeping [of st cl cfg rows selected]
  by (auto simp: quiet_def bookkeeping_def reads_only_def)

text \<open>A whole run under the same view, with the ledger files.\<close>

definition quiet_run :: "('w \<Rightarrow> 'v) \<Rightarrow> 'w restore_run \<Rightarrow> 'w restore_run \<Rightarrow> bool" where
  "quiet_run present run run' \<longleftrightarrow> quiet present (shared run) (shared run') \<and> files run' = files run"

lemma quiet_run_refl [simp]: "quiet_run present run run"
  by (simp add: quiet_run_def quiet_def)

lemma quiet_run_simps [simp]:
  "quiet_run present run (note_run n run') = quiet_run present run run'"
  "quiet_run present run (on_shared (on_cat ty f) run') = quiet_run present run run'"
  "quiet_run present run (run'\<lparr>deferred := ds\<rparr>) = quiet_run present run run'"
  by (simp_all add: quiet_run_def quiet_def note_run_def on_shared_def add_note_def)

lemma apply_steps_invariant:
  assumes "I run"
    and step: "\<And>step imp run. step \<in> set steps \<Longrightarrow> importer step = Some imp \<Longrightarrow> I run \<Longrightarrow> I (fst (imp p run))"
    and upd: "\<And>run. I run \<Longrightarrow> I (persist_run run)" "\<And>run ds. I run \<Longrightarrow> I (run\<lparr>deferred := ds\<rparr>)"
      "\<And>run ty. I run \<Longrightarrow> I (on_shared (on_cat ty id) run)" "\<And>run n. I run \<Longrightarrow> I (note_run n run)"
  shows "I (fst (apply_steps p nf steps run))"
  using assms(1) step
proof (induction steps arbitrary: run)
  case (Cons step steps)
  have rest: "I (fst (apply_steps p nf steps run))" if "I run" for run
    by (rule Cons.IH [OF that]) (use Cons.prems(2) in auto)
  show ?case
  proof (cases "importer step")
    case None
    then show ?thesis using rest Cons.prems(1) by simp
  next
    case (Some imp)
    obtain run1 r where imp: "imp p run = (run1, r)" by fastforce
    have "I run1" using Cons.prems(2) [OF _ Some Cons.prems(1)] imp by simp
    then show ?thesis using Some imp by (cases r) (auto simp: Let_def intro!: upd rest)
  qed
qed simp

lemma category_step_invariant:
  assumes "step = category_step cl cfg" "importer step = Some imp"
  shows "fst (imp p run) = run\<lparr>shared := fst (import_category cl cfg (plan_entities p (cfg_type cfg))
           (plan_selected p (cfg_type cfg)) (run_dry run) (shared run))\<rparr>"
  using assms by (auto simp: category_step_def Let_def split: prod.splits)

lemma groups_profiles_steps_cases:
  assumes "step \<in> set (groups_profiles_steps cl)"
  obtains cfg where "step = category_step cl cfg"
    "cfg \<in> {server_groups_config, channel_groups_config, channel_profiles_config, stream_profiles_config}"
  using assms by (auto simp: groups_profiles_steps_def)

lemma dry_apply_steps_quiet:
  assumes "run_dry run0" "quiet_run present run0 run" "reads_only cl present"
  shows "quiet_run present run0 (fst (apply_steps p nf (groups_profiles_steps cl) run))"
proof (rule apply_steps_invariant)
  have dry: "run_dry run" if "quiet_run present run0 run" for run
    using that assms(1) by (simp add: quiet_run_def quiet_def run_dry_def)
  show "quiet_run present run0 (persist_run run)" if "quiet_run present run0 run" for run
    using that dry [OF that] by (simp add: persist_run_def)
  show "quiet_run present run0 (fst (imp p run))"
    if "step \<in> set (groups_profiles_steps cl)" "importer step = Some imp" "quiet_run present run0 run"
    for step imp run
  proof -
    from groups_profiles_steps_cases [OF that(1)] obtain cfg where "step = category_step cl cfg" by blast
    from category_step_invariant [OF this that(2)] show ?thesis
      using that(3) dry [OF that(3)] dry_import_category_quiet [OF assms(3)]
      by (simp add: quiet_run_def quiet_def)
  qed
qed (use assms(2) in simp_all)

lemma mark_stream_health_unpredicted_simps [simp]:
  "is_dry_run (mark_stream_health_unpredicted r) = is_dry_run r"
  "outcome (mark_stream_health_unpredicted r) = outcome r"
  by (simp_all add: mark_stream_health_unpredicted_def Let_def)

lemma dry_apply_plan_quiet:
  assumes "run_dry run" "outcome (report (shared run)) = None" "reads_only (destination sv) present"
    and "apply_plan sv p (groups_profiles_steps (destination sv)) fuzzy nf run = (run', err)"
  shows "quiet_run present run run'"
proof -
  obtain run2 stopped where run2:
      "apply_steps p nf (groups_profiles_steps (destination sv)) (scope_run p run) = (run2, stopped)"
    by fastforce
  have "quiet_run present run (scope_run p run)" by (simp add: scope_run_def quiet_run_def quiet_def on_shared_def)
  from dry_apply_steps_quiet [OF assms(1) this assms(3)] run2 have q: "quiet_run present run run2"
    by (metis fst_conv)
  then have dry: "run_dry run2" "is_dry_run (report (shared run2))"
    using assms(1) by (simp_all add: quiet_run_def quiet_def run_dry_def)
  have "run' = set_outcome None (on_shared (on_report mark_stream_health_unpredicted) run2)"
    using assms(4) dry run2
    by (simp add: apply_plan_def finish_apply_def finish_restore_def Let_def on_shared_def)
  then show ?thesis using q assms(2)
    by (simp add: quiet_run_def quiet_def set_outcome_def on_shared_def)
qed

text \<open>
  C10. An unconfirmed restore writes nothing. Without \<open>confirm_apply\<close> a run of the group and profile
  importers ends as a preview without an outcome, has created and deleted nothing on the destination,
  has recorded nothing in the ledger and has not touched a ledger file, whatever the plan, the
  destination's answers and the exceptions, and whatever the report said of being a preview.
\<close>

theorem unconfirmed_restore_writes_nothing:
  assumes "reads_only (destination sv) present" "outcome (report (shared run)) = None"
    and "run_restore sv p (groups_profiles_steps (destination sv)) False m fuzzy nf run = (run', err)"
  shows "present (world (shared run')) = present (world (shared run)) \<and>
    ledger (shared run') = ledger (shared run) \<and> files run' = files run \<and>
    run_dry run' \<and> outcome (report (shared run')) = None"
proof -
  define run0 where "run0 = confirm_guard False run"
  have dry0: "run_dry run0"
    by (simp add: run0_def confirm_guard_def note_run_def on_shared_def run_dry_def add_note_def)
  have start: "present (world (shared run0)) = present (world (shared run))"
      "ledger (shared run0) = ledger (shared run)" "files run0 = files run"
      "outcome (report (shared run0)) = None"
    using assms(2) by (simp_all add: run0_def confirm_guard_def note_run_def on_shared_def add_note_def)
  have refused: "quiet_run present run0 (set_outcome None (fold (note_run \<circ> PreflightRefused) ps run0))" for ps
  proof -
    have "quiet_run present run0 (fold (note_run \<circ> PreflightRefused) ps run1) = quiet_run present run0 run1"
      for run1 by (induction ps arbitrary: run1) simp_all
    from this [of run0] show ?thesis
      using start(4) by (simp add: quiet_run_def quiet_def set_outcome_def on_shared_def)
  qed
  have "quiet_run present run0 run'"
    using assms(3) refused dry_apply_plan_quiet [OF dry0 start(4) assms(1)]
    by (auto simp: run_restore_def run0_def [symmetric] Let_def split: sum.splits if_splits)
  then show ?thesis using start dry0 by (simp add: quiet_run_def quiet_def run_dry_def)
qed

section \<open>What success means\<close>

lemma finish_restore_success:
  assumes "outcome (report (shared (finish_restore f rb run))) = Some SUCCESS"
  shows "\<not> f \<and> \<not> run_dry run \<and> destination_unreadable (report (shared run)) = None \<and>
    (\<forall>c \<in> set (categories (report (shared run))). failed c \<le> 0) \<and> delivery_shortfalls (report (shared run)) = [] \<and>
    finish_restore f rb run =
      (set_outcome (Some SUCCESS) run)\<lparr>files := delete_ledger (restore_id (ledger (shared run))) (files run)\<rparr>"
proof -
  have oc: "\<not> run_dry run \<and> compute_outcome (report (shared run)) f rb = SUCCESS"
    using assms by (auto simp: finish_restore_def run_dry_def set_outcome_def Let_def split: if_splits)
  then have "\<not> f \<and> destination_unreadable (report (shared run)) = None \<and>
      \<not> report_has_failures (report (shared run)) \<and> \<not> report_has_delivery_shortfall (report (shared run))"
    by (auto simp: compute_outcome_def outcome_for_unread_destination_def run_dry_def split: if_splits)
  with oc show ?thesis
    by (auto simp: report_has_failures_def report_has_delivery_shortfall_def run_dry_def list_ex_iff
        finish_restore_def set_outcome_def Let_def)
qed

text \<open>
  C14. Success is never mixed. When a restore reports \<open>SUCCESS\<close>, whatever its steps are and do, it
  was not a preview, pre-flight passed, no step stopped the apply, no category of the report counts a
  failure, the destination was read, no delivery shortfall is recorded, and the ledger file is gone.
\<close>

theorem success_is_never_mixed:
  assumes "run_restore sv p steps confirm m fuzzy nf run = (run', None)"
    and "outcome (report (shared run')) = Some SUCCESS"
  shows "\<not> run_dry run' \<and>
    run_preflight (case_option DEFAULT_MAX_ENTITIES_PER_CATEGORY id m) p = Inr [] \<and>
    snd (apply_steps p (case_option NON_FATAL_FAILURE_CATEGORIES id nf) steps
           (scope_run p (confirm_guard confirm run))) = None \<and>
    (\<forall>c \<in> set (categories (report (shared run'))). failed c \<le> 0) \<and>
    delivery_shortfalls (report (shared run')) = [] \<and> destination_unreadable (report (shared run')) = None \<and>
    files run' (restore_id (ledger (shared run'))) = None"
proof -
  let ?nf = "case_option NON_FATAL_FAILURE_CATEGORIES id nf"
  obtain run2 stopped where run2:
      "apply_steps p ?nf steps (scope_run p (confirm_guard confirm run)) = (run2, stopped)" by fastforce
  have "run_preflight (case_option DEFAULT_MAX_ENTITIES_PER_CATEGORY id m) p = Inr []"
    and plan: "apply_plan sv p steps fuzzy ?nf (confirm_guard confirm run) = (run', None)"
    using assms by (auto simp: run_restore_def set_outcome_def Let_def split: sum.splits if_splits)
  moreover from plan obtain run3 rollback where run': "run' = finish_restore (stopped \<noteq> None) rollback run3"
    using run2 by (auto simp: apply_plan_def split: prod.splits option.splits)
  moreover have "delivery_shortfalls (report (shared (set_outcome oc run3))) = delivery_shortfalls (report (shared run3))" for oc
    by (simp add: set_outcome_def delivery_shortfalls_def shortfall_counts_def)
  ultimately show ?thesis
    using finish_restore_success [OF assms(2) [unfolded run']] run2
    by (auto simp: set_outcome_def run_dry_def delete_ledger_def)
qed

section \<open>Sample runs\<close>

definition table_present :: "table \<Rightarrow> entity_type \<Rightarrow> int \<Rightarrow> bool" where
  "table_present w ty n \<longleftrightarrow> n \<in> fst ` set (w ty)"

lemma table_reads_only: "reads_only (table_client refuses) table_present"
  by (simp add: reads_only_def table_client_def)

definition sample_services :: "table services" where
  "sample_services =
     \<lparr>destination = table_client (\<lambda>name. name = PStr ''Bad''), deferred_apply = (\<lambda>ds st. (st, Some 0)),
      rebind_placeholder_streams = (\<lambda>channels fuzzy st. (st, Some ()))\<rparr>"

definition sample_restore :: "table restore_run" where
  "sample_restore = \<lparr>shared = table_state sample_table, files = Map.empty, deferred = []\<rparr>"

definition restored :: "import_plan \<Rightarrow> bool \<Rightarrow> table restore_run \<times> py_error option" where
  "restored p confirm =
     run_restore sample_services p (groups_profiles_steps (destination sample_services)) confirm None True None sample_restore"

definition clean_plan :: import_plan where
  "clean_plan =
     \<lparr>manifest = PDict [(''schema_version'', PInt 1)],
      plan_categories = [\<lparr>pc_entity_type = CHANNEL_GROUP, entities = sample_channel_groups, pc_selected = True\<rparr>],
      existing_remap = empty_remap\<rparr>"

lemma clean_plan_run:
  "snd (restored clean_plan True) = None"
  "outcome (report (shared (fst (restored clean_plan True)))) = Some SUCCESS"
  "world (shared (fst (restored clean_plan True))) CHANNEL_GROUP = [(1, PStr ''News''), (2, PStr ''Sport'')]"
  by code_simp+

theorem success_is_never_mixed_witness:
  "outcome (report (shared (fst (restored clean_plan True)))) = Some SUCCESS \<and>
   delivery_shortfalls (report (shared (fst (restored clean_plan True)))) = [] \<and>
   files (fst (restored clean_plan True)) (restore_id (ledger (shared (fst (restored clean_plan True))))) = None"
proof -
  have "restored clean_plan True = (fst (restored clean_plan True), None)"
    using clean_plan_run(1) by (metis prod.collapse)
  from success_is_never_mixed [OF this [unfolded restored_def]] clean_plan_run(2) show ?thesis
    by (simp add: restored_def)
qed

theorem unconfirmed_restore_writes_nothing_witness:
  "table_present (world (shared (fst (restored clean_plan False)))) = table_present sample_table \<and>
   would_create (category (report (shared (fst (restored clean_plan False)))) CHANNEL_GROUP) = 1 \<and>
   outcome (report (shared (fst (restored clean_plan False)))) = None"
proof -
  have reads: "reads_only (destination sample_services) table_present"
    by (simp add: sample_services_def table_reads_only)
  have start: "outcome (report (shared sample_restore)) = None" "world (shared sample_restore) = sample_table"
    by (simp_all add: sample_restore_def table_state_def new_report_def)
  have "would_create (category (report (shared (fst (restored clean_plan False)))) CHANNEL_GROUP) = 1"
    by code_simp
  moreover have "restored clean_plan False = (fst (restored clean_plan False), snd (restored clean_plan False))"
    by simp
  ultimately show ?thesis
    using unconfirmed_restore_writes_nothing [OF reads start(1), of clean_plan None True None] start(2)
    by (simp add: restored_def prod_eq_iff)
qed

end
