(* ===== verification/RestoreRollback.thy ===== *)
theory RestoreRollback
  imports RestoreRun
begin

text \<open>
  What the rollback of a restore guarantees: a rollback that reports no residue removes every row the
  ledger lists, the group and profile importers list every row they create, and so a run that ends as
  rolled back leaves the destination as it found it. A rollback that stops or is interrupted is taken up
  again from the ledger file with exactly the entries that are left.
\<close>

section \<open>What a rollback removes\<close>

text \<open>
  A destination that keeps its books: listing changes nothing, a create answers with the integer id of
  a row that was not there and adds just that row, a refused create adds nothing, a delete removes just
  the row it names, a failed delete removes nothing, and 404 is answered only where the row is gone.
\<close>

definition honest_destination :: "'w client \<Rightarrow> ('w \<Rightarrow> entity_type \<Rightarrow> int \<Rightarrow> bool) \<Rightarrow> bool" where
  "honest_destination cl present \<longleftrightarrow>
     reads_only cl present \<and>
     (\<forall>ty v w e w'. create_row cl ty v w = (Inl e, w') \<longrightarrow> present w' = present w) \<and>
     (\<forall>ty v w reply w'. create_row cl ty v w = (Inr reply, w') \<longrightarrow>
        (\<exists>d n. reply = PDict d \<and> dict_get d ''id'' = PInt n \<and> \<not> present w ty n \<and>
           present w' = (present w)(ty := (present w ty)(n := True)))) \<and>
     (\<forall>ty n w w'. delete_row cl ty n w = (None, w') \<longrightarrow>
        present w' = (present w)(ty := (present w ty)(n := False))) \<and>
     (\<forall>ty n w e w'. delete_row cl ty n w = (Some e, w') \<longrightarrow>
        present w' = present w \<and> (is_already_gone e = Inr True \<longrightarrow> \<not> present w ty n))"

text \<open>The rows an entry list stands for, and a ledger up to its marks.\<close>

definition rows_of :: "ledger_entry list \<Rightarrow> entity_type \<Rightarrow> int \<Rightarrow> bool" where
  "rows_of es ty n \<longleftrightarrow> (\<exists>e \<in> set es. entry_type e = ty \<and> destination_id e = n)"

definition entry_row :: "ledger_entry \<Rightarrow> entity_type \<times> int" where
  "entry_row e = (entry_type e, destination_id e)"

lemma list_update_id': "i < length xs \<Longrightarrow> f (xs ! i) = y \<Longrightarrow> (map f xs)[i := y] = map f xs"
  by (metis list_update_id map_update)

lemma mark_compensated_rows [simp]:
  "map entry_row (entries (mark_compensated i l)) = map entry_row (entries l)"
  by (cases "i < length (entries l)")
     (auto simp: mark_compensated_def entry_row_def map_update not_less list_update_beyond intro: list_update_id')

lemma compensate_entry_step:
  assumes "compensate_entry cl i st = (st', err)"
  shows "map entry_row (entries (rb_ledger st')) = map entry_row (entries (rb_ledger st)) \<and>
    (\<exists>zs. rb_residue st' = rb_residue st @ zs)"
  using assms
  by (auto simp: compensate_entry_def Let_def entry_undone_def entry_left_def
      split: if_splits prod.splits option.splits sum.splits bool.splits)

lemma compensate_entry_removes:
  assumes "honest_destination cl present" "compensate_entry cl i st = (st', None)"
    and "rb_residue st' = rb_residue st" "(ty, n) = entry_row (entries (rb_ledger st) ! i)"
  shows "present (rb_world st') = (present (rb_world st))(ty := (present (rb_world st) ty)(n := False))"
proof -
  obtain reply w where d: "delete_row cl ty n (rb_world st) = (reply, w)" by fastforce
  have comp: "has_compensator ty"
    using assms(2-4) by (auto simp: compensate_entry_def entry_left_def entry_row_def Let_def split: if_splits)
  show ?thesis
  proof (cases reply)
    case None
    then have "rb_world st' = w"
      using assms(2,4) d comp by (auto simp: compensate_entry_def entry_row_def entry_undone_def Let_def)
    then show ?thesis using assms(1) d None by (simp add: honest_destination_def)
  next
    case (Some e)
    have "is_already_gone e = Inr True \<and> rb_world st' = w"
      using assms(2-4) d comp Some
      by (auto simp: compensate_entry_def entry_row_def entry_undone_def entry_left_def Let_def
          split: sum.splits bool.splits)
    moreover have "present w = present (rb_world st) \<and> (is_already_gone e = Inr True \<longrightarrow> \<not> present (rb_world st) ty n)"
      using assms(1) d Some by (auto simp: honest_destination_def)
    ultimately show ?thesis by (auto simp: fun_eq_iff)
  qed
qed

text \<open>A rollback keeps the rows of its ledger and only adds to its residue.\<close>

definition rollback_keeps :: "'w rollback_state \<Rightarrow> 'w rollback_state \<Rightarrow> bool" where
  "rollback_keeps st st' \<longleftrightarrow>
     map entry_row (entries (rb_ledger st')) = map entry_row (entries (rb_ledger st)) \<and>
     (\<exists>zs. rb_residue st' = rb_residue st @ zs)"

interpretation rollback: row_pass "compensate_entry cl" rollback_keeps for cl
proof
  show "rollback_keeps st (fst (compensate_entry cl i st))" for st :: "'a rollback_state" and i
    using compensate_entry_step [of cl i st] by (cases "compensate_entry cl i st") (simp add: rollback_keeps_def)
qed (auto simp: rollback_keeps_def)

lemma complete_rollback_removes:
  assumes "honest_destination cl present" "each_row (compensate_entry cl) is st = (st', None)"
    and "rb_residue st' = rb_residue st" "\<forall>i \<in> set is. i < length (entries (rb_ledger st))"
  shows "present (rb_world st') = (\<lambda>ty n. present (rb_world st) ty n \<and>
    (ty, n) \<notin> (\<lambda>i. map entry_row (entries (rb_ledger st)) ! i) ` set is)"
  using assms(2-4)
proof (induction "is" arbitrary: st)
  case Nil
  then show ?case by simp
next
  case (Cons i "is")
  obtain st1 where st1: "compensate_entry cl i st = (st1, None)"
      and rest: "each_row (compensate_entry cl) is st1 = (st', None)"
    using Cons.prems(1) by (auto split: prod.splits option.splits)
  obtain zs ys where zs: "rb_residue st1 = rb_residue st @ zs" "rb_residue st' = rb_residue st1 @ ys"
    using rollback.step_keeps [of st cl i] rollback.pass_keeps [of st1 cl "is"] st1 rest
    by (auto simp: rollback_keeps_def)
  then have same: "rb_residue st1 = rb_residue st" "rb_residue st' = rb_residue st1"
    using Cons.prems(2) by auto
  have rows: "map entry_row (entries (rb_ledger st1)) = map entry_row (entries (rb_ledger st))"
    using compensate_entry_step [OF st1] by blast
  then have len: "length (entries (rb_ledger st1)) = length (entries (rb_ledger st))"
    by (metis length_map)
  obtain ty n where tn: "(ty, n) = entry_row (entries (rb_ledger st) ! i)" by (metis surj_pair)
  from Cons.IH [OF rest same(2)] Cons.prems(3) len rows
  have "present (rb_world st') = (\<lambda>ty n. present (rb_world st1) ty n \<and>
    (ty, n) \<notin> (\<lambda>i. map entry_row (entries (rb_ledger st)) ! i) ` set is)" by simp
  with compensate_entry_removes [OF assms(1) st1 same(1) tn] tn Cons.prems(3) show ?case
    by (auto simp: fun_eq_iff) (metis prod.inject)+
qed

section \<open>The ledger accounts for what the importers create\<close>

text \<open>
  The destination holds what it held at the start and what the ledger lists, nothing twice, and
  nothing in the ledger is undone yet.
\<close>

definition booked ::
  "('w \<Rightarrow> entity_type \<Rightarrow> int \<Rightarrow> bool) \<Rightarrow> (entity_type \<Rightarrow> int \<Rightarrow> bool) \<Rightarrow> 'w import_state \<Rightarrow> bool" where
  "booked present before st \<longleftrightarrow>
     (\<forall>ty n. present (world st) ty n \<longleftrightarrow> before ty n \<or> (ty, n) \<in> entry_row ` set (entries (ledger st))) \<and>
     (\<forall>ty n. (ty, n) \<in> entry_row ` set (entries (ledger st)) \<longrightarrow> \<not> before ty n) \<and>
     (\<forall>e \<in> set (entries (ledger st)). \<not> compensated e)"

lemma booked_bookkeeping: "booked present before st \<Longrightarrow> bookkeeping st st' \<Longrightarrow> booked present before st'"
  by (simp add: booked_def bookkeeping_def)

lemma booked_on_cat [simp]: "booked present before (on_cat ty f st) = booked present before st"
  by (simp add: booked_def)

lemma booked_on_report: "booked present before (on_report f st) = booked present before st"
  by (simp add: booked_def)

lemma booked_world: "booked present before st \<Longrightarrow> present w = present (world st) \<Longrightarrow> booked present before (st\<lparr>world := w\<rparr>)"
  by (simp add: booked_def)

lemma adopt_id_readable:
  "readable_id source \<Longrightarrow> \<exists>t. adopt_id ty source (PInt d) st = (st\<lparr>remap := t\<rparr>, None)"
  by (auto simp: adopt_id_def readable_id_def intro: exI [of _ "remap st"])

lemma created_booked:
  assumes "honest_destination cl present" "booked present before st"
    and "create_row cl ty v (world st) = (Inr reply, w)"
  obtains d n where "reply = PDict d" "dict_get d ''id'' = PInt n"
    "\<forall>st' lbl. world st' = w \<longrightarrow> ledger st' = record_created ty n lbl (ledger st) \<longrightarrow> booked present before st'"
proof -
  obtain d n where reply: "reply = PDict d" "dict_get d ''id'' = PInt n" "\<not> present (world st) ty n"
      "present w = (present (world st))(ty := (present (world st) ty)(n := True))"
    using assms(1,3) unfolding honest_destination_def by blast
  have "booked present before st'" if "world st' = w" "ledger st' = record_created ty n lbl (ledger st)" for st' lbl
    using assms(2) reply(3,4) that by (auto simp: booked_def record_created_def entry_row_def)
  with reply that show ?thesis by blast
qed

lemma created_row_booked:
  assumes "honest_destination cl present" "booked present before st" "readable_id source"
    and "create_row cl ty v (world st) = (Inr reply, w)"
  shows "booked present before (fst (created_row ty lbl source reply (st\<lparr>world := w\<rparr>)))"
proof -
  obtain d n where reply: "reply = PDict d" "dict_get d ''id'' = PInt n"
      "\<forall>st' lbl. world st' = w \<longrightarrow> ledger st' = record_created ty n lbl (ledger st) \<longrightarrow> booked present before st'"
    using created_booked [OF assms(1,2,4)] by metis
  define st1 where "st1 = on_cat ty (\<lambda>c. c\<lparr>created := created c + 1\<rparr>) (st\<lparr>world := w\<rparr>)"
  obtain t where t: "adopt_id ty source (PInt n) st1 = (st1\<lparr>remap := t\<rparr>, None)"
    using adopt_id_readable [OF assms(3)] by blast
  have eq: "fst (created_row ty lbl source reply (st\<lparr>world := w\<rparr>)) =
      st1\<lparr>remap := t, ledger := record_created ty n lbl (ledger st1)\<rparr>"
    using reply(1,2) t by (simp add: created_row_def Let_def st1_def)
  show ?thesis unfolding eq by (rule reply(3) [rule_format, of _ lbl]) (simp_all add: st1_def)
qed

lemma refused_row_booked:
  assumes "honest_destination cl present" "booked present before (snd s)"
  shows "booked present before (snd (fst (refused_row cl cfg archive payload e s)))"
proof -
  obtain listed w where l: "list_rows cl (cfg_type cfg) (world (snd s)) = (listed, w)" by fastforce
  have "present w = present (world (snd s))"
    using assms(1) l by (simp add: honest_destination_def reads_only_def) (metis snd_conv)
  from booked_world [OF assms(2) this] have b: "booked present before ((snd s)\<lparr>world := w\<rparr>)" .
  have "booked present before (fst (fail_row cl ty e lbl source st))" if "booked present before st" for ty lbl source st
    using that fail_row_bookkeeping by (rule booked_bookkeeping)
  moreover have "booked present before (fst (adopt_row cl cfg dry archive existing st))" if "booked present before st"
    for dry existing st
    using that adopt_row_bookkeeping by (rule booked_bookkeeping)
  ultimately show ?thesis using assms(2) b l
    by (auto simp: refused_row_def Let_def split: sum.splits list.splits)
qed

lemma import_row_booked:
  assumes "honest_destination cl present" "booked present before st"
    and "readable_id (dict_get archive ''id'')"
  shows "booked present before (snd (fst (import_row cl cfg dry archive (ix, st))))"
proof (cases dry)
  case True
  then show ?thesis
    using booked_bookkeeping [OF assms(2)] dry_import_row_bookkeeping [of "(ix, st)"] by simp
next
  case False
  have "booked present before (fst (adopt_row cl cfg False archive existing st))" for existing
    using assms(2) adopt_row_bookkeeping by (rule booked_bookkeeping)
  moreover have "booked present before (fst (unresolved_row cl ty dep lbl source False st))" for ty dep lbl source
    using assms(2) unresolved_row_bookkeeping by (rule booked_bookkeeping)
  moreover have "booked present before (st\<lparr>world := w\<rparr>)" if "create_row cl ty v (world st) = (Inl e, w)" for ty v e w
    using assms(1) that by (intro booked_world [OF assms(2)]) (auto simp: honest_destination_def)
  moreover note created_row_booked [OF assms(1,2,3)] refused_row_booked [OF assms(1)]
  ultimately show ?thesis using False assms(2)
    by (auto simp: import_row_def Let_def split: option.splits sum.splits prod.splits)
qed

lemma import_category_booked:
  assumes "honest_destination cl present" "booked present before st"
    and "\<forall>r \<in> set rows. readable_id (dict_get r ''id'')"
  shows "booked present before (fst (import_category cl cfg rows selected dry st))"
proof (rule import_category_invariant)
  show "booked present before (st'\<lparr>world := snd (list_rows cl ty (world st'))\<rparr>)" if "booked present before st'" for st' ty
    using assms(1) by (intro booked_world [OF that]) (simp add: honest_destination_def reads_only_def)
qed (use assms in \<open>auto intro: booked_bookkeeping [OF _ skip_row_bookkeeping] import_row_booked\<close>)

lemma plan_entities_readable: "readable_plan p \<Longrightarrow> \<forall>r \<in> set (plan_entities p ty). readable_id (dict_get r ''id'')"
  by (cases "plan_category_of p ty") (auto simp: plan_entities_def readable_plan_def dest!: plan_category_of_in)

lemma apply_steps_booked:
  assumes "honest_destination cl present" "booked present before (shared run)" "readable_plan p"
  shows "booked present before (shared (fst (apply_steps p nf (groups_profiles_steps cl) run)))"
proof (rule apply_steps_invariant [where I = "\<lambda>run. booked present before (shared run)"])
  show "booked present before (shared (fst (imp p run)))"
    if "step \<in> set (groups_profiles_steps cl)" "importer step = Some imp" "booked present before (shared run)"
    for step imp run
  proof -
    from groups_profiles_steps_cases [OF that(1)] obtain cfg where "step = category_step cl cfg" by blast
    from category_step_invariant [OF this that(2)] show ?thesis
      using import_category_booked [OF assms(1) that(3) plan_entities_readable [OF assms(3)]] by simp
  qed
qed (simp_all add: assms(2) booked_on_report)

lemma complete_rollback_restores:
  assumes "honest_destination cl present" "booked present before (shared run)"
    and "run_rollback cl (run_rollback_state run) = (rb, None)" "rollback_complete rb"
  shows "present (rb_world rb) = before"
proof -
  define st where "st = run_rollback_state run"
  let ?l = "ledger (shared run)"
  have l: "rb_ledger st = ?l" "rb_world st = world (shared run)" "rb_residue st = []"
      "st\<lparr>rb_compensated := [], rb_residue := []\<rparr> = st"
    by (simp_all add: st_def run_rollback_state_def)
  have all: "set (compensation_order ?l) = {i. i < length (entries ?l)}"
    using assms(2) by (auto simp: set_compensation_order booked_def)
  have rows: "(\<lambda>i. entry_row (entries ?l ! i)) ` {i. i < length (entries ?l)} = entry_row ` set (entries ?l)"
    by (auto simp: set_conv_nth)
  have "present (rb_world rb) = (\<lambda>ty n. present (world (shared run)) ty n \<and>
      (ty, n) \<notin> entry_row ` set (entries ?l))"
    using complete_rollback_removes [OF assms(1), of "compensation_order ?l" st rb] assms(3,4) all l
    unfolding st_def [symmetric] by (simp add: run_rollback_def rollback_complete_def rows)
  then show ?thesis using assms(2) by (auto simp: booked_def fun_eq_iff)
qed

lemma rolled_back_only_when_complete:
  "compute_outcome r stopped rollback = PARTIAL_FAILED_ROLLED_BACK \<Longrightarrow> stopped \<and> rollback = Some True"
  by (auto simp: compute_outcome_def outcome_for_unread_destination_def split: if_splits option.splits)

lemma finish_restore_shared [simp]:
  "world (shared (finish_restore f rb run)) = world (shared run)"
  by (simp add: finish_restore_def set_outcome_def on_shared_def Let_def)

lemma finish_restore_outcome:
  "outcome (report (shared (finish_restore f rb run))) =
     (if run_dry run then None else Some (compute_outcome (report (shared run)) f rb))"
  by (simp add: finish_restore_def set_outcome_def on_shared_def run_dry_def Let_def)

lemma rollback_phase_world:
  assumes "rollback_phase cl at_step run = ((run1, True), None)"
  obtains rb where "run_rollback cl (run_rollback_state run) = (rb, None)" "rollback_complete rb"
    "world (shared run1) = rb_world rb"
proof -
  obtain rb e where rb: "run_rollback cl (run_rollback_state run) = (rb, e)" by fastforce
  with assms have "e = None" "rollback_complete rb" "world (shared run1) = rb_world rb"
    by (auto simp: rollback_phase_def take_rollback_def Let_def split: option.splits)
  with rb that show ?thesis by simp
qed

text \<open>
  C7. A restore that reports a complete rollback has left nothing behind. When a run of the group and
  profile importers against a destination that keeps its books ends as
  \<open>PARTIAL_FAILED_ROLLED_BACK\<close>, the destination holds exactly the rows it held before, for every
  plan whose archived ids can be read as integers, whichever step failed and whatever the destination
  answered on the way.
\<close>

theorem rolled_back_restore_leaves_nothing:
  assumes "honest_destination (destination sv) present" "readable_plan p"
    and "entries (ledger (shared run)) = []"
    and "run_restore sv p (groups_profiles_steps (destination sv)) confirm m fuzzy nf run = (run', None)"
    and "outcome (report (shared run')) = Some PARTIAL_FAILED_ROLLED_BACK"
  shows "present (world (shared run')) = present (world (shared run))"
proof -
  let ?nf = "case_option NON_FATAL_FAILURE_CATEGORIES id nf"
  let ?steps = "groups_profiles_steps (destination sv)"
  define run1 where "run1 = scope_run p (confirm_guard confirm run)"
  obtain run2 stopped where run2: "apply_steps p ?nf ?steps run1 = (run2, stopped)" by fastforce
  have "booked present (present (world (shared run))) (shared run1)"
    using assms(3) by (simp add: run1_def scope_run_def confirm_guard_def booked_def)
  from apply_steps_booked [OF assms(1) this assms(2)] run2
  have booked: "booked present (present (world (shared run))) (shared run2)" by (metis fst_conv)
  have plan: "apply_plan sv p ?steps fuzzy ?nf (confirm_guard confirm run) = (run', None)"
    using assms(4,5) by (auto simp: run_restore_def set_outcome_def Let_def split: sum.splits if_splits)
  then obtain run3 rollback where fin: "finish_apply sv p fuzzy stopped run2 = ((run3, rollback), None)"
      and run': "run' = finish_restore (stopped \<noteq> None) rollback run3"
    using run2 by (auto simp: apply_plan_def run1_def split: prod.splits option.splits)
  have "stopped \<noteq> None \<and> rollback = Some True"
    using assms(5) unfolding run' finish_restore_outcome
    by (intro rolled_back_only_when_complete) (auto split: if_splits)
  with fin have "rollback_phase (destination sv) (the stopped) run2 = ((run3, True), None)"
    by (cases "rollback_phase (destination sv) (the stopped) run2") (auto simp: finish_apply_def split: if_splits)
  then show ?thesis
    using complete_rollback_restores [OF assms(1) booked] unfolding run' by (auto elim!: rollback_phase_world)
qed

section \<open>An interrupted rollback\<close>

lemma compensate_entry_cases:
  assumes "compensate_entry cl i st = (st', None)"
  obtains (undone) w where "st' = entry_undone i (st\<lparr>rb_world := w\<rparr>)"
    | (left) w where "st' = entry_left i (st\<lparr>rb_world := w\<rparr>)"
proof -
  have "(\<exists>w. st' = entry_undone i (st\<lparr>rb_world := w\<rparr>)) \<or> (\<exists>w. st' = entry_left i (st\<lparr>rb_world := w\<rparr>))"
    using assms by (auto simp: compensate_entry_def Let_def intro: exI [of _ "rb_world st"]
        split: if_splits prod.splits option.splits sum.splits bool.splits)
  with undone left show thesis by blast
qed

text \<open>Each entry taken is undone and marked in the file, or left; \<open>cs\<close> are the ones undone.\<close>

lemma each_compensate_marks:
  assumes "each_row (compensate_entry cl) is st = (st', None)" "distinct is"
    and "rb_files st (restore_id (rb_ledger st)) = Some (rb_ledger st)"
  shows "\<exists>cs. rb_compensated st' = rb_compensated st @ cs \<and> set cs \<subseteq> set is \<and>
    rb_residue st' = rb_residue st @ filter (\<lambda>i. i \<notin> set cs) is \<and>
    rb_ledger st' = fold mark_compensated cs (rb_ledger st) \<and>
    rb_files st' (restore_id (rb_ledger st)) = Some (rb_ledger st')"
  using assms
proof (induction "is" arbitrary: st)
  case Nil
  then show ?case by simp
next
  case (Cons i "is")
  obtain st1 where st1: "compensate_entry cl i st = (st1, None)"
      and rest: "each_row (compensate_entry cl) is st1 = (st', None)"
    using Cons.prems(1) by (auto split: prod.splits option.splits)
  have rid: "restore_id (mark_compensated j l) = restore_id l" for j l
    by (simp add: mark_compensated_def)
  from st1 show ?case
  proof (cases rule: compensate_entry_cases)
    case (undone w)
    then have f: "rb_files st1 (restore_id (rb_ledger st1)) = Some (rb_ledger st1)"
        "rb_ledger st1 = mark_compensated i (rb_ledger st)"
        "rb_compensated st1 = rb_compensated st @ [i]" "rb_residue st1 = rb_residue st"
      by (simp_all add: entry_undone_def persist_ledger_def rid Let_def)
    from Cons.IH [OF rest _ f(1)] Cons.prems(2) obtain cs where cs:
      "rb_compensated st' = rb_compensated st1 @ cs" "set cs \<subseteq> set is"
      "rb_residue st' = rb_residue st1 @ filter (\<lambda>i. i \<notin> set cs) is"
      "rb_ledger st' = fold mark_compensated cs (rb_ledger st1)"
      "rb_files st' (restore_id (rb_ledger st1)) = Some (rb_ledger st')" by auto
    have "filter (\<lambda>j. j \<notin> set cs) is = filter (\<lambda>j. j \<noteq> i \<and> j \<notin> set cs) is"
      using Cons.prems(2) by (auto intro!: filter_cong)
    then show ?thesis using cs f rid by (intro exI [of _ "i # cs"]) auto
  next
    case (left w)
    then have f: "rb_files st1 (restore_id (rb_ledger st1)) = Some (rb_ledger st1)"
        "rb_ledger st1 = rb_ledger st" "rb_compensated st1 = rb_compensated st"
        "rb_residue st1 = rb_residue st @ [i]"
      using Cons.prems(3) by (simp_all add: entry_left_def)
    from Cons.IH [OF rest _ f(1)] Cons.prems(2) obtain cs where cs:
      "rb_compensated st' = rb_compensated st1 @ cs" "set cs \<subseteq> set is"
      "rb_residue st' = rb_residue st1 @ filter (\<lambda>i. i \<notin> set cs) is"
      "rb_ledger st' = fold mark_compensated cs (rb_ledger st1)"
      "rb_files st' (restore_id (rb_ledger st1)) = Some (rb_ledger st')" by auto
    then show ?thesis using f Cons.prems(2) by (intro exI [of _ cs]) auto
  qed
qed

lemma mark_compensated_nth [simp]:
  "length (entries (mark_compensated a l)) = length (entries l)"
  "i < length (entries l) \<Longrightarrow>
     compensated (entries (mark_compensated a l) ! i) = (compensated (entries l ! i) \<or> i = a)"
  by (cases "a = i"; simp add: mark_compensated_def)+

lemma fold_mark_compensated:
  "length (entries (fold mark_compensated cs l)) = length (entries l)"
  "i < length (entries l) \<Longrightarrow>
     compensated (entries (fold mark_compensated cs l) ! i) = (compensated (entries l ! i) \<or> i \<in> set cs)"
  by (induction cs arbitrary: l) auto

lemma numbered_fold_mark: "numbered_ledger l \<Longrightarrow> numbered_ledger (fold mark_compensated cs l)"
  by (induction cs arbitrary: l) (simp_all add: numbered_mark_compensated)

lemma compensation_order_fold_mark:
  assumes "numbered_ledger l"
  shows "compensation_order (fold mark_compensated cs l) = filter (\<lambda>i. i \<notin> set cs) (compensation_order l)"
proof -
  have "filter (\<lambda>i. \<not> compensated (entries (fold mark_compensated cs l) ! i)) [0..<length (entries l)]
      = filter (\<lambda>i. i \<notin> set cs) (filter (\<lambda>i. \<not> compensated (entries l ! i)) [0..<length (entries l)])"
    unfolding filter_filter by (intro filter_cong) (auto simp: fold_mark_compensated)
  then show ?thesis
    by (simp add: compensation_order_numbered [OF assms] compensation_order_numbered [OF numbered_fold_mark [OF assms]]
        fold_mark_compensated rev_filter [symmetric])
qed

text \<open>
  C13. An interrupted rollback is taken up where it stopped. Take a ledger that is on disk, and
  interrupt its rollback after any number of entries: the file then holds a ledger whose own rollback
  takes exactly the entries that have not been undone, newest first as before; an entry taken so
  far has either been undone or is listed as residue, and none is both. An uninterrupted rollback
  therefore leaves just its residue for the next one.
\<close>

theorem interrupted_rollback_resumes:
  assumes "numbered_ledger (rb_ledger st)"
    and "rb_files st (restore_id (rb_ledger st)) = Some (rb_ledger st)"
    and "each_row (compensate_entry cl) (take k (compensation_order (rb_ledger st)))
           (st\<lparr>rb_compensated := [], rb_residue := []\<rparr>) = (st', None)"
  shows "\<exists>l. rb_files st' (restore_id (rb_ledger st)) = Some l \<and>
    compensation_order l = rb_residue st' @ drop k (compensation_order (rb_ledger st)) \<and>
    set (take k (compensation_order (rb_ledger st))) = set (rb_compensated st') \<union> set (rb_residue st') \<and>
    set (rb_compensated st') \<inter> set (rb_residue st') = {} \<and>
    sorted_wrt (>) (compensation_order l)"
proof -
  let ?o = "compensation_order (rb_ledger st)"
  let ?st = "st\<lparr>rb_compensated := [], rb_residue := []\<rparr>"
  have dist: "distinct ?o" by (rule distinct_compensation_order)
  obtain cs where cs: "rb_compensated st' = cs" "set cs \<subseteq> set (take k ?o)"
      "rb_residue st' = filter (\<lambda>i. i \<notin> set cs) (take k ?o)"
      "rb_ledger st' = fold mark_compensated cs (rb_ledger st)"
      "rb_files st' (restore_id (rb_ledger st)) = Some (rb_ledger st')"
    using each_compensate_marks [OF assms(3)] dist assms(2) by (auto simp: distinct_take)
  have "set cs \<inter> set (drop k ?o) = {}"
    using cs(2) dist set_take_disj_set_drop_if_distinct [OF dist, of k k] by blast
  then have "filter (\<lambda>i. i \<notin> set cs) (drop k ?o) = drop k ?o" by (auto simp: filter_id_conv)
  then have "filter (\<lambda>i. i \<notin> set cs) ?o = rb_residue st' @ drop k ?o"
    using cs(3) filter_append [of "\<lambda>i. i \<notin> set cs" "take k ?o" "drop k ?o"] by simp
  then have order': "compensation_order (rb_ledger st') = rb_residue st' @ drop k ?o"
    using compensation_order_fold_mark [OF assms(1), of cs] cs(4) by simp
  have "sorted_wrt (>) (compensation_order (rb_ledger st'))"
    using numbered_fold_mark [OF assms(1), of cs] unfolding cs(4)
    by (simp add: compensation_order_numbered sorted_wrt_rev sorted_wrt_filter)
  then show ?thesis using cs order' by auto
qed

section \<open>The table destination keeps its books\<close>

lemma fresh_id_above: "r \<in> set rows \<Longrightarrow> fst r < fresh_id rows"
  by (induction rows) (auto simp: fresh_id_def)

lemma table_honest: "honest_destination (table_client refuses) table_present"
proof -
  have fresh: "fresh_id rows \<notin> fst ` set rows" for rows using fresh_id_above by fastforce
  have add: "table_present (w(ty := w ty @ [(n, v)])) = (table_present w)(ty := (table_present w ty)(n := True))"
    for w ty n v by (auto simp: table_present_def fun_eq_iff)
  have del: "table_present (w(ty := filter (\<lambda>r. fst r \<noteq> n) (w ty))) = (table_present w)(ty := (table_present w ty)(n := False))"
    for w ty n by (auto simp: table_present_def fun_eq_iff)
  show ?thesis unfolding honest_destination_def
  proof (intro conjI allI impI)
    fix ty v w reply w'
    assume "create_row (table_client refuses) ty v w = (Inr reply, w')"
    then have r: "reply = PDict (table_row (fresh_id (w ty), case v of PDict d \<Rightarrow> dict_get d ''name'' | _ \<Rightarrow> v))"
        "w' = w(ty := w ty @ [(fresh_id (w ty), case v of PDict d \<Rightarrow> dict_get d ''name'' | _ \<Rightarrow> v)])"
      by (auto simp: table_client_def Let_def split: if_splits)
    show "\<exists>d n. reply = PDict d \<and> dict_get d ''id'' = PInt n \<and> \<not> table_present w ty n \<and>
        table_present w' = (table_present w)(ty := (table_present w ty)(n := True))"
      using r fresh [of "w ty"] add by (auto simp: table_row_def dict_get_def table_present_def)
  next
    show "reads_only (table_client refuses) table_present" by (rule table_reads_only)
  qed (auto simp: del table_client_def Let_def table_present_def split: if_splits)
qed

definition failing_plan :: import_plan where
  "failing_plan =
     \<lparr>manifest = PDict [(''schema_version'', PInt 1)],
      plan_categories =
        [\<lparr>pc_entity_type = CHANNEL_GROUP, entities = sample_channel_groups, pc_selected = True\<rparr>,
         \<lparr>pc_entity_type = CHANNEL_PROFILE, entities = [[(''id'', PInt 3), (''name'', PStr ''Bad'')]],
          pc_selected = True\<rparr>],
      existing_remap = empty_remap\<rparr>"

lemma failing_plan_readable: "readable_plan failing_plan"
  by (auto simp: readable_plan_def failing_plan_def sample_channel_groups_def channels_to_restore_def
      plan_category_of_def readable_id_def dict_get_def)

lemma failing_plan_run:
  "snd (restored failing_plan True) = None"
  "outcome (report (shared (fst (restored failing_plan True)))) = Some PARTIAL_FAILED_ROLLED_BACK"
  "map entry_row (entries (ledger (shared (fst (restored failing_plan True))))) = [(CHANNEL_GROUP, 2)]"
  by code_simp+

theorem rolled_back_restore_leaves_nothing_witness:
  "honest_destination (destination sample_services) table_present \<and> readable_plan failing_plan \<and>
   restored failing_plan True = (fst (restored failing_plan True), None) \<and>
   outcome (report (shared (fst (restored failing_plan True)))) = Some PARTIAL_FAILED_ROLLED_BACK \<and>
   map entry_row (entries (ledger (shared (fst (restored failing_plan True))))) = [(CHANNEL_GROUP, 2)] \<and>
   table_present (world (shared (fst (restored failing_plan True)))) = table_present (world (shared sample_restore))"
proof -
  have honest: "honest_destination (destination sample_services) table_present"
    by (simp add: sample_services_def table_honest)
  have run: "restored failing_plan True = (fst (restored failing_plan True), None)"
    using failing_plan_run(1) by (metis prod.collapse)
  from rolled_back_restore_leaves_nothing [OF honest failing_plan_readable _ run [unfolded restored_def]]
  have "table_present (world (shared (fst (restored failing_plan True)))) = table_present (world (shared sample_restore))"
    using failing_plan_run(2) by (simp add: restored_def sample_restore_def table_state_def)
  with honest failing_plan_readable run failing_plan_run show ?thesis by blast
qed

definition half_undone :: "table rollback_state" where
  "half_undone =
     \<lparr>rb_world = (\<lambda>ty. if ty = CHANNEL_GROUP then [(1, PStr ''News''), (2, PStr ''Sport'')] else []),
      rb_ledger = record_created SETTINGS 9 LabelUnknown (record_created CHANNEL_GROUP 2 LabelUnknown
        \<lparr>restore_id = ''r1'', entries = []\<rparr>),
      rb_files = [''r1'' \<mapsto> record_created SETTINGS 9 LabelUnknown (record_created CHANNEL_GROUP 2 LabelUnknown
        \<lparr>restore_id = ''r1'', entries = []\<rparr>)],
      rb_compensated = [], rb_residue = []\<rparr>"

lemma half_undone_run:
  "numbered_ledger (rb_ledger half_undone)"
  "rb_files half_undone (restore_id (rb_ledger half_undone)) = Some (rb_ledger half_undone)"
  "compensation_order (rb_ledger half_undone) = [1, 0]"
  "snd (run_rollback (table_client (\<lambda>_. False)) half_undone) = None"
  "rb_compensated (fst (run_rollback (table_client (\<lambda>_. False)) half_undone)) = [0]"
  "rb_residue (fst (run_rollback (table_client (\<lambda>_. False)) half_undone)) = [1]"
  by code_simp+

theorem interrupted_rollback_resumes_witness:
  "\<exists>l. rb_files (fst (run_rollback (table_client (\<lambda>_. False)) half_undone)) ''r1'' = Some l \<and>
     compensation_order l = [1] \<and>
     rb_compensated (fst (run_rollback (table_client (\<lambda>_. False)) half_undone)) = [0]"
proof -
  let ?o = "compensation_order (rb_ledger half_undone)"
  have "each_row (compensate_entry (table_client (\<lambda>_. False))) (take (length ?o) ?o)
      (half_undone\<lparr>rb_compensated := [], rb_residue := []\<rparr>)
    = (fst (run_rollback (table_client (\<lambda>_. False)) half_undone), None)"
    using half_undone_run(4) by (simp add: run_rollback_def prod_eq_iff)
  from interrupted_rollback_resumes [OF half_undone_run(1,2) this] half_undone_run(3,5,6)
  show ?thesis by (auto simp: half_undone_def record_created_def)
qed

section \<open>A row the ledger misses\<close>

text \<open>
  The remap entry is written before the ledger entry, so an archived id that \<open>int\<close> refuses stops the
  importer between the create and its record: the rollback then undoes nothing and reports completion.
\<close>

definition unreadable_plan :: import_plan where
  "unreadable_plan =
     \<lparr>manifest = PDict [(''schema_version'', PInt 1)],
      plan_categories =
        [\<lparr>pc_entity_type = STREAM_PROFILE, entities = [[(''id'', PStr ''x1''), (''name'', PStr ''Fast'')]],
          pc_selected = True\<rparr>],
      existing_remap = empty_remap\<rparr>"

lemma unreadable_id_leaves_an_orphan:
  "snd (restored unreadable_plan True) = None"
  "outcome (report (shared (fst (restored unreadable_plan True)))) = Some PARTIAL_FAILED_ROLLED_BACK"
  "world (shared (fst (restored unreadable_plan True))) STREAM_PROFILE = [(1, PStr ''Fast'')]"
  "world (shared sample_restore) STREAM_PROFILE = []"
  by code_simp+

end
