(* ===== verification/RestoreChannels.thy ===== *)
theory RestoreChannels
  imports RestoreRollback Matching
begin

text \<open>
  The importer of channels (\<open>dbas/importers/channels.py\<close>) with the synthesis of streams that match
  nothing on the destination (\<open>dbas/custom_stream_fallback.py\<close>): the creates, the reattachment of
  profiles, the matching of archived streams by the ladder of \<open>Matching\<close>, the custom-stream account and
  the streams of each channel in archived order. The further methods of the client are those this
  importer calls; the listing of channels is its one page. An exception that escapes keeps its kind.
\<close>

section \<open>The destination as this importer uses it\<close>

datatype import_error = Python py_error | Client client_error

record 'w lineup_client =
  base :: "'w client"
  get_streams :: "nat \<Rightarrow> 'w \<Rightarrow> (client_error, pyval) result \<times> 'w"
  update_channel :: "int \<Rightarrow> int list \<Rightarrow> 'w \<Rightarrow> client_error option \<times> 'w"
  update_profile_channel :: "int \<Rightarrow> int \<Rightarrow> bool \<Rightarrow> 'w \<Rightarrow> client_error option \<times> 'w"
  ratio :: "string \<Rightarrow> string \<Rightarrow> rat"

fun as_int :: "pyval \<Rightarrow> int option" where
  "as_int (PInt n) = Some n"
| "as_int _ = None"

text \<open>
  The keys of the matcher's records: the id where it is an integer, the address and the name where they
  are text.
\<close>

definition stream_of_row :: "row \<Rightarrow> stream_record" where
  "stream_of_row r =
     \<lparr>sr_id = as_int (dict_get r ''id''), sr_url = raw_name (dict_get r ''url''),
      sr_name = raw_name (dict_get r ''name''), sr_provider = dict_get r ''m3u_account''\<rparr>"

text \<open>
  \<open>_fetch_candidate_streams\<close>: pages of a thousand until a short one; any exception gives no candidate.
  A listing whose pages are never short keeps the loop running.
\<close>

definition page_rows :: "pyval \<Rightarrow> (py_error, row list) result" where
  "page_rows resp =
     bind_result (iter_rows (case resp of PDict d \<Rightarrow> dict_get d ''results'' | _ \<Rightarrow> resp)) (\<lambda>vs. returns (dict_rows vs))"

definition is_paged :: "pyval \<Rightarrow> bool" where
  "is_paged resp = (case resp of PDict d \<Rightarrow> True | _ \<Rightarrow> False)"

partial_function (option) fetch_pages ::
  "'w lineup_client \<Rightarrow> nat \<Rightarrow> row list \<Rightarrow> 'w \<Rightarrow> (row list \<times> 'w) option" where
  "fetch_pages cl page candidates w =
     (let (resp, w1) = get_streams cl page w in
      case resp of
        Inl e \<Rightarrow> Some ([], w1)
      | Inr v \<Rightarrow>
          (case page_rows v of
             Inl e \<Rightarrow> Some ([], w1)
           | Inr items \<Rightarrow>
               if \<not> is_paged v \<or> length items < 1000 then Some (candidates @ items, w1)
               else fetch_pages cl (page + 1) (candidates @ items) w1))"

definition fetch_candidate_streams :: "'w lineup_client \<Rightarrow> 'w \<Rightarrow> (row list \<times> 'w) option" where
  "fetch_candidate_streams cl w = fetch_pages cl 1 [] w"

section \<open>Channels already on the destination\<close>

definition channel_key :: "row \<Rightarrow> pyval \<times> pyval" where
  "channel_key r = (dict_get r ''name'', dict_get r ''channel_number'')"

definition same_key :: "pyval \<times> pyval \<Rightarrow> pyval \<times> pyval \<Rightarrow> bool" where
  "same_key k k' \<longleftrightarrow> same_provider (fst k) (fst k') \<and> same_provider (snd k) (snd k')"

fun hashable :: "pyval \<Rightarrow> bool" where
  "hashable (PList xs) = False"
| "hashable (PDict d) = False"
| "hashable _ = True"

definition hashable_key :: "row \<Rightarrow> bool" where
  "hashable_key r \<longleftrightarrow> hashable (fst (channel_key r)) \<and> hashable (snd (channel_key r))"

text \<open>The rows indexed before anything raised; a later row replaces an earlier one of its key.\<close>

definition existing_channels :: "(client_error, pyval) result \<Rightarrow> row list" where
  "existing_channels listed =
     (case listed of
        Inl e \<Rightarrow> []
      | Inr v \<Rightarrow> (case page_rows v of Inl e \<Rightarrow> [] | Inr rows \<Rightarrow> takeWhile hashable_key rows))"

definition find_channel :: "row list \<Rightarrow> row \<Rightarrow> row option" where
  "find_channel existing archive =
     List.find (\<lambda>r. same_key (channel_key r) (channel_key archive)) (rev existing)"

definition is_ambiguous_null_key :: "row \<Rightarrow> row \<Rightarrow> bool" where
  "is_ambiguous_null_key archive existing \<longleftrightarrow>
     dict_get archive ''channel_number'' = PNone \<and> dict_get existing ''channel_number'' = PNone"

section \<open>The create payload\<close>

definition DROPPED_CREATE_KEYS :: "string list" where
  "DROPPED_CREATE_KEYS =
     [''id'', ''pk'', ''uuid'', ''logo_id'', ''epg_data_id'',
      ''streams'', ''profile_memberships'', ''channelprofilemembership_set'', ''stream_count'', ''stats'',
      ''epg_data_tvg_id'', ''auto_created'', ''auto_created_by'', ''auto_created_by_name'', ''source_stream'', ''override'']"

definition build_channel_payload :: "row \<Rightarrow> id_remap_table \<Rightarrow> (py_error, entity_type + row) result" where
  "build_channel_payload archive t =
     fold_result (remap_fk archive t) CHANNEL_FK_FIELDS
       (Inr (filter (\<lambda>(k, v). k \<notin> set DROPPED_CREATE_KEYS \<and> \<not> py_startswith k ''effective_'') archive))"

section \<open>Planning the streams of a channel\<close>

text \<open>A slot is the destination stream it was matched to, or the archived stream that matched none.\<close>

datatype stream_slot = Matched int | Orphan row

record stream_plan =
  dest_channel_id :: int
  plan_label :: label
  slots :: "stream_slot list"

definition archived_streams :: "row \<Rightarrow> row list" where
  "archived_streams archive = (case dict_get archive ''streams'' of PList vs \<Rightarrow> dict_rows vs | _ \<Rightarrow> [])"

definition stream_slot_of ::
  "'w lineup_client \<Rightarrow> row list \<Rightarrow> bool \<Rightarrow> label \<Rightarrow> row \<Rightarrow> restore_report \<Rightarrow> stream_slot \<times> restore_report" where
  "stream_slot_of cl candidates allow_fuzzy lbl stream r =
     (case match_stream (ratio cl) (stream_of_row stream) (map stream_of_row candidates) allow_fuzzy of
        (tier, Some i) \<Rightarrow>
          if tier = MISS then (Orphan stream, r)
          else
            let r1 = change_category STREAM (\<lambda>c. c\<lparr>updated := updated c + 1\<rparr>) r in
            (Matched i,
             if tier = FUZZY_NORMALIZED_NAME
             then add_note (LowConfidenceMatch (row_label stream) lbl) r1 else r1)
      | (tier, None) \<Rightarrow> (Orphan stream, r))"

fun stream_slots ::
  "'w lineup_client \<Rightarrow> row list \<Rightarrow> bool \<Rightarrow> label \<Rightarrow> row list \<Rightarrow> restore_report \<Rightarrow> stream_slot list \<times> restore_report" where
  "stream_slots cl candidates allow_fuzzy lbl [] r = ([], r)"
| "stream_slots cl candidates allow_fuzzy lbl (s # ss) r =
     (let (slot, r1) = stream_slot_of cl candidates allow_fuzzy lbl s r;
          (rest, r2) = stream_slots cl candidates allow_fuzzy lbl ss r1 in
      (slot # rest, r2))"

definition plan_streams ::
  "'w lineup_client \<Rightarrow> row list \<Rightarrow> bool \<Rightarrow> row \<Rightarrow> int \<Rightarrow> restore_report \<Rightarrow> stream_plan list \<times> restore_report" where
  "plan_streams cl candidates allow_fuzzy archive dest r =
     (if archived_streams archive = [] then ([], r)
      else
        let (ss, r1) = stream_slots cl candidates allow_fuzzy (row_label archive) (archived_streams archive)
              (change_category STREAM id r) in
        ([\<lparr>dest_channel_id = dest, plan_label = row_label archive, slots = ss\<rparr>], r1))"

section \<open>The channels\<close>

record 'w channel_state =
  ch_shared :: "'w import_state"
  reattach_queue :: "(row \<times> int) list"
  stream_plans :: "stream_plan list"
  created_source_ids :: "int set"
  matched_existing :: "int \<rightharpoonup> row"

definition on_ch :: "('w import_state \<Rightarrow> 'w import_state) \<Rightarrow> 'w channel_state \<Rightarrow> 'w channel_state" where
  "on_ch f st = st\<lparr>ch_shared := f (ch_shared st)\<rparr>"

definition ch_try ::
  "('w import_state \<Rightarrow> 'w import_state \<times> py_error option) \<Rightarrow> 'w channel_state \<Rightarrow> 'w channel_state \<times> import_error option" where
  "ch_try f st = map_prod (\<lambda>s. st\<lparr>ch_shared := s\<rparr>) (map_option Python) (f (ch_shared st))"

text \<open>A channel that is on the destination now: its profiles and streams are to be attached.\<close>

definition queue_channel ::
  "'w lineup_client \<Rightarrow> row list \<Rightarrow> bool \<Rightarrow> row \<Rightarrow> int \<Rightarrow> 'w channel_state \<Rightarrow> 'w channel_state" where
  "queue_channel cl candidates allow_fuzzy archive dest st =
     (let (ps, r) = plan_streams cl candidates allow_fuzzy archive dest (report (ch_shared st)) in
      st\<lparr>reattach_queue := reattach_queue st @ [(archive, dest)],
         stream_plans := stream_plans st @ ps, ch_shared := (ch_shared st)\<lparr>report := r\<rparr>\<rparr>)"

definition ambiguous_channel ::
  "'w client \<Rightarrow> row \<Rightarrow> 'w import_state \<Rightarrow> 'w import_state \<times> py_error option" where
  "ambiguous_channel cl archive st =
     (let st1 = on_cat CHANNEL (\<lambda>c. c\<lparr>failed := failed c + 1\<rparr>) st in
      case int_field cl (dict_get archive ''id'') of
        Some src \<Rightarrow>
          (on_cat CHANNEL (\<lambda>c. c\<lparr>failure_details := failure_details c
              @ [\<lparr>fd_reason = CONFLICT, fd_label = row_label archive,
                   fd_message = AmbiguousCollision (row_label archive), fd_source_export_id = src\<rparr>]\<rparr>) st1, None)
      | None \<Rightarrow> (st1, Some ValueError))"

definition matched_channel ::
  "'w lineup_client \<Rightarrow> row list \<Rightarrow> bool \<Rightarrow> bool \<Rightarrow> row \<Rightarrow> row \<Rightarrow> 'w channel_state
     \<Rightarrow> 'w channel_state \<times> import_error option" where
  "matched_channel cl candidates allow_fuzzy dry archive existing st =
     (case ch_try (skip_row (base cl) CHANNEL ALREADY_EXISTS_IDENTICAL (row_label archive) (dict_get archive ''id'') dry) st of
        (st1, Some e) \<Rightarrow> (st1, Some e)
      | (st1, None) \<Rightarrow>
          (case (as_int (dict_get archive ''id''), dict_get existing ''id'') of
             (None, _) \<Rightarrow> (st1, None)
           | (Some src, PNone) \<Rightarrow> (st1, None)
           | (Some src, existing_id) \<Rightarrow>
               (case py_int existing_id of
                  Inl e \<Rightarrow> (st1, Some (Python e))
                | Inr dst \<Rightarrow>
                    let st2 = on_ch (\<lambda>s. s\<lparr>remap := remap_add CHANNEL src dst (remap s)\<rparr>) st1;
                        st3 = st2\<lparr>matched_existing := (matched_existing st2)(src \<mapsto> existing)\<rparr> in
                    (if dry then st3 else queue_channel cl candidates allow_fuzzy archive dst st3, None))))"

definition note_created_source :: "pyval \<Rightarrow> (int \<Rightarrow> int) \<Rightarrow> 'w channel_state \<Rightarrow> 'w channel_state" where
  "note_created_source source dst st =
     (case as_int source of
        None \<Rightarrow> st
      | Some src \<Rightarrow>
          (on_ch (\<lambda>s. s\<lparr>remap := remap_add CHANNEL src (dst src) (remap s)\<rparr>) st)
            \<lparr>created_source_ids := insert src (created_source_ids st)\<rparr>)"

definition created_channel ::
  "'w lineup_client \<Rightarrow> row list \<Rightarrow> bool \<Rightarrow> row \<Rightarrow> pyval \<Rightarrow> 'w channel_state
     \<Rightarrow> 'w channel_state \<times> import_error option" where
  "created_channel cl candidates allow_fuzzy archive reply st =
     (let dest = (case reply of PDict d \<Rightarrow> dict_get d ''id'' | _ \<Rightarrow> PNone);
          st1 = on_ch (on_cat CHANNEL (\<lambda>c. c\<lparr>created := created c + 1\<rparr>)) st in
      if dest = PNone then (st1, None)
      else case py_int dest of
             Inl e \<Rightarrow> (st1, Some (Python e))
           | Inr d \<Rightarrow>
               let st2 = note_created_source (dict_get archive ''id'') (\<lambda>_. d) st1;
                   st3 = on_ch (\<lambda>s. s\<lparr>ledger := record_created CHANNEL d (row_label archive) (ledger s)\<rparr>) st2 in
               (queue_channel cl candidates allow_fuzzy archive d st3, None))"

definition import_channel ::
  "'w lineup_client \<Rightarrow> row list \<Rightarrow> row list \<Rightarrow> bool \<Rightarrow> bool \<Rightarrow> row \<Rightarrow> 'w channel_state
     \<Rightarrow> 'w channel_state \<times> import_error option" where
  "import_channel cl existing candidates allow_fuzzy dry archive st =
     (if \<not> hashable_key archive then (st, Some (Python TypeError))
      else case find_channel existing archive of
        Some found \<Rightarrow>
          if is_ambiguous_null_key archive found then ch_try (ambiguous_channel (base cl) archive) st
          else matched_channel cl candidates allow_fuzzy dry archive found st
      | None \<Rightarrow>
          (case build_channel_payload archive (remap (ch_shared st)) of
             Inl e \<Rightarrow> (st, Some (Python e))
           | Inr (Inl dependency) \<Rightarrow>
               ch_try (unresolved_row (base cl) CHANNEL dependency (row_label archive) (dict_get archive ''id'') dry) st
           | Inr (Inr payload) \<Rightarrow>
               if dry then
                 (note_created_source (dict_get archive ''id'') id
                    (on_ch (on_cat CHANNEL (\<lambda>c. c\<lparr>would_create := would_create c + 1\<rparr>)) st), None)
               else
                 let (reply, w) = create_row (base cl) CHANNEL (PDict payload) (world (ch_shared st));
                     st1 = on_ch (\<lambda>s. s\<lparr>world := w\<rparr>) st in
                 case reply of
                   Inl e \<Rightarrow> ch_try (fail_row (base cl) CHANNEL e (row_label archive) (dict_get archive ''id'')) st1
                 | Inr v \<Rightarrow> created_channel cl candidates allow_fuzzy archive v st1))"

section \<open>Profiles\<close>

definition profile_memberships :: "row \<Rightarrow> row list" where
  "profile_memberships archive = (case dict_get archive ''profile_memberships'' of PList vs \<Rightarrow> dict_rows vs | _ \<Rightarrow> [])"

definition failed_upstream :: "entity_type \<Rightarrow> label \<Rightarrow> string \<Rightarrow> int option \<Rightarrow> 'w import_state \<Rightarrow> 'w import_state" where
  "failed_upstream ty lbl text source =
     on_cat ty (\<lambda>c. c\<lparr>failed := failed c + 1, failure_details := failure_details c
       @ [\<lparr>fd_reason = UPSTREAM_API_ERROR, fd_label = lbl, fd_message = MessageText text,
            fd_source_export_id = source\<rparr>]\<rparr>)"

definition reattach_membership ::
  "'w lineup_client \<Rightarrow> row \<Rightarrow> int \<Rightarrow> row \<Rightarrow> 'w import_state \<Rightarrow> 'w import_state \<times> import_error option" where
  "reattach_membership cl archive dest membership st =
     (let source = dict_get membership ''profile_id'' in
      if source = PNone then (st, None)
      else case py_int source of
             Inl e \<Rightarrow> (st, Some (Python e))
           | Inr src \<Rightarrow>
               (case remap_resolve (remap st) CHANNEL_PROFILE src of
                  None \<Rightarrow>
                    (on_report (record_dependency_unresolved CHANNEL_PROFILE CHANNEL_PROFILE (row_label archive)
                       (remap st) False (Some src)) st, None)
                | Some profile \<Rightarrow>
                    let enabled = (case map_of membership ''enabled'' of None \<Rightarrow> True | Some v \<Rightarrow> truthy v);
                        (err, w) = update_profile_channel cl profile dest enabled (world st);
                        st1 = st\<lparr>world := w\<rparr> in
                    case err of
                      None \<Rightarrow> (st1, None)
                    | Some e \<Rightarrow>
                        (failed_upstream CHANNEL_PROFILE (row_label archive)
                           (sanitize_failure e ''channel'') (Some src) st1, None)))"

definition reattach_profiles ::
  "'w lineup_client \<Rightarrow> (row \<times> int) list \<Rightarrow> 'w import_state \<Rightarrow> 'w import_state \<times> import_error option" where
  "reattach_profiles cl queue st =
     each_row (\<lambda>(archive, dest). each_row (reattach_membership cl archive dest) (profile_memberships archive)) queue st"

section \<open>Streams that match nothing\<close>

definition CUSTOM_STREAM_ACCOUNT_NAME :: string where
  "CUSTOM_STREAM_ACCOUNT_NAME = ''ECM Custom Streams (DBAS restore)''"

definition find_account_id_by_name :: "pyval \<Rightarrow> string \<Rightarrow> int option" where
  "find_account_id_by_name accounts name =
     (case accounts of
        PList vs \<Rightarrow>
          (case List.find (\<lambda>a. dict_get a ''name'' = PStr name) (dict_rows vs) of
             Some a \<Rightarrow> as_int (dict_get a ''id'') | None \<Rightarrow> None)
      | _ \<Rightarrow> None)"

text \<open>Find the account or create it; what it creates is recorded nowhere.\<close>

definition ensure_custom_stream_account ::
  "'w client \<Rightarrow> 'w import_state \<Rightarrow> (import_error, int) result \<times> 'w import_state" where
  "ensure_custom_stream_account cl st =
     (let (listed, w) = list_rows cl M3U_ACCOUNT (world st); st1 = st\<lparr>world := w\<rparr> in
      case listed of
        Inl e \<Rightarrow> (Inl (Client e), st1)
      | Inr accounts \<Rightarrow>
          (case find_account_id_by_name accounts CUSTOM_STREAM_ACCOUNT_NAME of
             Some i \<Rightarrow> (Inr i, st1)
           | None \<Rightarrow>
               let (reply, w1) = create_row cl M3U_ACCOUNT (PDict [(''name'', PStr CUSTOM_STREAM_ACCOUNT_NAME)]) w;
                   st2 = st1\<lparr>world := w1\<rparr> in
               case reply of
                 Inl e \<Rightarrow> (Inl (Client e), st2)
               | Inr v \<Rightarrow>
                   (case (case v of PDict d \<Rightarrow> as_int (dict_get d ''id'') | _ \<Rightarrow> None) of
                      Some i \<Rightarrow> (Inr i, st2)
                    | None \<Rightarrow> (Inl (Python ValueError), st2))))"

definition DROPPED_STREAM_KEYS :: "string list" where
  "DROPPED_STREAM_KEYS =
     [''id'', ''pk'', ''m3u_account'', ''current_viewers'', ''updated_at'', ''last_seen'', ''is_stale'', ''stream_hash'',
      ''stream_stats'', ''stream_stats_updated_at'', ''is_custom'']"

definition REMAPPED_STREAM_FK_FIELDS :: "(string \<times> entity_type) list" where
  "REMAPPED_STREAM_FK_FIELDS = [(''channel_group'', CHANNEL_GROUP), (''stream_profile_id'', STREAM_PROFILE)]"

definition remap_stream_fk ::
  "row \<Rightarrow> id_remap_table \<Rightarrow> string \<times> entity_type \<Rightarrow> row \<Rightarrow> (py_error, row) result" where
  "remap_stream_fk orphan t fk payload =
     (let source = dict_get orphan (fst fk) in
      if source = PNone then returns payload
      else case py_int source of
             Inl OverflowError \<Rightarrow> raises OverflowError
           | Inl e \<Rightarrow> returns payload
           | Inr n \<Rightarrow>
               (case remap_resolve t (snd fk) n of
                  None \<Rightarrow> returns payload
                | Some dst \<Rightarrow> returns (dict_put (fst fk) (PInt dst) payload)))"

definition build_stream_payload :: "row \<Rightarrow> int \<Rightarrow> id_remap_table \<Rightarrow> (py_error, row) result" where
  "build_stream_payload orphan account t =
     bind_result (fold_result (remap_stream_fk orphan t) REMAPPED_STREAM_FK_FIELDS
         (filter (\<lambda>(k, v). k \<notin> set DROPPED_STREAM_KEYS \<and> k \<notin> fst ` set REMAPPED_STREAM_FK_FIELDS) orphan))
       (\<lambda>payload. returns (dict_put ''m3u_account'' (PInt account) payload))"

definition orphan_label :: "row \<Rightarrow> label" where
  "orphan_label orphan =
     (case dict_get orphan ''name'' of PStr s \<Rightarrow> if s = [] then LabelUnknown else LabelText (PStr s) | _ \<Rightarrow> LabelUnknown)"

definition synthesize_stream ::
  "'w client \<Rightarrow> int \<Rightarrow> row \<Rightarrow> 'w import_state \<Rightarrow> 'w import_state \<times> import_error option" where
  "synthesize_stream cl account orphan st =
     (case build_stream_payload orphan account (remap st) of
        Inl e \<Rightarrow> (st, Some (Python e))
      | Inr payload \<Rightarrow>
          let (reply, w) = create_row cl STREAM (PDict payload) (world st);
              st1 = st\<lparr>world := w\<rparr>; lbl = orphan_label orphan; source = as_int (dict_get orphan ''id'') in
          case reply of
            Inl e \<Rightarrow> (failed_upstream STREAM lbl (take 300 (error_text e)) source st1, None)
          | Inr v \<Rightarrow>
              (case (case v of PDict d \<Rightarrow> as_int (dict_get d ''id'') | _ \<Rightarrow> None) of
                 None \<Rightarrow> (failed_upstream STREAM lbl ''create_stream returned no usable stream id.'' source st1, None)
               | Some dst \<Rightarrow>
                   let st2 = on_cat STREAM (\<lambda>c. c\<lparr>created := created c + 1\<rparr>) st1;
                       st3 = st2\<lparr>ledger := record_created STREAM dst lbl (ledger st2)\<rparr> in
                   (case source of
                      None \<Rightarrow> st3
                    | Some src \<Rightarrow> st3\<lparr>remap := remap_add STREAM src dst (remap st3)\<rparr>, None)))"

definition synthesize_custom_streams ::
  "'w client \<Rightarrow> row list \<Rightarrow> 'w import_state \<Rightarrow> 'w import_state \<times> import_error option" where
  "synthesize_custom_streams cl orphans st =
     (if orphans = [] then (st, None)
      else case ensure_custom_stream_account cl st of
             (Inl e, st1) \<Rightarrow> (st1, Some e)
           | (Inr account, st1) \<Rightarrow> each_row (synthesize_stream cl account) orphans (on_cat STREAM id st1))"

section \<open>Attaching the streams\<close>

fun slot_orphans :: "stream_slot list \<Rightarrow> row list" where
  "slot_orphans [] = []"
| "slot_orphans (Matched i # ss) = slot_orphans ss"
| "slot_orphans (Orphan r # ss) = r # slot_orphans ss"

text \<open>The ids of a channel's slots in order; a slot whose stream could not be made is left out.\<close>

fun ordered_ids :: "id_remap_table \<Rightarrow> stream_slot list \<Rightarrow> (py_error, int list) result" where
  "ordered_ids t [] = returns []"
| "ordered_ids t (Matched i # ss) = bind_result (ordered_ids t ss) (\<lambda>is. returns (i # is))"
| "ordered_ids t (Orphan r # ss) =
     (if dict_get r ''id'' = PNone then ordered_ids t ss
      else bind_result (py_int (dict_get r ''id'')) (\<lambda>src.
        bind_result (ordered_ids t ss) (\<lambda>is.
          returns (case remap_resolve t STREAM src of None \<Rightarrow> is | Some dst \<Rightarrow> dst # is))))"

definition attach_plan ::
  "'w lineup_client \<Rightarrow> stream_plan \<Rightarrow> 'w import_state \<Rightarrow> 'w import_state \<times> import_error option" where
  "attach_plan cl plan st =
     (case ordered_ids (remap st) (slots plan) of
        Inl e \<Rightarrow> (st, Some (Python e))
      | Inr ids \<Rightarrow>
          if ids = [] then (st, None)
          else
            let (err, w) = update_channel cl (dest_channel_id plan) ids (world st); st1 = st\<lparr>world := w\<rparr> in
            (case err of
               None \<Rightarrow> st1
             | Some e \<Rightarrow> failed_upstream STREAM (plan_label plan) (sanitize_failure e ''channel'') None st1, None))"

definition attach_streams ::
  "'w lineup_client \<Rightarrow> stream_plan list \<Rightarrow> 'w import_state \<Rightarrow> 'w import_state \<times> import_error option" where
  "attach_streams cl plans st =
     (case synthesize_custom_streams (base cl) (concat (map (slot_orphans \<circ> slots) plans)) st of
        (st1, Some e) \<Rightarrow> (st1, Some e)
      | (st1, None) \<Rightarrow> each_row (attach_plan cl) plans st1)"

section \<open>The importer\<close>

definition stream_caveat :: string where
  "stream_caveat =
     ''Streams cannot be previewed: they are matched against this '' @
     ''install's own streams, and the provider streams this backup needs '' @
     ''are only fetched during the restore itself. Anything that does not '' @
     ''match is created as a placeholder and reconnected afterwards.''"

definition start_channels :: "'w import_state \<Rightarrow> 'w channel_state" where
  "start_channels st =
     \<lparr>ch_shared = st, reattach_queue = [], stream_plans = [], created_source_ids = {}, matched_existing = Map.empty\<rparr>"

text \<open>The channels, then their profiles and their streams.\<close>

definition restore_channels ::
  "'w lineup_client \<Rightarrow> row list \<Rightarrow> row list \<Rightarrow> row list \<Rightarrow> bool \<Rightarrow> bool \<Rightarrow> 'w import_state
     \<Rightarrow> 'w channel_state \<times> import_error option" where
  "restore_channels cl existing candidates archive_channels dry allow_fuzzy st =
     (case each_row (import_channel cl existing candidates allow_fuzzy dry) archive_channels (start_channels st) of
        (cs, Some e) \<Rightarrow> (cs, Some e)
      | (cs, None) \<Rightarrow>
          if dry then (cs, None)
          else (case reattach_profiles cl (reattach_queue cs) (ch_shared cs) of
                  (s1, Some e) \<Rightarrow> (cs\<lparr>ch_shared := s1\<rparr>, Some e)
                | (s1, None) \<Rightarrow>
                    map_prod (\<lambda>s. cs\<lparr>ch_shared := s\<rparr>) id (attach_streams cl (stream_plans cs) s1)))"

text \<open>\<open>None\<close> is a fetch of the candidate streams that does not end.\<close>

definition import_channels ::
  "'w lineup_client \<Rightarrow> row list \<Rightarrow> bool \<Rightarrow> bool \<Rightarrow> bool \<Rightarrow> 'w import_state
     \<Rightarrow> ('w channel_state \<times> import_error option) option" where
  "import_channels cl archive_channels selected dry allow_fuzzy st =
     (let st0 = on_cat CHANNEL id st in
      if \<not> selected then
        Some (map_prod start_channels (map_option Python)
          (each_row (\<lambda>r. skip_row (base cl) CHANNEL EXCLUDED_BY_OPERATOR (row_label r) (dict_get r ''id'') dry)
            archive_channels st0))
      else
        let st1 = (if dry then on_cat STREAM (\<lambda>c. c\<lparr>predicted := False, caveat := Some stream_caveat\<rparr>) st0 else st0);
            (listed, w) = list_rows (base cl) CHANNEL (world st1) in
        case (if dry then Some ([], w) else fetch_candidate_streams cl w) of
          None \<Rightarrow> None
        | Some (candidates, w1) \<Rightarrow>
            Some (restore_channels cl (existing_channels listed) candidates archive_channels dry allow_fuzzy
              (st1\<lparr>world := w1\<rparr>)))"


section \<open>The ledger and the channels\<close>

text \<open>The further methods of the client create and delete no row.\<close>

definition edits_only :: "'w lineup_client \<Rightarrow> ('w \<Rightarrow> entity_type \<Rightarrow> int \<Rightarrow> bool) \<Rightarrow> bool" where
  "edits_only cl present \<longleftrightarrow>
     (\<forall>page w. present (snd (get_streams cl page w)) = present w) \<and>
     (\<forall>n ids w. present (snd (update_channel cl n ids w)) = present w) \<and>
     (\<forall>n m b w. present (snd (update_profile_channel cl n m b w)) = present w)"

lemma booked_cong:
  "present (world st') = present (world st) \<Longrightarrow> ledger st' = ledger st \<Longrightarrow> booked present before st' = booked present before st"
  by (simp add: booked_def)

lemma booked_untouched [simp]:
  "booked present before (st\<lparr>report := r\<rparr>) = booked present before st"
  "booked present before (st\<lparr>remap := t\<rparr>) = booked present before st"
  "booked present before (failed_upstream ty lbl text source st) = booked present before st"
  by (simp_all add: booked_def failed_upstream_def)

lemma fetch_pages_present:
  assumes "fetch_pages cl page acc w = Some y"
  shows "edits_only cl present \<longrightarrow> present (snd y) = present w"
  using assms
proof (induction rule: fetch_pages.raw_induct [rotated, consumes 1, case_names step])
  case (step fetch cl page acc w y)
  obtain resp w1 where g: "get_streams cl page w = (resp, w1)" by fastforce
  have w1: "present w1 = present w" if "edits_only cl present"
    using that g unfolding edits_only_def by (metis snd_conv)
  from step(2) g have "snd y = w1 \<or> (\<exists>acc'. fetch cl (page + 1) acc' w1 = Some y)"
    by (auto split: sum.splits if_splits)
  with step(1) w1 show ?case by (cases y) fastforce
qed

section \<open>Channels\<close>

definition ch_booked ::
  "('w \<Rightarrow> entity_type \<Rightarrow> int \<Rightarrow> bool) \<Rightarrow> (entity_type \<Rightarrow> int \<Rightarrow> bool) \<Rightarrow> 'w channel_state \<Rightarrow> bool" where
  "ch_booked present before st = booked present before (ch_shared st)"

lemma ch_booked_simps [simp]:
  "ch_booked present before (st\<lparr>matched_existing := m\<rparr>) = ch_booked present before st"
  "ch_booked present before (on_ch (\<lambda>s. s\<lparr>remap := t s\<rparr>) st) = ch_booked present before st"
  "ch_booked present before (on_ch (on_cat ty f) st) = ch_booked present before st"
  by (simp_all add: ch_booked_def on_ch_def)

lemma queue_channel_booked [simp]:
  "ch_booked present before (queue_channel cl candidates fuzzy archive dest st) = ch_booked present before st"
  by (simp add: queue_channel_def ch_booked_def split: prod.splits)

lemma note_created_source_booked [simp]:
  "ch_booked present before (note_created_source source dst st) = ch_booked present before st"
  by (simp add: note_created_source_def ch_booked_def on_ch_def split: option.splits)

lemma ch_try_booked:
  assumes "ch_booked present before st" "\<And>s. bookkeeping s (fst (f s))"
  shows "ch_booked present before (fst (ch_try f st))"
  using assms booked_bookkeeping [of present before] by (auto simp: ch_try_def ch_booked_def)

lemma created_channel_booked:
  assumes "honest_destination (base cl) present" "ch_booked present before st"
    and "create_row (base cl) CHANNEL v (world (ch_shared st)) = (Inr reply, w)"
  shows "ch_booked present before
    (fst (created_channel cl candidates fuzzy archive reply (on_ch (\<lambda>s. s\<lparr>world := w\<rparr>) st)))"
proof -
  obtain d n where reply: "reply = PDict d" "dict_get d ''id'' = PInt n"
      "\<forall>st' lbl. world st' = w \<longrightarrow> ledger st' = record_created CHANNEL n lbl (ledger (ch_shared st)) \<longrightarrow>
         booked present before st'"
    using created_booked [OF assms(1) _ assms(3)] assms(2) unfolding ch_booked_def by metis
  show ?thesis
    using reply(1,2)
    by (auto simp: created_channel_def Let_def ch_booked_def [symmetric])
      (auto simp: ch_booked_def on_ch_def note_created_source_def split: option.splits
        intro!: reply(3) [rule_format, of _ "row_label archive"])
qed

lemma matched_channel_booked:
  assumes "ch_booked present before st"
  shows "ch_booked present before (fst (matched_channel cl candidates fuzzy dry archive existing st))"
proof -
  define skip where "skip = ch_try (skip_row (base cl) CHANNEL ALREADY_EXISTS_IDENTICAL (row_label archive)
      (dict_get archive ''id'') dry) st"
  have "ch_booked present before (fst skip)"
    unfolding skip_def by (rule ch_try_booked [OF assms skip_row_bookkeeping])
  then show ?thesis
    unfolding matched_channel_def skip_def [symmetric] Let_def
    by (cases skip) (auto split: option.splits pyval.splits sum.splits)
qed

lemma ambiguous_channel_bookkeeping: "bookkeeping st (fst (ambiguous_channel cl archive st))"
  by (simp add: ambiguous_channel_def Let_def split: option.splits)

lemma import_channel_booked:
  assumes "honest_destination (base cl) present" "ch_booked present before st"
  shows "ch_booked present before (fst (import_channel cl existing candidates fuzzy dry archive st))"
proof -
  have refused: "ch_booked present before (on_ch (\<lambda>s. s\<lparr>world := w\<rparr>) st)"
    if "create_row (base cl) CHANNEL v (world (ch_shared st)) = (Inl e, w)" for v e w
    using assms that by (auto simp: ch_booked_def on_ch_def honest_destination_def intro!: booked_world)
  note steps = refused ch_try_booked [OF _ ambiguous_channel_bookkeeping]
    ch_try_booked [OF _ unresolved_row_bookkeeping] ch_try_booked [OF _ fail_row_bookkeeping]
    matched_channel_booked created_channel_booked [OF assms]
  show ?thesis using assms(2)
    by (auto simp: import_channel_def Let_def intro!: steps split: option.splits sum.splits prod.splits)
qed

section \<open>Profiles and streams\<close>

lemma reattach_membership_booked:
  assumes "edits_only cl present" "booked present before st"
  shows "booked present before (fst (reattach_membership cl archive dest membership st))"
proof -
  have "present w = present (world st)" if "update_profile_channel cl n m b (world st) = (e, w)" for n m b e w
    using assms(1) that unfolding edits_only_def by (metis snd_conv)
  then show ?thesis using assms(2)
    by (auto simp: reattach_membership_def Let_def booked_on_report intro!: booked_world
        split: sum.splits option.splits prod.splits)
qed

lemma reattach_profiles_booked:
  assumes "edits_only cl present" "booked present before st"
  shows "booked present before (fst (reattach_profiles cl queue st))"
  unfolding reattach_profiles_def
proof (rule each_row_invariant [where I = "booked present before", OF assms(2)])
  show "booked present before (fst ((case q of (archive, dest) \<Rightarrow>
      each_row (reattach_membership cl archive dest) (profile_memberships archive)) s))"
    if "booked present before s" for q s
    using that by (cases q) (auto intro: each_row_invariant [where I = "booked present before"]
        reattach_membership_booked [OF assms(1)])
qed

lemma attach_plan_booked:
  assumes "edits_only cl present" "booked present before st"
  shows "booked present before (fst (attach_plan cl plan st))"
proof -
  have "present w = present (world st)" if "update_channel cl n ids (world st) = (e, w)" for n ids e w
    using assms(1) that unfolding edits_only_def by (metis snd_conv)
  then show ?thesis using assms(2)
    by (auto simp: attach_plan_def Let_def intro!: booked_world split: sum.splits option.splits prod.splits)
qed

lemma synthesize_stream_booked:
  assumes "honest_destination cl present" "booked present before st"
  shows "booked present before (fst (synthesize_stream cl account orphan st))"
proof (cases "build_stream_payload orphan account (remap st)")
  case (Inr payload)
  obtain reply w where c: "create_row cl STREAM (PDict payload) (world st) = (reply, w)" by fastforce
  show ?thesis
  proof (cases reply)
    case (Inl e)
    then have "booked present before (st\<lparr>world := w\<rparr>)"
      using assms c by (auto simp: honest_destination_def intro!: booked_world)
    then show ?thesis using Inl Inr c by (simp add: synthesize_stream_def Let_def)
  next
    case reply: (Inr v)
    obtain d n where d: "v = PDict d" "dict_get d ''id'' = PInt n"
      "\<forall>st' lbl. world st' = w \<longrightarrow> ledger st' = record_created STREAM n lbl (ledger st) \<longrightarrow> booked present before st'"
      using created_booked [OF assms c [unfolded reply]] by metis
    then show ?thesis using reply Inr c
      by (auto simp: synthesize_stream_def Let_def split: option.splits intro!: d(3) [rule_format, of _ "orphan_label orphan"])
  qed
qed (use assms(2) in \<open>simp add: synthesize_stream_def\<close>)

text \<open>What the destination held before, up to one row: the custom-stream account.\<close>

definition with_account :: "(entity_type \<Rightarrow> int \<Rightarrow> bool) \<Rightarrow> int option \<Rightarrow> entity_type \<Rightarrow> int \<Rightarrow> bool" where
  "with_account before account ty n \<longleftrightarrow> before ty n \<or> ty = M3U_ACCOUNT \<and> account = Some n"

lemma ensure_account_booked:
  assumes "honest_destination cl present" "booked present before st"
    and "ensure_custom_stream_account cl st = (r, st1)"
  shows "\<exists>account. booked present (with_account before account) st1 \<and> (\<forall>n. account = Some n \<longrightarrow> \<not> before M3U_ACCOUNT n)"
proof -
  have none: "with_account before None = before" by (simp add: with_account_def fun_eq_iff)
  obtain listed w where l: "list_rows cl M3U_ACCOUNT (world st) = (listed, w)" by fastforce
  have w: "present w = present (world st)"
    using assms(1) l unfolding honest_destination_def reads_only_def by (metis snd_conv)
  have st': "booked present before (st\<lparr>world := w\<rparr>)" by (rule booked_world [OF assms(2) w])
  obtain reply w1 where c: "create_row cl M3U_ACCOUNT (PDict [(''name'', PStr CUSTOM_STREAM_ACCOUNT_NAME)]) w = (reply, w1)"
    by fastforce
  have "st1 = st\<lparr>world := w\<rparr> \<or> st1 = st\<lparr>world := w1\<rparr>"
    using assms(3) l c by (auto simp: ensure_custom_stream_account_def Let_def split: sum.splits option.splits pyval.splits)
  moreover have "\<exists>account. booked present (with_account before account) (st\<lparr>world := w1\<rparr>) \<and>
      (\<forall>n. account = Some n \<longrightarrow> \<not> before M3U_ACCOUNT n)"
  proof (cases reply)
    case (Inl e)
    then have "booked present before (st\<lparr>world := w1\<rparr>)"
      using assms c w by (auto simp: honest_destination_def intro!: booked_world)
    then show ?thesis using none by (metis option.distinct(1))
  next
    case (Inr v)
    then obtain n where n: "\<not> present w M3U_ACCOUNT n"
        "present w1 = (present w)(M3U_ACCOUNT := (present w M3U_ACCOUNT)(n := True))"
      using assms(1) c unfolding honest_destination_def by blast
    have "booked present (with_account before (Some n)) (st\<lparr>world := w1\<rparr>)" "\<not> before M3U_ACCOUNT n"
      using st' n by (auto simp: booked_def with_account_def)
    then show ?thesis by blast
  qed
  ultimately show ?thesis using st' none by (metis option.distinct(1))
qed

definition account_booked ::
  "('w \<Rightarrow> entity_type \<Rightarrow> int \<Rightarrow> bool) \<Rightarrow> (entity_type \<Rightarrow> int \<Rightarrow> bool) \<Rightarrow> bool \<Rightarrow> 'w import_state \<Rightarrow> bool" where
  "account_booked present before orphaned st \<longleftrightarrow>
     (\<exists>account. booked present (with_account before account) st \<and>
        (\<forall>n. account = Some n \<longrightarrow> orphaned \<and> \<not> before M3U_ACCOUNT n))"

lemma booked_account: "booked present before st \<Longrightarrow> account_booked present before orphaned st"
  unfolding account_booked_def
  by (rule exI [of _ None]) (simp add: with_account_def [abs_def])

lemma account_booked_on_cat [simp]:
  "account_booked present before orphaned (on_cat ty f st) = account_booked present before orphaned st"
  by (simp add: account_booked_def)

lemma attach_streams_booked:
  assumes "honest_destination (base cl) present" "edits_only cl present" "booked present before st"
  shows "account_booked present before (\<exists>plan \<in> set plans. slot_orphans (slots plan) \<noteq> []) (fst (attach_streams cl plans st))"
proof -
  let ?orphans = "concat (map (slot_orphans \<circ> slots) plans)"
  have plans: "account_booked present before orphaned (fst (each_row (attach_plan cl) plans st'))"
    if "account_booked present before orphaned st'" for orphaned st'
    using that by (rule each_row_invariant) (auto simp: account_booked_def intro: attach_plan_booked [OF assms(2)])
  have orphans: "account_booked present before (?orphans \<noteq> []) (fst (synthesize_custom_streams (base cl) ?orphans st))"
  proof (cases "?orphans = []")
    case True
    then show ?thesis using booked_account [OF assms(3)] by (simp add: synthesize_custom_streams_def)
  next
    case False
    obtain r st1 where r: "ensure_custom_stream_account (base cl) st = (r, st1)" by fastforce
    with ensure_account_booked [OF assms(1,3)] False have "account_booked present before (?orphans \<noteq> []) st1"
      by (auto simp: account_booked_def)
    moreover have "account_booked present before b (fst (each_row (synthesize_stream (base cl) account) os st'))"
      if "account_booked present before b st'" for b account os st'
      using that by (rule each_row_invariant) (auto simp: account_booked_def intro: synthesize_stream_booked [OF assms(1)])
    ultimately show ?thesis using False r
      by (cases r) (simp_all add: synthesize_custom_streams_def del: concat_eq_Nil_conv)
  qed
  have "(?orphans \<noteq> []) = (\<exists>plan \<in> set plans. slot_orphans (slots plan) \<noteq> [])" by auto
  with orphans plans show ?thesis
    by (cases "synthesize_custom_streams (base cl) ?orphans st") (auto simp: attach_streams_def split: option.splits)
qed

lemma restore_channels_booked:
  assumes "honest_destination (base cl) present" "edits_only cl present" "booked present before st"
    and "restore_channels cl existing candidates rows dry fuzzy st = (cs, err)"
  shows "account_booked present before (\<exists>plan \<in> set (stream_plans cs). slot_orphans (slots plan) \<noteq> []) (ch_shared cs)"
proof -
  have start: "ch_booked present before (start_channels st)"
    using assms(3) by (simp add: ch_booked_def start_channels_def)
  obtain ch e where ch: "each_row (import_channel cl existing candidates fuzzy dry) rows (start_channels st) = (ch, e)"
    by fastforce
  have "ch_booked present before (fst (ch, e))"
    unfolding ch [symmetric]
    by (rule each_row_invariant [of "ch_booked present before", OF start]) (rule import_channel_booked [OF assms(1)])
  then have booked: "booked present before (ch_shared ch)" by (simp add: ch_booked_def)
  obtain s1 e1 where s1: "reattach_profiles cl (reattach_queue ch) (ch_shared ch) = (s1, e1)" by fastforce
  have s1b: "booked present before s1"
    using reattach_profiles_booked [OF assms(2) booked, of "reattach_queue ch"] s1 by simp
  obtain s2 e2 where s2: "attach_streams cl (stream_plans ch) s1 = (s2, e2)" by fastforce
  from assms(4) ch s1 s2
  consider "cs = ch" | "cs = ch\<lparr>ch_shared := s1\<rparr>" | "cs = ch\<lparr>ch_shared := s2\<rparr>"
    by (cases e; cases e1) (auto simp: restore_channels_def split: if_splits)
  then show ?thesis
    by cases (use booked s1b s2 attach_streams_booked [OF assms(1,2) s1b, of "stream_plans ch"] in
      \<open>auto intro: booked_account\<close>)
qed

lemma import_channels_booked:
  assumes "honest_destination (base cl) present" "edits_only cl present" "booked present before st"
    and "import_channels cl rows selected dry fuzzy st = Some (cs, err)"
  shows "account_booked present before (\<exists>plan \<in> set (stream_plans cs). slot_orphans (slots plan) \<noteq> []) (ch_shared cs)"
proof (cases selected)
  case False
  define excluded where "excluded = each_row (\<lambda>r. skip_row (base cl) CHANNEL EXCLUDED_BY_OPERATOR (row_label r)
      (dict_get r ''id'') dry) rows (on_cat CHANNEL id st)"
  have "booked present before (fst excluded)"
    unfolding excluded_def using assms(3) by (intro each_row_invariant [where I = "booked present before"])
      (auto intro: booked_bookkeeping [OF _ skip_row_bookkeeping])
  moreover have "cs = start_channels (fst excluded)"
    using False assms(4) unfolding import_channels_def excluded_def by (auto simp: Let_def fst_map_prod prod_eq_iff)
  ultimately show ?thesis by (simp add: start_channels_def booked_account)
next
  case True
  define st1 where "st1 = (if dry then on_cat STREAM (\<lambda>c. c\<lparr>predicted := False, caveat := Some stream_caveat\<rparr>)
    (on_cat CHANNEL id st) else on_cat CHANNEL id st)"
  obtain listed w where l: "list_rows (base cl) CHANNEL (world st1) = (listed, w)" by fastforce
  have "present w = present (world st1)"
    using assms(1) l unfolding honest_destination_def reads_only_def by (metis snd_conv)
  moreover obtain candidates w1 where f: "(if dry then Some ([], w) else fetch_candidate_streams cl w) = Some (candidates, w1)"
      and r: "restore_channels cl (existing_channels listed) candidates rows dry fuzzy (st1\<lparr>world := w1\<rparr>) = (cs, err)"
    using assms(4) True l by (cases "if dry then Some ([], w) else fetch_candidate_streams cl w")
      (auto simp: import_channels_def st1_def Let_def)
  moreover have "present w1 = present w"
    using f fetch_pages_present [of cl 1 "[]" w "(candidates, w1)" present] assms(2)
    by (auto simp: fetch_candidate_streams_def split: if_splits)
  ultimately have "booked present before (st1\<lparr>world := w1\<rparr>)"
    using assms(3) by (intro booked_world) (simp_all add: st1_def)
  from restore_channels_booked [OF assms(1,2) this r] show ?thesis .
qed

text \<open>
  C8. The rows the channels importer made are undone, up to one. Run the importer of channels, with its
  profiles and streams, with an empty ledger on a destination that keeps its books; let it end or raise
  anywhere; and let a rollback of its ledger report no residue. Then each category of the destination has
  exactly the ids it had before, except that one playlist account may remain, and only when some archived
  stream matched nothing. This is about which rows exist: the stream list and the memberships of a channel
  that the importer found on the destination are rewritten and stay so (below).
\<close>

theorem channels_undone_up_to_the_account:
  assumes "honest_destination (base cl) present" "edits_only cl present" "entries (ledger st) = []"
    and "import_channels cl rows selected dry fuzzy st = Some (cs, err)"
    and "run_rollback (base cl) (run_rollback_state \<lparr>shared = ch_shared cs, files = fs, deferred = []\<rparr>) = (rb, None)"
    and "rollback_complete rb"
  shows "\<exists>account. present (rb_world rb) = with_account (present (world st)) account \<and>
    (\<forall>n. account = Some n \<longrightarrow>
       \<not> present (world st) M3U_ACCOUNT n \<and> (\<exists>plan \<in> set (stream_plans cs). slot_orphans (slots plan) \<noteq> []))"
proof -
  have "booked present (present (world st)) st" using assms(3) by (simp add: booked_def)
  from import_channels_booked [OF assms(1,2) this assms(4)] obtain account where
      "booked present (with_account (present (world st)) account) (ch_shared cs)"
      "\<forall>n. account = Some n \<longrightarrow> (\<exists>plan \<in> set (stream_plans cs). slot_orphans (slots plan) \<noteq> []) \<and>
         \<not> present (world st) M3U_ACCOUNT n"
    unfolding account_booked_def by blast
  with complete_rollback_restores [OF assms(1) _ assms(5,6)] show ?thesis by auto
qed

section \<open>Payloads\<close>

lemma dict_get_put: "dict_get (dict_put k v d) k' = (if k' = k then v else dict_get d k')"
  by (simp add: dict_get_def)

lemma map_of_keep: "map_of (filter (\<lambda>(k, v). P k) d) k = (if P k then map_of d k else None)"
  by (induction d) auto

lemma remap_fk_step:
  "remap_fk archive t (f, ty) (Inr p0) = returns (Inr payload) \<Longrightarrow>
     dict_get archive f = PNone \<and> payload = p0 \<or>
     (\<exists>n dst. py_int (dict_get archive f) = returns n \<and> remap_resolve t ty n = Some dst \<and>
        payload = dict_put f (PInt dst) p0)"
  by (auto simp: remap_fk_def Let_def split: if_splits sum.splits option.splits)

text \<open>
  C9. The payload of a channel create, key by key. The sixteen keys of identities, logos, guide rows,
  streams, memberships, provenance and overrides and the derived \<open>effective_\<close> echoes are absent; the channel
  group and the stream profile, where they were set, are the ids that the remap table gives for the
  archived ones; every other key is as archived.
\<close>

theorem channel_payload_is_rewritten:
  "build_channel_payload archive t = returns (Inr payload) \<Longrightarrow>
     (k \<notin> {''channel_group_id'', ''stream_profile_id''} \<longrightarrow>
        map_of payload k =
          (if k \<in> {''id'', ''pk'', ''uuid'', ''logo_id'', ''epg_data_id'', ''streams'', ''profile_memberships'',
                   ''channelprofilemembership_set'', ''stream_count'', ''stats'', ''epg_data_tvg_id'', ''auto_created'',
                   ''auto_created_by'', ''auto_created_by_name'', ''source_stream'', ''override''}
              \<or> py_startswith k ''effective_''
           then None else map_of archive k)) \<and>
     (\<forall>ty. (k, ty) \<in> {(''channel_group_id'', CHANNEL_GROUP), (''stream_profile_id'', STREAM_PROFILE)} \<longrightarrow>
        dict_get archive k = PNone \<and> dict_get payload k = PNone \<or>
        (\<exists>n dst. py_int (dict_get archive k) = returns n \<and> remap_resolve t ty n = Some dst \<and>
           dict_get payload k = PInt dst))"
proof -
  let ?keep = "\<lambda>k. k \<notin> set DROPPED_CREATE_KEYS \<and> \<not> py_startswith k ''effective_''"
  let ?p0 = "filter (\<lambda>(k, v). ?keep k) archive"
  assume payload: "build_channel_payload archive t = returns (Inr payload)"
  then obtain a where a: "remap_fk archive t (''channel_group_id'', CHANNEL_GROUP) (Inr ?p0) = returns a"
      "remap_fk archive t (''stream_profile_id'', STREAM_PROFILE) a = returns (Inr payload)"
    by (auto simp: build_channel_payload_def CHANNEL_FK_FIELDS_def)
  then obtain p1 where "remap_fk archive t (''channel_group_id'', CHANNEL_GROUP) (Inr ?p0) = returns (Inr p1)"
      "remap_fk archive t (''stream_profile_id'', STREAM_PROFILE) (Inr p1) = returns (Inr payload)"
    by (cases a) (auto simp: remap_fk_def)
  note p = this [THEN remap_fk_step]
  have keep: "?keep ''channel_group_id''" "?keep ''stream_profile_id''" by code_simp+
  have p0: "map_of ?p0 k = (if ?keep k then map_of archive k else None)" for k by (rule map_of_keep)
  have "map_of payload k = map_of ?p0 k" if "k \<notin> {''channel_group_id'', ''stream_profile_id''}"
    using p that by auto
  moreover have "dict_get archive k = PNone \<and> dict_get payload k = PNone \<or>
        (\<exists>n dst. py_int (dict_get archive k) = returns n \<and> remap_resolve t ty n = Some dst \<and>
           dict_get payload k = PInt dst)"
    if "(k, ty) \<in> {(''channel_group_id'', CHANNEL_GROUP), (''stream_profile_id'', STREAM_PROFILE)}" for ty
  proof -
    have archived: "dict_get ?p0 ''channel_group_id'' = dict_get archive ''channel_group_id''"
        "dict_get ?p0 ''stream_profile_id'' = dict_get archive ''stream_profile_id''"
      using keep unfolding dict_get_def p0 by simp_all
    from that consider "k = ''channel_group_id''" "ty = CHANNEL_GROUP" | "k = ''stream_profile_id''" "ty = STREAM_PROFILE"
      by auto
    then show ?thesis
      by cases (use p archived in \<open>auto simp: dict_get_put\<close>)
  qed
  ultimately show ?thesis unfolding p0 by (simp add: DROPPED_CREATE_KEYS_def)
qed

section \<open>The listing of streams\<close>

definition page_of :: "row list \<Rightarrow> nat \<Rightarrow> pyval" where
  "page_of rows page = PDict [(''results'', PList (map PDict (take 1000 (drop (1000 * (page - 1)) rows))))]"

lemma page_rows_page_of [simp]:
  "page_rows (page_of rows page) = returns (take 1000 (drop (1000 * (page - 1)) rows))" "is_paged (page_of rows page)"
proof -
  have "dict_rows (map PDict rs) = rs" for rs by (induction rs) auto
  then show "page_rows (page_of rows page) = returns (take 1000 (drop (1000 * (page - 1)) rows))" "is_paged (page_of rows page)"
    by (simp_all add: page_rows_def page_of_def dict_get_def is_paged_def)
qed

lemma fetch_pages_from:
  assumes "\<And>page w. page \<ge> 1 \<Longrightarrow> get_streams cl page w = (Inr (page_of rows page), w)"
  shows "1000 * k \<le> length rows \<Longrightarrow> fetch_pages cl (Suc k) (take (1000 * k) rows) w = Some (rows, w)"
proof (induction "length rows - 1000 * k" arbitrary: k rule: less_induct)
  case less
  let ?items = "take 1000 (drop (1000 * k) rows)"
  have step: "fetch_pages cl (Suc k) (take (1000 * k) rows) w =
      (if length ?items < 1000 then Some (take (1000 * k) rows @ ?items, w)
       else fetch_pages cl (Suc (Suc k)) (take (1000 * k) rows @ ?items) w)"
    by (subst fetch_pages.simps) (simp add: assms)
  have append: "take (1000 * k) rows @ ?items = take (1000 * Suc k) rows"
    by (simp add: take_add [symmetric] algebra_simps)
  show ?case
  proof (cases "length ?items < 1000")
    case True
    then have "length rows - 1000 * k < 1000" by auto
    then show ?thesis using less.prems step append by simp
  next
    case False
    then have "1000 * Suc k \<le> length rows" by simp
    with less.hyps [of "Suc k"] less.prems step append False show ?thesis by simp
  qed
qed

text \<open>
  The candidate streams are all read. When the destination pages its streams, whatever their number,
  the fetch ends and answers every one of them in order.
\<close>

lemma candidate_fetch_reads_all:
  assumes "\<And>page w. page \<ge> 1 \<Longrightarrow> get_streams cl page w = (Inr (page_of rows page), w)"
  shows "fetch_candidate_streams cl w = Some (rows, w)"
  using fetch_pages_from [OF assms, where k = 0] by (simp add: fetch_candidate_streams_def)

section \<open>Sample imports\<close>

definition table_lineup :: "(pyval \<Rightarrow> bool) \<Rightarrow> table lineup_client" where
  "table_lineup refuses =
     \<lparr>base = table_client refuses, get_streams = (\<lambda>page w. (Inr (page_of (map table_row (w STREAM)) page), w)),
      update_channel = (\<lambda>n ids w. (None, w)), update_profile_channel = (\<lambda>n m b w. (None, w)),
      ratio = (\<lambda>a b. 0)\<rparr>"

lemma table_lineup_ok:
  "honest_destination (base (table_lineup refuses)) table_present" "edits_only (table_lineup refuses) table_present"
  by (simp_all add: table_lineup_def table_honest edits_only_def)

definition sample_channels :: "row list" where
  "sample_channels =
     [[(''id'', PInt 1), (''name'', PStr ''One''), (''channel_number'', PInt 1),
       (''streams'', PList [PDict [(''id'', PInt 5), (''name'', PStr ''Feed''), (''url'', PStr ''u'')]])],
      [(''id'', PInt 2), (''name'', PStr ''Bad''), (''channel_number'', PInt 2)]]"

definition empty_table :: table where
  "empty_table = (\<lambda>_. [])"

definition imported_channels :: "row list \<Rightarrow> table channel_state \<times> import_error option" where
  "imported_channels rows =
     restore_channels (table_lineup (\<lambda>name. name = PStr ''Bad'')) [] [] rows False True
       ((on_cat CHANNEL id (table_state empty_table))\<lparr>world := empty_table\<rparr>)"

lemma sample_import:
  "import_channels (table_lineup (\<lambda>name. name = PStr ''Bad'')) rows True False True (table_state empty_table)
     = Some (imported_channels rows)"
proof -
  let ?cl = "table_lineup (\<lambda>name. name = PStr ''Bad'')"
  have "page_of (map table_row (empty_table STREAM)) 1 = PDict [(''results'', PList [])]"
    by (simp add: page_of_def empty_table_def)
  then have "fetch_candidate_streams ?cl empty_table = Some ([], empty_table)"
    unfolding fetch_candidate_streams_def
    by (subst fetch_pages.simps) (simp add: table_lineup_def page_rows_def dict_get_def is_paged_def)
  moreover have "world (on_cat CHANNEL id (table_state empty_table)) = empty_table" by (simp add: table_state_def)
  moreover have "list_rows (base ?cl) CHANNEL empty_table = (Inr (PList []), empty_table)"
    by (simp add: table_lineup_def table_client_def empty_table_def)
  moreover have "existing_channels (Inr (PList [])) = []" by (simp add: existing_channels_def page_rows_def)
  ultimately show ?thesis
    by (simp add: import_channels_def imported_channels_def)
qed

definition channels_rolled_back :: "row list \<Rightarrow> table rollback_state \<times> py_error option" where
  "channels_rolled_back rows =
     run_rollback (table_client (\<lambda>name. name = PStr ''Bad''))
       (run_rollback_state \<lparr>shared = ch_shared (fst (imported_channels rows)), files = Map.empty, deferred = []\<rparr>)"

lemma sample_channels_rollback:
  "snd (channels_rolled_back sample_channels) = None"
  "rb_residue (fst (channels_rolled_back sample_channels)) = []"
  "rb_world (fst (channels_rolled_back sample_channels)) M3U_ACCOUNT = [(1, PStr CUSTOM_STREAM_ACCOUNT_NAME)]"
  by code_simp+

theorem channels_undone_up_to_the_account_witness:
  "snd (channels_rolled_back sample_channels) = None \<and>
   rollback_complete (fst (channels_rolled_back sample_channels)) \<and>
   table_present (rb_world (fst (channels_rolled_back sample_channels))) = with_account (table_present empty_table) (Some 1)"
proof -
  let ?cs = "imported_channels sample_channels"
  have complete: "rollback_complete (fst (channels_rolled_back sample_channels))"
    using sample_channels_rollback(2) by (simp add: rollback_complete_def)
  have "import_channels (table_lineup (\<lambda>name. name = PStr ''Bad'')) sample_channels True False True (table_state empty_table)
      = Some (fst ?cs, snd ?cs)" by (simp add: sample_import)
  moreover have "run_rollback (base (table_lineup (\<lambda>name. name = PStr ''Bad'')))
      (run_rollback_state \<lparr>shared = ch_shared (fst ?cs), files = Map.empty, deferred = []\<rparr>)
      = (fst (channels_rolled_back sample_channels), None)"
    using sample_channels_rollback(1) by (simp add: channels_rolled_back_def table_lineup_def prod_eq_iff)
  moreover have "entries (ledger (table_state empty_table)) = []" "world (table_state empty_table) = empty_table"
    by (simp_all add: table_state_def)
  ultimately obtain account where
      p: "table_present (rb_world (fst (channels_rolled_back sample_channels))) = with_account (table_present empty_table) account"
    using channels_undone_up_to_the_account [OF table_lineup_ok] complete by metis
  from fun_cong [OF fun_cong [OF p, of M3U_ACCOUNT], of 1] have "account = Some 1"
    using sample_channels_rollback(3) by (simp add: with_account_def table_present_def empty_table_def)
  with p complete sample_channels_rollback(1) show ?thesis by simp
qed

definition archived_channel :: row where
  "archived_channel =
     [(''id'', PInt 4), (''name'', PStr ''One''), (''channel_group_id'', PInt 7), (''logo_id'', PInt 9)]"

theorem channel_payload_is_rewritten_witness:
  "build_channel_payload archived_channel (remap_add CHANNEL_GROUP 7 70 empty_remap) =
     returns (Inr [(''name'', PStr ''One''), (''channel_group_id'', PInt 70)]) \<and>
   (\<exists>n dst. py_int (dict_get archived_channel ''channel_group_id'') = returns n \<and>
      remap_resolve (remap_add CHANNEL_GROUP 7 70 empty_remap) CHANNEL_GROUP n = Some dst \<and> dst = 70)"
proof -
  have b: "build_channel_payload archived_channel (remap_add CHANNEL_GROUP 7 70 empty_remap) =
      returns (Inr [(''name'', PStr ''One''), (''channel_group_id'', PInt 70)])" by code_simp
  have "dict_get archived_channel ''channel_group_id'' = PInt 7" by code_simp
  moreover have "dict_get [(''name'', PStr ''One''), (''channel_group_id'', PInt 70)] ''channel_group_id'' = PInt 70"
    by code_simp
  ultimately show ?thesis
    using b channel_payload_is_rewritten [OF b, of "''channel_group_id''"] by auto
qed

text \<open>
  What the rollback does not undo. The destination here also keeps the stream list of each channel.
  The archived channel is found there, so its row is skipped as already existing; its streams are
  replaced by the matched ones all the same, and a complete rollback leaves the replacement.
\<close>

type_synonym lineup_world = "table \<times> (int \<Rightarrow> int list)"

definition lineup_table_client :: "lineup_world client" where
  "lineup_table_client =
     \<lparr>list_rows = (\<lambda>ty (w, s). map_prod id (\<lambda>w'. (w', s)) (list_rows (table_client (\<lambda>_. False)) ty w)),
      create_row = (\<lambda>ty v (w, s). map_prod id (\<lambda>w'. (w', s)) (create_row (table_client (\<lambda>_. False)) ty v w)),
      delete_row = (\<lambda>ty n (w, s). map_prod id (\<lambda>w'. (w', s)) (delete_row (table_client (\<lambda>_. False)) ty n w)),
      int_field = int_field (table_client (\<lambda>_. False))\<rparr>"

definition lineup_table :: "lineup_world lineup_client" where
  "lineup_table =
     \<lparr>base = lineup_table_client, get_streams = (\<lambda>page w. (Inr (page_of [] page), w)),
      update_channel = (\<lambda>n ids (w, s). (None, (w, s(n := ids)))),
      update_profile_channel = (\<lambda>n m b w. (None, w)), ratio = (\<lambda>a b. 0)\<rparr>"

definition matched_import :: "lineup_world channel_state \<times> import_error option" where
  "matched_import =
     restore_channels lineup_table
       [[(''id'', PInt 3), (''name'', PStr ''One''), (''channel_number'', PInt 1)]]
       [[(''id'', PInt 9), (''name'', PStr ''Feed''), (''url'', PStr ''u'')]]
       [hd sample_channels] False True
       \<lparr>world = (empty_table, (\<lambda>n. if n = 3 then [4] else [])), report = new_report,
        ledger = \<lparr>restore_id = ''r1'', entries = []\<rparr>, remap = empty_remap\<rparr>"

lemma matched_streams_are_not_undone:
  "snd (world (ch_shared (fst matched_import))) 3 = [9]"
  "run_rollback lineup_table_client
     (run_rollback_state \<lparr>shared = ch_shared (fst matched_import), files = Map.empty, deferred = []\<rparr>) = (rb, e)
   \<Longrightarrow> e = None \<and> rollback_complete rb \<and> snd (rb_world rb) 3 = [9]"
proof -
  let ?run = "run_rollback lineup_table_client
     (run_rollback_state \<lparr>shared = ch_shared (fst matched_import), files = Map.empty, deferred = []\<rparr>)"
  show "snd (world (ch_shared (fst matched_import))) 3 = [9]" by code_simp
  have "snd ?run = None" "rb_residue (fst ?run) = []" "snd (rb_world (fst ?run)) 3 = [9]" by code_simp+
  then show "?run = (rb, e) \<Longrightarrow> e = None \<and> rollback_complete rb \<and> snd (rb_world rb) 3 = [9]"
    by (auto simp: rollback_complete_def)
qed

definition paged_lineup :: "row list \<Rightarrow> table lineup_client" where
  "paged_lineup rows = (table_lineup (\<lambda>_. False))\<lparr>get_streams := (\<lambda>page w. (Inr (page_of rows page), w))\<rparr>"

lemma paged_candidates:
  "fetch_candidate_streams (paged_lineup (replicate 2000 archived_channel)) empty_table
     = Some (replicate 2000 archived_channel, empty_table)"
  by (rule candidate_fetch_reads_all) (simp add: paged_lineup_def)

text \<open>
  A stream that two channels share and that matches nothing is handed over once for each of them: it is
  created twice, and the remap table, from which both channels take it, keeps the second. The first
  belongs to no channel.
\<close>

definition shared_orphan :: row where
  "shared_orphan = [(''id'', PInt 5), (''name'', PStr ''Feed'')]"

lemma shared_orphan_is_made_twice:
  "let st = fst (synthesize_custom_streams (table_client (\<lambda>_. False)) [shared_orphan, shared_orphan] (table_state empty_table)) in
   world st STREAM = [(1, PStr ''Feed''), (2, PStr ''Feed'')] \<and> remap_resolve (remap st) STREAM 5 = Some 2"
  by (simp add: synthesize_custom_streams_def ensure_custom_stream_account_def synthesize_stream_def
      find_account_id_by_name_def build_stream_payload_def remap_stream_fk_def REMAPPED_STREAM_FK_FIELDS_def
      DROPPED_STREAM_KEYS_def orphan_label_def shared_orphan_def table_client_def table_state_def empty_table_def
      table_row_def fresh_id_def dict_get_def Let_def)

end
