(* ===== verification/Spec2Isabelle.thy ===== *)
theory Spec2Isabelle
  imports NumberApply NumberPlan Ledger Retention Stores Matching Patterns Evaluator
    ExecutionOrder PlanJournal Staleness NumberRules Schedule GuideTemplate ChannelCsv
    RestoreChannels
begin

text \<open>
  A verification library for the backend of Enhanced Channel Manager, a channel and stream manager
  for Dispatcharr (Python, \<open>src/backend\<close>).

  \<^bold>\<open>The program.\<close> Operators edit a lineup of numbered channels and their streams. Edits are staged,
  checked and committed in bulk against Dispatcharr; rules of the channel pipeline decide from
  conditions over streams which channels to create; backups are taken, pruned and restored, and a
  restore matches archived streams to live ones. The decision logic of these parts is pure or keeps a
  small state of its own, and is what this library models. HTTP, the database and the user interface
  around it are not.

  \<^bold>\<open>Theories and sources.\<close>
  \<^item> \<open>Prelude\<close>: results of code that may raise, the running-best scan, components driven by calls.
  \<^item> \<open>PyFloat\<close>, \<open>PyVal\<close>: Python's \<open>float\<close> (binary64, round half even), \<open>str\<close> on Latin-1 and untyped
    JSON values.
  \<^item> \<open>ChannelNumber\<close> (\<open>channel_number.py\<close>): the contract of a channel number and the tenths grid.
  \<^item> \<open>Slots\<close>: when two numbers are the same slot; an interface used by the next two, and its
    interpretation on the code's keys.
  \<^item> \<open>NumberApply\<close> (\<open>channel_number_apply.py\<close>): the order in which number writes are sent, breaking
    cycles, and the compensation of a half-applied run.
  \<^item> \<open>NumberPlan\<close> (\<open>channel_number_plan.py\<close>): the lineup a batch of staged operations leads to, and
    the issues that block it.
  \<^item> \<open>Consolidate\<close>, \<open>ExecutionOrder\<close> (\<open>routers/channels.py\<close>: \<open>_validate_bulk_channel_dependencies\<close>,
    \<open>_consolidate_operations\<close>, \<open>_numbering_execution_order\<close> and the start of \<open>_run_bulk_commit\<close>): what a
    bulk commit does to its operations before it executes them. The numbers of a channel are replayed
    with \<open>number_effect\<close>, the specification that \<open>NumberPlan\<close> refines; runs are ordered by \<open>NumberApply\<close>.
  \<^item> \<open>Ledger\<close> (\<open>bulk_commit_accounting.py\<close>; \<open>routers/channels.py\<close>, the operation loop of
    \<open>_run_bulk_commit\<close> with its exception handler): the ledger of a bulk commit as a state machine, the loop
    that drives it, and the audit of the result envelope.
  \<^item> \<open>WritePlan\<close>, \<open>PlanJournal\<close> (\<open>services/pipeline_write_plan.py\<close>): the client that records the writes of a
    planning run under temporary ids, the check of the state the plan relied on, the replay with its
    compensation, and the audit rows of a replay; the router that checks before it replays
    (\<open>routers/channel_pipeline.py\<close>) is \<open>apply_planned_writes\<close>.
  \<^item> \<open>Retention\<close> (\<open>dbas/retention.py\<close>): which backups are pruned, locally and in the cloud.
  \<^item> \<open>Stores\<close> (\<open>services/mutation_plan_store.py\<close>, \<open>cache.py\<close>, \<open>log_throttle.py\<close>): the small
    in-memory stores.
  \<^item> \<open>Matching\<close> (\<open>dbas/stream_matcher.py\<close>, \<open>services/dedup_matcher.py\<close>, \<open>credential_sentinel.py\<close>):
    stream identity on restore, duplicate candidates, and redacted credentials.
  \<^item> \<open>Patterns\<close> (\<open>safe_regex.py\<close>, \<open>date_placeholders.py\<close>): bounded regular expressions and date
    tokens.
  \<^item> \<open>Evaluator\<close> (\<open>channel_pipeline_schema.py\<close>, class \<open>Condition\<close>; \<open>channel_pipeline_evaluator.py\<close>):
    conditions, their validation and their evaluation.
  \<^item> \<open>NumberSearch\<close>, \<open>NumberRules\<close> (\<open>channel_pipeline_executor.py\<close>: the search for a free channel number,
    \<open>_execute_set_channel_number\<close> and the numbering of \<open>_execute_create_channel\<close>; \<open>channel_pipeline_schema.py\<close>:
    \<open>validate_channel_number_spec\<close>; \<open>channel_pipeline_engine.py\<close>: \<open>_get_rule_starting_number\<close>): how rules number
    channels. \<open>numbered_run\<close> is the states a run can reach.
  \<^item> \<open>Schedule\<close> (\<open>schedule_calculator.py\<close>): the next run of interval, daily, weekly, biweekly and monthly
    schedules on the Gregorian calendar.
  \<^item> \<open>GuideTemplate\<close> (\<open>template_engine.py\<close>): rendering the templates of generated guide entries.
  \<^item> \<open>ChannelCsv\<close> (\<open>csv_handler.py\<close>): channels as CSV, in both directions, with the reader and the writer of
    Python's \<open>csv\<close>.
  \<^item> \<open>RestoreContracts\<close> (\<open>dbas/restore_contracts.py\<close>): the id-remap table, the rollback ledger and the report
    of a restore. \<open>Preflight\<close> (\<open>dbas/preflight.py\<close>): the checks before a restore. \<open>GroupsProfiles\<close>
    (\<open>dbas/importers/groups_profiles.py\<close>): the importer of groups and profiles, \<open>RestorePreview\<close> its
    preview against its apply. \<open>RestoreRun\<close>, \<open>RestoreRollback\<close> (\<open>dbas/restore_orchestrator.py\<close>): a whole
    restore, from the confirmation to the outcome, with its rollback. \<open>RestoreChannels\<close>
    (\<open>dbas/importers/channels.py\<close>, \<open>dbas/custom_stream_fallback.py\<close>): the importer of channels with their
    profiles and streams, over the ladder of \<open>Matching\<close>.
  \<^item> \<open>M3UChanges\<close> (\<open>tasks/m3u_refresh.py\<close>: \<open>get_streams_grouped\<close>, \<open>capture_m3u_changes\<close>;
    \<open>m3u_change_detector.py\<close>): the paged pull of the streams of an account, the snapshots in the
    database, the comparison of two snapshots, the change log and its summary. \<open>m3u_history\<close> is the
    databases that sequences of captures lead to.
  \<^item> \<open>Staleness\<close> (\<open>services/event_sync_staleness.py\<close>): whether a stream name was seen before today, read
    off those snapshots.

  \<^bold>\<open>Correspondence.\<close> A dataclass is a record, an enum a datatype, a method a function that takes and
  returns the state. An exception is the left value of a sum; where a method raises after it has
  changed its object, the model returns the changed object with the exception. Python's \<open>dict\<close> is an
  association list where its order is observable. Loops are structural recursion except the cycle walk,
  the ordering loop and the token substitution, which have measures, and three loops without a bound, which are
  partial functions: the paged pulls of a refresh and of a restore, which run for ever on a server that never
  runs dry and end with every stream on one that does, and the walk to a free channel number, which is shown
  to end.

  \<^bold>\<open>What the lemmas show.\<close> Numbering: a write is sent before its number is free only where a real
  cycle forces it, compensation restores the lineup, an accepted plan has only valid and consented
  numbers. Bulk requests: consolidating and resequencing the operations keeps every channel's final
  number, for ranges of whole numbers below \<open>2 ^ 49\<close>. Pipeline plans: a recorded plan replays to the end
  with every temporary id resolved, drift stops it before the first write, a failure is undone newest
  first. Accounting: every operation is counted once whatever the callers catch, and the loop over the
  operations, whatever its branches do, leaves a ledger and an error list that pass the audit. Retention: for
  each backup that is deleted the configured number of newer ones survives, except for repeated leaf names in the
  cloud and for symbolic links in the directory. Stores: bounds, single use, freshness. Matching: independence of candidate order, strongest
  tier first. Conditions: the wire form loses empty lists and connectors only, validated conditions raise
  only on audio counts that are unknown or not finite, connectors have
  the usual precedence, and the name indices answer as the lineup would. Playlists: the pull ends with
  every stream counted, the reported changes add up to the change of the totals, an unchanged refresh is
  silent, renames are multiset differences. Rules: the search for a number ends with the first free one,
  no number is assigned twice in a run, what a rule may store is what is honoured. Schedules: the next
  run is the first matching wall time after now, except for biweekly schedules. Templates: rendering
  follows the nesting of the template. CSV: what is exported is
  imported unchanged, and an import takes every record once, cell by cell. Restores: pre-flight refuses exactly
  the unsound plans, an unconfirmed run writes nothing, a preview announces what the apply does, a run that
  reports a complete rollback has left nothing behind, an interrupted rollback resumes with the entries that
  are left, success is never mixed; the payload of a channel is what the archive and the remap table say key by key, and
  the rows of an import are undone but for the account of the placeholder streams, which the ledger misses; the
  stream lists of channels found on the destination stay replaced.

  \<^bold>\<open>Interfaces.\<close> \<open>strict_preference\<close> (the scan for a best element; two preferences),
  \<open>call_machine\<close> (invariants over call sequences; the ledger, the plan store
  and the planning client), \<open>slot_identity\<close> (the
  slot keys of both numbering modules), \<open>prune_loop\<close> (the local and the cloud deletion loop), \<open>row_pass\<close> (what a
  loop over rows keeps wherever it stops; the two import loops and the rollback) are locales,
  each interpreted on the definitions of the program.

  \<^bold>\<open>Not modelled.\<close> The parts that are I/O: routers, database, clients, probes, tasks, notifications,
  authentication. Of other code the Dispatcharr client, the \<open>regex\<close> engine, the fuzzy score, file systems and cloud
  adapters, the clock, the time-zone database, the Unicode case tables of \<open>upper\<close> and \<open>title\<close> and plan
  identifiers are arguments. Text outside Latin-1 is not represented.
  Of a restore the importers of accounts, guide sources, users, settings and recordings, the deferred apply and the passes after the importers are
  arguments too: the theorems about whole runs hold for every behaviour of them, or for the group and
  profile importers where they say so; the channels importer is stated on its own, with its rollback. A restore's destination is an arbitrary state behind the client; the
  theorem on rollbacks asks that it keep its books (\<open>honest_destination\<close>), and a table that does is the witness.
\<close>

end
